(* ===== verification/Prelude.thy ===== *)
theory Prelude
  imports Main "HOL-Library.Word"
begin

text \<open>
  Vocabulary shared by every component: machine words and byte strings, the outcome type of a Go
  call, the big- and little-endian accessors of \<^verbatim>\<open>encoding/binary\<close>, bounds-checked reads and writes
  of byte slices, and the lemmas about them that the codec proofs rest on.

  Conventions. A Go \<^verbatim>\<open>[]byte\<close> is a list of 8-bit words. A fixed array \<^verbatim>\<open>[n]byte\<close> is such a list whose
  length is \<open>n\<close>; the well-formedness predicates of the components say so. A Go \<^verbatim>\<open>int\<close> that holds a
  length or an offset is a \<^typ>\<open>nat\<close> (\<^verbatim>\<open>int\<close> has 64 bits; arithmetic that could leave its range is done
  on \<open>64 word\<close> at the places where it matters). An error is a value of a datatype with one
  constructor per sentinel error; the text that \<^verbatim>\<open>fmt.Errorf\<close> wraps around a sentinel is not kept.
\<close>

unbundle bit_operations_syntax

named_theorems codec_simps \<open>unfolding rules and length facts of the wire codecs\<close>

type_synonym byte = "8 word"
type_synonym bytes = "byte list"
type_synonym u8 = "8 word"
type_synonym u16 = "16 word"
type_synonym u32 = "32 word"
type_synonym u64 = "64 word"

section \<open>Outcomes of a Go call\<close>

text \<open>
  A call returns a value, returns an error, or panics. \<open>Panic\<close> stands for a run-time panic and for
  any access outside the length of a slice (Go checks a slice expression against the capacity; the
  model is stricter and checks it against the length, so a decoder that never yields \<open>Panic\<close> reads
  nothing beyond the datagram it was given).
\<close>

datatype ('e, 'a) res = Ok 'a | Err 'e | Panic

primrec rbind :: "('e, 'a) res \<Rightarrow> ('a \<Rightarrow> ('e, 'b) res) \<Rightarrow> ('e, 'b) res" where
  "rbind (Ok x) f = f x"
| "rbind (Err e) f = Err e"
| "rbind Panic f = Panic"

primrec map_err :: "('e \<Rightarrow> 'f) \<Rightarrow> ('e, 'a) res \<Rightarrow> ('f, 'a) res" where
  "map_err g (Ok x) = Ok x"
| "map_err g (Err e) = Err (g e)"
| "map_err g Panic = Panic"

lemma rbind_Ok_iff: "rbind m f = Ok y \<longleftrightarrow> (\<exists>x. m = Ok x \<and> f x = Ok y)"
  by (cases m) auto

lemma rbind_not_PanicI:
  "m \<noteq> Panic \<Longrightarrow> (\<And>x. m = Ok x \<Longrightarrow> f x \<noteq> Panic) \<Longrightarrow> rbind m f \<noteq> Panic"
  by (cases m) auto

lemma rbind_Panic_iff: "rbind m f = Panic \<longleftrightarrow> m = Panic \<or> (\<exists>x. m = Ok x \<and> f x = Panic)"
  by (cases m) simp_all

lemma rbind_assoc: "rbind (rbind m f) g = rbind m (\<lambda>x. rbind (f x) g)"
  by (cases m) auto

lemma rbind_cong [fundef_cong]:
  "m = m' \<Longrightarrow> (\<And>x. m' = Ok x \<Longrightarrow> f x = f' x) \<Longrightarrow> rbind m f = rbind m' f'"
  by (cases m') auto

lemma map_err_Ok_iff [simp]: "map_err g m = Ok y \<longleftrightarrow> m = Ok y"
  by (cases m) auto

lemma map_err_Panic_iff [simp]: "map_err g m = Panic \<longleftrightarrow> m = Panic"
  by (cases m) auto

section \<open>Byte order\<close>

fun be_nat :: "bytes \<Rightarrow> nat" where
  "be_nat [] = 0"
| "be_nat (b # bs) = unat b * 256 ^ length bs + be_nat bs"

fun be_bytes :: "nat \<Rightarrow> nat \<Rightarrow> bytes" where
  "be_bytes 0 k = []"
| "be_bytes (Suc n) k = be_bytes n (k div 256) @ [word_of_nat k]"

lemma unat_byte_less [simp]: "unat (b :: byte) < 256"
  using unsigned_less [of b, where ?'a = nat] by simp

lemma length_be_bytes [simp]: "length (be_bytes n k) = n"
  by (induction n arbitrary: k) auto

lemma be_bytes_numeral:
  "be_bytes (numeral n) k = be_bytes (pred_numeral n) (k div 256) @ [word_of_nat k]"
  by (simp only: numeral_eq_Suc [of n] be_bytes.simps)

lemma be_nat_append: "be_nat (xs @ ys) = be_nat xs * 256 ^ length ys + be_nat ys"
  by (induction xs) (simp_all add: power_add distrib_right mult.assoc)

lemma be_nat_be_bytes: "be_nat (be_bytes n k) = k mod 256 ^ n"
proof (induction n arbitrary: k)
  case (Suc n)
  have "be_nat (be_bytes (Suc n) k) = (k div 256) mod 256 ^ n * 256 + k mod 256"
    by (simp add: be_nat_append Suc unat_of_nat)
  also have "\<dots> = k mod 256 ^ Suc n"
    by (simp add: mod_mult2_eq [of k 256 "256 ^ n"] mult.commute)
  finally show ?case .
qed simp

lemma be_nat_less: "be_nat bs < 256 ^ length bs"
proof (induction bs)
  case (Cons b bs)
  let ?p = "256 ^ length bs :: nat"
  have "unat b + 1 \<le> 256"
    using unat_byte_less [of b] by linarith
  from mult_le_mono1 [OF this, of ?p] have "unat b * ?p + ?p \<le> 256 * ?p"
    by (simp only: add_mult_distrib mult_1)
  with Cons show ?case
    unfolding length_Cons power_Suc be_nat.simps
    by (rule order_less_le_trans [OF add_strict_left_mono])
qed simp

lemma be_bytes_be_nat: "be_bytes (length bs) (be_nat bs) = bs"
proof (induction bs rule: rev_induct)
  case (snoc b bs)
  have q: "be_nat (bs @ [b]) div 256 = be_nat bs"
    by (simp add: be_nat_append)
  have "(word_of_nat (be_nat (bs @ [b])) :: byte) = word_of_nat (be_nat bs) * word_of_nat 256 + b"
    by (simp only: be_nat_append length_Cons list.size be_nat.simps of_nat_add of_nat_mult) simp
  also have "(word_of_nat 256 :: byte) = 0"
    by simp
  finally have "(word_of_nat (be_nat (bs @ [b])) :: byte) = b"
    by simp
  with q snoc show ?case by simp
qed simp

text \<open>\<^verbatim>\<open>binary.BigEndian.UintN\<close> and \<^verbatim>\<open>PutUintN\<close>, and their little-endian counterparts.\<close>

definition BE_Uint16 :: "bytes \<Rightarrow> u16" where "BE_Uint16 s = word_of_nat (be_nat s)"
definition BE_Uint32 :: "bytes \<Rightarrow> u32" where "BE_Uint32 s = word_of_nat (be_nat s)"
definition BE_Uint64 :: "bytes \<Rightarrow> u64" where "BE_Uint64 s = word_of_nat (be_nat s)"
definition BE_PutUint16 :: "u16 \<Rightarrow> bytes" where "BE_PutUint16 w = be_bytes 2 (unat w)"
definition BE_PutUint32 :: "u32 \<Rightarrow> bytes" where "BE_PutUint32 w = be_bytes 4 (unat w)"
definition BE_PutUint64 :: "u64 \<Rightarrow> bytes" where "BE_PutUint64 w = be_bytes 8 (unat w)"
definition LE_Uint16 :: "bytes \<Rightarrow> u16" where "LE_Uint16 s = BE_Uint16 (rev s)"
definition LE_Uint32 :: "bytes \<Rightarrow> u32" where "LE_Uint32 s = BE_Uint32 (rev s)"
definition LE_Uint64 :: "bytes \<Rightarrow> u64" where "LE_Uint64 s = BE_Uint64 (rev s)"

lemma length_BE_Put [simp]:
  "length (BE_PutUint16 v) = 2" "length (BE_PutUint32 w) = 4" "length (BE_PutUint64 x) = 8"
  by (simp_all add: BE_PutUint16_def BE_PutUint32_def BE_PutUint64_def)

lemma unat_u16_less [simp]: "unat (w :: u16) < 65536"
  using unsigned_less [of w, where ?'a = nat] by simp

lemma unat_u32_less [simp]: "unat (w :: u32) < 4294967296"
  using unsigned_less [of w, where ?'a = nat] by simp

lemma unat_u64_less [simp]: "unat (w :: u64) < 18446744073709551616"
  using unsigned_less [of w, where ?'a = nat] by simp

text \<open>Arithmetic of 64-bit integers in the range where nothing wraps.\<close>

lemma sint_small:
  assumes "unat (w :: u64) < 2 ^ 63"
  shows "sint w = int (unat w)"
proof -
  have pos: "signed_take_bit 63 k = k" if "0 \<le> k" "k < 2 ^ 63" for k :: int
    using that by (intro signed_take_bit_int_eq_self) simp_all
  have "int (unat w) < int (2 ^ 63)" using assms by (simp only: of_nat_less_iff)
  then have "signed_take_bit 63 (int (unat w)) = int (unat w)"
    by (intro pos) simp_all
  then show ?thesis by (simp add: sint_uint)
qed

lemma unat_u64_add: "unat (a :: u64) + unat b < 2 ^ 64 \<Longrightarrow> unat (a + b) = unat a + unat b"
  by (simp add: unat_word_ariths)

lemma unat_u64_mult: "unat (a :: u64) * unat b < 2 ^ 64 \<Longrightarrow> unat (a * b) = unat a * unat b"
  by (simp add: unat_word_ariths)

lemma unat_u64_of_nat: "n < 2 ^ 64 \<Longrightarrow> unat (word_of_nat n :: u64) = n"
  by (simp add: unat_of_nat take_bit_nat_eq_self)

lemma unat_u16_of_nat: "n < 2 ^ 16 \<Longrightarrow> unat (word_of_nat n :: u16) = n"
  by (simp add: unat_of_nat take_bit_nat_eq_self)

lemma unat_ucast_up [simp]:
  "unat (ucast (a :: u8) :: u16) = unat a" "unat (ucast (b :: u16) :: u32) = unat b"
  "unat (ucast (a :: u8) :: u32) = unat a" "unat (ucast (a :: u8) :: u64) = unat a"
  "unat (ucast (b :: u16) :: u64) = unat b" "unat (ucast (c :: u32) :: u64) = unat c"
  by (simp_all add: unsigned_ucast_eq take_bit_nat_eq_self_iff unsigned_less [where ?'a = nat, THEN less_trans])

lemma unat_ucast_down: "unat (ucast (c :: u32) :: u16) = unat c mod 65536"
  "unat (ucast (b :: u16) :: u8) = unat b mod 256"
  by (simp_all add: unsigned_ucast_eq take_bit_eq_mod)

lemma BE_Uint_Put [simp]:
  "BE_Uint16 (BE_PutUint16 v) = v" "BE_Uint32 (BE_PutUint32 w) = w" "BE_Uint64 (BE_PutUint64 x) = x"
  by (simp_all add: BE_Uint16_def BE_PutUint16_def BE_Uint32_def BE_PutUint32_def
      BE_Uint64_def BE_PutUint64_def be_nat_be_bytes)

lemma unat_BE_Uint:
  "length s = 2 \<Longrightarrow> unat (BE_Uint16 s) = be_nat s"
  "length s = 4 \<Longrightarrow> unat (BE_Uint32 s) = be_nat s"
  "length s = 8 \<Longrightarrow> unat (BE_Uint64 s) = be_nat s"
  using be_nat_less [of s]
  by (simp_all add: BE_Uint16_def BE_Uint32_def BE_Uint64_def unat_of_nat)

lemma BE_Put_Uint [simp]:
  "length s = 2 \<Longrightarrow> BE_PutUint16 (BE_Uint16 s) = s"
  "length s = 4 \<Longrightarrow> BE_PutUint32 (BE_Uint32 s) = s"
  "length s = 8 \<Longrightarrow> BE_PutUint64 (BE_Uint64 s) = s"
  using be_bytes_be_nat [of s]
  by (simp_all add: BE_PutUint16_def BE_PutUint32_def BE_PutUint64_def unat_BE_Uint)

section \<open>Allocation\<close>

text \<open>
  \<open>makeslice elemSize n\<close> is the allocation \<^verbatim>\<open>make([]T, n)\<close> of \<open>n\<close> elements of \<open>elemSize\<close> bytes: the run-time
  panics when the array exceeds the addressable heap, \<open>2^48\<close> bytes on 64-bit targets.
\<close>

definition makeslice :: "nat \<Rightarrow> u64 \<Rightarrow> ('e, unit) res" where
  "makeslice elemSize n = (if unat n * elemSize \<le> 2 ^ 48 then Ok () else Panic)"

section \<open>Reads of a byte slice\<close>

definition slice :: "bytes \<Rightarrow> nat \<Rightarrow> nat \<Rightarrow> ('e, bytes) res" where
  "slice b i j = (if i \<le> j \<and> j \<le> length b then Ok (take (j - i) (drop i b)) else Panic)"

definition index :: "bytes \<Rightarrow> nat \<Rightarrow> ('e, byte) res" where
  "index b i = (if i < length b then Ok (b ! i) else Panic)"

definition BE16 :: "bytes \<Rightarrow> nat \<Rightarrow> nat \<Rightarrow> ('e, u16) res" where
  "BE16 b i j = rbind (slice b i j) (\<lambda>s. Ok (BE_Uint16 s))"

definition BE32 :: "bytes \<Rightarrow> nat \<Rightarrow> nat \<Rightarrow> ('e, u32) res" where
  "BE32 b i j = rbind (slice b i j) (\<lambda>s. Ok (BE_Uint32 s))"

definition BE64 :: "bytes \<Rightarrow> nat \<Rightarrow> nat \<Rightarrow> ('e, u64) res" where
  "BE64 b i j = rbind (slice b i j) (\<lambda>s. Ok (BE_Uint64 s))"

lemma slice_in [simp]:
  "i \<le> j \<Longrightarrow> j \<le> length b \<Longrightarrow> slice b i j = Ok (take (j - i) (drop i b))"
  by (simp add: slice_def)

lemma index_in [simp]: "i < length b \<Longrightarrow> index b i = Ok (b ! i)"
  by (simp add: index_def)

lemma BE_in [simp]:
  "i \<le> j \<Longrightarrow> j \<le> length b \<Longrightarrow> BE16 b i j = Ok (BE_Uint16 (take (j - i) (drop i b)))"
  "i \<le> j \<Longrightarrow> j \<le> length b \<Longrightarrow> BE32 b i j = Ok (BE_Uint32 (take (j - i) (drop i b)))"
  "i \<le> j \<Longrightarrow> j \<le> length b \<Longrightarrow> BE64 b i j = Ok (BE_Uint64 (take (j - i) (drop i b)))"
  by (simp_all add: BE16_def BE32_def BE64_def)

lemma slice_Ok_iff:
  "slice b i j = Ok s \<longleftrightarrow> i \<le> j \<and> j \<le> length b \<and> s = take (j - i) (drop i b)"
  by (auto simp: slice_def)

lemma slice_append_left: "j \<le> length b \<Longrightarrow> slice (b @ rest) i j = slice b i j"
  by (simp add: slice_def)

section \<open>Writes to a byte slice\<close>

text \<open>
  \<open>copyTo i j src\<close> is \<^verbatim>\<open>copy(buf[i:j], src)\<close> and \<open>copyFrom i src\<close> is \<^verbatim>\<open>copy(buf[i:], src)\<close>: as many
  bytes as fit are copied. \<open>run\<close> performs a list of writes in order.
\<close>

type_synonym 'e writer = "bytes \<Rightarrow> ('e, bytes) res"

definition copyTo :: "nat \<Rightarrow> nat \<Rightarrow> bytes \<Rightarrow> 'e writer" where
  "copyTo i j src buf =
     (if i \<le> j \<and> j \<le> length buf
      then let s = take (j - i) src in Ok (take i buf @ s @ drop (i + length s) buf)
      else Panic)"

definition copyFrom :: "nat \<Rightarrow> bytes \<Rightarrow> 'e writer" where
  "copyFrom i src buf = copyTo i (length buf) src buf"

definition put8 :: "nat \<Rightarrow> byte \<Rightarrow> 'e writer" where
  "put8 i v buf = (if i < length buf then Ok (buf[i := v]) else Panic)"

definition putBE16 :: "nat \<Rightarrow> nat \<Rightarrow> u16 \<Rightarrow> 'e writer" where
  "putBE16 i j v = copyTo i j (BE_PutUint16 v)"

definition putBE32 :: "nat \<Rightarrow> nat \<Rightarrow> u32 \<Rightarrow> 'e writer" where
  "putBE32 i j v = copyTo i j (BE_PutUint32 v)"

definition putBE64 :: "nat \<Rightarrow> nat \<Rightarrow> u64 \<Rightarrow> 'e writer" where
  "putBE64 i j v = copyTo i j (BE_PutUint64 v)"

function zeroFill :: "nat \<Rightarrow> nat \<Rightarrow> 'e writer" where
  "zeroFill i j buf = (if i < j then rbind (put8 i 0 buf) (zeroFill (i + 1) j) else Ok buf)"
  by pat_completeness auto
termination
  by (relation "measure (\<lambda>(i, j, buf). j - i)") auto

declare zeroFill.simps [simp del]

primrec run :: "'e writer list \<Rightarrow> 'e writer" where
  "run [] buf = Ok buf"
| "run (w # ws) buf = rbind (w buf) (run ws)"

lemma run_append: "run (vs @ ws) buf = rbind (run vs buf) (run ws)"
proof (induction vs arbitrary: buf)
  case (Cons v vs)
  have "run (vs @ ws) = (\<lambda>x. rbind (run vs x) (run ws))"
    by (rule ext) (rule Cons.IH)
  then show ?case by (simp add: rbind_assoc)
qed simp

lemma put8_copyTo: "put8 i v = copyTo i (Suc i) [v]"
  by (rule ext) (auto simp: put8_def copyTo_def upd_conv_take_nth_drop)

lemma copyTo_append:
  "length pre = i \<Longrightarrow> j = i + length src \<Longrightarrow> length src \<le> length rest \<Longrightarrow>
   copyTo i j src (pre @ rest) = Ok (pre @ src @ drop (length src) rest)"
  by (simp add: copyTo_def)

lemma zeroFill_append:
  "length pre = i \<Longrightarrow> i \<le> j \<Longrightarrow> j - i \<le> length rest \<Longrightarrow>
   zeroFill i j (pre @ rest) = Ok (pre @ replicate (j - i) 0 @ drop (j - i) rest)"
proof (induction "j - i" arbitrary: i pre rest)
  case 0
  then show ?case by (simp add: zeroFill.simps)
next
  case (Suc n)
  then obtain b rest' where rest: "rest = b # rest'"
    by (cases rest) auto
  have "i < j" and d: "j - i = Suc (j - Suc i)"
    using Suc.hyps(2) by simp_all
  with Suc.hyps(1) [of "Suc i" "pre @ [0]" rest'] Suc.hyps(2) Suc.prems rest show ?case
    by (simp add: zeroFill.simps [of i] put8_def list_update_append)
qed

lemma zeroFill_Panic: "i < j \<Longrightarrow> length buf < j \<Longrightarrow> zeroFill i j buf = Panic"
proof (induction "j - i" arbitrary: i buf)
  case (Suc n)
  show ?case
  proof (cases "i < length buf \<and> i + 1 < j")
    case True
    with Suc.hyps(1) [of "Suc i" "buf[i := 0]"] Suc.hyps(2) Suc.prems show ?thesis
      by (simp add: zeroFill.simps [of i] put8_def)
  next
    case False
    with Suc.prems show ?thesis
      by (simp add: zeroFill.simps [of i] put8_def)
  qed
qed simp

lemma zeroFill_copyTo:
  assumes "i < j"
  shows "zeroFill i j = copyTo i j (replicate (j - i) 0)"
proof (rule ext)
  fix buf
  show "zeroFill i j buf = copyTo i j (replicate (j - i) 0) buf"
  proof (cases "j \<le> length buf")
    case True
    then have "j - i \<le> length (drop i buf)"
      by simp
    with assms True zeroFill_append [of "take i buf" i j "drop i buf"] show ?thesis
      by (simp add: copyTo_def)
  next
    case False
    with assms show ?thesis by (simp add: zeroFill_Panic copyTo_def)
  qed
qed

text \<open>
  An encoder that fills a buffer front to back writes the chunks of its wire layout at consecutive
  offsets; \<open>run_chunks\<close> gives the buffer it leaves behind.
\<close>

primrec chunks :: "nat \<Rightarrow> bytes list \<Rightarrow> 'e writer list" where
  "chunks i [] = []"
| "chunks i (s # ss) = copyTo i (i + length s) s # chunks (i + length s) ss"

lemma chunks_append: "chunks i (ss @ ts) = chunks i ss @ chunks (i + length (concat ss)) ts"
  by (induction ss arbitrary: i) (simp_all add: add.assoc)

lemma concat_concat_map: "concat (concat (map g xs)) = concat (map (\<lambda>x. concat (g x)) xs)"
  by (induction xs) simp_all

lemma chunks_enumerate:
  "(\<And>x. x \<in> set xs \<Longrightarrow> length (concat (g x)) = w) \<Longrightarrow>
   concat (map (\<lambda>(i, x). chunks (off + i * w) (g x)) (enumerate k xs)) =
   chunks (off + k * w) (concat (map g xs))"
proof (induction xs arbitrary: k)
  case (Cons x xs)
  from Cons.IH [of "Suc k"] Cons.prems show ?case
    by (simp add: chunks_append algebra_simps)
qed simp

lemma chunks_enumerate_copy:
  "(\<And>x. x \<in> set xs \<Longrightarrow> length x = w) \<Longrightarrow>
   map (\<lambda>(i, x). copyTo (off + i * w) (off + i * w + w) x) (enumerate k xs) = chunks (off + k * w) xs"
proof (induction xs arbitrary: k)
  case (Cons x xs)
  from Cons.IH [of "Suc k"] Cons.prems show ?case by (simp add: algebra_simps)
qed simp

lemma run_chunks:
  "length pre = i \<Longrightarrow> length (concat ss) \<le> length rest \<Longrightarrow>
   run (chunks i ss) (pre @ rest) = Ok (pre @ concat ss @ drop (length (concat ss)) rest)"
proof (induction ss arbitrary: i pre rest)
  case (Cons s ss)
  from Cons.IH [of "pre @ s" "i + length s" "drop (length s) rest"] Cons.prems show ?case
    by (simp add: copyTo_append add.commute)
qed simp

lemma run_chunks0:
  "length (concat ss) \<le> length buf \<Longrightarrow>
   run (chunks 0 ss) buf = Ok (concat ss @ drop (length (concat ss)) buf)"
  by (rule run_chunks [of "[]" 0, simplified]) simp_all

lemma run_chunks_exact: "length (concat ss) = length buf \<Longrightarrow> run (chunks 0 ss) buf = Ok (concat ss)"
  using run_chunks0 [of ss buf] by simp

lemma run_chunks_copyFrom:
  assumes "length (concat ss) + length src \<le> length buf" and "n = length (concat ss)"
  shows "run (chunks 0 ss @ [copyFrom n src]) buf =
    Ok (concat ss @ src @ drop (n + length src) buf)"
  using assms by (simp add: run_append copyFrom_def copyTo_def add.commute run_chunks0)

lemmas writer_defs = putBE16_def putBE32_def putBE64_def put8_copyTo

text \<open>Reads at a position of a datagram that is given by what precedes it.\<close>

lemma read_mid:
  "i = length pre \<Longrightarrow> j = length pre + length x \<Longrightarrow> slice (pre @ x @ rest) i j = Ok x"
  "i = length pre \<Longrightarrow> index (pre @ b # rest) i = Ok b"
  "i = length pre \<Longrightarrow> j = length pre + 2 \<Longrightarrow> BE16 (pre @ BE_PutUint16 u @ rest) i j = Ok u"
  "i = length pre \<Longrightarrow> j = length pre + 4 \<Longrightarrow> BE32 (pre @ BE_PutUint32 v @ rest) i j = Ok v"
  "i = length pre \<Longrightarrow> j = length pre + 8 \<Longrightarrow> BE64 (pre @ BE_PutUint64 w @ rest) i j = Ok w"
  by (simp_all add: slice_def index_def BE16_def BE32_def BE64_def)

section \<open>Counted loops\<close>

text \<open>
  \<open>rmap f xs\<close> is a loop that computes one element per member of \<open>xs\<close> and stops at the first error
  or panic.
\<close>

primrec rmap :: "('a \<Rightarrow> ('e, 'b) res) \<Rightarrow> 'a list \<Rightarrow> ('e, 'b list) res" where
  "rmap f [] = Ok []"
| "rmap f (x # xs) = rbind (f x) (\<lambda>y. rbind (rmap f xs) (\<lambda>ys. Ok (y # ys)))"

lemma rmap_Ok: "(\<And>x. x \<in> set xs \<Longrightarrow> f x = Ok (g x)) \<Longrightarrow> rmap f xs = Ok (map g xs)"
  by (induction xs) simp_all

lemma rmap_not_Panic: "(\<And>x. x \<in> set xs \<Longrightarrow> f x \<noteq> Panic) \<Longrightarrow> rmap f xs \<noteq> Panic"
proof (induction xs)
  case (Cons x xs)
  then show ?case
    by (cases "f x"; cases "rmap f xs") auto
qed simp

lemma rmap_length: "rmap f xs = Ok ys \<Longrightarrow> length ys = length xs"
  by (induction xs arbitrary: ys) (auto simp: rbind_Ok_iff)

lemma rmap_all:
  "rmap f xs = Ok ys \<Longrightarrow> \<forall>x \<in> set xs. \<forall>y. f x = Ok y \<longrightarrow> P y \<Longrightarrow> \<forall>y \<in> set ys. P y"
  by (induction xs arbitrary: ys) (auto simp: rbind_Ok_iff)

section \<open>Fixed-width records laid end to end\<close>

lemma concat_fixed_length:
  "(\<And>x. x \<in> set xs \<Longrightarrow> length (f x) = w) \<Longrightarrow> length (concat (map f xs)) = length xs * w"
  by (induction xs) simp_all

lemma drop_concat_fixed:
  "(\<And>x. x \<in> set xs \<Longrightarrow> length (f x) = w) \<Longrightarrow> i \<le> length xs \<Longrightarrow>
   drop (i * w) (concat (map f xs)) = concat (map f (drop i xs))"
proof (induction xs arbitrary: i)
  case (Cons x xs)
  then show ?case by (cases i) simp_all
qed simp

lemma take_drop_concat_fixed:
  assumes "\<And>x. x \<in> set xs \<Longrightarrow> length (f x) = w" and "i < length xs"
  shows "take w (drop (i * w) (concat (map f xs) @ rest)) = f (xs ! i)"
proof -
  have "drop (i * w) (concat (map f xs)) = f (xs ! i) @ concat (map f (drop (Suc i) xs))"
    using assms by (simp add: drop_concat_fixed Cons_nth_drop_Suc [symmetric])
  moreover have "i * w \<le> length (concat (map f xs))"
    using assms by (simp add: concat_fixed_length)
  moreover have "length (f (xs ! i)) = w"
    using assms by simp
  ultimately show ?thesis by simp
qed

lemma take_drop_take_drop:
  "b \<le> w \<Longrightarrow> take (b - a) (drop (k + a) ys) = take (b - a) (drop a (take w (drop k ys)))"
  by (simp add: drop_take add.commute min_def)

lemma slice_concat_fixed:
  assumes "\<And>x. x \<in> set xs \<Longrightarrow> length (f x) = w" and i: "i < length xs" and "a \<le> b" "b \<le> w"
    and "off = length pre + i * w"
  shows "slice (pre @ concat (map f xs) @ rest) (off + a) (off + b) = Ok (take (b - a) (drop a (f (xs ! i))))"
proof -
  let ?c = "concat (map f xs)"
  from i have "Suc i * w \<le> length xs * w" by (intro mult_right_mono) simp_all
  with assms have len: "i * w + b \<le> length ?c" by (simp add: concat_fixed_length)
  have "take (b - a) (drop (i * w + a) (?c @ rest)) =
      take (b - a) (drop a (take w (drop (i * w) (?c @ rest))))"
    using assms(4) by (rule take_drop_take_drop)
  also have "\<dots> = take (b - a) (drop a (f (xs ! i)))"
    using assms by (subst take_drop_concat_fixed) auto
  finally show ?thesis
    using assms len by (simp add: slice_def)
qed

lemma concat_slices:
  "concat (map (\<lambda>i. take w (drop (off + i * w) xs)) [0..<n]) = take (n * w) (drop off xs)"
  by (induction n) (simp_all add: take_add add.commute [of w] add.commute [of off])

lemma rmap_slices_in:
  assumes "off + n * w \<le> length b"
  shows "rmap (\<lambda>i. slice b (off + i * w) (off + i * w + w)) [0..<n] =
    Ok (map (\<lambda>i. take w (drop (off + i * w) b)) [0..<n])"
proof (rule rmap_Ok)
  fix i assume "i \<in> set [0..<n]"
  then have "Suc i * w \<le> n * w" by (intro mult_right_mono) auto
  with assms show "slice b (off + i * w) (off + i * w + w) = Ok (take w (drop (off + i * w) b))"
    by (simp add: slice_def)
qed

lemma rmap_slices:
  assumes "\<And>x. x \<in> set xs \<Longrightarrow> length x = w" and "off = length pre" and "n = length xs"
  shows "rmap (\<lambda>i. slice (pre @ concat xs @ rest) (off + i * w) (off + i * w + w)) [0..<n] = Ok xs"
proof -
  have "slice (pre @ concat xs @ rest) (off + i * w) (off + i * w + w) = Ok (xs ! i)"
    if "i < length xs" for i
    using slice_concat_fixed [of xs "\<lambda>x. x" w i 0 w _ pre rest] assms that by simp
  then have "rmap (\<lambda>i. slice (pre @ concat xs @ rest) (off + i * w) (off + i * w + w)) [0..<n] =
      Ok (map ((!) xs) [0..<n])"
    using assms by (intro rmap_Ok) simp
  with assms show ?thesis by (simp add: map_nth)
qed

section \<open>The interface of a datagram codec\<close>

text \<open>
  Every frame format of the repository is a pair of an encoder that fills a caller-supplied buffer
  and returns the number of bytes written, and a decoder of a datagram. The contract: on a
  well-formed value and a large enough buffer the encoder writes exactly \<open>wire x\<close> and leaves the rest
  of the buffer alone, on a short buffer it reports \<open>small\<close>; the decoder reads back every value from
  its wire form whatever bytes follow it, and never panics.
\<close>

locale datagram_codec =
  fixes wf :: "'a \<Rightarrow> bool"
    and wire :: "'a \<Rightarrow> bytes"
    and small :: 'e
    and encode :: "'a \<Rightarrow> bytes \<Rightarrow> ('e, nat \<times> bytes) res"
    and decode :: "bytes \<Rightarrow> ('e, 'a) res"
  assumes encode_fits:
      "wf x \<Longrightarrow> length (wire x) \<le> length buf \<Longrightarrow>
       encode x buf = Ok (length (wire x), wire x @ drop (length (wire x)) buf)"
    and encode_small: "wf x \<Longrightarrow> length buf < length (wire x) \<Longrightarrow> encode x buf = Err small"
    and decode_wire: "wf x \<Longrightarrow> decode (wire x @ rest) = Ok x"
    and decode_total: "decode buf \<noteq> Panic"
begin

text \<open>Whatever the encoder reports as written decodes to the value that was encoded.\<close>

lemma roundtrip:
  assumes "wf x" and "encode x buf = Ok (n, out)"
  shows "n = length (wire x)" and "length out = length buf" and "drop n out = drop n buf"
    and "decode (take n out @ rest) = Ok x"
proof -
  from assms encode_small have fit: "length (wire x) \<le> length buf"
    by (metis not_le res.distinct(1))
  with encode_fits [OF \<open>wf x\<close> fit] assms(2) have "n = length (wire x)"
    and "out = wire x @ drop n buf" by auto
  with fit show "n = length (wire x)" and "length out = length buf" and "drop n out = drop n buf"
    by simp_all
  show "decode (take n out @ rest) = Ok x"
    using \<open>n = length (wire x)\<close> \<open>out = wire x @ drop n buf\<close> decode_wire [OF \<open>wf x\<close>, of rest] by simp
qed

text \<open>What a sender can rely on, for a buffer of any size.\<close>

lemma send:
  assumes "wf x" and "n = length (wire x)"
  shows "if n \<le> length buf
    then \<exists>out. encode x buf = Ok (n, out) \<and> length out = length buf \<and> drop n out = drop n buf \<and>
      decode (take n out @ rest) = Ok x
    else encode x buf = Err small"
  using encode_fits [OF assms(1), of buf] encode_small [OF assms(1), of buf] decode_wire [OF assms(1), of rest]
    assms(2) by simp

text \<open>Two values with the same wire form are equal, and no wire form is a prefix of another.\<close>

lemma wire_prefix_free:
  assumes "wf x" and "wf y" and "wire x @ r = wire y @ s"
  shows "x = y"
  using decode_wire [OF assms(1), of r] decode_wire [OF assms(2), of s] assms(3) by simp

lemma encode_never_panics: "wf x \<Longrightarrow> encode x buf \<noteq> Panic"
  by (cases "length (wire x) \<le> length buf") (simp_all add: encode_fits encode_small)

end

text \<open>
  A closed codec decodes to well-formed values that are no longer than the datagram, so that what
  was received can be sent on: encoding a decoded datagram over the receive buffer and decoding it
  again gives the same value.
\<close>

locale closed_codec = datagram_codec +
  assumes decode_wf: "decode buf = Ok x \<Longrightarrow> wf x"
    and decode_length: "decode buf = Ok x \<Longrightarrow> length (wire x) \<le> length buf"
begin

lemma forward:
  assumes "decode d = Ok x"
  shows "\<exists>n out. encode x d = Ok (n, out) \<and> n \<le> length d \<and> decode (take n out) = Ok x"
  using encode_fits [OF decode_wf [OF assms] decode_length [OF assms]] decode_length [OF assms]
    decode_wire [OF decode_wf [OF assms], of "[]"]
  by simp

end

text \<open>
  An encoder that allocates its result, with the decoder of the format: every value the decoder
  yields can be encoded again, into no more bytes than it was decoded from.
\<close>

locale alloc_codec =
  fixes wf :: "'a \<Rightarrow> bool"
    and wire :: "'a \<Rightarrow> bytes"
    and encode :: "'a \<Rightarrow> ('e, bytes) res"
    and decode :: "bytes \<Rightarrow> ('e, 'a) res"
  assumes encode_wire: "wf x \<Longrightarrow> encode x = Ok (wire x)"
    and decode_wire: "wf x \<Longrightarrow> decode (wire x @ rest) = Ok x"
    and decode_total: "decode buf \<noteq> Panic"
    and decode_wf: "decode buf = Ok x \<Longrightarrow> wf x"
    and decode_length: "decode buf = Ok x \<Longrightarrow> length (wire x) \<le> length buf"
begin

lemma reencode:
  assumes "decode d = Ok x"
  shows "\<exists>e. encode x = Ok e \<and> length e \<le> length d \<and> decode (e @ rest) = Ok x"
  using encode_wire [OF decode_wf [OF assms]] decode_wire [OF decode_wf [OF assms], of rest]
    decode_length [OF assms] by simp

lemma encode_inj:
  assumes "wf x" and "wf y" and "encode x = encode y"
  shows "x = y"
proof -
  have "wire x = wire y" using assms(3) encode_wire [OF assms(1)] encode_wire [OF assms(2)] by simp
  then show ?thesis using decode_wire [OF assms(1), of "[]"] decode_wire [OF assms(2), of "[]"] by simp
qed

end

end
