(* ===== verification/Frame.thy ===== *)
theory Frame
  imports Prelude
begin

text \<open>
  The frame codecs of \<^verbatim>\<open>frame/\<close>: BRC-12/124/128 transaction frames and BRC-134 anchor frames
  (\<^verbatim>\<open>frame.go\<close>), BRC-130 fragments (\<^verbatim>\<open>frag.go\<close>), BRC-131 block control frames (\<^verbatim>\<open>block.go\<close>), BRC-132
  subtree data frames (\<^verbatim>\<open>subtree_data.go\<close>), BRC-135 block header frames (\<^verbatim>\<open>block_header.go\<close>), BRC-149
  BEEF frames (\<^verbatim>\<open>beef.go\<close>), BRC-127 announcements (\<^verbatim>\<open>subtree_group_announce.go\<close>) and the extended
  format test (\<^verbatim>\<open>ef.go\<close>). Each decoder is one definition with the guards of the source in their
  order and every read bounds-checked; each encoder is the list of writes of the source. The wire
  layouts \<open>wire92\<close>, \<open>frag_wire\<close> and \<open>announce_wire\<close> restate the offset tables of the package
  documentation; every codec is an interpretation of the \<open>datagram_codec\<close> contract over them.
\<close>

section \<open>Constants, errors and records\<close>

abbreviation (input) MagicBSV :: u32 where "MagicBSV \<equiv> 0xE3E1F3E8"
abbreviation (input) ProtoVer :: u16 where "ProtoVer \<equiv> 0x02BF"
abbreviation (input) FrameVerV1 :: u8 where "FrameVerV1 \<equiv> 0x01"
abbreviation (input) FrameVerV2 :: u8 where "FrameVerV2 \<equiv> 0x02"
abbreviation (input) FrameVerV3 :: u8 where "FrameVerV3 \<equiv> 0x03"
abbreviation (input) FrameVerV4 :: u8 where "FrameVerV4 \<equiv> 0x04"
abbreviation (input) FrameVerV5 :: u8 where "FrameVerV5 \<equiv> 0x05"
abbreviation (input) FrameVerV6 :: u8 where "FrameVerV6 \<equiv> 0x06"
abbreviation (input) FrameVerV7 :: u8 where "FrameVerV7 \<equiv> 0x07"
abbreviation (input) FrameVerV8 :: u8 where "FrameVerV8 \<equiv> 0x08"
abbreviation (input) FrameVerV9 :: u8 where "FrameVerV9 \<equiv> 0x09"
abbreviation (input) BlockMsgAnnounce :: u8 where "BlockMsgAnnounce \<equiv> 0x01"
abbreviation (input) BlockMsgCoinbase :: u8 where "BlockMsgCoinbase \<equiv> 0x02"
abbreviation (input) SubtreeMsgHashesOnly :: u8 where "SubtreeMsgHashesOnly \<equiv> 0x01"
abbreviation (input) SubtreeMsgFullNodes :: u8 where "SubtreeMsgFullNodes \<equiv> 0x02"
abbreviation (input) MsgTypeSubtreeGroupAnnounce :: u8 where "MsgTypeSubtreeGroupAnnounce \<equiv> 0x30"
abbreviation (input) HeaderSizeLegacy :: nat where "HeaderSizeLegacy \<equiv> 44"
abbreviation (input) HeaderSize :: nat where "HeaderSize \<equiv> 92"
abbreviation (input) HeaderSizeV3 :: nat where "HeaderSizeV3 \<equiv> 104"
abbreviation (input) SubtreeGroupAnnounceSize :: nat where "SubtreeGroupAnnounceSize \<equiv> 64"
abbreviation (input) BlockHeaderSize :: nat where "BlockHeaderSize \<equiv> 80"
abbreviation (input) BlockHeaderFrameSize :: nat where "BlockHeaderFrameSize \<equiv> HeaderSize + BlockHeaderSize"
abbreviation (input) BEEFDeliverCountLegacy :: u8 where "BEEFDeliverCountLegacy \<equiv> 0"

datatype frame_err =
    ErrBadMagic
  | ErrBadVer
  | ErrTooShort
  | ErrBadFrag
  | ErrBadBlockMsg
  | ErrBadSubtreeMsg
  | ErrUnexpectedEOF
  | ErrBufferTooSmall
  | ErrBadBlockHeaderLen
  | ErrSubtreeGroupAnnounceTooShort
  | ErrSubtreeGroupAnnounceMsgType
  | ErrBlockAnnounceTooShort
  | ErrSubtreePayloadTooShort
  | ErrUnknownSubtreeMsgType

record frame =
  fr_Version :: u8
  fr_TxID :: bytes
  fr_HashKey :: u64
  fr_SeqNum :: u64
  fr_SubtreeID :: bytes
  fr_Payload :: bytes

record frag_frame =
  ff_TxID :: bytes
  ff_HashKey :: u64
  ff_SeqNum :: u64
  ff_SubtreeID :: bytes
  ff_OrigPayloadLen :: u32
  ff_FragIndex :: u16
  ff_FragTotal :: u16
  ff_OrigFrameVer :: u8
  ff_MsgType :: u8
  ff_FragData :: bytes

record block_frame =
  bf_MsgType :: u8
  bf_ContentID :: bytes
  bf_HashKey :: u64
  bf_SeqNum :: u64
  bf_Payload :: bytes

record subtree_data_frame =
  sf_MsgType :: u8
  sf_SubtreeID :: bytes
  sf_HashKey :: u64
  sf_SeqNum :: u64
  sf_Payload :: bytes

record beef_frame =
  bb_ContentID :: bytes
  bb_HashKey :: u64
  bb_SeqNum :: u64
  bb_TopicID :: bytes
  bb_DeliverCount :: u8
  bb_Payload :: bytes

record subtree_group_announce =
  sa_SubtreeID :: bytes
  sa_GroupID :: bytes
  sa_Epoch :: u32
  sa_TTL :: u16

abbreviation (input) zeros32 :: bytes where "zeros32 \<equiv> replicate 32 0"

section \<open>BRC-12, BRC-124/128 and BRC-134 frames (frame.go)\<close>

definition Encode :: "frame \<Rightarrow> bytes \<Rightarrow> (frame_err, nat \<times> bytes) res" where
  "Encode f buf =
     (let total = HeaderSize + length (fr_Payload f) in
      if length buf < total then Err ErrBufferTooSmall else
      rbind (run
        [putBE32 0 4 MagicBSV,
         putBE16 4 6 ProtoVer,
         put8 6 FrameVerV2,
         put8 7 0,
         copyTo 8 40 (fr_TxID f),
         putBE64 40 48 (fr_HashKey f),
         putBE64 48 56 (fr_SeqNum f),
         copyTo 56 88 (fr_SubtreeID f),
         putBE32 88 92 (word_of_nat (length (fr_Payload f))),
         copyFrom 92 (fr_Payload f)] buf) (\<lambda>out.
      Ok (total, out)))"

definition decodeV1 :: "bytes \<Rightarrow> (frame_err, frame) res" where
  "decodeV1 buf =
     (if length buf < HeaderSizeLegacy then Err ErrTooShort else
      rbind (BE32 buf 40 44) (\<lambda>n. let payLen = unat n in
      if length buf - HeaderSizeLegacy < payLen then Err ErrUnexpectedEOF else
      rbind (slice buf 8 40) (\<lambda>txid.
      rbind (slice buf HeaderSizeLegacy (HeaderSizeLegacy + payLen)) (\<lambda>payload.
      Ok \<lparr>fr_Version = FrameVerV1, fr_TxID = txid, fr_HashKey = 0, fr_SeqNum = 0,
          fr_SubtreeID = zeros32, fr_Payload = payload\<rparr>))))"

definition decodeV2 :: "bytes \<Rightarrow> (frame_err, frame) res" where
  "decodeV2 buf =
     (if length buf < HeaderSize then Err ErrTooShort else
      rbind (BE32 buf 88 HeaderSize) (\<lambda>n. let payLen = unat n in
      if length buf - HeaderSize < payLen then Err ErrUnexpectedEOF else
      rbind (slice buf 8 40) (\<lambda>txid.
      rbind (BE64 buf 40 48) (\<lambda>hashKey.
      rbind (BE64 buf 48 56) (\<lambda>seqNum.
      rbind (slice buf 56 88) (\<lambda>subtreeID.
      rbind (slice buf HeaderSize (HeaderSize + payLen)) (\<lambda>payload.
      Ok \<lparr>fr_Version = FrameVerV2, fr_TxID = txid, fr_HashKey = hashKey, fr_SeqNum = seqNum,
          fr_SubtreeID = subtreeID, fr_Payload = payload\<rparr>)))))))"

definition Decode :: "bytes \<Rightarrow> (frame_err, frame) res" where
  "Decode buf =
     (if length buf < HeaderSizeLegacy then Err ErrTooShort else
      rbind (BE32 buf 0 4) (\<lambda>magic.
      if magic \<noteq> MagicBSV then Err ErrBadMagic else
      rbind (index buf 6) (\<lambda>fver.
      if fver = FrameVerV1 then decodeV1 buf
      else if fver = FrameVerV2 then decodeV2 buf
      else \<comment> \<open>the extension versions 3 to 9 and every unknown version\<close> Err ErrBadVer)))"

definition DecodeAnchor :: "bytes \<Rightarrow> (frame_err, frame) res" where
  "DecodeAnchor buf =
     (if length buf < HeaderSizeLegacy then Err ErrTooShort else
      rbind (BE32 buf 0 4) (\<lambda>magic.
      if magic \<noteq> MagicBSV then Err ErrBadMagic else
      rbind (index buf 6) (\<lambda>fver.
      if fver \<noteq> FrameVerV6 then Err ErrBadVer else
      if length buf < HeaderSize then Err ErrTooShort else
      rbind (BE32 buf 88 HeaderSize) (\<lambda>n. let payLen = unat n in
      if length buf - HeaderSize < payLen then Err ErrUnexpectedEOF else
      rbind (slice buf 8 40) (\<lambda>txid.
      rbind (BE64 buf 40 48) (\<lambda>hashKey.
      rbind (BE64 buf 48 56) (\<lambda>seqNum.
      rbind (slice buf 56 88) (\<lambda>subtreeID.
      rbind (slice buf HeaderSize (HeaderSize + payLen)) (\<lambda>payload.
      Ok \<lparr>fr_Version = FrameVerV6, fr_TxID = txid, fr_HashKey = hashKey, fr_SeqNum = seqNum,
          fr_SubtreeID = subtreeID, fr_Payload = payload\<rparr>)))))))))"

text \<open>The header predicates of the package share one shape: length, magic, version byte.\<close>

definition IsAnchorFrame :: "bytes \<Rightarrow> bool" where
  "IsAnchorFrame buf \<longleftrightarrow> HeaderSizeLegacy \<le> length buf \<and>
     BE_Uint32 (take 4 buf) = MagicBSV \<and> buf ! 6 = FrameVerV6"

definition IsBundle :: "bytes \<Rightarrow> bool" where
  "IsBundle buf \<longleftrightarrow> HeaderSizeLegacy \<le> length buf \<and>
     BE_Uint32 (take 4 buf) = MagicBSV \<and> buf ! 6 = FrameVerV8"

section \<open>BRC-130 fragments (frag.go)\<close>

definition DecodeFragment :: "bytes \<Rightarrow> (frame_err, frag_frame) res" where
  "DecodeFragment buf =
     (if length buf < HeaderSizeLegacy then Err ErrTooShort else
      rbind (BE32 buf 0 4) (\<lambda>magic.
      if magic \<noteq> MagicBSV then Err ErrBadMagic else
      rbind (index buf 6) (\<lambda>fver.
      if fver \<noteq> FrameVerV3 then Err ErrBadVer else
      if length buf < HeaderSizeV3 then Err ErrTooShort else
      rbind (BE32 buf 88 92) (\<lambda>n. let fragDataLen = unat n in
      if length buf - HeaderSizeV3 < fragDataLen then Err ErrUnexpectedEOF else
      rbind (BE16 buf 96 98) (\<lambda>fragIndex.
      rbind (BE16 buf 98 100) (\<lambda>fragTotal.
      if fragTotal = 0 \<or> fragTotal \<le> fragIndex then Err ErrBadFrag else
      rbind (BE64 buf 40 48) (\<lambda>hashKey.
      rbind (BE64 buf 48 56) (\<lambda>seqNum.
      rbind (BE32 buf 92 96) (\<lambda>origPayloadLen.
      rbind (index buf 100) (\<lambda>origFrameVer.
      rbind (index buf 7) (\<lambda>msgType.
      rbind (slice buf HeaderSizeV3 (HeaderSizeV3 + fragDataLen)) (\<lambda>fragData.
      rbind (slice buf 8 40) (\<lambda>txid.
      rbind (slice buf 56 88) (\<lambda>subtreeID.
      Ok \<lparr>ff_TxID = txid, ff_HashKey = hashKey, ff_SeqNum = seqNum, ff_SubtreeID = subtreeID,
          ff_OrigPayloadLen = origPayloadLen, ff_FragIndex = fragIndex, ff_FragTotal = fragTotal,
          ff_OrigFrameVer = origFrameVer, ff_MsgType = msgType,
          ff_FragData = fragData\<rparr>))))))))))))))"

definition EncodeFragment ::
  "bytes \<Rightarrow> bytes \<Rightarrow> bytes \<Rightarrow> u64 \<Rightarrow> u64 \<Rightarrow> u32 \<Rightarrow> u16 \<Rightarrow> u16 \<Rightarrow> u8 \<Rightarrow> bytes
    \<Rightarrow> (frame_err, nat \<times> bytes) res" where
  "EncodeFragment buf txID subtreeID hashKey seqNum origPayloadLen fragIndex fragTotal
     origFrameVer fragData =
     (let total = HeaderSizeV3 + length fragData in
      if length buf < total then Err ErrBufferTooSmall else
      rbind (run
        [putBE32 0 4 MagicBSV,
         putBE16 4 6 ProtoVer,
         put8 6 FrameVerV3,
         put8 7 0,
         copyTo 8 40 txID,
         putBE64 40 48 hashKey,
         putBE64 48 56 seqNum,
         copyTo 56 88 subtreeID,
         putBE32 88 92 (word_of_nat (length fragData)),
         putBE32 92 96 origPayloadLen,
         putBE16 96 98 fragIndex,
         putBE16 98 100 fragTotal,
         put8 100 origFrameVer,
         put8 101 0,
         put8 102 0,
         put8 103 0,
         copyFrom HeaderSizeV3 fragData] buf) (\<lambda>out.
      Ok (total, out)))"

definition IsFragment :: "bytes \<Rightarrow> bool" where
  "IsFragment buf \<longleftrightarrow> HeaderSizeLegacy \<le> length buf \<and>
     BE_Uint32 (take 4 buf) = MagicBSV \<and> buf ! 6 = FrameVerV3"

section \<open>BRC-131 block control frames (block.go)\<close>

definition DecodeBlock :: "bytes \<Rightarrow> (frame_err, block_frame) res" where
  "DecodeBlock buf =
     (if length buf < HeaderSizeLegacy then Err ErrTooShort else
      rbind (BE32 buf 0 4) (\<lambda>magic.
      if magic \<noteq> MagicBSV then Err ErrBadMagic else
      rbind (index buf 6) (\<lambda>fver.
      if fver \<noteq> FrameVerV4 then Err ErrBadVer else
      if length buf < HeaderSize then Err ErrTooShort else
      rbind (index buf 7) (\<lambda>msgType.
      if msgType \<noteq> BlockMsgAnnounce \<and> msgType \<noteq> BlockMsgCoinbase then Err ErrBadBlockMsg else
      rbind (BE32 buf 88 92) (\<lambda>n. let payLen = unat n in
      if length buf - HeaderSize < payLen then Err ErrUnexpectedEOF else
      rbind (BE64 buf 40 48) (\<lambda>hashKey.
      rbind (BE64 buf 48 56) (\<lambda>seqNum.
      rbind (slice buf HeaderSize (HeaderSize + payLen)) (\<lambda>payload.
      rbind (slice buf 8 40) (\<lambda>contentID.
      Ok \<lparr>bf_MsgType = msgType, bf_ContentID = contentID, bf_HashKey = hashKey,
          bf_SeqNum = seqNum, bf_Payload = payload\<rparr>)))))))))"

definition EncodeBlock :: "block_frame \<Rightarrow> bytes \<Rightarrow> (frame_err, nat \<times> bytes) res" where
  "EncodeBlock f buf =
     (let total = HeaderSize + length (bf_Payload f) in
      if length buf < total then Err ErrBufferTooSmall else
      rbind (run
        [putBE32 0 4 MagicBSV,
         putBE16 4 6 ProtoVer,
         put8 6 FrameVerV4,
         put8 7 (bf_MsgType f),
         copyTo 8 40 (bf_ContentID f),
         putBE64 40 48 (bf_HashKey f),
         putBE64 48 56 (bf_SeqNum f),
         zeroFill 56 88,
         putBE32 88 92 (word_of_nat (length (bf_Payload f))),
         copyFrom 92 (bf_Payload f)] buf) (\<lambda>out.
      Ok (total, out)))"

definition IsBlockFrame :: "bytes \<Rightarrow> bool" where
  "IsBlockFrame buf \<longleftrightarrow> HeaderSizeLegacy \<le> length buf \<and>
     BE_Uint32 (take 4 buf) = MagicBSV \<and> buf ! 6 = FrameVerV4"

section \<open>BRC-132 subtree data frames (subtree\_data.go)\<close>

definition DecodeSubtreeData :: "bytes \<Rightarrow> (frame_err, subtree_data_frame) res" where
  "DecodeSubtreeData buf =
     (if length buf < HeaderSizeLegacy then Err ErrTooShort else
      rbind (BE32 buf 0 4) (\<lambda>magic.
      if magic \<noteq> MagicBSV then Err ErrBadMagic else
      rbind (index buf 6) (\<lambda>fver.
      if fver \<noteq> FrameVerV5 then Err ErrBadVer else
      if length buf < HeaderSize then Err ErrTooShort else
      rbind (index buf 7) (\<lambda>msgType.
      if msgType \<noteq> SubtreeMsgHashesOnly \<and> msgType \<noteq> SubtreeMsgFullNodes
      then Err ErrBadSubtreeMsg else
      rbind (BE32 buf 88 92) (\<lambda>n. let payLen = unat n in
      if length buf - HeaderSize < payLen then Err ErrUnexpectedEOF else
      rbind (BE64 buf 40 48) (\<lambda>hashKey.
      rbind (BE64 buf 48 56) (\<lambda>seqNum.
      rbind (slice buf HeaderSize (HeaderSize + payLen)) (\<lambda>payload.
      rbind (slice buf 8 40) (\<lambda>subtreeID.
      Ok \<lparr>sf_MsgType = msgType, sf_SubtreeID = subtreeID, sf_HashKey = hashKey,
          sf_SeqNum = seqNum, sf_Payload = payload\<rparr>)))))))))"

definition EncodeSubtreeData :: "subtree_data_frame \<Rightarrow> bytes \<Rightarrow> (frame_err, nat \<times> bytes) res" where
  "EncodeSubtreeData f buf =
     (let total = HeaderSize + length (sf_Payload f) in
      if length buf < total then Err ErrBufferTooSmall else
      rbind (run
        [putBE32 0 4 MagicBSV,
         putBE16 4 6 ProtoVer,
         put8 6 FrameVerV5,
         put8 7 (sf_MsgType f),
         copyTo 8 40 (sf_SubtreeID f),
         putBE64 40 48 (sf_HashKey f),
         putBE64 48 56 (sf_SeqNum f),
         zeroFill 56 88,
         putBE32 88 92 (word_of_nat (length (sf_Payload f))),
         copyFrom 92 (sf_Payload f)] buf) (\<lambda>out.
      Ok (total, out)))"

definition IsSubtreeDataFrame :: "bytes \<Rightarrow> bool" where
  "IsSubtreeDataFrame buf \<longleftrightarrow> HeaderSizeLegacy \<le> length buf \<and>
     BE_Uint32 (take 4 buf) = MagicBSV \<and> buf ! 6 = FrameVerV5"

section \<open>BRC-135 block header frames (block\_header.go)\<close>

definition EncodeBlockHeader ::
  "bytes \<Rightarrow> u64 \<Rightarrow> u64 \<Rightarrow> bytes \<Rightarrow> bytes \<Rightarrow> (frame_err, nat \<times> bytes) res" where
  "EncodeBlockHeader blockHash hashKey seqNum header80 buf =
     (if length header80 \<noteq> BlockHeaderSize then Err ErrBadBlockHeaderLen else
      if length buf < BlockHeaderFrameSize then Err ErrBufferTooSmall else
      rbind (run
        [putBE32 0 4 MagicBSV,
         putBE16 4 6 ProtoVer,
         put8 6 FrameVerV7,
         put8 7 0,
         copyTo 8 40 blockHash,
         putBE64 40 48 hashKey,
         putBE64 48 56 seqNum,
         zeroFill 56 88,
         putBE32 88 92 (word_of_nat BlockHeaderSize),
         copyTo 92 BlockHeaderFrameSize header80] buf) (\<lambda>out.
      Ok (BlockHeaderFrameSize, out)))"

definition DecodeBlockHeader :: "bytes \<Rightarrow> (frame_err, frame) res" where
  "DecodeBlockHeader buf =
     (if length buf < HeaderSizeLegacy then Err ErrTooShort else
      rbind (BE32 buf 0 4) (\<lambda>magic.
      if magic \<noteq> MagicBSV then Err ErrBadMagic else
      rbind (index buf 6) (\<lambda>fver.
      if fver \<noteq> FrameVerV7 then Err ErrBadVer else
      if length buf < HeaderSize then Err ErrTooShort else
      rbind (BE32 buf 88 92) (\<lambda>n. let payLen = unat n in
      if payLen \<noteq> BlockHeaderSize then Err ErrBadBlockHeaderLen else
      if length buf < BlockHeaderFrameSize then Err ErrTooShort else
      rbind (slice buf 8 40) (\<lambda>blockHash.
      rbind (BE64 buf 40 48) (\<lambda>hashKey.
      rbind (BE64 buf 48 56) (\<lambda>seqNum.
      rbind (slice buf HeaderSize BlockHeaderFrameSize) (\<lambda>payload.
      Ok \<lparr>fr_Version = FrameVerV7, fr_TxID = blockHash, fr_HashKey = hashKey, fr_SeqNum = seqNum,
          fr_SubtreeID = zeros32, fr_Payload = payload\<rparr>))))))))"

definition IsBlockHeaderFrame :: "bytes \<Rightarrow> bool" where
  "IsBlockHeaderFrame buf \<longleftrightarrow> HeaderSizeLegacy \<le> length buf \<and>
     BE_Uint32 (take 4 buf) = MagicBSV \<and> buf ! 6 = FrameVerV7"

section \<open>BRC-149 BEEF object frames (beef.go)\<close>

definition DecodeBEEF :: "bytes \<Rightarrow> (frame_err, beef_frame) res" where
  "DecodeBEEF buf =
     (if length buf < HeaderSizeLegacy then Err ErrTooShort else
      rbind (BE32 buf 0 4) (\<lambda>magic.
      if magic \<noteq> MagicBSV then Err ErrBadMagic else
      rbind (index buf 6) (\<lambda>fver.
      if fver \<noteq> FrameVerV9 then Err ErrBadVer else
      if length buf < HeaderSize then Err ErrTooShort else
      rbind (BE32 buf 88 92) (\<lambda>n. let payLen = unat n in
      if length buf - HeaderSize < payLen then Err ErrUnexpectedEOF else
      rbind (BE64 buf 40 48) (\<lambda>hashKey.
      rbind (BE64 buf 48 56) (\<lambda>seqNum.
      rbind (index buf 7) (\<lambda>deliverCount.
      rbind (slice buf HeaderSize (HeaderSize + payLen)) (\<lambda>payload.
      rbind (slice buf 8 40) (\<lambda>contentID.
      rbind (slice buf 56 88) (\<lambda>topicID.
      Ok \<lparr>bb_ContentID = contentID, bb_HashKey = hashKey, bb_SeqNum = seqNum,
          bb_TopicID = topicID, bb_DeliverCount = deliverCount,
          bb_Payload = payload\<rparr>))))))))))"

definition Deliverable :: "beef_frame \<Rightarrow> nat" where
  "Deliverable f =
     (if bb_DeliverCount f = BEEFDeliverCountLegacy then 1 else unat (bb_DeliverCount f))"

definition EncodeBEEF :: "beef_frame \<Rightarrow> bytes \<Rightarrow> (frame_err, nat \<times> bytes) res" where
  "EncodeBEEF f buf =
     (let total = HeaderSize + length (bb_Payload f) in
      if length buf < total then Err ErrBufferTooSmall else
      rbind (run
        [putBE32 0 4 MagicBSV,
         putBE16 4 6 ProtoVer,
         put8 6 FrameVerV9,
         put8 7 (bb_DeliverCount f),
         copyTo 8 40 (bb_ContentID f),
         putBE64 40 48 (bb_HashKey f),
         putBE64 48 56 (bb_SeqNum f),
         copyTo 56 88 (bb_TopicID f),
         putBE32 88 92 (word_of_nat (length (bb_Payload f))),
         copyFrom 92 (bb_Payload f)] buf) (\<lambda>out.
      Ok (total, out)))"

definition IsBEEFFrame :: "bytes \<Rightarrow> bool" where
  "IsBEEFFrame buf \<longleftrightarrow> HeaderSizeLegacy \<le> length buf \<and>
     BE_Uint32 (take 4 buf) = MagicBSV \<and> buf ! 6 = FrameVerV9"

section \<open>BRC-127 announcements (subtree\_group\_announce.go)\<close>

definition EncodeSubtreeGroupAnnounce ::
  "subtree_group_announce \<Rightarrow> bytes \<Rightarrow> (frame_err, nat \<times> bytes) res" where
  "EncodeSubtreeGroupAnnounce a buf =
     (if length buf < SubtreeGroupAnnounceSize then Err ErrBufferTooSmall else
      rbind (run
        [putBE32 0 4 MagicBSV,
         putBE16 4 6 ProtoVer,
         put8 6 MsgTypeSubtreeGroupAnnounce,
         put8 7 0,
         copyTo 8 40 (sa_SubtreeID a),
         copyTo 40 56 (sa_GroupID a),
         putBE32 56 60 (sa_Epoch a),
         putBE16 60 62 (sa_TTL a),
         put8 62 0,
         put8 63 0] buf) (\<lambda>out.
      Ok (SubtreeGroupAnnounceSize, out)))"

definition DecodeSubtreeGroupAnnounce :: "bytes \<Rightarrow> (frame_err, subtree_group_announce) res" where
  "DecodeSubtreeGroupAnnounce buf =
     (if length buf < SubtreeGroupAnnounceSize then Err ErrSubtreeGroupAnnounceTooShort else
      rbind (BE32 buf 0 4) (\<lambda>magic.
      if magic \<noteq> MagicBSV then Err ErrBadMagic else
      rbind (index buf 6) (\<lambda>msgType.
      if msgType \<noteq> MsgTypeSubtreeGroupAnnounce then Err ErrSubtreeGroupAnnounceMsgType else
      rbind (BE32 buf 56 60) (\<lambda>epoch.
      rbind (BE16 buf 60 62) (\<lambda>ttl.
      rbind (slice buf 8 40) (\<lambda>subtreeID.
      rbind (slice buf 40 56) (\<lambda>groupID.
      Ok \<lparr>sa_SubtreeID = subtreeID, sa_GroupID = groupID, sa_Epoch = epoch,
          sa_TTL = ttl\<rparr>)))))))"

section \<open>The extended format test (ef.go)\<close>

definition efMarker :: bytes where
  "efMarker = [0x00, 0x00, 0x00, 0x00, 0x00, 0xEF]"

definition IsEF :: "bytes \<Rightarrow> bool" where
  "IsEF payload \<longleftrightarrow> 10 \<le> length payload \<and> take 6 (drop 4 payload) = efMarker"

section \<open>Wire layouts\<close>

text \<open>The 92-byte header shared by the frame versions 2, 4, 5, 6, 7 and 9, and its payload.\<close>

definition wire92 :: "u8 \<Rightarrow> u8 \<Rightarrow> bytes \<Rightarrow> u64 \<Rightarrow> u64 \<Rightarrow> bytes \<Rightarrow> bytes \<Rightarrow> bytes" where
  "wire92 ver b7 cid hk sq sid pl =
     BE_PutUint32 MagicBSV @ BE_PutUint16 ProtoVer @ [ver] @ [b7] @ cid @ BE_PutUint64 hk @
     BE_PutUint64 sq @ sid @ BE_PutUint32 (word_of_nat (length pl)) @ pl"

lemma length_wire92 [simp]:
  "length cid = 32 \<Longrightarrow> length sid = 32 \<Longrightarrow>
   length (wire92 ver b7 cid hk sq sid pl) = HeaderSize + length pl"
  by (simp add: wire92_def)

lemma wire92_fields [codec_simps]:
  assumes "length cid = 32" and "length sid = 32"
  shows "take 4 (wire92 ver b7 cid hk sq sid pl) = BE_PutUint32 MagicBSV"
    and "wire92 ver b7 cid hk sq sid pl ! 6 = ver"
    and "wire92 ver b7 cid hk sq sid pl ! 7 = b7"
    and "(wire92 ver b7 cid hk sq sid pl @ rest) ! 6 = ver"
    and "(wire92 ver b7 cid hk sq sid pl @ rest) ! 7 = b7"
    and "take 32 (drop 8 (wire92 ver b7 cid hk sq sid pl)) = cid"
    and "take 8 (drop 40 (wire92 ver b7 cid hk sq sid pl)) = BE_PutUint64 hk"
    and "take 8 (drop 48 (wire92 ver b7 cid hk sq sid pl)) = BE_PutUint64 sq"
    and "take 32 (drop 56 (wire92 ver b7 cid hk sq sid pl)) = sid"
    and "take 4 (drop 88 (wire92 ver b7 cid hk sq sid pl)) = BE_PutUint32 (word_of_nat (length pl))"
    and "drop 92 (wire92 ver b7 cid hk sq sid pl) = pl"
  using assms unfolding wire92_def by (simp_all add: nth_append)

lemma unat_length_u32 [codec_simps]: "n < 2 ^ 32 \<Longrightarrow> unat (word_of_nat n :: u32) = n"
  by (simp add: unat_of_nat)

definition frame_wf :: "u8 \<Rightarrow> frame \<Rightarrow> bool" where
  "frame_wf v f \<longleftrightarrow> fr_Version f = v \<and> length (fr_TxID f) = 32 \<and> length (fr_SubtreeID f) = 32 \<and>
     length (fr_Payload f) < 2 ^ 32"

definition frame_wire :: "frame \<Rightarrow> bytes" where
  "frame_wire f = wire92 (fr_Version f) 0 (fr_TxID f) (fr_HashKey f) (fr_SeqNum f)
     (fr_SubtreeID f) (fr_Payload f)"

lemma wire92_writes:
  assumes "length cid = 32" and "length sid = 32" and "HeaderSize + length pl \<le> length buf"
  shows "run [putBE32 0 4 MagicBSV, putBE16 4 6 ProtoVer, put8 6 ver, put8 7 b7, copyTo 8 40 cid,
      putBE64 40 48 hk, putBE64 48 56 sq, copyTo 56 88 sid,
      putBE32 88 92 (word_of_nat (length pl)), copyFrom 92 pl] buf =
    Ok (wire92 ver b7 cid hk sq sid pl @ drop (HeaderSize + length pl) buf)"
    (is "run ?ws buf = _")
proof -
  let ?ss = "[BE_PutUint32 MagicBSV, BE_PutUint16 ProtoVer, [ver], [b7], cid, BE_PutUint64 hk,
    BE_PutUint64 sq, sid, BE_PutUint32 (word_of_nat (length pl))]"
  have ws: "?ws = chunks 0 ?ss @ [copyFrom 92 pl]"
    using assms(1,2) by (simp add: writer_defs)
  have "length (concat ?ss) = 92"
    using assms(1,2) by simp
  then show ?thesis
    using assms(3) unfolding ws by (subst run_chunks_copyFrom) (simp_all add: wire92_def)
qed

lemma Encode_fits:
  assumes "frame_wf FrameVerV2 f" and "length (frame_wire f) \<le> length buf"
  shows "Encode f buf =
    Ok (length (frame_wire f), frame_wire f @ drop (length (frame_wire f)) buf)"
  using assms by (simp add: Encode_def frame_wf_def frame_wire_def wire92_writes Let_def del: run.simps)

lemma Decode_wire:
  assumes "frame_wf FrameVerV2 f"
  shows "Decode (frame_wire f @ rest) = Ok f"
  using assms
  by (simp add: Decode_def decodeV2_def frame_wf_def frame_wire_def codec_simps)

lemma Decode_total: "Decode buf \<noteq> Panic"
  by (auto simp: Decode_def decodeV1_def decodeV2_def Let_def)

interpretation tx_codec: datagram_codec "frame_wf FrameVerV2" frame_wire ErrBufferTooSmall Encode Decode
  by unfold_locales
    (simp_all add: Encode_fits Decode_wire Decode_total,
     simp add: Encode_def Let_def frame_wire_def frame_wf_def)

lemma zeroFill_pad: "zeroFill 56 88 = copyTo 56 88 zeros32"
  by (simp add: zeroFill_copyTo)

subsection \<open>Anchor frames\<close>

lemma DecodeAnchor_wire:
  "frame_wf FrameVerV6 f \<Longrightarrow> DecodeAnchor (frame_wire f @ rest) = Ok f"
  by (simp add: DecodeAnchor_def frame_wf_def frame_wire_def codec_simps)

lemma DecodeAnchor_total: "DecodeAnchor buf \<noteq> Panic"
  by (auto simp: DecodeAnchor_def Let_def)

lemma DecodeAnchor_wf: "DecodeAnchor buf = Ok f \<Longrightarrow> frame_wf FrameVerV6 f"
  by (auto simp: DecodeAnchor_def Let_def frame_wf_def split: if_splits)

subsection \<open>Block control frames\<close>

definition block_wf :: "block_frame \<Rightarrow> bool" where
  "block_wf f \<longleftrightarrow> bf_MsgType f \<in> {BlockMsgAnnounce, BlockMsgCoinbase} \<and>
     length (bf_ContentID f) = 32 \<and> length (bf_Payload f) < 2 ^ 32"

definition block_wire :: "block_frame \<Rightarrow> bytes" where
  "block_wire f = wire92 FrameVerV4 (bf_MsgType f) (bf_ContentID f) (bf_HashKey f) (bf_SeqNum f)
     zeros32 (bf_Payload f)"

lemma EncodeBlock_fits:
  assumes "block_wf f" and "length (block_wire f) \<le> length buf"
  shows "EncodeBlock f buf =
    Ok (length (block_wire f), block_wire f @ drop (length (block_wire f)) buf)"
  using assms
  by (simp add: EncodeBlock_def block_wf_def block_wire_def wire92_writes zeroFill_pad Let_def
      del: run.simps)

lemma DecodeBlock_wire: "block_wf f \<Longrightarrow> DecodeBlock (block_wire f @ rest) = Ok f"
  by (auto simp add: DecodeBlock_def block_wf_def block_wire_def codec_simps)

lemma DecodeBlock_total: "DecodeBlock buf \<noteq> Panic"
  by (auto simp: DecodeBlock_def Let_def)

lemma DecodeBlock_wf: "DecodeBlock buf = Ok f \<Longrightarrow> block_wf f"
  by (auto simp: DecodeBlock_def Let_def block_wf_def split: if_splits)

lemma DecodeBlock_length: "DecodeBlock buf = Ok f \<Longrightarrow> length (block_wire f) \<le> length buf"
  by (auto simp: DecodeBlock_def Let_def block_wire_def split: if_splits)

interpretation block_codec: closed_codec block_wf block_wire ErrBufferTooSmall EncodeBlock DecodeBlock
  by unfold_locales
    (simp_all add: EncodeBlock_fits DecodeBlock_wire DecodeBlock_total DecodeBlock_wf DecodeBlock_length,
     simp add: EncodeBlock_def Let_def block_wire_def block_wf_def)

subsection \<open>Subtree data frames\<close>

definition subtree_wf :: "subtree_data_frame \<Rightarrow> bool" where
  "subtree_wf f \<longleftrightarrow> sf_MsgType f \<in> {SubtreeMsgHashesOnly, SubtreeMsgFullNodes} \<and>
     length (sf_SubtreeID f) = 32 \<and> length (sf_Payload f) < 2 ^ 32"

definition subtree_wire :: "subtree_data_frame \<Rightarrow> bytes" where
  "subtree_wire f = wire92 FrameVerV5 (sf_MsgType f) (sf_SubtreeID f) (sf_HashKey f) (sf_SeqNum f)
     zeros32 (sf_Payload f)"

lemma EncodeSubtreeData_fits:
  assumes "subtree_wf f" and "length (subtree_wire f) \<le> length buf"
  shows "EncodeSubtreeData f buf =
    Ok (length (subtree_wire f), subtree_wire f @ drop (length (subtree_wire f)) buf)"
  using assms
  by (simp add: EncodeSubtreeData_def subtree_wf_def subtree_wire_def wire92_writes zeroFill_pad
      Let_def del: run.simps)

lemma DecodeSubtreeData_wire:
  "subtree_wf f \<Longrightarrow> DecodeSubtreeData (subtree_wire f @ rest) = Ok f"
  by (auto simp add: DecodeSubtreeData_def subtree_wf_def subtree_wire_def codec_simps)

lemma DecodeSubtreeData_total: "DecodeSubtreeData buf \<noteq> Panic"
  by (auto simp: DecodeSubtreeData_def Let_def)

lemma DecodeSubtreeData_wf: "DecodeSubtreeData buf = Ok f \<Longrightarrow> subtree_wf f"
  by (auto simp: DecodeSubtreeData_def Let_def subtree_wf_def split: if_splits)

lemma DecodeSubtreeData_length: "DecodeSubtreeData buf = Ok f \<Longrightarrow> length (subtree_wire f) \<le> length buf"
  by (auto simp: DecodeSubtreeData_def Let_def subtree_wire_def split: if_splits)

interpretation subtree_codec:
  closed_codec subtree_wf subtree_wire ErrBufferTooSmall EncodeSubtreeData DecodeSubtreeData
  by unfold_locales
    (simp_all add: EncodeSubtreeData_fits DecodeSubtreeData_wire DecodeSubtreeData_total
       DecodeSubtreeData_wf DecodeSubtreeData_length,
     simp add: EncodeSubtreeData_def Let_def subtree_wire_def subtree_wf_def)

subsection \<open>BEEF object frames\<close>

definition beef_wf :: "beef_frame \<Rightarrow> bool" where
  "beef_wf f \<longleftrightarrow> length (bb_ContentID f) = 32 \<and> length (bb_TopicID f) = 32 \<and>
     length (bb_Payload f) < 2 ^ 32"

definition beef_wire :: "beef_frame \<Rightarrow> bytes" where
  "beef_wire f = wire92 FrameVerV9 (bb_DeliverCount f) (bb_ContentID f) (bb_HashKey f) (bb_SeqNum f)
     (bb_TopicID f) (bb_Payload f)"

lemma EncodeBEEF_fits:
  assumes "beef_wf f" and "length (beef_wire f) \<le> length buf"
  shows "EncodeBEEF f buf =
    Ok (length (beef_wire f), beef_wire f @ drop (length (beef_wire f)) buf)"
  using assms
  by (simp add: EncodeBEEF_def beef_wf_def beef_wire_def wire92_writes Let_def del: run.simps)

lemma DecodeBEEF_wire: "beef_wf f \<Longrightarrow> DecodeBEEF (beef_wire f @ rest) = Ok f"
  by (simp add: DecodeBEEF_def beef_wf_def beef_wire_def codec_simps)

lemma DecodeBEEF_total: "DecodeBEEF buf \<noteq> Panic"
  by (auto simp: DecodeBEEF_def Let_def)

lemma DecodeBEEF_wf: "DecodeBEEF buf = Ok f \<Longrightarrow> beef_wf f"
  by (auto simp: DecodeBEEF_def Let_def beef_wf_def split: if_splits)

lemma DecodeBEEF_length: "DecodeBEEF buf = Ok f \<Longrightarrow> length (beef_wire f) \<le> length buf"
  by (auto simp: DecodeBEEF_def Let_def beef_wire_def split: if_splits)

interpretation beef_codec: closed_codec beef_wf beef_wire ErrBufferTooSmall EncodeBEEF DecodeBEEF
  by unfold_locales
    (simp_all add: EncodeBEEF_fits DecodeBEEF_wire DecodeBEEF_total DecodeBEEF_wf DecodeBEEF_length,
     simp add: EncodeBEEF_def Let_def beef_wire_def beef_wf_def)

subsection \<open>Block header frames\<close>

definition header_wf :: "frame \<Rightarrow> bool" where
  "header_wf f \<longleftrightarrow> fr_Version f = FrameVerV7 \<and> length (fr_TxID f) = 32 \<and>
     fr_SubtreeID f = zeros32 \<and> length (fr_Payload f) = BlockHeaderSize"

abbreviation encode_header :: "frame \<Rightarrow> bytes \<Rightarrow> (frame_err, nat \<times> bytes) res" where
  "encode_header f \<equiv> EncodeBlockHeader (fr_TxID f) (fr_HashKey f) (fr_SeqNum f) (fr_Payload f)"

lemma EncodeBlockHeader_fits:
  assumes "header_wf f" and "length (frame_wire f) \<le> length buf"
  shows "encode_header f buf =
    Ok (length (frame_wire f), frame_wire f @ drop (length (frame_wire f)) buf)"
proof -
  let ?ss = "[BE_PutUint32 MagicBSV, BE_PutUint16 ProtoVer, [FrameVerV7], [0], fr_TxID f,
    BE_PutUint64 (fr_HashKey f), BE_PutUint64 (fr_SeqNum f), zeros32,
    BE_PutUint32 (word_of_nat BlockHeaderSize), fr_Payload f]"
  have ws: "[putBE32 0 4 MagicBSV, putBE16 4 6 ProtoVer, put8 6 FrameVerV7, put8 7 0,
      copyTo 8 40 (fr_TxID f), putBE64 40 48 (fr_HashKey f), putBE64 48 56 (fr_SeqNum f),
      zeroFill 56 88, putBE32 88 92 (word_of_nat BlockHeaderSize),
      copyTo 92 BlockHeaderFrameSize (fr_Payload f)] = chunks 0 ?ss"
    using assms(1) by (simp add: writer_defs zeroFill_pad header_wf_def)
  have "concat ?ss = frame_wire f"
    using assms(1) by (simp add: header_wf_def frame_wire_def wire92_def)
  with assms show ?thesis
    unfolding EncodeBlockHeader_def ws
    by (simp add: run_chunks0 header_wf_def frame_wire_def del: run.simps chunks.simps concat.simps)
qed

lemma DecodeBlockHeader_wire:
  "header_wf f \<Longrightarrow> DecodeBlockHeader (frame_wire f @ rest) = Ok f"
  by (simp add: DecodeBlockHeader_def header_wf_def frame_wire_def codec_simps)

lemma DecodeBlockHeader_total: "DecodeBlockHeader buf \<noteq> Panic"
  by (auto simp: DecodeBlockHeader_def Let_def)

lemma DecodeBlockHeader_wf: "DecodeBlockHeader buf = Ok f \<Longrightarrow> header_wf f"
  by (auto simp: DecodeBlockHeader_def Let_def header_wf_def split: if_splits)

lemma DecodeBlockHeader_length: "DecodeBlockHeader buf = Ok f \<Longrightarrow> length (frame_wire f) \<le> length buf"
  by (auto simp: DecodeBlockHeader_def Let_def frame_wire_def split: if_splits)

interpretation header_codec:
  closed_codec header_wf frame_wire ErrBufferTooSmall encode_header DecodeBlockHeader
  by unfold_locales
    (simp_all add: EncodeBlockHeader_fits DecodeBlockHeader_wire DecodeBlockHeader_total
       DecodeBlockHeader_wf DecodeBlockHeader_length,
     simp add: EncodeBlockHeader_def frame_wire_def header_wf_def)

subsection \<open>Announcements\<close>

definition announce_wf :: "subtree_group_announce \<Rightarrow> bool" where
  "announce_wf a \<longleftrightarrow> length (sa_SubtreeID a) = 32 \<and> length (sa_GroupID a) = 16"

definition announce_wire :: "subtree_group_announce \<Rightarrow> bytes" where
  "announce_wire a =
     BE_PutUint32 MagicBSV @ BE_PutUint16 ProtoVer @ [MsgTypeSubtreeGroupAnnounce] @ [0] @
     sa_SubtreeID a @ sa_GroupID a @ BE_PutUint32 (sa_Epoch a) @ BE_PutUint16 (sa_TTL a) @ [0] @ [0]"

lemma length_announce_wire [simp]:
  "announce_wf a \<Longrightarrow> length (announce_wire a) = SubtreeGroupAnnounceSize"
  by (simp add: announce_wire_def announce_wf_def)

lemma announce_wire_fields [codec_simps]:
  assumes "announce_wf a"
  shows "take 4 (announce_wire a) = BE_PutUint32 MagicBSV"
    and "(announce_wire a @ rest) ! 6 = MsgTypeSubtreeGroupAnnounce"
    and "take 32 (drop 8 (announce_wire a)) = sa_SubtreeID a"
    and "take 16 (drop 40 (announce_wire a)) = sa_GroupID a"
    and "take 4 (drop 56 (announce_wire a)) = BE_PutUint32 (sa_Epoch a)"
    and "take 2 (drop 60 (announce_wire a)) = BE_PutUint16 (sa_TTL a)"
  using assms unfolding announce_wire_def announce_wf_def by (simp_all add: nth_append)

lemma EncodeSubtreeGroupAnnounce_fits:
  assumes "announce_wf a" and "length (announce_wire a) \<le> length buf"
  shows "EncodeSubtreeGroupAnnounce a buf =
    Ok (length (announce_wire a), announce_wire a @ drop (length (announce_wire a)) buf)"
proof -
  let ?ss = "[BE_PutUint32 MagicBSV, BE_PutUint16 ProtoVer, [MsgTypeSubtreeGroupAnnounce], [0],
    sa_SubtreeID a, sa_GroupID a, BE_PutUint32 (sa_Epoch a), BE_PutUint16 (sa_TTL a), [0], [0]]"
  have ws: "[putBE32 0 4 MagicBSV, putBE16 4 6 ProtoVer, put8 6 MsgTypeSubtreeGroupAnnounce,
      put8 7 0, copyTo 8 40 (sa_SubtreeID a), copyTo 40 56 (sa_GroupID a),
      putBE32 56 60 (sa_Epoch a), putBE16 60 62 (sa_TTL a), put8 62 0, put8 63 0] = chunks 0 ?ss"
    using assms(1) by (simp add: writer_defs announce_wf_def)
  have "concat ?ss = announce_wire a"
    by (simp add: announce_wire_def)
  with assms show ?thesis
    unfolding EncodeSubtreeGroupAnnounce_def ws
    by (simp add: run_chunks0 del: run.simps chunks.simps concat.simps)
qed

lemma DecodeSubtreeGroupAnnounce_wire:
  "announce_wf a \<Longrightarrow> DecodeSubtreeGroupAnnounce (announce_wire a @ rest) = Ok a"
  by (simp add: DecodeSubtreeGroupAnnounce_def codec_simps)

lemma DecodeSubtreeGroupAnnounce_total: "DecodeSubtreeGroupAnnounce buf \<noteq> Panic"
  by (auto simp: DecodeSubtreeGroupAnnounce_def Let_def)

lemma DecodeSubtreeGroupAnnounce_wf: "DecodeSubtreeGroupAnnounce buf = Ok a \<Longrightarrow> announce_wf a"
  by (auto simp: DecodeSubtreeGroupAnnounce_def announce_wf_def split: if_splits)

lemma DecodeSubtreeGroupAnnounce_length:
  "DecodeSubtreeGroupAnnounce buf = Ok f \<Longrightarrow> SubtreeGroupAnnounceSize \<le> length buf"
  by (auto simp: DecodeSubtreeGroupAnnounce_def Let_def split: if_splits)

interpretation announce_codec:
  closed_codec announce_wf announce_wire ErrBufferTooSmall EncodeSubtreeGroupAnnounce
    DecodeSubtreeGroupAnnounce
  by unfold_locales
    (simp_all add: EncodeSubtreeGroupAnnounce_fits DecodeSubtreeGroupAnnounce_wire
       DecodeSubtreeGroupAnnounce_total DecodeSubtreeGroupAnnounce_wf DecodeSubtreeGroupAnnounce_length,
     simp add: EncodeSubtreeGroupAnnounce_def)

subsection \<open>Fragments\<close>

text \<open>
  The fragment header is the 92-byte header with version 3 followed by a 12-byte extension. The
  encoder always writes zero at offset 7, where the decoder reads \<^verbatim>\<open>MsgType\<close>.
\<close>

definition frag_wf :: "frag_frame \<Rightarrow> bool" where
  "frag_wf f \<longleftrightarrow> length (ff_TxID f) = 32 \<and> length (ff_SubtreeID f) = 32 \<and>
     ff_FragIndex f < ff_FragTotal f \<and> length (ff_FragData f) < 2 ^ 32"

definition frag_wire :: "frag_frame \<Rightarrow> bytes" where
  "frag_wire f =
     BE_PutUint32 MagicBSV @ BE_PutUint16 ProtoVer @ [FrameVerV3] @ [ff_MsgType f] @ ff_TxID f @
     BE_PutUint64 (ff_HashKey f) @ BE_PutUint64 (ff_SeqNum f) @ ff_SubtreeID f @
     BE_PutUint32 (word_of_nat (length (ff_FragData f))) @ BE_PutUint32 (ff_OrigPayloadLen f) @
     BE_PutUint16 (ff_FragIndex f) @ BE_PutUint16 (ff_FragTotal f) @ [ff_OrigFrameVer f] @
     [0] @ [0] @ [0] @ ff_FragData f"

abbreviation encode_frag :: "frag_frame \<Rightarrow> bytes \<Rightarrow> (frame_err, nat \<times> bytes) res" where
  "encode_frag f buf \<equiv> EncodeFragment buf (ff_TxID f) (ff_SubtreeID f) (ff_HashKey f) (ff_SeqNum f)
     (ff_OrigPayloadLen f) (ff_FragIndex f) (ff_FragTotal f) (ff_OrigFrameVer f) (ff_FragData f)"

lemma length_frag_wire [simp]:
  "frag_wf f \<Longrightarrow> length (frag_wire f) = HeaderSizeV3 + length (ff_FragData f)"
  by (simp add: frag_wire_def frag_wf_def)

lemma frag_wire_fields [codec_simps]:
  assumes "frag_wf f"
  shows "take 4 (frag_wire f) = BE_PutUint32 MagicBSV"
    and "(frag_wire f @ rest) ! 6 = FrameVerV3"
    and "(frag_wire f @ rest) ! 7 = ff_MsgType f"
    and "(frag_wire f @ rest) ! 100 = ff_OrigFrameVer f"
    and "take 32 (drop 8 (frag_wire f)) = ff_TxID f"
    and "take 8 (drop 40 (frag_wire f)) = BE_PutUint64 (ff_HashKey f)"
    and "take 8 (drop 48 (frag_wire f)) = BE_PutUint64 (ff_SeqNum f)"
    and "take 32 (drop 56 (frag_wire f)) = ff_SubtreeID f"
    and "take 4 (drop 88 (frag_wire f)) = BE_PutUint32 (word_of_nat (length (ff_FragData f)))"
    and "take 4 (drop 92 (frag_wire f)) = BE_PutUint32 (ff_OrigPayloadLen f)"
    and "take 2 (drop 96 (frag_wire f)) = BE_PutUint16 (ff_FragIndex f)"
    and "take 2 (drop 98 (frag_wire f)) = BE_PutUint16 (ff_FragTotal f)"
    and "drop 104 (frag_wire f) = ff_FragData f"
  using assms unfolding frag_wire_def frag_wf_def by (simp_all add: nth_append)

lemma EncodeFragment_fits:
  assumes "frag_wf f" and "ff_MsgType f = 0" and "length (frag_wire f) \<le> length buf"
  shows "encode_frag f buf =
    Ok (length (frag_wire f), frag_wire f @ drop (length (frag_wire f)) buf)"
proof -
  let ?ss = "[BE_PutUint32 MagicBSV, BE_PutUint16 ProtoVer, [FrameVerV3], [0], ff_TxID f,
     BE_PutUint64 (ff_HashKey f), BE_PutUint64 (ff_SeqNum f), ff_SubtreeID f,
     BE_PutUint32 (word_of_nat (length (ff_FragData f))), BE_PutUint32 (ff_OrigPayloadLen f),
     BE_PutUint16 (ff_FragIndex f), BE_PutUint16 (ff_FragTotal f), [ff_OrigFrameVer f],
     [0], [0], [0]]"
  have ws: "[putBE32 0 4 MagicBSV, putBE16 4 6 ProtoVer, put8 6 FrameVerV3, put8 7 0,
      copyTo 8 40 (ff_TxID f), putBE64 40 48 (ff_HashKey f), putBE64 48 56 (ff_SeqNum f),
      copyTo 56 88 (ff_SubtreeID f), putBE32 88 92 (word_of_nat (length (ff_FragData f))),
      putBE32 92 96 (ff_OrigPayloadLen f), putBE16 96 98 (ff_FragIndex f),
      putBE16 98 100 (ff_FragTotal f), put8 100 (ff_OrigFrameVer f), put8 101 0, put8 102 0,
      put8 103 0, copyFrom HeaderSizeV3 (ff_FragData f)]
    = chunks 0 ?ss @ [copyFrom HeaderSizeV3 (ff_FragData f)]"
    using assms(1) by (simp add: writer_defs frag_wf_def)
  have l: "length (concat ?ss) = HeaderSizeV3"
    using assms(1) by (simp add: frag_wf_def)
  have "concat ?ss @ ff_FragData f = frag_wire f"
    using assms(2) by (simp add: frag_wire_def)
  with assms l show ?thesis
    unfolding EncodeFragment_def ws Let_def
    by (subst run_chunks_copyFrom) (simp_all del: concat.simps)
qed

lemma DecodeFragment_wire:
  assumes "frag_wf f"
  shows "DecodeFragment (frag_wire f @ rest) = Ok f"
proof -
  have "ff_FragTotal f \<noteq> 0" and "\<not> ff_FragTotal f \<le> ff_FragIndex f"
    and "length (ff_FragData f) < 2 ^ 32"
    using assms by (auto simp: frag_wf_def word_less_nat_alt word_le_nat_alt)
  with assms show ?thesis
    by (simp add: DecodeFragment_def codec_simps)
qed

lemma DecodeFragment_total: "DecodeFragment buf \<noteq> Panic"
  by (auto simp: DecodeFragment_def Let_def)

lemma DecodeFragment_wf: "DecodeFragment buf = Ok f \<Longrightarrow> frag_wf f"
  by (auto simp: DecodeFragment_def Let_def frag_wf_def not_le split: if_splits)

interpretation frag_codec:
  datagram_codec "\<lambda>f. frag_wf f \<and> ff_MsgType f = 0" frag_wire ErrBufferTooSmall encode_frag
    DecodeFragment
  by unfold_locales
    (simp_all add: EncodeFragment_fits DecodeFragment_wire DecodeFragment_total,
     simp add: EncodeFragment_def)

section \<open>Properties\<close>

text \<open>
  C7: a BRC-124/128 transaction frame survives the trip over the wire. Into any buffer that is large
  enough, \<^verbatim>\<open>Encode\<close> reports \<open>92 + len(payload)\<close> bytes, changes nothing behind them, and \<^verbatim>\<open>Decode\<close>
  of the bytes it wrote, with anything after them, gives back every field of the frame; a smaller
  buffer is refused and not written.
\<close>

theorem tx_frame_roundtrip:
  assumes "frame_wf FrameVerV2 f"
  shows "if 92 + length (fr_Payload f) \<le> length buf
    then \<exists>out. Encode f buf = Ok (92 + length (fr_Payload f), out) \<and> length out = length buf \<and>
      drop (92 + length (fr_Payload f)) out = drop (92 + length (fr_Payload f)) buf \<and>
      Decode (take (92 + length (fr_Payload f)) out @ rest) = Ok f
    else Encode f buf = Err ErrBufferTooSmall"
proof -
  have len: "length (frame_wire f) = 92 + length (fr_Payload f)"
    using assms by (simp add: frame_wire_def frame_wf_def)
  show ?thesis
    using tx_codec.send [OF assms len [symmetric]] .
qed

definition sample_frame :: frame where
  "sample_frame = \<lparr>fr_Version = 2, fr_TxID = replicate 32 7, fr_HashKey = 5, fr_SeqNum = 9,
     fr_SubtreeID = replicate 32 0, fr_Payload = [1, 2, 3]\<rparr>"

theorem tx_frame_roundtrip_witness:
  "\<exists>out. Encode sample_frame (replicate 100 0) = Ok (95, out) \<and> Decode (take 95 out) = Ok sample_frame"
  using tx_frame_roundtrip [of sample_frame "replicate 100 0" "[]"]
  by (simp add: frame_wf_def sample_frame_def) blast

text \<open>
  C10: the control formats are closed under forwarding. Whatever a decoder of block, subtree data,
  BEEF, block header or subtree announcement frames accepts, the matching encoder turns into a
  datagram no longer than the one received that decodes to the same value.
\<close>

theorem received_frames_reencode:
  "(DecodeBlock d1 = Ok b \<longrightarrow>
     (\<exists>n out. EncodeBlock b d1 = Ok (n, out) \<and> n \<le> length d1 \<and> DecodeBlock (take n out) = Ok b)) \<and>
   (DecodeSubtreeData d2 = Ok s \<longrightarrow>
     (\<exists>n out. EncodeSubtreeData s d2 = Ok (n, out) \<and> n \<le> length d2 \<and> DecodeSubtreeData (take n out) = Ok s)) \<and>
   (DecodeBEEF d3 = Ok f \<longrightarrow>
     (\<exists>n out. EncodeBEEF f d3 = Ok (n, out) \<and> n \<le> length d3 \<and> DecodeBEEF (take n out) = Ok f)) \<and>
   (DecodeBlockHeader d4 = Ok h \<longrightarrow>
     (\<exists>n out. EncodeBlockHeader (fr_TxID h) (fr_HashKey h) (fr_SeqNum h) (fr_Payload h) d4 = Ok (n, out) \<and>
        n \<le> length d4 \<and> DecodeBlockHeader (take n out) = Ok h)) \<and>
   (DecodeSubtreeGroupAnnounce d5 = Ok a \<longrightarrow>
     (\<exists>n out. EncodeSubtreeGroupAnnounce a d5 = Ok (n, out) \<and> n \<le> length d5 \<and>
        DecodeSubtreeGroupAnnounce (take n out) = Ok a))"
  by (intro conjI impI block_codec.forward subtree_codec.forward beef_codec.forward header_codec.forward
      announce_codec.forward)

definition sample_block :: block_frame where
  "sample_block = \<lparr>bf_MsgType = BlockMsgCoinbase, bf_ContentID = replicate 32 3, bf_HashKey = 1, bf_SeqNum = 2,
     bf_Payload = [9, 8, 7]\<rparr>"

definition sample_subtree :: subtree_data_frame where
  "sample_subtree = \<lparr>sf_MsgType = SubtreeMsgFullNodes, sf_SubtreeID = replicate 32 4, sf_HashKey = 1, sf_SeqNum = 2,
     sf_Payload = [1, 2]\<rparr>"

definition sample_beef :: beef_frame where
  "sample_beef = \<lparr>bb_ContentID = replicate 32 5, bb_HashKey = 1, bb_SeqNum = 2, bb_TopicID = replicate 32 6,
     bb_DeliverCount = 0, bb_Payload = [1]\<rparr>"

definition sample_header :: frame where
  "sample_header = \<lparr>fr_Version = FrameVerV7, fr_TxID = replicate 32 1, fr_HashKey = 1, fr_SeqNum = 2,
     fr_SubtreeID = zeros32, fr_Payload = replicate 80 2\<rparr>"

definition sample_announce :: subtree_group_announce where
  "sample_announce = \<lparr>sa_SubtreeID = replicate 32 1, sa_GroupID = replicate 16 2, sa_Epoch = 3, sa_TTL = 4\<rparr>"

lemma sample_wf:
  "block_wf sample_block" "subtree_wf sample_subtree" "beef_wf sample_beef" "header_wf sample_header"
  "announce_wf sample_announce"
  by (simp_all add: block_wf_def subtree_wf_def beef_wf_def header_wf_def announce_wf_def sample_block_def
      sample_subtree_def sample_beef_def sample_header_def sample_announce_def)

theorem received_frames_reencode_witness:
  "(\<exists>n out. EncodeBlock sample_block (block_wire sample_block) = Ok (n, out) \<and> DecodeBlock (take n out) = Ok sample_block) \<and>
   (\<exists>n out. EncodeSubtreeData sample_subtree (subtree_wire sample_subtree) = Ok (n, out) \<and>
      DecodeSubtreeData (take n out) = Ok sample_subtree) \<and>
   (\<exists>n out. EncodeBEEF sample_beef (beef_wire sample_beef) = Ok (n, out) \<and> DecodeBEEF (take n out) = Ok sample_beef) \<and>
   (\<exists>n out. encode_header sample_header (frame_wire sample_header) = Ok (n, out) \<and>
      DecodeBlockHeader (take n out) = Ok sample_header) \<and>
   (\<exists>n out. EncodeSubtreeGroupAnnounce sample_announce (announce_wire sample_announce) = Ok (n, out) \<and>
      DecodeSubtreeGroupAnnounce (take n out) = Ok sample_announce)"
  using received_frames_reencode [of "block_wire sample_block" sample_block "subtree_wire sample_subtree" sample_subtree
      "beef_wire sample_beef" sample_beef "frame_wire sample_header" sample_header
      "announce_wire sample_announce" sample_announce]
    block_codec.decode_wire [OF sample_wf(1), of "[]"] subtree_codec.decode_wire [OF sample_wf(2), of "[]"]
    beef_codec.decode_wire [OF sample_wf(3), of "[]"] header_codec.decode_wire [OF sample_wf(4), of "[]"]
    announce_codec.decode_wire [OF sample_wf(5), of "[]"]
  by auto

text \<open>
  Fragments. Every fragment \<^verbatim>\<open>DecodeFragment\<close> accepts has \<open>FragIndex < FragTotal\<close> (so the total is not
  zero); and \<^verbatim>\<open>EncodeFragment\<close> followed by \<^verbatim>\<open>DecodeFragment\<close> restores every field of a fragment but
  \<^verbatim>\<open>MsgType\<close>, which comes back as zero: the encoder has no parameter for it although the decoder
  reads it from offset 7.
\<close>

theorem fragment_roundtrip:
  "(DecodeFragment d = Ok g \<longrightarrow> ff_FragIndex g < ff_FragTotal g \<and> HeaderSizeV3 + length (ff_FragData g) \<le> length d) \<and>
   (frag_wf f \<longrightarrow> HeaderSizeV3 + length (ff_FragData f) \<le> length buf \<longrightarrow>
     (\<exists>out. EncodeFragment buf (ff_TxID f) (ff_SubtreeID f) (ff_HashKey f) (ff_SeqNum f) (ff_OrigPayloadLen f)
          (ff_FragIndex f) (ff_FragTotal f) (ff_OrigFrameVer f) (ff_FragData f)
        = Ok (HeaderSizeV3 + length (ff_FragData f), out) \<and>
        DecodeFragment (take (HeaderSizeV3 + length (ff_FragData f)) out) = Ok (f\<lparr>ff_MsgType := 0\<rparr>)))"
proof (intro conjI impI)
  assume "DecodeFragment d = Ok g"
  then show "ff_FragIndex g < ff_FragTotal g" "HeaderSizeV3 + length (ff_FragData g) \<le> length d"
    using DecodeFragment_wf by (auto simp: frag_wf_def DecodeFragment_def Let_def split: if_splits)
next
  let ?f = "f\<lparr>ff_MsgType := 0\<rparr>"
  assume "frag_wf f" and fit: "HeaderSizeV3 + length (ff_FragData f) \<le> length buf"
  then have wf: "frag_wf ?f \<and> ff_MsgType ?f = 0" by (simp add: frag_wf_def)
  then have "HeaderSizeV3 + length (ff_FragData f) = length (frag_wire ?f)" by simp
  from frag_codec.send [OF wf this, of buf "[]"] fit
  show "\<exists>out. EncodeFragment buf (ff_TxID f) (ff_SubtreeID f) (ff_HashKey f) (ff_SeqNum f) (ff_OrigPayloadLen f)
          (ff_FragIndex f) (ff_FragTotal f) (ff_OrigFrameVer f) (ff_FragData f)
        = Ok (HeaderSizeV3 + length (ff_FragData f), out) \<and>
        DecodeFragment (take (HeaderSizeV3 + length (ff_FragData f)) out) = Ok ?f"
    by auto
qed

definition sample_frag :: frag_frame where
  "sample_frag = \<lparr>ff_TxID = replicate 32 1, ff_HashKey = 2, ff_SeqNum = 3, ff_SubtreeID = replicate 32 4,
     ff_OrigPayloadLen = 5, ff_FragIndex = 1, ff_FragTotal = 2, ff_OrigFrameVer = 4, ff_MsgType = 2,
     ff_FragData = [1, 2, 3]\<rparr>"

theorem fragment_roundtrip_witness:
  "\<exists>out. encode_frag sample_frag (replicate 107 0) = Ok (107, out) \<and>
     DecodeFragment (take 107 out) = Ok (sample_frag\<lparr>ff_MsgType := 0\<rparr>) \<and>
     ff_FragIndex (sample_frag\<lparr>ff_MsgType := 0\<rparr>) < ff_FragTotal sample_frag"
proof -
  have "frag_wf sample_frag" by (simp add: frag_wf_def sample_frag_def)
  moreover have "length (ff_FragData sample_frag) = 3" by (simp add: sample_frag_def)
  ultimately obtain out where "encode_frag sample_frag (replicate 107 0) = Ok (107, out)"
    and dec: "DecodeFragment (take 107 out) = Ok (sample_frag\<lparr>ff_MsgType := 0\<rparr>)"
    using fragment_roundtrip [of _ _ sample_frag "replicate 107 0"] by auto
  moreover have "ff_FragIndex (sample_frag\<lparr>ff_MsgType := 0\<rparr>) < ff_FragTotal (sample_frag\<lparr>ff_MsgType := 0\<rparr>)"
    using fragment_roundtrip [of "take 107 out"] dec by blast
  ultimately show ?thesis by auto
qed

end
