(* ===== verification/Frame_Payload.thy ===== *)
theory Frame_Payload
  imports Frame
begin

text \<open>
  The structured payloads of block announcements (\<^verbatim>\<open>frame/block_payload.go\<close>) and of subtree data
  frames (\<^verbatim>\<open>frame/subtree_data_payload.go\<close>). The announce payload counts its hashes in 32 bits, which
  cannot overflow a 64-bit \<^verbatim>\<open>int\<close>. The subtree payload counts its nodes and conflicts in 64 bits and
  multiplies the counts by the element size in \<^verbatim>\<open>int\<close>: here the products are taken on \<open>64 word\<close> and
  compared as signed values, as the code does.
\<close>

section \<open>Block announcements\<close>

abbreviation (input) BlockAnnounceMinPayload :: nat where
  "BlockAnnounceMinPayload \<equiv> BlockHeaderSize + 32 + 4"

record block_announce =
  ba_Header :: bytes
  ba_CoinbaseTxID :: bytes
  ba_SubtreeHashes :: "bytes list"

definition DecodeBlockAnnounce :: "bytes \<Rightarrow> (frame_err, block_announce) res" where
  "DecodeBlockAnnounce payload =
     (if length payload < BlockAnnounceMinPayload then Err ErrBlockAnnounceTooShort else
      rbind (BE32 payload 112 116) (\<lambda>n. let subtreeCount = unat n;
        expectedLen = BlockAnnounceMinPayload + subtreeCount * 32 in
      if length payload < expectedLen then Err ErrBlockAnnounceTooShort else
      rbind (slice payload 0 80) (\<lambda>hdr.
      rbind (slice payload 80 112) (\<lambda>coinbase.
      rbind (rmap (\<lambda>i. let off = 116 + i * 32 in slice payload off (off + 32))
        [0..<subtreeCount]) (\<lambda>hashes.
      Ok \<lparr>ba_Header = hdr, ba_CoinbaseTxID = coinbase, ba_SubtreeHashes = hashes\<rparr>)))))"

definition EncodeBlockAnnounce :: "block_announce \<Rightarrow> (frame_err, bytes) res" where
  "EncodeBlockAnnounce a =
     (let size = BlockAnnounceMinPayload + length (ba_SubtreeHashes a) * 32 in
      run
        ([copyTo 0 80 (ba_Header a),
          copyTo 80 112 (ba_CoinbaseTxID a),
          putBE32 112 116 (word_of_nat (length (ba_SubtreeHashes a)))] @
         map (\<lambda>(i, h). let off = 116 + i * 32 in copyTo off (off + 32) h)
           (enumerate 0 (ba_SubtreeHashes a)))
        (replicate size 0))"

section \<open>Subtree data\<close>

abbreviation (input) SubtreeDataPayloadHeaderSize :: nat where "SubtreeDataPayloadHeaderSize \<equiv> 24"
abbreviation (input) SubtreeNodeHashSize :: nat where "SubtreeNodeHashSize \<equiv> 32"
abbreviation (input) SubtreeNodeFullSize :: nat where "SubtreeNodeFullSize \<equiv> 48"

record subtree_node =
  sn_TxHash :: bytes
  sn_Fee :: u64
  sn_Size :: u64

record subtree_data_payload =
  sp_TotalFees :: u64
  sp_TotalSizeBytes :: u64
  sp_Nodes :: "subtree_node list"
  sp_ConflictHashes :: "bytes list"

definition nodeStride :: "u8 \<Rightarrow> (frame_err, nat) res" where
  "nodeStride msgType =
     (if msgType = SubtreeMsgHashesOnly then Ok SubtreeNodeHashSize
      else if msgType = SubtreeMsgFullNodes then Ok SubtreeNodeFullSize
      else Err ErrUnknownSubtreeMsgType)"

definition decodeNode :: "bytes \<Rightarrow> u8 \<Rightarrow> nat \<Rightarrow> nat \<Rightarrow> (frame_err, subtree_node) res" where
  "decodeNode payload msgType stride i =
     (let off = SubtreeDataPayloadHeaderSize + i * stride in
      rbind (slice payload off (off + 32)) (\<lambda>h.
      if msgType = SubtreeMsgFullNodes then
        rbind (BE64 payload (off + 32) (off + 40)) (\<lambda>fee.
        rbind (BE64 payload (off + 40) (off + 48)) (\<lambda>size.
        Ok \<lparr>sn_TxHash = h, sn_Fee = fee, sn_Size = size\<rparr>))
      else Ok \<lparr>sn_TxHash = h, sn_Fee = 0, sn_Size = 0\<rparr>))"

definition DecodeSubtreeDataPayload :: "bytes \<Rightarrow> u8 \<Rightarrow> (frame_err, subtree_data_payload) res" where
  "DecodeSubtreeDataPayload payload msgType =
     (if length payload < SubtreeDataPayloadHeaderSize then Err ErrSubtreePayloadTooShort else
      rbind (BE64 payload 0 8) (\<lambda>totalFees.
      rbind (BE64 payload 8 16) (\<lambda>totalSize.
      rbind (BE64 payload 16 24) (\<lambda>nodeCount.
      rbind (nodeStride msgType) (\<lambda>stride.
      let nodesEnd = word_of_nat SubtreeDataPayloadHeaderSize + nodeCount * word_of_nat stride :: u64 in
      if int (length payload) < sint (nodesEnd + 8) then Err ErrSubtreePayloadTooShort else
      rbind (makeslice SubtreeNodeFullSize nodeCount) (\<lambda>_.
      rbind (rmap (decodeNode payload msgType stride) [0..<unat nodeCount]) (\<lambda>nodes.
      rbind (BE64 payload (unat nodesEnd) (unat (nodesEnd + 8))) (\<lambda>conflictCount.
      let conflictsEnd = nodesEnd + 8 + conflictCount * 32 in
      if int (length payload) < sint conflictsEnd then Err ErrSubtreePayloadTooShort else
      rbind (makeslice 32 conflictCount) (\<lambda>_.
      rbind (rmap (\<lambda>i. let off = unat nodesEnd + 8 + i * 32 in slice payload off (off + 32))
        [0..<unat conflictCount]) (\<lambda>conflicts.
      Ok \<lparr>sp_TotalFees = totalFees, sp_TotalSizeBytes = totalSize, sp_Nodes = nodes,
          sp_ConflictHashes = conflicts\<rparr>))))))))))"

definition nodeWrites :: "u8 \<Rightarrow> nat \<Rightarrow> subtree_node \<Rightarrow> frame_err writer list" where
  "nodeWrites msgType off node =
     copyTo off (off + 32) (sn_TxHash node) #
     (if msgType = SubtreeMsgFullNodes
      then [putBE64 (off + 32) (off + 40) (sn_Fee node), putBE64 (off + 40) (off + 48) (sn_Size node)]
      else [])"

definition EncodeSubtreeDataPayload :: "subtree_data_payload \<Rightarrow> u8 \<Rightarrow> (frame_err, bytes) res" where
  "EncodeSubtreeDataPayload p msgType =
     rbind (nodeStride msgType) (\<lambda>stride.
     let size = SubtreeDataPayloadHeaderSize + length (sp_Nodes p) * stride + 8 +
           length (sp_ConflictHashes p) * 32;
         conflictOff = SubtreeDataPayloadHeaderSize + length (sp_Nodes p) * stride in
     run
       ([putBE64 0 8 (sp_TotalFees p),
         putBE64 8 16 (sp_TotalSizeBytes p),
         putBE64 16 24 (word_of_nat (length (sp_Nodes p)))] @
        concat (map (\<lambda>(i, node). nodeWrites msgType (SubtreeDataPayloadHeaderSize + i * stride) node)
          (enumerate 0 (sp_Nodes p))) @
        [putBE64 conflictOff (conflictOff + 8) (word_of_nat (length (sp_ConflictHashes p)))] @
        map (\<lambda>(i, h). let off = conflictOff + 8 + i * 32 in copyTo off (off + 32) h)
          (enumerate 0 (sp_ConflictHashes p)))
       (replicate size 0))"

section \<open>Layouts and well-formedness\<close>

definition block_announce_wire :: "block_announce \<Rightarrow> bytes" where
  "block_announce_wire a = ba_Header a @ ba_CoinbaseTxID a @
     BE_PutUint32 (word_of_nat (length (ba_SubtreeHashes a))) @ concat (ba_SubtreeHashes a)"

definition block_announce_wf :: "block_announce \<Rightarrow> bool" where
  "block_announce_wf a \<longleftrightarrow> length (ba_Header a) = 80 \<and> length (ba_CoinbaseTxID a) = 32 \<and>
     (\<forall>h \<in> set (ba_SubtreeHashes a). length h = 32) \<and> length (ba_SubtreeHashes a) < 2 ^ 32"

lemma DecodeBlockAnnounce_wire:
  assumes "block_announce_wf a"
  shows "DecodeBlockAnnounce (block_announce_wire a @ rest) = Ok a"
proof -
  let ?hs = "ba_SubtreeHashes a"
  let ?n = "word_of_nat (length ?hs) :: u32"
  let ?pre = "ba_Header a @ ba_CoinbaseTxID a @ BE_PutUint32 ?n"
  have n: "unat ?n = length ?hs" and len: "length (concat ?hs) = length ?hs * 32"
    using assms concat_fixed_length [of ?hs "\<lambda>x. x" 32]
    by (auto simp: block_announce_wf_def unat_of_nat take_bit_nat_eq_self)
  have "rmap (\<lambda>i. slice (?pre @ concat ?hs @ rest) (116 + i * 32) (116 + i * 32 + 32)) [0..<unat ?n] =
      (Ok ?hs :: (frame_err, _) res)"
    using assms n by (intro rmap_slices) (auto simp: block_announce_wf_def)
  with assms n len show ?thesis
    by (simp add: DecodeBlockAnnounce_def block_announce_wire_def block_announce_wf_def codec_simps Let_def)
qed

lemma EncodeBlockAnnounce_wire:
  assumes "block_announce_wf a"
  shows "EncodeBlockAnnounce a = Ok (block_announce_wire a)"
proof -
  let ?hs = "ba_SubtreeHashes a"
  let ?ss = "[ba_Header a, ba_CoinbaseTxID a, BE_PutUint32 (word_of_nat (length ?hs))]"
  have "map (\<lambda>(i, h). copyTo (116 + i * 32) (116 + i * 32 + 32) h) (enumerate 0 ?hs) =
      (chunks (116 + 0 * 32) ?hs :: frame_err writer list)"
    using assms by (intro chunks_enumerate_copy) (auto simp: block_announce_wf_def)
  then have "EncodeBlockAnnounce a = run (chunks 0 (?ss @ ?hs)) (replicate (116 + length ?hs * 32) 0)"
    using assms by (simp add: EncodeBlockAnnounce_def Let_def chunks_append writer_defs block_announce_wf_def
      del: run.simps)
  moreover have "length (concat (?ss @ ?hs)) = 116 + length ?hs * 32"
    using assms concat_fixed_length [of ?hs "\<lambda>x. x" 32] by (simp add: block_announce_wf_def)
  ultimately have "EncodeBlockAnnounce a = Ok (concat (?ss @ ?hs))"
    by (simp only: run_chunks_exact length_replicate)
  then show ?thesis by (simp add: block_announce_wire_def)
qed

lemma DecodeBlockAnnounce_slices:
  assumes "116 \<le> length payload" and "n = unat (BE_Uint32 (take 4 (drop 112 payload)))"
    and "116 + n * 32 \<le> length payload"
  shows "DecodeBlockAnnounce payload = Ok \<lparr>ba_Header = take 80 payload,
    ba_CoinbaseTxID = take 32 (drop 80 payload),
    ba_SubtreeHashes = map (\<lambda>i. take 32 (drop (116 + i * 32) payload)) [0..<n]\<rparr>"
  using assms rmap_slices_in [of 116 n 32 payload, where ?'a = frame_err]
  by (simp add: DecodeBlockAnnounce_def Let_def)

lemma DecodeBlockAnnounce_short:
  "length payload < 116 \<or> length payload < 116 + unat (BE_Uint32 (take 4 (drop 112 payload))) * 32 \<Longrightarrow>
   DecodeBlockAnnounce payload = Err ErrBlockAnnounceTooShort"
  by (auto simp: DecodeBlockAnnounce_def Let_def)

lemma DecodeBlockAnnounce_total: "DecodeBlockAnnounce payload \<noteq> Panic"
  using DecodeBlockAnnounce_short [of payload] DecodeBlockAnnounce_slices [of payload]
  by (cases "length payload < 116 + unat (BE_Uint32 (take 4 (drop 112 payload))) * 32") (auto simp: not_less)

lemma DecodeBlockAnnounce_exact:
  assumes "DecodeBlockAnnounce payload = Ok a"
  shows "block_announce_wf a" and "payload = block_announce_wire a @ drop (length (block_announce_wire a)) payload"
proof -
  define n where "n = unat (BE_Uint32 (take 4 (drop 112 payload)))"
  have len: "116 \<le> length payload" "116 + n * 32 \<le> length payload"
    using assms DecodeBlockAnnounce_short [of payload] by (auto simp: n_def not_less [symmetric])
  have a: "a = \<lparr>ba_Header = take 80 payload, ba_CoinbaseTxID = take 32 (drop 80 payload),
    ba_SubtreeHashes = map (\<lambda>i. take 32 (drop (116 + i * 32) payload)) [0..<n]\<rparr>"
    using assms DecodeBlockAnnounce_slices [OF len(1) n_def len(2)] by simp
  have "Suc i * 32 \<le> n * 32" if "i < n" for i using that by (intro mult_right_mono) simp_all
  with len show "block_announce_wf a"
    by (force simp: a block_announce_wf_def n_def)
  have "block_announce_wire a = take 80 payload @ take 32 (drop 80 payload) @ take 4 (drop 112 payload) @
      take (n * 32) (drop 116 payload)"
    using len by (simp add: a block_announce_wire_def concat_slices) (simp add: n_def)
  also have "\<dots> = take (80 + (32 + (4 + n * 32))) payload"
    by (simp only: take_add drop_drop) simp
  finally show "payload = block_announce_wire a @ drop (length (block_announce_wire a)) payload"
    using len by (simp add: min_absorb2)
qed

definition node_wire :: "u8 \<Rightarrow> subtree_node \<Rightarrow> bytes" where
  "node_wire msgType n = sn_TxHash n @
     (if msgType = SubtreeMsgFullNodes then BE_PutUint64 (sn_Fee n) @ BE_PutUint64 (sn_Size n) else [])"

definition subtree_payload_wire :: "u8 \<Rightarrow> subtree_data_payload \<Rightarrow> bytes" where
  "subtree_payload_wire msgType p = BE_PutUint64 (sp_TotalFees p) @ BE_PutUint64 (sp_TotalSizeBytes p) @
     BE_PutUint64 (word_of_nat (length (sp_Nodes p))) @ concat (map (node_wire msgType) (sp_Nodes p)) @
     BE_PutUint64 (word_of_nat (length (sp_ConflictHashes p))) @ concat (sp_ConflictHashes p)"

definition node_wf :: "u8 \<Rightarrow> subtree_node \<Rightarrow> bool" where
  "node_wf msgType n \<longleftrightarrow> length (sn_TxHash n) = 32 \<and>
     (msgType = SubtreeMsgFullNodes \<or> sn_Fee n = 0 \<and> sn_Size n = 0)"

definition subtree_payload_wf :: "u8 \<Rightarrow> subtree_data_payload \<Rightarrow> bool" where
  "subtree_payload_wf msgType p \<longleftrightarrow>
     (msgType = SubtreeMsgHashesOnly \<or> msgType = SubtreeMsgFullNodes) \<and>
     (\<forall>n \<in> set (sp_Nodes p). node_wf msgType n) \<and> (\<forall>h \<in> set (sp_ConflictHashes p). length h = 32) \<and>
     length (sp_Nodes p) * 48 \<le> 2 ^ 48 \<and> length (sp_ConflictHashes p) * 32 \<le> 2 ^ 48"

lemma length_node_wire:
  "node_wf msgType n \<Longrightarrow> nodeStride msgType = Ok stride \<Longrightarrow> length (node_wire msgType n) = stride"
  by (auto simp: node_wf_def node_wire_def nodeStride_def split: if_splits)

lemma decodeNode_wire:
  assumes ok: "\<And>n. n \<in> set ns \<Longrightarrow> node_wf msgType n" and stride: "nodeStride msgType = Ok stride"
    and "length pre = 24" and i: "i < length ns"
  shows "decodeNode (pre @ concat (map (node_wire msgType) ns) @ rest) msgType stride i = Ok (ns ! i)"
proof -
  have len: "length (node_wire msgType n) = stride" if "n \<in> set ns" for n
    using ok [OF that] stride by (rule length_node_wire)
  have s: "slice (pre @ concat (map (node_wire msgType) ns) @ rest) (24 + i * stride + a) (24 + i * stride + b) =
      (Ok (take (b - a) (drop a (node_wire msgType (ns ! i)))) :: (frame_err, bytes) res)"
    if "a \<le> b" "b \<le> stride" for a b
    using len i that assms(3) by (intro slice_concat_fixed) auto
  have "node_wf msgType (ns ! i)" using ok i by simp
  moreover have "stride = 32 \<and> msgType \<noteq> SubtreeMsgFullNodes \<or> stride = 48 \<and> msgType = SubtreeMsgFullNodes"
    using stride by (auto simp: nodeStride_def split: if_splits)
  ultimately show ?thesis
    using assms(3) s [of 0 32] s [of 32 40] s [of 40 48]
    by (cases "ns ! i") (auto simp: decodeNode_def Let_def BE64_def node_wf_def node_wire_def)
qed

text \<open>When neither count overflows, the 64-bit offsets of the decoder are the true ones.\<close>

lemma nodesEnd_exact:
  assumes "unat (n :: u64) * 48 \<le> 2 ^ 48" and "stride \<le> 48"
  shows "unat (word_of_nat SubtreeDataPayloadHeaderSize + n * word_of_nat stride :: u64) = 24 + unat n * stride"
    and "sint (word_of_nat SubtreeDataPayloadHeaderSize + n * word_of_nat stride + 8 :: u64) =
      int (32 + unat n * stride)"
    and "unat (word_of_nat SubtreeDataPayloadHeaderSize + n * word_of_nat stride + 8 :: u64) = 32 + unat n * stride"
proof -
  have "unat n * stride \<le> unat n * 48" using assms(2) by (rule mult_left_mono) simp
  with assms have b: "unat n * stride \<le> 2 ^ 48" by linarith
  have s: "unat (word_of_nat stride :: u64) = stride"
    using assms(2) by (intro unat_u64_of_nat) simp
  have m: "unat (n * word_of_nat stride :: u64) = unat n * stride"
    using b s by (subst unat_u64_mult) simp_all
  show e: "unat (word_of_nat SubtreeDataPayloadHeaderSize + n * word_of_nat stride :: u64) = 24 + unat n * stride"
    using b m by (subst unat_u64_add) simp_all
  show e8: "unat (word_of_nat SubtreeDataPayloadHeaderSize + n * word_of_nat stride + 8 :: u64) = 32 + unat n * stride"
    using b e by (subst unat_u64_add) simp_all
  show "sint (word_of_nat SubtreeDataPayloadHeaderSize + n * word_of_nat stride + 8 :: u64) =
      int (32 + unat n * stride)"
    using b e8 by (subst sint_small) simp_all
qed

lemma conflictsEnd_exact:
  assumes "unat (e :: u64) \<le> 2 ^ 49" and "unat (c :: u64) * 32 \<le> 2 ^ 48"
  shows "sint (e + c * 32) = int (unat e + unat c * 32)"
proof -
  have "unat (c * 32) = unat c * 32" using assms by (subst unat_u64_mult) simp_all
  then have "unat (e + c * 32) = unat e + unat c * 32"
    using assms by (subst unat_u64_add) simp_all
  then show ?thesis using assms by (subst sint_small) simp_all
qed

lemma nodeStride_cases:
  "nodeStride msgType = Ok stride \<Longrightarrow>
   stride = 32 \<and> msgType = SubtreeMsgHashesOnly \<or> stride = 48 \<and> msgType = SubtreeMsgFullNodes"
  by (auto simp: nodeStride_def split: if_splits)

lemma decodeNode_in:
  assumes "24 + Suc i * stride \<le> length payload" and "nodeStride msgType = Ok stride"
  shows "\<exists>n. decodeNode payload msgType stride i = Ok n \<and> node_wf msgType n \<and>
    node_wire msgType n = take stride (drop (24 + i * stride) payload)"
  using assms nodeStride_cases [OF assms(2)] take_add [of 32 16 "drop (24 + i * 48) payload"]
    take_add [of 8 8 "drop (56 + i * 48) payload"]
  by (auto simp: decodeNode_def Let_def node_wf_def node_wire_def)

lemma decodeNodes_in:
  assumes "24 + n * stride \<le> length payload" and "nodeStride msgType = Ok stride"
  shows "\<exists>ns. rmap (decodeNode payload msgType stride) [0..<n] = Ok ns \<and> length ns = n \<and>
    (\<forall>x \<in> set ns. node_wf msgType x) \<and>
    concat (map (node_wire msgType) ns) = take (n * stride) (drop 24 payload)"
proof -
  have "\<exists>x. decodeNode payload msgType stride i = Ok x \<and> node_wf msgType x \<and>
      node_wire msgType x = take stride (drop (24 + i * stride) payload)" if "i < n" for i
  proof (rule decodeNode_in [OF _ assms(2)])
    from that have "Suc i * stride \<le> n * stride" by (intro mult_right_mono) simp_all
    with assms(1) show "24 + Suc i * stride \<le> length payload" by simp
  qed
  then obtain g where g: "\<And>i. i < n \<Longrightarrow> decodeNode payload msgType stride i = Ok (g i) \<and>
      node_wf msgType (g i) \<and> node_wire msgType (g i) = take stride (drop (24 + i * stride) payload)"
    by metis
  have "concat (map (node_wire msgType) (map g [0..<n])) =
      concat (map (\<lambda>i. take stride (drop (24 + i * stride) payload)) [0..<n])"
    using g by (intro arg_cong [where f = concat]) simp
  moreover have "rmap (decodeNode payload msgType stride) [0..<n] = Ok (map g [0..<n])"
    using g by (intro rmap_Ok) simp
  ultimately show ?thesis
    using g by (intro exI [of _ "map g [0..<n]"]) (auto simp: concat_slices)
qed

text \<open>The counts a payload declares, and the two ways a payload is short of them.\<close>

definition declaredNodes :: "bytes \<Rightarrow> nat" where
  "declaredNodes payload = unat (BE_Uint64 (take 8 (drop 16 payload)))"

definition declaredConflicts :: "nat \<Rightarrow> bytes \<Rightarrow> nat" where
  "declaredConflicts stride payload =
     unat (BE_Uint64 (take 8 (drop (24 + declaredNodes payload * stride) payload)))"

definition conflictSlices :: "nat \<Rightarrow> bytes \<Rightarrow> bytes list" where
  "conflictSlices stride payload =
     map (\<lambda>i. take 32 (drop (32 + declaredNodes payload * stride + i * 32) payload))
       [0..<declaredConflicts stride payload]"

lemma DecodeSubtreeDataPayload_unfold:
  assumes "24 \<le> length payload" and "nodeStride msgType = Ok stride" and "declaredNodes payload * 48 \<le> 2 ^ 48"
    and e: "e = 32 + declaredNodes payload * stride"
    and cc: "cc = BE_Uint64 (take 8 (drop (24 + declaredNodes payload * stride) payload))"
  shows "DecodeSubtreeDataPayload payload msgType =
     (if length payload < e then Err ErrSubtreePayloadTooShort else
      rbind (rmap (decodeNode payload msgType stride) [0..<declaredNodes payload]) (\<lambda>nodes.
      if int (length payload) < sint (word_of_nat e + cc * 32 :: u64) then Err ErrSubtreePayloadTooShort else
      rbind (makeslice 32 cc) (\<lambda>_.
      rbind (rmap (\<lambda>i. slice payload (e + i * 32) (e + i * 32 + 32)) [0..<unat cc]) (\<lambda>hs.
      Ok \<lparr>sp_TotalFees = BE_Uint64 (take 8 payload), sp_TotalSizeBytes = BE_Uint64 (take 8 (drop 8 payload)),
        sp_Nodes = nodes, sp_ConflictHashes = hs\<rparr>))))"
proof -
  define nc where "nc = BE_Uint64 (take 8 (drop 16 payload))"
  define w where "w = word_of_nat SubtreeDataPayloadHeaderSize + nc * (word_of_nat stride :: u64)"
  have n: "declaredNodes payload = unat nc" by (simp add: declaredNodes_def nc_def)
  have stride: "stride \<le> 48" using nodeStride_cases [OF assms(2)] by auto
  have w: "unat w = 24 + declaredNodes payload * stride" "unat (w + 8) = e" "sint (w + 8) = int e"
    using nodesEnd_exact [OF assms(3) [unfolded n] stride] unfolding w_def n e by simp_all
  have w8: "w + 8 = word_of_nat e" by (simp flip: w(2))
  have short: "int (length payload) < sint (w + 8) \<longleftrightarrow> length payload < e" by (simp add: w(3))
  have ms: "makeslice SubtreeNodeFullSize nc = (Ok () :: (frame_err, unit) res)"
    using assms(3) by (simp add: makeslice_def n)
  have D: "DecodeSubtreeDataPayload payload msgType =
     (if int (length payload) < sint (w + 8) then Err ErrSubtreePayloadTooShort else
      rbind (rmap (decodeNode payload msgType stride) [0..<declaredNodes payload]) (\<lambda>nodes.
      rbind (BE64 payload (unat w) (unat (w + 8))) (\<lambda>cc.
      if int (length payload) < sint (w + 8 + cc * 32) then Err ErrSubtreePayloadTooShort else
      rbind (makeslice 32 cc) (\<lambda>_.
      rbind (rmap (\<lambda>i. slice payload (unat w + 8 + i * 32) (unat w + 8 + i * 32 + 32)) [0..<unat cc]) (\<lambda>hs.
      Ok \<lparr>sp_TotalFees = BE_Uint64 (take 8 payload), sp_TotalSizeBytes = BE_Uint64 (take 8 (drop 8 payload)),
        sp_Nodes = nodes, sp_ConflictHashes = hs\<rparr>)))))"
    using assms(1,2) ms
    by (simp add: DecodeSubtreeDataPayload_def nc_def [symmetric] n Let_def del: of_nat_numeral flip: w_def cong: if_cong)
  have "unat w + 8 = e" using w(1) e by simp
  moreover have "BE64 payload (unat w) e = (Ok cc :: (frame_err, _) res)" if "e \<le> length payload"
    using that unfolding w(1) e cc by simp
  ultimately show ?thesis
    unfolding D short w(2) unfolding w8 by (simp cong: if_cong)
qed

lemma DecodeSubtreeDataPayload_small:
  assumes "24 \<le> length payload" and "nodeStride msgType = Ok stride" and "declaredNodes payload * 48 \<le> 2 ^ 48"
    and "declaredConflicts stride payload * 32 \<le> 2 ^ 48"
    and ns: "rmap (decodeNode payload msgType stride) [0..<declaredNodes payload] = Ok ns"
  shows "DecodeSubtreeDataPayload payload msgType =
    (if length payload < 32 + declaredNodes payload * stride + declaredConflicts stride payload * 32
     then Err ErrSubtreePayloadTooShort
     else Ok \<lparr>sp_TotalFees = BE_Uint64 (take 8 payload), sp_TotalSizeBytes = BE_Uint64 (take 8 (drop 8 payload)),
       sp_Nodes = ns, sp_ConflictHashes = conflictSlices stride payload\<rparr>)"
proof -
  define e where "e = 32 + declaredNodes payload * stride"
  define cc where "cc = BE_Uint64 (take 8 (drop (24 + declaredNodes payload * stride) payload))"
  have c: "declaredConflicts stride payload = unat cc" by (simp add: declaredConflicts_def cc_def)
  have "stride \<le> 48" using nodeStride_cases [OF assms(2)] by auto
  then have "declaredNodes payload * stride \<le> declaredNodes payload * 48" by (rule mult_left_mono) simp
  from order_trans [OF this assms(3)] have "e \<le> 2 ^ 49" unfolding e_def by simp
  moreover from this have e: "unat (word_of_nat e :: u64) = e" by (intro unat_u64_of_nat) simp
  ultimately have "sint (word_of_nat e + cc * 32 :: u64) = int (e + unat cc * 32)"
    using conflictsEnd_exact [of "word_of_nat e" cc] assms(4) by (simp only: c)
  then have short: "int (length payload) < sint (word_of_nat e + cc * 32 :: u64) \<longleftrightarrow> length payload < e + unat cc * 32"
    by (simp only: of_nat_less_iff)
  have "makeslice 32 cc = (Ok () :: (frame_err, unit) res)" using assms(4) by (simp add: makeslice_def c)
  then show ?thesis
    unfolding DecodeSubtreeDataPayload_unfold [OF assms(1-3) e_def cc_def] short ns
    using rmap_slices_in [of e "unat cc" 32 payload, where ?'a = frame_err]
    by (auto simp: c conflictSlices_def e_def [symmetric] not_less)
qed

lemma subtree_payload_wire_counts:
  assumes wf: "subtree_payload_wf msgType p" and stride: "nodeStride msgType = Ok stride"
  shows "length (subtree_payload_wire msgType p) = 32 + length (sp_Nodes p) * stride + length (sp_ConflictHashes p) * 32"
    and "declaredNodes (subtree_payload_wire msgType p @ rest) = length (sp_Nodes p)"
    and "declaredConflicts stride (subtree_payload_wire msgType p @ rest) = length (sp_ConflictHashes p)"
    and "conflictSlices stride (subtree_payload_wire msgType p @ rest) = sp_ConflictHashes p"
proof -
  let ?w = "subtree_payload_wire msgType p @ rest" and ?cs = "sp_ConflictHashes p"
  have node: "length (concat (map (node_wire msgType) (sp_Nodes p))) = length (sp_Nodes p) * stride"
    using wf stride by (intro concat_fixed_length length_node_wire) (auto simp: subtree_payload_wf_def)
  have conf: "length (concat ?cs) = length ?cs * 32"
    using wf concat_fixed_length [of ?cs "\<lambda>x. x" 32] by (simp add: subtree_payload_wf_def)
  show "length (subtree_payload_wire msgType p) = 32 + length (sp_Nodes p) * stride + length ?cs * 32"
    by (simp add: subtree_payload_wire_def node conf)
  have "length (sp_Nodes p) < 2 ^ 64" "length ?cs < 2 ^ 64"
    using wf by (auto simp: subtree_payload_wf_def)
  note small = this [THEN unat_u64_of_nat]
  show N: "declaredNodes ?w = length (sp_Nodes p)"
    by (simp add: declaredNodes_def subtree_payload_wire_def small)
  show C: "declaredConflicts stride ?w = length ?cs"
    by (simp add: declaredConflicts_def N) (simp add: subtree_payload_wire_def node small)
  let ?pre = "BE_PutUint64 (sp_TotalFees p) @ BE_PutUint64 (sp_TotalSizeBytes p) @
     BE_PutUint64 (word_of_nat (length (sp_Nodes p))) @ concat (map (node_wire msgType) (sp_Nodes p)) @
     BE_PutUint64 (word_of_nat (length ?cs))"
  have "rmap (\<lambda>i. slice (?pre @ concat ?cs @ rest) (length ?pre + i * 32) (length ?pre + i * 32 + 32)) [0..<length ?cs] =
      (Ok ?cs :: (frame_err, _) res)"
    using wf by (intro rmap_slices) (auto simp: subtree_payload_wf_def)
  moreover have "rmap (\<lambda>i. slice (?pre @ concat ?cs @ rest) (length ?pre + i * 32) (length ?pre + i * 32 + 32)) [0..<length ?cs] =
      (Ok (conflictSlices stride ?w) :: (frame_err, _) res)"
  proof (subst rmap_slices_in)
    have pre: "length ?pre = 32 + length (sp_Nodes p) * stride" by (simp add: node)
    have w: "?pre @ concat ?cs @ rest = ?w" by (simp add: subtree_payload_wire_def)
    show "Ok (map (\<lambda>i. take 32 (drop (length ?pre + i * 32) (?pre @ concat ?cs @ rest))) [0..<length ?cs]) =
        (Ok (conflictSlices stride ?w) :: (frame_err, _) res)"
      unfolding w pre by (simp add: conflictSlices_def N C)
  qed (simp add: conf)
  ultimately show "conflictSlices stride ?w = ?cs" by simp
qed

lemma DecodeSubtreeDataPayload_wire:
  assumes wf: "subtree_payload_wf msgType p"
  shows "DecodeSubtreeDataPayload (subtree_payload_wire msgType p @ rest) msgType = Ok p"
proof -
  let ?w = "subtree_payload_wire msgType p @ rest"
  obtain stride where stride: "nodeStride msgType = Ok stride"
    using wf by (auto simp: subtree_payload_wf_def nodeStride_def)
  note counts = subtree_payload_wire_counts [OF wf stride]
  let ?pre = "BE_PutUint64 (sp_TotalFees p) @ BE_PutUint64 (sp_TotalSizeBytes p) @
     BE_PutUint64 (word_of_nat (length (sp_Nodes p)))"
  have "rmap (decodeNode ?w msgType stride) [0..<declaredNodes ?w] = Ok (map ((!) (sp_Nodes p)) [0..<declaredNodes ?w])"
  proof (rule rmap_Ok)
    fix i assume "i \<in> set [0..<declaredNodes ?w]"
    then have "i < length (sp_Nodes p)" by (simp add: counts)
    then show "decodeNode ?w msgType stride i = Ok (sp_Nodes p ! i)"
      using decodeNode_wire [of "sp_Nodes p" msgType stride ?pre i] wf stride
      by (simp add: subtree_payload_wf_def subtree_payload_wire_def)
  qed
  also have "map ((!) (sp_Nodes p)) [0..<declaredNodes ?w] = sp_Nodes p"
    by (simp add: counts map_nth)
  finally have ns: "rmap (decodeNode ?w msgType stride) [0..<declaredNodes ?w] = Ok (sp_Nodes p)" .
  have "declaredNodes ?w * 48 \<le> 2 ^ 48" "declaredConflicts stride ?w * 32 \<le> 2 ^ 48"
    using wf unfolding counts subtree_payload_wf_def by blast+
  note small = DecodeSubtreeDataPayload_small [OF _ stride this ns]
  have "DecodeSubtreeDataPayload ?w msgType = Ok \<lparr>sp_TotalFees = BE_Uint64 (take 8 ?w),
      sp_TotalSizeBytes = BE_Uint64 (take 8 (drop 8 ?w)), sp_Nodes = sp_Nodes p, sp_ConflictHashes = sp_ConflictHashes p\<rparr>"
    by (subst small) (simp_all add: counts)
  then show ?thesis by (simp add: subtree_payload_wire_def)
qed

lemma EncodeSubtreeDataPayload_wire:
  assumes wf: "subtree_payload_wf msgType p"
  shows "EncodeSubtreeDataPayload p msgType = Ok (subtree_payload_wire msgType p)"
proof -
  obtain stride where stride: "nodeStride msgType = Ok stride"
    using wf by (auto simp: subtree_payload_wf_def nodeStride_def)
  note counts = subtree_payload_wire_counts [OF wf stride]
  let ?ns = "sp_Nodes p" and ?cs = "sp_ConflictHashes p"
  let ?g = "\<lambda>n. sn_TxHash n # (if msgType = SubtreeMsgFullNodes then [BE_PutUint64 (sn_Fee n), BE_PutUint64 (sn_Size n)] else [])"
  let ?ss = "[BE_PutUint64 (sp_TotalFees p), BE_PutUint64 (sp_TotalSizeBytes p), BE_PutUint64 (word_of_nat (length ?ns))]"
  let ?off = "24 + length ?ns * stride"
  have len: "length (node_wire msgType n) = stride" if "n \<in> set ?ns" for n
    using that wf stride by (intro length_node_wire) (auto simp: subtree_payload_wf_def)
  then have nl: "length (concat (map (node_wire msgType) ?ns)) = length ?ns * stride"
    by (rule concat_fixed_length)
  have g: "concat (?g n) = node_wire msgType n" for n by (simp add: node_wire_def)
  have "map (\<lambda>(i, n). nodeWrites msgType (24 + i * stride) n) (enumerate 0 ?ns) =
      (map (\<lambda>(i, n). chunks (24 + i * stride) (?g n)) (enumerate 0 ?ns) :: frame_err writer list list)"
    using wf by (auto simp: nodeWrites_def writer_defs subtree_payload_wf_def node_wf_def in_set_enumerate_eq)
  then have nodes: "concat (map (\<lambda>(i, n). nodeWrites msgType (24 + i * stride) n) (enumerate 0 ?ns)) =
      (chunks (24 + 0 * stride) (concat (map ?g ?ns)) :: frame_err writer list)"
    using wf stride by (simp only: g length_node_wire subtree_payload_wf_def chunks_enumerate)
  have confs: "map (\<lambda>(i, h). copyTo (?off + 8 + i * 32) (?off + 8 + i * 32 + 32) h) (enumerate 0 ?cs) =
      (chunks (?off + 8 + 0 * 32) ?cs :: frame_err writer list)"
    using wf by (intro chunks_enumerate_copy) (auto simp: subtree_payload_wf_def)
  have "EncodeSubtreeDataPayload p msgType =
      run (chunks 0 (?ss @ concat (map ?g ?ns) @ [BE_PutUint64 (word_of_nat (length ?cs))] @ ?cs))
        (replicate (length (subtree_payload_wire msgType p)) 0)"
    unfolding EncodeSubtreeDataPayload_def stride counts(1) Let_def chunks_append concat_concat_map g
    using nodes confs by (simp add: writer_defs nl add_ac del: run.simps)
  moreover have "concat (?ss @ concat (map ?g ?ns) @ [BE_PutUint64 (word_of_nat (length ?cs))] @ ?cs) =
      subtree_payload_wire msgType p"
    unfolding concat_append concat_concat_map g by (simp add: subtree_payload_wire_def)
  ultimately show ?thesis by (simp only: run_chunks_exact length_replicate)
qed

text \<open>
  Every payload the decoder accepts is the encoding of the value it returns, followed by ignored
  bytes; and it can only panic on a count whose array does not fit the address space.
\<close>

lemma DecodeSubtreeDataPayload_Ok:
  assumes ok: "DecodeSubtreeDataPayload payload msgType = Ok p"
  obtains stride ns where "nodeStride msgType = Ok stride"
    and "rmap (decodeNode payload msgType stride) [0..<declaredNodes payload] = Ok ns"
    and "declaredNodes payload * 48 \<le> 2 ^ 48" and "declaredConflicts stride payload * 32 \<le> 2 ^ 48"
    and "32 + declaredNodes payload * stride + declaredConflicts stride payload * 32 \<le> length payload"
    and "p = \<lparr>sp_TotalFees = BE_Uint64 (take 8 payload), sp_TotalSizeBytes = BE_Uint64 (take 8 (drop 8 payload)),
       sp_Nodes = ns, sp_ConflictHashes = conflictSlices stride payload\<rparr>"
proof -
  have len: "24 \<le> length payload"
    using ok by (auto simp: DecodeSubtreeDataPayload_def split: if_splits)
  then obtain stride where stride: "nodeStride msgType = Ok stride" and n: "declaredNodes payload * 48 \<le> 2 ^ 48"
    using ok by (auto simp: DecodeSubtreeDataPayload_def rbind_Ok_iff Let_def makeslice_def declaredNodes_def
        split: if_splits)
  note u = DecodeSubtreeDataPayload_unfold [OF len stride n refl refl]
  obtain ns where ns: "rmap (decodeNode payload msgType stride) [0..<declaredNodes payload] = Ok ns"
    and c: "declaredConflicts stride payload * 32 \<le> 2 ^ 48"
    using ok unfolding u by (auto simp: rbind_Ok_iff makeslice_def declaredConflicts_def split: if_splits)
  show ?thesis
    using ok DecodeSubtreeDataPayload_small [OF len stride n c ns] that [OF stride ns n c]
    by (auto split: if_splits)
qed

lemma DecodeSubtreeDataPayload_exact:
  assumes ok: "DecodeSubtreeDataPayload payload msgType = Ok p"
  shows "subtree_payload_wf msgType p"
    and "payload = subtree_payload_wire msgType p @ drop (length (subtree_payload_wire msgType p)) payload"
proof -
  obtain stride ns where stride: "nodeStride msgType = Ok stride"
    and rm: "rmap (decodeNode payload msgType stride) [0..<declaredNodes payload] = Ok ns"
    and n: "declaredNodes payload * 48 \<le> 2 ^ 48" and c: "declaredConflicts stride payload * 32 \<le> 2 ^ 48"
    and len: "32 + declaredNodes payload * stride + declaredConflicts stride payload * 32 \<le> length payload"
    and p: "p = \<lparr>sp_TotalFees = BE_Uint64 (take 8 payload), sp_TotalSizeBytes = BE_Uint64 (take 8 (drop 8 payload)),
       sp_Nodes = ns, sp_ConflictHashes = conflictSlices stride payload\<rparr>"
    using ok by (rule DecodeSubtreeDataPayload_Ok)
  let ?n = "declaredNodes payload" and ?c = "declaredConflicts stride payload"
  from decodeNodes_in [of ?n stride payload msgType] rm len stride
  have ns: "length ns = ?n" "\<forall>x \<in> set ns. node_wf msgType x"
    "concat (map (node_wire msgType) ns) = take (?n * stride) (drop 24 payload)" by auto
  have lc: "length (conflictSlices stride payload) = ?c" by (simp add: conflictSlices_def)
  have "Suc i * 32 \<le> ?c * 32" if "i < ?c" for i using that by (intro mult_right_mono) simp_all
  then have "\<forall>h \<in> set (conflictSlices stride payload). length h = 32"
    using len by (fastforce simp: conflictSlices_def)
  then show "subtree_payload_wf msgType p"
    using ns n c nodeStride_cases [OF stride] unfolding p subtree_payload_wf_def by (auto simp: lc)
  have "subtree_payload_wire msgType p = take 8 payload @ take 8 (drop 8 payload) @ take 8 (drop 16 payload) @
      take (?n * stride) (drop 24 payload) @ take 8 (drop (24 + ?n * stride) payload) @
      take (?c * 32) (drop (32 + ?n * stride) payload)"
    using len by (simp add: p subtree_payload_wire_def ns lc)
      (simp add: conflictSlices_def concat_slices declaredNodes_def declaredConflicts_def)
  also have "\<dots> = take (8 + (8 + (8 + (?n * stride + (8 + ?c * 32))))) payload"
    by (simp only: take_add drop_drop) (simp add: add_ac)
  finally show "payload = subtree_payload_wire msgType p @ drop (length (subtree_payload_wire msgType p)) payload"
    using len by (simp add: min_absorb2)
qed

lemma DecodeSubtreeDataPayload_Panic:
  assumes "DecodeSubtreeDataPayload payload msgType = Panic"
  obtains stride where "nodeStride msgType = Ok stride"
    and "2 ^ 48 < declaredNodes payload * 48 \<or> 2 ^ 48 < declaredConflicts stride payload * 32"
proof -
  have len: "24 \<le> length payload"
    using assms by (auto simp: DecodeSubtreeDataPayload_def split: if_splits)
  have "nodeStride msgType \<noteq> Panic" by (simp add: nodeStride_def)
  then obtain stride where stride: "nodeStride msgType = Ok stride"
    using assms len by (cases "nodeStride msgType") (auto simp: DecodeSubtreeDataPayload_def)
  moreover have "2 ^ 48 < declaredNodes payload * 48 \<or> 2 ^ 48 < declaredConflicts stride payload * 32"
  proof (rule ccontr)
    assume "\<not> ?thesis"
    then have n: "declaredNodes payload * 48 \<le> 2 ^ 48" and c: "declaredConflicts stride payload * 32 \<le> 2 ^ 48"
      by (simp_all only: not_less de_Morgan_disj)
    show False
    proof (cases "length payload < 32 + declaredNodes payload * stride")
      case True
      then show False using assms DecodeSubtreeDataPayload_unfold [OF len stride n refl refl] by simp
    next
      case False
      then obtain ns where "rmap (decodeNode payload msgType stride) [0..<declaredNodes payload] = Ok ns"
        using decodeNodes_in [of "declaredNodes payload" stride payload msgType] stride by auto
      from DecodeSubtreeDataPayload_small [OF len stride n c this] assms show False
        by (simp split: if_splits)
    qed
  qed
  ultimately show thesis by (rule that)
qed

section \<open>Properties\<close>

text \<open>
  The block announcement payload. Encoding always succeeds and the decoder reads the payload
  back, ignoring what follows it; conversely an accepted payload is the encoding of the value
  returned followed by ignored bytes, so that no hash is invented, lost or reordered, and a payload
  short of the hashes it declares is refused, never read out of bounds.
\<close>

theorem block_announce_codec:
  "(block_announce_wf a \<longrightarrow>
     (\<exists>enc. EncodeBlockAnnounce a = Ok enc \<and> length enc = 116 + 32 * length (ba_SubtreeHashes a) \<and>
        DecodeBlockAnnounce (enc @ rest) = Ok a)) \<and>
   (DecodeBlockAnnounce d = Ok b \<longrightarrow>
     block_announce_wf b \<and> (\<exists>enc extra. EncodeBlockAnnounce b = Ok enc \<and> d = enc @ extra)) \<and>
   DecodeBlockAnnounce d \<noteq> Panic"
proof (intro conjI impI DecodeBlockAnnounce_total)
  assume wf: "block_announce_wf a"
  then have "length (concat (ba_SubtreeHashes a)) = length (ba_SubtreeHashes a) * 32"
    using concat_fixed_length [of "ba_SubtreeHashes a" "\<lambda>x. x" 32] by (simp add: block_announce_wf_def)
  with wf have "length (block_announce_wire a) = 116 + 32 * length (ba_SubtreeHashes a)"
    by (simp add: block_announce_wire_def block_announce_wf_def)
  with EncodeBlockAnnounce_wire [OF wf] DecodeBlockAnnounce_wire [OF wf]
  show "\<exists>enc. EncodeBlockAnnounce a = Ok enc \<and> length enc = 116 + 32 * length (ba_SubtreeHashes a) \<and>
        DecodeBlockAnnounce (enc @ rest) = Ok a"
    by simp
next
  assume ok: "DecodeBlockAnnounce d = Ok b"
  note e = DecodeBlockAnnounce_exact [OF ok]
  show "block_announce_wf b" by (rule e(1))
  show "\<exists>enc extra. EncodeBlockAnnounce b = Ok enc \<and> d = enc @ extra"
    using EncodeBlockAnnounce_wire [OF e(1)] e(2) by blast
qed

definition sample_announce_payload :: block_announce where
  "sample_announce_payload = \<lparr>ba_Header = replicate 80 1, ba_CoinbaseTxID = replicate 32 2,
     ba_SubtreeHashes = [replicate 32 3, replicate 32 4]\<rparr>"

theorem block_announce_codec_witness:
  "\<exists>enc. EncodeBlockAnnounce sample_announce_payload = Ok enc \<and> length enc = 180 \<and>
     DecodeBlockAnnounce (enc @ [0]) = Ok sample_announce_payload \<and>
     (\<exists>enc' extra. EncodeBlockAnnounce sample_announce_payload = Ok enc' \<and> enc @ [0] = enc' @ extra)"
proof -
  have "block_announce_wf sample_announce_payload"
    by (simp add: block_announce_wf_def sample_announce_payload_def)
  moreover have "length (ba_SubtreeHashes sample_announce_payload) = 2"
    by (simp add: sample_announce_payload_def)
  ultimately obtain enc where "EncodeBlockAnnounce sample_announce_payload = Ok enc" and "length enc = 180"
    and "DecodeBlockAnnounce (enc @ [0]) = Ok sample_announce_payload"
    using block_announce_codec [of sample_announce_payload "[0]"] by auto
  then show ?thesis
    using block_announce_codec [of _ _ "enc @ [0]" sample_announce_payload] by blast
qed

text \<open>
  C8: the subtree data payload, in both node formats. The encoder output decodes to the payload it
  came from; conversely an accepted payload is the encoding of the value returned followed by
  ignored bytes, so the counts it declares were really present.
\<close>

theorem subtree_payload_codec:
  "(subtree_payload_wf m p \<longrightarrow>
     (\<exists>enc. EncodeSubtreeDataPayload p m = Ok enc \<and> DecodeSubtreeDataPayload (enc @ rest) m = Ok p)) \<and>
   (DecodeSubtreeDataPayload d m = Ok q \<longrightarrow>
     subtree_payload_wf m q \<and> (\<exists>enc extra. EncodeSubtreeDataPayload q m = Ok enc \<and> d = enc @ extra))"
proof (intro conjI impI)
  assume wf: "subtree_payload_wf m p"
  show "\<exists>enc. EncodeSubtreeDataPayload p m = Ok enc \<and> DecodeSubtreeDataPayload (enc @ rest) m = Ok p"
    using EncodeSubtreeDataPayload_wire [OF wf] DecodeSubtreeDataPayload_wire [OF wf] by blast
next
  assume ok: "DecodeSubtreeDataPayload d m = Ok q"
  note e = DecodeSubtreeDataPayload_exact [OF ok]
  show "subtree_payload_wf m q" by (rule e(1))
  show "\<exists>enc extra. EncodeSubtreeDataPayload q m = Ok enc \<and> d = enc @ extra"
    using EncodeSubtreeDataPayload_wire [OF e(1)] e(2) by blast
qed

definition sample_payload :: subtree_data_payload where
  "sample_payload = \<lparr>sp_TotalFees = 1, sp_TotalSizeBytes = 2,
     sp_Nodes = [\<lparr>sn_TxHash = replicate 32 1, sn_Fee = 3, sn_Size = 4\<rparr>], sp_ConflictHashes = [replicate 32 9]\<rparr>"

theorem subtree_payload_codec_witness:
  "\<exists>enc. EncodeSubtreeDataPayload sample_payload SubtreeMsgFullNodes = Ok enc \<and>
     DecodeSubtreeDataPayload (enc @ [5]) SubtreeMsgFullNodes = Ok sample_payload \<and>
     (\<exists>enc' extra. EncodeSubtreeDataPayload sample_payload SubtreeMsgFullNodes = Ok enc' \<and> enc @ [5] = enc' @ extra)"
proof -
  have "subtree_payload_wf SubtreeMsgFullNodes sample_payload"
    by (simp add: subtree_payload_wf_def node_wf_def sample_payload_def)
  then obtain enc where "EncodeSubtreeDataPayload sample_payload SubtreeMsgFullNodes = Ok enc"
    and "DecodeSubtreeDataPayload (enc @ [5]) SubtreeMsgFullNodes = Ok sample_payload"
    using subtree_payload_codec [of SubtreeMsgFullNodes sample_payload "[5]"] by blast
  then show ?thesis
    using subtree_payload_codec [of SubtreeMsgFullNodes _ _ "enc @ [5]" sample_payload] by blast
qed

text \<open>
  C9: when the subtree payload decoder crashes. Every panic comes from a node or conflict count whose
  array exceeds the address space; and such a crash exists: the product of the count \<open>2^59\<close> with the
  32-byte stride wraps to zero in 64 bits, a payload of 32 bytes passes the length check and the
  allocation of \<open>2^59\<close> nodes panics.
\<close>

theorem subtree_payload_panics:
  "(DecodeSubtreeDataPayload d m = Panic \<longrightarrow>
     (\<exists>stride. nodeStride m = Ok stride \<and>
        (2 ^ 48 < declaredNodes d * 48 \<or> 2 ^ 48 < declaredConflicts stride d * 32))) \<and>
   DecodeSubtreeDataPayload (replicate 16 0 @ BE_PutUint64 (2 ^ 59) @ replicate 8 0) SubtreeMsgHashesOnly = Panic"
proof (intro conjI impI)
  assume "DecodeSubtreeDataPayload d m = Panic"
  then show "\<exists>stride. nodeStride m = Ok stride \<and>
        (2 ^ 48 < declaredNodes d * 48 \<or> 2 ^ 48 < declaredConflicts stride d * 32)"
    by (rule DecodeSubtreeDataPayload_Panic) blast
next
  show "DecodeSubtreeDataPayload (replicate 16 0 @ BE_PutUint64 (2 ^ 59) @ replicate 8 0) SubtreeMsgHashesOnly = Panic"
    by (simp add: DecodeSubtreeDataPayload_def nodeStride_def makeslice_def Let_def)
qed

theorem subtree_payload_panics_witness:
  "\<exists>stride. nodeStride SubtreeMsgHashesOnly = Ok stride \<and>
     (2 ^ 48 < declaredNodes (replicate 16 0 @ BE_PutUint64 (2 ^ 59) @ replicate 8 0) * 48 \<or>
      2 ^ 48 < declaredConflicts stride (replicate 16 0 @ BE_PutUint64 (2 ^ 59) @ replicate 8 0) * 32)"
  using subtree_payload_panics [of "replicate 16 0 @ BE_PutUint64 (2 ^ 59) @ replicate 8 0" SubtreeMsgHashesOnly]
  by blast

end
