(* ===== verification/Shard_Manifest.thy ===== *)
theory Shard_Manifest
  imports Frame
begin

unbundle bit_operations_syntax

text \<open>
  The BRC-139 shard manifest codec with the BRC-148 domains section (\<^verbatim>\<open>frame/shard_manifest.go\<close>). The
  encoder is its checks (\<open>encodeChecks\<close>), its list of writes and the CRC; the decoder is split at the
  points where the source starts a new stage: fixed header, count checks, extent of the datagram,
  CRC, and one definition per trailing section. \<open>crc32c\<close> is the Castagnoli checksum of \<^verbatim>\<open>hash/crc32\<close>,
  bit by bit. Lengths and offsets stay below \<open>2^21\<close>, so \<^verbatim>\<open>int\<close> arithmetic on them does not wrap.
\<close>

section \<open>Constants, errors and records\<close>

abbreviation (input) MsgTypeShardManifest :: u8 where "MsgTypeShardManifest \<equiv> 0x40"
abbreviation (input) ShardManifestHeaderSize :: nat where "ShardManifestHeaderSize \<equiv> 64"
abbreviation (input) FlagGroupsValid :: u8 where "FlagGroupsValid \<equiv> 0x01"
abbreviation (input) FlagAuthoritative :: u8 where "FlagAuthoritative \<equiv> 0x02"
abbreviation (input) FlagShutdown :: u8 where "FlagShutdown \<equiv> 0x04"
abbreviation (input) FlagSourceModeSSM :: u8 where "FlagSourceModeSSM \<equiv> 0x08"
abbreviation (input) FlagSourcesValid :: u8 where "FlagSourcesValid \<equiv> 0x10"
abbreviation (input) FlagPilotOnly :: u8 where "FlagPilotOnly \<equiv> 0x20"
abbreviation (input) FlagSuccessorValid :: u8 where "FlagSuccessorValid \<equiv> 0x40"
abbreviation (input) FlagDomainsValid :: u8 where "FlagDomainsValid \<equiv> 0x80"
abbreviation (input) SuccessorBlockSize :: nat where "SuccessorBlockSize \<equiv> 24"
abbreviation (input) SuccessorFlagSourceModeSSM :: u8 where "SuccessorFlagSourceModeSSM \<equiv> 0x01"
abbreviation (input) MaxShardBits :: u8 where "MaxShardBits \<equiv> 12"
abbreviation (input) DomainDescriptorSize :: nat where "DomainDescriptorSize \<equiv> 24"
abbreviation (input) MaxDomainDescriptors :: nat where "MaxDomainDescriptors \<equiv> 15"
abbreviation (input) MaxDomainID :: u8 where "MaxDomainID \<equiv> 0x0E"
abbreviation (input) MaxPlaneShardBits :: u8 where "MaxPlaneShardBits \<equiv> 15"
abbreviation (input) domainControlBase :: u32 where "domainControlBase \<equiv> 0xF800"
abbreviation (input) DomainFlagSourceModeSSM :: u8 where "DomainFlagSourceModeSSM \<equiv> 0x01"
abbreviation (input) DomainFlagSuccessorValid :: u8 where "DomainFlagSuccessorValid \<equiv> 0x02"
abbreviation (input) DomainFlagActive :: u8 where "DomainFlagActive \<equiv> 0x04"

datatype manifest_err =
    ErrManifestBadMagic
  | ErrShardManifestTooShort
  | ErrShardManifestBadMsgType
  | ErrShardManifestBadShardBits
  | ErrShardManifestBadEncoding
  | ErrShardManifestTruncated
  | ErrShardManifestBadCRC
  | ErrShardManifestBadSources
  | ErrShardManifestBadSuccessor
  | ErrShardManifestBadFlags
  | ErrShardManifestBadDomains
  | ErrManifestBufferTooSmall

record successor_block =
  sb_GenerationID :: bytes
  sb_ShardBits :: u8
  sb_Flags :: u8
  sb_TransitionEpoch :: u32

record domain_descriptor =
  dd_DomainID :: u8
  dd_ShardBits :: u8
  dd_SlotSpan :: u8
  dd_Flags :: u8
  dd_Version :: u8
  dd_GenerationID :: bytes
  dd_Successor :: "successor_block option"

record shard_manifest =
  sm_Flags :: u8
  sm_SrcIPv6 :: bytes
  sm_InstanceID :: u32
  sm_Epoch :: u32
  sm_TTL :: u16
  sm_AnnounceInterval :: u16
  sm_ShardBits :: u8
  sm_RoleHint :: u8
  sm_GenerationID :: bytes
  sm_Groups :: "u16 list"
  sm_Bitmap :: bytes
  sm_Sources :: "bytes list"
  sm_Successor :: "successor_block option"
  sm_Domains :: "domain_descriptor list"

text \<open>The test \<^verbatim>\<open>flags&flag != 0\<close>.\<close>

definition has :: "u8 \<Rightarrow> u8 \<Rightarrow> bool" where
  "has flags flag \<longleftrightarrow> flags AND flag \<noteq> 0"

section \<open>Castagnoli checksum (hash/crc32)\<close>

definition crcBit :: "u32 \<Rightarrow> u32" where
  "crcBit c = (if bit c 0 then drop_bit 1 c XOR 0x82F63B78 else drop_bit 1 c)"

definition crcByte :: "u32 \<Rightarrow> byte \<Rightarrow> u32" where
  "crcByte c v = (crcBit ^^ 8) (c XOR ucast v)"

definition crc32c :: "bytes \<Rightarrow> u32" where
  "crc32c data = NOT (foldl crcByte (NOT 0) data)"

section \<open>Validation\<close>

definition validateFlags :: "u8 \<Rightarrow> (manifest_err, unit) res" where
  "validateFlags flags =
     (if has flags FlagPilotOnly \<and> \<not> has flags FlagAuthoritative then Err ErrShardManifestBadFlags
      else Ok ())"

definition withinOneBit :: "u8 \<Rightarrow> u8 \<Rightarrow> bool" where
  "withinOneBit a b = (if b < a then a - b \<le> 1 else b - a \<le> 1)"

primrec reserveSlots :: "nat \<Rightarrow> nat \<Rightarrow> u8 list \<Rightarrow> (manifest_err, u8 list) res" where
  "reserveSlots 0 s slots = Ok slots"
| "reserveSlots (Suc n) s slots =
     (if length slots \<le> s then Panic else
      let slots' = slots[s := slots ! s + 1] in
      if 1 < slots' ! s then Err ErrShardManifestBadDomains
      else reserveSlots n (Suc s) slots')"

definition validateDomainSuccessor :: "domain_descriptor \<Rightarrow> u8 \<Rightarrow> bool \<Rightarrow> (manifest_err, unit) res" where
  "validateDomainSuccessor d maxBits authoritative =
     (let hasSucc = dd_Successor d \<noteq> None; flagSucc = has (dd_Flags d) DomainFlagSuccessorValid in
      if hasSucc \<noteq> flagSucc then Err ErrShardManifestBadDomains else
      case dd_Successor d of None \<Rightarrow> Ok () | Some succ \<Rightarrow>
        if \<not> authoritative then Err ErrShardManifestBadDomains
        else if maxBits < sb_ShardBits succ then Err ErrShardManifestBadDomains
        else if \<not> withinOneBit (dd_ShardBits d) (sb_ShardBits succ) then Err ErrShardManifestBadDomains
        else if domainControlBase <
          push_bit 12 (ucast (dd_DomainID d)) + push_bit (unat (sb_ShardBits succ)) 1
        then Err ErrShardManifestBadDomains
        else Ok ())"

definition validateDomain ::
  "u8 \<Rightarrow> bytes \<Rightarrow> bool \<Rightarrow> domain_descriptor \<Rightarrow> bool list \<times> u8 list \<Rightarrow> (manifest_err, bool list \<times> u8 list) res"
where
  "validateDomain topShardBits topGeneration authoritative d = (\<lambda>(seen, slots).
     if MaxDomainID < dd_DomainID d then Err ErrShardManifestBadDomains else
     if length seen \<le> unat (dd_DomainID d) then Panic else
     if seen ! unat (dd_DomainID d) then Err ErrShardManifestBadDomains else
     let seen' = seen[unat (dd_DomainID d) := True];
         maxBits = (if dd_DomainID d = 0 then MaxShardBits else MaxPlaneShardBits) in
     if maxBits < dd_ShardBits d then Err ErrShardManifestBadDomains else
     if domainControlBase < push_bit 12 (ucast (dd_DomainID d)) + push_bit (unat (dd_ShardBits d)) 1
     then Err ErrShardManifestBadDomains else
     let implied = (if 12 < dd_ShardBits d then push_bit (unat (dd_ShardBits d - 12)) 1 else 1) in
     if dd_SlotSpan d < implied then Err ErrShardManifestBadDomains else
     if unat MaxDomainID + 1 < unat (dd_DomainID d) + unat (dd_SlotSpan d)
     then Err ErrShardManifestBadDomains else
     rbind (reserveSlots (unat (dd_SlotSpan d)) (unat (dd_DomainID d)) slots) (\<lambda>slots'.
     if dd_DomainID d = 0 \<and> (dd_ShardBits d \<noteq> topShardBits \<or> dd_GenerationID d \<noteq> topGeneration)
     then Err ErrShardManifestBadDomains else
     rbind (validateDomainSuccessor d maxBits authoritative) (\<lambda>_.
     Ok (seen', slots'))))"

primrec validateLoop ::
  "u8 \<Rightarrow> bytes \<Rightarrow> bool \<Rightarrow> domain_descriptor list \<Rightarrow> bool list \<times> u8 list \<Rightarrow> (manifest_err, unit) res"
where
  "validateLoop bits gen auth [] st = Ok ()"
| "validateLoop bits gen auth (d # ds) st =
     rbind (validateDomain bits gen auth d st) (\<lambda>st'. validateLoop bits gen auth ds st')"

definition validateDomains ::
  "domain_descriptor list \<Rightarrow> u8 \<Rightarrow> bytes \<Rightarrow> bool \<Rightarrow> (manifest_err, unit) res" where
  "validateDomains domains topShardBits topGeneration authoritative =
     (if length domains = 0 \<or> MaxDomainDescriptors < length domains then Err ErrShardManifestBadDomains else
      validateLoop topShardBits topGeneration authoritative domains
        (replicate (unat MaxDomainID + 1) False, replicate (unat MaxDomainID + 1) 0))"

section \<open>Encoding\<close>

definition ShardManifestSize :: "shard_manifest \<Rightarrow> nat" where
  "ShardManifestSize m =
     ShardManifestHeaderSize +
     (if has (sm_Flags m) FlagGroupsValid
      then if 0 < length (sm_Bitmap m) then length (sm_Bitmap m) else 2 * length (sm_Groups m)
      else 0) +
     16 * length (sm_Sources m) +
     (if has (sm_Flags m) FlagSuccessorValid then SuccessorBlockSize else 0) +
     (if has (sm_Flags m) FlagDomainsValid
      then 1 + sum_list (map (\<lambda>d. DomainDescriptorSize +
             (if has (dd_Flags d) DomainFlagSuccessorValid then SuccessorBlockSize else 0)) (sm_Domains m))
      else 0)"

text \<open>The checks of \<^verbatim>\<open>EncodeShardManifest\<close>, in the order of the source.\<close>

definition groupsChecks :: "shard_manifest \<Rightarrow> (manifest_err, unit) res" where
  "groupsChecks m =
     (let groupsValid = has (sm_Flags m) FlagGroupsValid;
          hasList = 0 < length (sm_Groups m);
          hasBitmap = 0 < length (sm_Bitmap m) in
      if \<not> groupsValid \<and> (hasList \<or> hasBitmap) then Err ErrShardManifestBadEncoding
      else if groupsValid \<and> hasList \<and> hasBitmap then Err ErrShardManifestBadEncoding
      else if groupsValid \<and> \<not> hasList \<and> \<not> hasBitmap then Err ErrShardManifestBadEncoding
      else if hasList \<and> (\<exists>i \<in> {1..<length (sm_Groups m)}. sm_Groups m ! i \<le> sm_Groups m ! (i - 1))
      then Err ErrShardManifestBadEncoding
      else if hasList \<and> 0xFFFF < length (sm_Groups m) then Err ErrShardManifestBadEncoding
      else if hasBitmap \<and> 0xFFFF < length (sm_Bitmap m) then Err ErrShardManifestBadEncoding
      else Ok ())"

definition sourcesChecks :: "shard_manifest \<Rightarrow> (manifest_err, unit) res" where
  "sourcesChecks m =
     (let sourcesValid = has (sm_Flags m) FlagSourcesValid; hasSources = 0 < length (sm_Sources m) in
      if sourcesValid \<and> \<not> hasSources then Err ErrShardManifestBadSources
      else if \<not> sourcesValid \<and> hasSources then Err ErrShardManifestBadSources
      else if hasSources \<and> 0xFFFF < length (sm_Sources m) then Err ErrShardManifestBadSources
      else Ok ())"

definition successorChecks :: "shard_manifest \<Rightarrow> (manifest_err, unit) res" where
  "successorChecks m =
     (let successorValid = has (sm_Flags m) FlagSuccessorValid in
      case sm_Successor m of
        None \<Rightarrow> if successorValid then Err ErrShardManifestBadSuccessor else Ok ()
      | Some succ \<Rightarrow>
          if \<not> successorValid then Err ErrShardManifestBadSuccessor
          else if \<not> has (sm_Flags m) FlagAuthoritative then Err ErrShardManifestBadSuccessor
          else if MaxShardBits < sb_ShardBits succ then Err ErrShardManifestBadSuccessor
          else if \<not> withinOneBit (sm_ShardBits m) (sb_ShardBits succ) then Err ErrShardManifestBadSuccessor
          else Ok ())"

definition domainsChecks :: "shard_manifest \<Rightarrow> (manifest_err, unit) res" where
  "domainsChecks m =
     (let domainsValid = has (sm_Flags m) FlagDomainsValid; hasDomains = 0 < length (sm_Domains m) in
      if domainsValid \<and> \<not> hasDomains then Err ErrShardManifestBadDomains
      else if \<not> domainsValid \<and> hasDomains then Err ErrShardManifestBadDomains
      else if domainsValid
      then validateDomains (sm_Domains m) (sm_ShardBits m) (sm_GenerationID m) (has (sm_Flags m) FlagAuthoritative)
      else Ok ())"

definition encodeChecks :: "shard_manifest \<Rightarrow> (manifest_err, unit) res" where
  "encodeChecks m =
     (if MaxShardBits < sm_ShardBits m then Err ErrShardManifestBadShardBits else
      rbind (groupsChecks m) (\<lambda>_.
      rbind (sourcesChecks m) (\<lambda>_.
      rbind (validateFlags (sm_Flags m)) (\<lambda>_.
      rbind (successorChecks m) (\<lambda>_.
      domainsChecks m)))))"

definition headerWrites :: "shard_manifest \<Rightarrow> manifest_err writer list" where
  "headerWrites m =
     (let hasBitmap = 0 < length (sm_Bitmap m); hasList = 0 < length (sm_Groups m);
          bitmapBytes = (if hasBitmap then word_of_nat (length (sm_Bitmap m)) else 0);
          groupCount = (if hasBitmap then 0 else if hasList then word_of_nat (length (sm_Groups m)) else 0) in
      [putBE32 0 4 MagicBSV, putBE16 4 6 ProtoVer, put8 6 MsgTypeShardManifest, put8 7 (sm_Flags m),
       copyTo 8 24 (sm_SrcIPv6 m), putBE32 24 28 (sm_InstanceID m), putBE32 28 32 (sm_Epoch m),
       putBE16 32 34 (sm_TTL m), putBE16 34 36 (sm_AnnounceInterval m), put8 36 (sm_ShardBits m),
       put8 37 (sm_RoleHint m), putBE16 38 40 groupCount, putBE16 40 42 bitmapBytes,
       putBE16 42 44 (word_of_nat (length (sm_Sources m))), put8 44 0, put8 45 0, put8 46 0, put8 47 0,
       copyTo 48 64 (sm_GenerationID m)])"

primrec listWrites :: "u16 list \<Rightarrow> nat \<Rightarrow> manifest_err writer list" where
  "listWrites [] off = []"
| "listWrites (g # gs) off = putBE16 off (off + 2) g # listWrites gs (off + 2)"

primrec sourcesWrites :: "bytes list \<Rightarrow> nat \<Rightarrow> manifest_err writer list" where
  "sourcesWrites [] off = []"
| "sourcesWrites (s # ss) off = copyTo off (off + 16) s # sourcesWrites ss (off + 16)"

definition successorWrites :: "successor_block \<Rightarrow> nat \<Rightarrow> manifest_err writer list" where
  "successorWrites s off =
     [copyTo off (off + 16) (sb_GenerationID s), put8 (off + 16) (sb_ShardBits s), put8 (off + 17) (sb_Flags s),
      put8 (off + 18) 0, put8 (off + 19) 0, putBE32 (off + 20) (off + 24) (sb_TransitionEpoch s)]"

definition descriptorWrites :: "domain_descriptor \<Rightarrow> nat \<Rightarrow> manifest_err writer list" where
  "descriptorWrites d off =
     [put8 off (dd_DomainID d), put8 (off + 1) (dd_ShardBits d), put8 (off + 2) (dd_SlotSpan d),
      put8 (off + 3) (dd_Flags d), put8 (off + 4) (dd_Version d), put8 (off + 5) 0, put8 (off + 6) 0,
      put8 (off + 7) 0, copyTo (off + 8) (off + 24) (dd_GenerationID d)]"

primrec domainsWrites :: "domain_descriptor list \<Rightarrow> nat \<Rightarrow> manifest_err writer list" where
  "domainsWrites [] off = []"
| "domainsWrites (d # ds) off =
     descriptorWrites d off @
     (case dd_Successor d of
        None \<Rightarrow> domainsWrites ds (off + DomainDescriptorSize)
      | Some s \<Rightarrow> successorWrites s (off + DomainDescriptorSize) @
          domainsWrites ds (off + DomainDescriptorSize + SuccessorBlockSize))"

definition payloadWrites :: "shard_manifest \<Rightarrow> manifest_err writer list" where
  "payloadWrites m =
     (let off0 = ShardManifestHeaderSize;
          off1 = off0 + (if 0 < length (sm_Bitmap m) then length (sm_Bitmap m) else 2 * length (sm_Groups m));
          off2 = off1 + 16 * length (sm_Sources m);
          successorValid = has (sm_Flags m) FlagSuccessorValid;
          off3 = off2 + (if successorValid then SuccessorBlockSize else 0) in
      (if 0 < length (sm_Bitmap m) then [copyTo off0 (off0 + length (sm_Bitmap m)) (sm_Bitmap m)]
       else listWrites (sm_Groups m) off0) @
      sourcesWrites (sm_Sources m) off1 @
      (if successorValid then case sm_Successor m of Some s \<Rightarrow> successorWrites s off2 | None \<Rightarrow> [\<lambda>_. Panic] else []) @
      (if has (sm_Flags m) FlagDomainsValid
       then put8 off3 (word_of_nat (length (sm_Domains m))) # domainsWrites (sm_Domains m) (off3 + 1)
       else []))"

definition EncodeShardManifest :: "shard_manifest \<Rightarrow> bytes \<Rightarrow> (manifest_err, nat \<times> bytes) res" where
  "EncodeShardManifest m buf =
     rbind (encodeChecks m) (\<lambda>_.
     let total = ShardManifestSize m in
     if length buf < total then Err ErrManifestBufferTooSmall else
     rbind (run (headerWrites m @ payloadWrites m) buf) (\<lambda>out.
     rbind (slice out 0 total) (\<lambda>datagram.
     rbind (putBE32 44 48 (crc32c datagram) out) (\<lambda>out.
     Ok (total, out)))))"

section \<open>Decoding\<close>

definition decodeHeader :: "bytes \<Rightarrow> (manifest_err, shard_manifest) res" where
  "decodeHeader buf =
     rbind (index buf 7) (\<lambda>flags.
     rbind (BE32 buf 24 28) (\<lambda>instanceID.
     rbind (BE32 buf 28 32) (\<lambda>epoch.
     rbind (BE16 buf 32 34) (\<lambda>ttl.
     rbind (BE16 buf 34 36) (\<lambda>announceInterval.
     rbind (index buf 36) (\<lambda>shardBits.
     rbind (index buf 37) (\<lambda>roleHint.
     rbind (slice buf 8 24) (\<lambda>srcIPv6.
     rbind (slice buf 48 64) (\<lambda>generationID.
     Ok \<lparr>sm_Flags = flags, sm_SrcIPv6 = srcIPv6, sm_InstanceID = instanceID, sm_Epoch = epoch, sm_TTL = ttl,
         sm_AnnounceInterval = announceInterval, sm_ShardBits = shardBits, sm_RoleHint = roleHint,
         sm_GenerationID = generationID, sm_Groups = [], sm_Bitmap = [], sm_Sources = [],
         sm_Successor = None, sm_Domains = []\<rparr>)))))))))"

definition countChecks :: "u8 \<Rightarrow> u16 \<Rightarrow> u16 \<Rightarrow> u16 \<Rightarrow> (manifest_err, unit) res" where
  "countChecks flags groupCount bitmapBytes sourceCount =
     (let groupsValid = has flags FlagGroupsValid; sourcesValid = has flags FlagSourcesValid in
      if \<not> groupsValid \<and> (groupCount \<noteq> 0 \<or> bitmapBytes \<noteq> 0) then Err ErrShardManifestBadEncoding
      else if groupsValid \<and> 0 < bitmapBytes \<and> 0 < groupCount then Err ErrShardManifestBadEncoding
      else if groupsValid \<and> bitmapBytes = 0 \<and> groupCount = 0 then Err ErrShardManifestBadEncoding
      else if sourcesValid \<and> sourceCount = 0 then Err ErrShardManifestBadSources
      else if \<not> sourcesValid \<and> 0 < sourceCount then Err ErrShardManifestBadSources
      else rbind (validateFlags flags) (\<lambda>_.
      if has flags FlagSuccessorValid \<and> \<not> has flags FlagAuthoritative then Err ErrShardManifestBadSuccessor
      else Ok ()))"

primrec scanDescriptors :: "nat \<Rightarrow> bytes \<Rightarrow> nat \<Rightarrow> (manifest_err, nat) res" where
  "scanDescriptors 0 buf scan = Ok scan"
| "scanDescriptors (Suc n) buf scan =
     (if length buf < scan + DomainDescriptorSize then Err ErrShardManifestTruncated else
      rbind (index buf (scan + 3)) (\<lambda>flags.
      scanDescriptors n buf (scan + DomainDescriptorSize +
        (if has flags DomainFlagSuccessorValid then SuccessorBlockSize else 0))))"

definition scanDomains :: "bytes \<Rightarrow> nat \<Rightarrow> (manifest_err, nat) res" where
  "scanDomains buf extent =
     (if length buf < extent + 1 then Err ErrShardManifestTruncated else
      rbind (index buf extent) (\<lambda>count.
      if unat count < 1 \<or> MaxDomainDescriptors < unat count then Err ErrShardManifestBadDomains else
      rbind (scanDescriptors (unat count) buf (extent + 1)) (\<lambda>scan.
      if length buf < scan then Err ErrShardManifestTruncated else Ok scan)))"

definition verifyCRC :: "bytes \<Rightarrow> nat \<Rightarrow> (manifest_err, unit) res" where
  "verifyCRC buf extent =
     rbind (BE32 buf 44 48) (\<lambda>wantCRC.
     rbind (slice buf 0 extent) (\<lambda>tmp.
     rbind (run [put8 44 0, put8 45 0, put8 46 0, put8 47 0] tmp) (\<lambda>tmp.
     if crc32c tmp \<noteq> wantCRC then Err ErrShardManifestBadCRC else Ok ())))"

primrec decodeList :: "nat \<Rightarrow> bytes \<Rightarrow> nat \<Rightarrow> nat \<Rightarrow> u16 \<Rightarrow> (manifest_err, u16 list) res" where
  "decodeList 0 buf off i prev = Ok []"
| "decodeList (Suc n) buf off i prev =
     rbind (BE16 buf off (off + 2)) (\<lambda>g.
     if 0 < i \<and> g \<le> prev then Err ErrShardManifestBadEncoding else
     rbind (decodeList n buf (off + 2) (Suc i) g) (\<lambda>gs. Ok (g # gs)))"

primrec decodeSources :: "nat \<Rightarrow> bytes \<Rightarrow> nat \<Rightarrow> (manifest_err, bytes list) res" where
  "decodeSources 0 buf off = Ok []"
| "decodeSources (Suc n) buf off =
     rbind (slice buf off (off + 16)) (\<lambda>s.
     rbind (decodeSources n buf (off + 16)) (\<lambda>ss. Ok (s # ss)))"

definition decodeSuccessor :: "bytes \<Rightarrow> nat \<Rightarrow> (manifest_err, successor_block) res" where
  "decodeSuccessor buf off =
     rbind (index buf (off + 16)) (\<lambda>shardBits.
     rbind (index buf (off + 17)) (\<lambda>flags.
     rbind (BE32 buf (off + 20) (off + 24)) (\<lambda>epoch.
     rbind (slice buf off (off + 16)) (\<lambda>gen.
     Ok \<lparr>sb_GenerationID = gen, sb_ShardBits = shardBits, sb_Flags = flags, sb_TransitionEpoch = epoch\<rparr>))))"

definition decodeDescriptor :: "bytes \<Rightarrow> nat \<Rightarrow> (manifest_err, domain_descriptor) res" where
  "decodeDescriptor buf off =
     rbind (index buf off) (\<lambda>domainID.
     rbind (index buf (off + 1)) (\<lambda>shardBits.
     rbind (index buf (off + 2)) (\<lambda>slotSpan.
     rbind (index buf (off + 3)) (\<lambda>flags.
     rbind (index buf (off + 4)) (\<lambda>version.
     rbind (slice buf (off + 8) (off + 24)) (\<lambda>gen.
     Ok \<lparr>dd_DomainID = domainID, dd_ShardBits = shardBits, dd_SlotSpan = slotSpan, dd_Flags = flags,
         dd_Version = version, dd_GenerationID = gen, dd_Successor = None\<rparr>))))))"

primrec decodeDescriptors :: "nat \<Rightarrow> bytes \<Rightarrow> nat \<Rightarrow> (manifest_err, domain_descriptor list) res" where
  "decodeDescriptors 0 buf off = Ok []"
| "decodeDescriptors (Suc n) buf off =
     rbind (decodeDescriptor buf off) (\<lambda>d.
     if has (dd_Flags d) DomainFlagSuccessorValid then
       rbind (decodeSuccessor buf (off + DomainDescriptorSize)) (\<lambda>s.
       rbind (decodeDescriptors n buf (off + DomainDescriptorSize + SuccessorBlockSize)) (\<lambda>ds.
       Ok (d\<lparr>dd_Successor := Some s\<rparr> # ds)))
     else
       rbind (decodeDescriptors n buf (off + DomainDescriptorSize)) (\<lambda>ds.
       Ok (d # ds)))"

definition decodeGroups :: "bytes \<Rightarrow> nat \<Rightarrow> u16 \<Rightarrow> u16 \<Rightarrow> (manifest_err, u16 list \<times> bytes) res" where
  "decodeGroups buf off groupCount bitmapBytes =
     (if 0 < bitmapBytes then rbind (slice buf off (off + unat bitmapBytes)) (\<lambda>bitmap. Ok ([], bitmap))
      else rbind (decodeList (unat groupCount) buf off 0 0) (\<lambda>groups. Ok (groups, [])))"

definition decodeSuccessorSection :: "bytes \<Rightarrow> nat \<Rightarrow> u8 \<Rightarrow> u8 \<Rightarrow> (manifest_err, successor_block option) res" where
  "decodeSuccessorSection buf off flags shardBits =
     (if has flags FlagSuccessorValid then
        rbind (decodeSuccessor buf off) (\<lambda>s.
        if MaxShardBits < sb_ShardBits s then Err ErrShardManifestBadSuccessor
        else if \<not> withinOneBit shardBits (sb_ShardBits s) then Err ErrShardManifestBadSuccessor
        else Ok (Some s))
      else Ok None)"

definition decodeDomainsSection ::
  "bytes \<Rightarrow> nat \<Rightarrow> u8 \<Rightarrow> u8 \<Rightarrow> bytes \<Rightarrow> (manifest_err, domain_descriptor list) res" where
  "decodeDomainsSection buf off flags shardBits generationID =
     (if has flags FlagDomainsValid then
        rbind (index buf off) (\<lambda>count.
        rbind (decodeDescriptors (unat count) buf (off + 1)) (\<lambda>domains.
        rbind (validateDomains domains shardBits generationID (has flags FlagAuthoritative)) (\<lambda>_.
        Ok domains)))
      else Ok [])"

definition decodePayload :: "bytes \<Rightarrow> u16 \<Rightarrow> u16 \<Rightarrow> u16 \<Rightarrow> shard_manifest \<Rightarrow> (manifest_err, shard_manifest) res" where
  "decodePayload buf groupCount bitmapBytes sourceCount m =
     (let off0 = ShardManifestHeaderSize;
          off1 = off0 + (if 0 < bitmapBytes then unat bitmapBytes else 2 * unat groupCount);
          off2 = off1 + 16 * unat sourceCount;
          off3 = off2 + (if has (sm_Flags m) FlagSuccessorValid then SuccessorBlockSize else 0) in
      rbind (decodeGroups buf off0 groupCount bitmapBytes) (\<lambda>(groups, bitmap).
      rbind (decodeSources (unat sourceCount) buf off1) (\<lambda>sources.
      rbind (decodeSuccessorSection buf off2 (sm_Flags m) (sm_ShardBits m)) (\<lambda>successor.
      rbind (decodeDomainsSection buf off3 (sm_Flags m) (sm_ShardBits m) (sm_GenerationID m)) (\<lambda>domains.
      Ok (m\<lparr>sm_Groups := groups, sm_Bitmap := bitmap, sm_Sources := sources, sm_Successor := successor,
            sm_Domains := domains\<rparr>))))))"

definition fixedExtent :: "u8 \<Rightarrow> u16 \<Rightarrow> u16 \<Rightarrow> u16 \<Rightarrow> nat" where
  "fixedExtent flags groupCount bitmapBytes sourceCount =
     (let groupsLen = (if bitmapBytes = 0 then 2 * unat groupCount else unat bitmapBytes);
          sourcesLen = 16 * unat sourceCount;
          successorLen = (if has flags FlagSuccessorValid then SuccessorBlockSize else 0) in
      ShardManifestHeaderSize + groupsLen + sourcesLen + successorLen)"

definition datagramExtent :: "bytes \<Rightarrow> u8 \<Rightarrow> nat \<Rightarrow> (manifest_err, nat) res" where
  "datagramExtent buf flags extent =
     (if length buf < extent then Err ErrShardManifestTruncated
      else if has flags FlagDomainsValid then scanDomains buf extent
      else Ok extent)"

definition DecodeShardManifest :: "bytes \<Rightarrow> (manifest_err, shard_manifest) res" where
  "DecodeShardManifest buf =
     (if length buf < ShardManifestHeaderSize then Err ErrShardManifestTooShort else
      rbind (BE32 buf 0 4) (\<lambda>magic.
      if magic \<noteq> MagicBSV then Err ErrManifestBadMagic else
      rbind (index buf 6) (\<lambda>msgType.
      if msgType \<noteq> MsgTypeShardManifest then Err ErrShardManifestBadMsgType else
      rbind (decodeHeader buf) (\<lambda>m.
      if MaxShardBits < sm_ShardBits m then Err ErrShardManifestBadShardBits else
      rbind (BE16 buf 38 40) (\<lambda>groupCount.
      rbind (BE16 buf 40 42) (\<lambda>bitmapBytes.
      rbind (BE16 buf 42 44) (\<lambda>sourceCount.
      rbind (countChecks (sm_Flags m) groupCount bitmapBytes sourceCount) (\<lambda>_.
      rbind (datagramExtent buf (sm_Flags m)
        (fixedExtent (sm_Flags m) groupCount bitmapBytes sourceCount)) (\<lambda>total.
      rbind (verifyCRC buf total) (\<lambda>_.
      decodePayload buf groupCount bitmapBytes sourceCount m))))))))))"

definition IsShardManifest :: "bytes \<Rightarrow> bool" where
  "IsShardManifest buf \<longleftrightarrow> ShardManifestHeaderSize \<le> length buf \<and>
     BE_Uint32 (take 4 buf) = MagicBSV \<and> buf ! 6 = MsgTypeShardManifest"

section \<open>Layout\<close>

definition succ_chunks :: "successor_block \<Rightarrow> bytes list" where
  "succ_chunks s = [sb_GenerationID s, [sb_ShardBits s], [sb_Flags s], [0], [0], BE_PutUint32 (sb_TransitionEpoch s)]"

definition desc_chunks :: "domain_descriptor \<Rightarrow> bytes list" where
  "desc_chunks d =
     [[dd_DomainID d], [dd_ShardBits d], [dd_SlotSpan d], [dd_Flags d], [dd_Version d], [0], [0], [0], dd_GenerationID d] @
     (case dd_Successor d of None \<Rightarrow> [] | Some s \<Rightarrow> succ_chunks s)"

definition groups_chunks :: "shard_manifest \<Rightarrow> bytes list" where
  "groups_chunks m = (if 0 < length (sm_Bitmap m) then [sm_Bitmap m] else map BE_PutUint16 (sm_Groups m))"

definition tail_chunks :: "shard_manifest \<Rightarrow> bytes list" where
  "tail_chunks m =
     (if has (sm_Flags m) FlagSuccessorValid then succ_chunks (the (sm_Successor m)) else []) @
     (if has (sm_Flags m) FlagDomainsValid
      then [word_of_nat (length (sm_Domains m))] # concat (map desc_chunks (sm_Domains m)) else [])"

definition payload_chunks :: "shard_manifest \<Rightarrow> bytes list" where
  "payload_chunks m = groups_chunks m @ sm_Sources m @ tail_chunks m"

definition list_count :: "shard_manifest \<Rightarrow> u16" where
  "list_count m = (if 0 < length (sm_Bitmap m) then 0 else word_of_nat (length (sm_Groups m)))"

definition head1_chunks :: "shard_manifest \<Rightarrow> bytes list" where
  "head1_chunks m =
     [BE_PutUint32 MagicBSV, BE_PutUint16 ProtoVer, [MsgTypeShardManifest], [sm_Flags m], sm_SrcIPv6 m,
      BE_PutUint32 (sm_InstanceID m), BE_PutUint32 (sm_Epoch m), BE_PutUint16 (sm_TTL m),
      BE_PutUint16 (sm_AnnounceInterval m), [sm_ShardBits m], [sm_RoleHint m], BE_PutUint16 (list_count m),
      BE_PutUint16 (word_of_nat (length (sm_Bitmap m))), BE_PutUint16 (word_of_nat (length (sm_Sources m)))]"

definition manifest_frame :: "shard_manifest \<Rightarrow> bytes \<Rightarrow> bytes" where
  "manifest_frame m crc = concat (head1_chunks m) @ crc @ sm_GenerationID m @ concat (payload_chunks m)"

definition manifest_wire :: "shard_manifest \<Rightarrow> bytes" where
  "manifest_wire m = manifest_frame m (BE_PutUint32 (crc32c (manifest_frame m [0, 0, 0, 0])))"

text \<open>The sizes of the fixed arrays of the Go structures.\<close>

definition succ_shape :: "successor_block \<Rightarrow> bool" where
  "succ_shape s \<longleftrightarrow> length (sb_GenerationID s) = 16"

definition desc_shape :: "domain_descriptor \<Rightarrow> bool" where
  "desc_shape d \<longleftrightarrow> length (dd_GenerationID d) = 16 \<and> (\<forall>s. dd_Successor d = Some s \<longrightarrow> succ_shape s)"

definition manifest_shape :: "shard_manifest \<Rightarrow> bool" where
  "manifest_shape m \<longleftrightarrow> length (sm_SrcIPv6 m) = 16 \<and> length (sm_GenerationID m) = 16 \<and>
     (\<forall>s \<in> set (sm_Sources m). length s = 16) \<and> (\<forall>s. sm_Successor m = Some s \<longrightarrow> succ_shape s) \<and>
     (\<forall>d \<in> set (sm_Domains m). desc_shape d)"

definition manifest_wf :: "shard_manifest \<Rightarrow> bool" where
  "manifest_wf m \<longleftrightarrow> manifest_shape m \<and> encodeChecks m = Ok ()"

lemma listWrites_chunks: "listWrites gs off = chunks off (map BE_PutUint16 gs)"
  by (induction gs arbitrary: off) (simp_all add: putBE16_def)

lemma sourcesWrites_chunks: "\<forall>s \<in> set ss. length s = 16 \<Longrightarrow> sourcesWrites ss off = chunks off ss"
  by (induction ss arbitrary: off) simp_all

lemma successorWrites_chunks: "succ_shape s \<Longrightarrow> successorWrites s off = chunks off (succ_chunks s)"
  by (simp add: successorWrites_def succ_chunks_def succ_shape_def writer_defs add.commute [of off])

lemma length_succ_chunks [simp]: "succ_shape s \<Longrightarrow> length (concat (succ_chunks s)) = 24"
  by (simp add: succ_chunks_def succ_shape_def)

lemma descriptor_chunks:
  "desc_shape d \<Longrightarrow> dd_Successor d = None \<Longrightarrow> descriptorWrites d off = chunks off (desc_chunks d)"
  "desc_shape d \<Longrightarrow> dd_Successor d = Some s \<Longrightarrow>
   descriptorWrites d off @ successorWrites s (off + DomainDescriptorSize) = chunks off (desc_chunks d)"
  by (auto simp add: descriptorWrites_def desc_chunks_def desc_shape_def writer_defs successorWrites_chunks
      add.commute [of off] numeral_eq_Suc)

lemma length_desc_chunks:
  "desc_shape d \<Longrightarrow>
   length (concat (desc_chunks d)) = DomainDescriptorSize + (if dd_Successor d = None then 0 else SuccessorBlockSize)"
  by (auto simp: desc_chunks_def desc_shape_def split: option.splits)

lemma domainsWrites_chunks:
  "\<forall>d \<in> set ds. desc_shape d \<Longrightarrow> domainsWrites ds off = chunks off (concat (map desc_chunks ds))"
proof (induction ds arbitrary: off)
  case (Cons d ds)
  then have d: "desc_shape d" by simp
  note len = length_desc_chunks [OF d]
  show ?case
  proof (cases "dd_Successor d")
    case None
    then show ?thesis using Cons d len by (simp add: descriptor_chunks chunks_append)
  next
    case (Some s)
    then show ?thesis
      using Cons d len descriptor_chunks(2) [OF d Some, of off, symmetric]
      by (simp add: chunks_append add.commute [of off])
  qed
qed simp

lemma has_succ_dom: "validateDomainSuccessor d mb a = Ok () \<Longrightarrow> has (dd_Flags d) DomainFlagSuccessorValid \<longleftrightarrow> dd_Successor d \<noteq> None"
  by (auto simp: validateDomainSuccessor_def Let_def split: if_splits)

lemma validateDomain_succ:
  "validateDomain bits gen a d st = Ok st' \<Longrightarrow> has (dd_Flags d) DomainFlagSuccessorValid \<longleftrightarrow> dd_Successor d \<noteq> None"
  by (auto simp: validateDomain_def Let_def rbind_Ok_iff dest: has_succ_dom split: if_splits prod.splits)

lemma validateLoop_succ:
  "validateLoop bits gen a ds st = Ok () \<Longrightarrow>
   \<forall>d \<in> set ds. has (dd_Flags d) DomainFlagSuccessorValid \<longleftrightarrow> dd_Successor d \<noteq> None"
  by (induction ds arbitrary: st) (auto simp: rbind_Ok_iff dest: validateDomain_succ)

text \<open>What the encoder's checks establish.\<close>

lemma encodeChecks_facts:
  assumes "encodeChecks m = Ok ()"
  shows "sm_ShardBits m \<le> MaxShardBits"
    and "has (sm_Flags m) FlagGroupsValid \<longleftrightarrow> sm_Groups m \<noteq> [] \<or> sm_Bitmap m \<noteq> []"
    and "sm_Groups m = [] \<or> sm_Bitmap m = []"
    and "length (sm_Groups m) < 2 ^ 16" and "length (sm_Bitmap m) < 2 ^ 16" and "length (sm_Sources m) < 2 ^ 16"
    and "\<forall>i \<in> {1..<length (sm_Groups m)}. sm_Groups m ! (i - 1) < sm_Groups m ! i"
    and "has (sm_Flags m) FlagSourcesValid \<longleftrightarrow> sm_Sources m \<noteq> []"
    and "validateFlags (sm_Flags m) = Ok ()"
    and "has (sm_Flags m) FlagSuccessorValid \<longleftrightarrow> sm_Successor m \<noteq> None"
    and "successorChecks m = Ok ()" and "domainsChecks m = Ok ()"
    and "has (sm_Flags m) FlagDomainsValid \<longleftrightarrow> sm_Domains m \<noteq> []"
proof -
  have c: "sm_ShardBits m \<le> MaxShardBits" "groupsChecks m = Ok ()" "sourcesChecks m = Ok ()"
    "validateFlags (sm_Flags m) = Ok ()" "successorChecks m = Ok ()" "domainsChecks m = Ok ()"
    using assms by (auto simp: encodeChecks_def rbind_Ok_iff split: if_splits)
  then show "sm_ShardBits m \<le> MaxShardBits" "validateFlags (sm_Flags m) = Ok ()" "successorChecks m = Ok ()"
    "domainsChecks m = Ok ()" by simp_all
  show "has (sm_Flags m) FlagGroupsValid \<longleftrightarrow> sm_Groups m \<noteq> [] \<or> sm_Bitmap m \<noteq> []"
    "sm_Groups m = [] \<or> sm_Bitmap m = []" "length (sm_Groups m) < 2 ^ 16" "length (sm_Bitmap m) < 2 ^ 16"
    "\<forall>i \<in> {1..<length (sm_Groups m)}. sm_Groups m ! (i - 1) < sm_Groups m ! i"
    using c(2) by (auto simp: groupsChecks_def Let_def not_le split: if_splits)
  show "length (sm_Sources m) < 2 ^ 16" "has (sm_Flags m) FlagSourcesValid \<longleftrightarrow> sm_Sources m \<noteq> []"
    using c(3) by (auto simp: sourcesChecks_def Let_def split: if_splits)
  show "has (sm_Flags m) FlagSuccessorValid \<longleftrightarrow> sm_Successor m \<noteq> None"
    using c(5) by (auto simp: successorChecks_def Let_def split: if_splits option.splits)
  show "has (sm_Flags m) FlagDomainsValid \<longleftrightarrow> sm_Domains m \<noteq> []"
    using c(6) by (auto simp: domainsChecks_def Let_def split: if_splits)
qed

section \<open>The encoder writes the layout\<close>

lemma length_head1: "length (sm_SrcIPv6 m) = 16 \<Longrightarrow> length (concat (head1_chunks m)) = 44"
  by (simp add: head1_chunks_def)

lemma length_groups_chunks:
  "length (concat (groups_chunks m)) = (if 0 < length (sm_Bitmap m) then length (sm_Bitmap m) else 2 * length (sm_Groups m))"
proof -
  have "length (concat (map BE_PutUint16 gs)) = 2 * length gs" for gs by (induction gs) simp_all
  then show ?thesis by (simp add: groups_chunks_def)
qed

lemma length_sources: "\<forall>s \<in> set ss. length s = 16 \<Longrightarrow> length (concat ss) = 16 * length ss"
  using concat_fixed_length [of ss "\<lambda>x. x" 16] by simp

lemma length_descs:
  "\<forall>d \<in> set ds. desc_shape d \<and> (has (dd_Flags d) DomainFlagSuccessorValid \<longleftrightarrow> dd_Successor d \<noteq> None) \<Longrightarrow>
   length (concat (concat (map desc_chunks ds))) = sum_list (map (\<lambda>d. DomainDescriptorSize +
             (if has (dd_Flags d) DomainFlagSuccessorValid then SuccessorBlockSize else 0)) ds)"
  by (induction ds) (auto simp: length_desc_chunks)

lemma manifest_wf_domains:
  assumes "manifest_wf m"
  shows "\<forall>d \<in> set (sm_Domains m). desc_shape d \<and> (has (dd_Flags d) DomainFlagSuccessorValid \<longleftrightarrow> dd_Successor d \<noteq> None)"
proof -
  have "domainsChecks m = Ok ()" using assms by (simp add: manifest_wf_def encodeChecks_facts)
  then have "\<forall>d \<in> set (sm_Domains m). has (dd_Flags d) DomainFlagSuccessorValid \<longleftrightarrow> dd_Successor d \<noteq> None"
    by (auto simp: domainsChecks_def validateDomains_def Let_def dest: validateLoop_succ split: if_splits)
  then show ?thesis using assms by (auto simp: manifest_wf_def manifest_shape_def)
qed

lemma length_tail_chunks:
  assumes "manifest_wf m"
  shows "length (concat (tail_chunks m)) =
     (if has (sm_Flags m) FlagSuccessorValid then SuccessorBlockSize else 0) +
     (if has (sm_Flags m) FlagDomainsValid
      then 1 + sum_list (map (\<lambda>d. DomainDescriptorSize +
             (if has (dd_Flags d) DomainFlagSuccessorValid then SuccessorBlockSize else 0)) (sm_Domains m))
      else 0)"
proof -
  have "succ_shape (the (sm_Successor m))" if "has (sm_Flags m) FlagSuccessorValid"
    using that assms encodeChecks_facts(10) [of m] by (auto simp: manifest_wf_def manifest_shape_def)
  then show ?thesis
    using length_descs [OF manifest_wf_domains [OF assms]] by (simp add: tail_chunks_def)
qed

lemma length_manifest_frame:
  assumes "manifest_wf m" and "length crc = 4"
  shows "length (manifest_frame m crc) = ShardManifestSize m"
proof -
  have f: "has (sm_Flags m) FlagGroupsValid \<longleftrightarrow> sm_Groups m \<noteq> [] \<or> sm_Bitmap m \<noteq> []"
    using assms by (simp add: manifest_wf_def encodeChecks_facts)
  show ?thesis
    using assms f length_tail_chunks [OF assms(1)] length_sources [of "sm_Sources m"]
    by (auto simp: manifest_frame_def payload_chunks_def length_groups_chunks length_head1 ShardManifestSize_def
        manifest_wf_def manifest_shape_def)
qed

lemma headerWrites_chunks:
  assumes "manifest_shape m"
  shows "headerWrites m = chunks 0 (head1_chunks m @ [[0], [0], [0], [0], sm_GenerationID m])"
  using assms
  by (auto simp add: headerWrites_def head1_chunks_def list_count_def manifest_shape_def writer_defs Let_def)

lemma payloadWrites_chunks:
  assumes "manifest_wf m"
  shows "payloadWrites m = chunks 64 (payload_chunks m)"
proof -
  have sh: "manifest_shape m" and succ: "has (sm_Flags m) FlagSuccessorValid \<longleftrightarrow> sm_Successor m \<noteq> None"
    using assms by (simp_all add: manifest_wf_def encodeChecks_facts)
  define off1 where "off1 = 64 + length (concat (groups_chunks m))"
  define off2 where "off2 = off1 + length (concat (sm_Sources m))"
  have o: "off1 = 64 + (if 0 < length (sm_Bitmap m) then length (sm_Bitmap m) else 2 * length (sm_Groups m))"
    "off2 = off1 + 16 * length (sm_Sources m)"
    using sh by (simp_all add: off1_def off2_def length_groups_chunks length_sources manifest_shape_def)
  let ?groups = "if 0 < length (sm_Bitmap m) then [copyTo 64 (64 + length (sm_Bitmap m)) (sm_Bitmap m)]
    else listWrites (sm_Groups m) 64"
  let ?tail = "(if has (sm_Flags m) FlagSuccessorValid
      then case sm_Successor m of Some s \<Rightarrow> successorWrites s off2 | None \<Rightarrow> [\<lambda>_. Panic] else []) @
    (if has (sm_Flags m) FlagDomainsValid
     then let off3 = off2 + (if has (sm_Flags m) FlagSuccessorValid then SuccessorBlockSize else 0) in
       put8 off3 (word_of_nat (length (sm_Domains m))) # domainsWrites (sm_Domains m) (off3 + 1)
     else [])"
  have "payloadWrites m = ?groups @ sourcesWrites (sm_Sources m) off1 @ ?tail"
    unfolding payloadWrites_def Let_def o ..
  moreover have "chunks 64 (groups_chunks m) = ?groups"
    by (simp add: groups_chunks_def listWrites_chunks)
  moreover have "chunks off1 (sm_Sources m) = sourcesWrites (sm_Sources m) off1"
    using sh by (simp add: sourcesWrites_chunks manifest_shape_def)
  moreover have "chunks off2 (tail_chunks m) = ?tail"
    using sh succ
    by (auto simp: tail_chunks_def chunks_append successorWrites_chunks domainsWrites_chunks manifest_shape_def
        Let_def put8_copyTo split: option.splits)
  ultimately show ?thesis
    unfolding payload_chunks_def chunks_append off1_def [symmetric] off2_def [symmetric] by simp
qed

lemma EncodeShardManifest_fits:
  assumes wf: "manifest_wf m" and fit: "length (manifest_wire m) \<le> length buf"
  shows "EncodeShardManifest m buf = Ok (length (manifest_wire m), manifest_wire m @ drop (length (manifest_wire m)) buf)"
proof -
  define n where "n = ShardManifestSize m"
  let ?zero = "manifest_frame m [0, 0, 0, 0]"
  let ?ss = "head1_chunks m @ [[0], [0], [0], [0], sm_GenerationID m] @ payload_chunks m"
  have sh: "manifest_shape m" and chk: "encodeChecks m = Ok ()" using wf by (simp_all add: manifest_wf_def)
  have len: "length ?zero = n" "length (manifest_wire m) = n"
    unfolding manifest_wire_def n_def using wf by (simp_all add: length_manifest_frame)
  have h44: "length (concat (head1_chunks m)) = 44" using sh by (simp add: manifest_shape_def length_head1)
  have "headerWrites m @ payloadWrites m = chunks 0 ?ss"
    using sh h44 by (simp add: headerWrites_chunks payloadWrites_chunks wf chunks_append manifest_shape_def)
  moreover have "concat ?ss = ?zero" by (simp add: manifest_frame_def)
  ultimately have r: "run (headerWrites m @ payloadWrites m) buf = Ok (?zero @ drop n buf)"
    using run_chunks0 [of ?ss buf, where ?'a = manifest_err] fit len by simp
  have sl: "slice (?zero @ drop n buf) 0 n = (Ok ?zero :: (manifest_err, _) res)"
    using len by (simp add: slice_def)
  have "putBE32 44 48 (crc32c ?zero) (?zero @ drop n buf) = (Ok (manifest_wire m @ drop n buf) :: (manifest_err, _) res)"
    using h44 copyTo_append [of "concat (head1_chunks m)" 44 48 "BE_PutUint32 (crc32c ?zero)"
        "[0, 0, 0, 0] @ sm_GenerationID m @ concat (payload_chunks m) @ drop n buf", where ?'a = manifest_err]
    by (simp add: putBE32_def manifest_wire_def manifest_frame_def)
  with chk r sl fit len show ?thesis
    by (simp add: EncodeShardManifest_def Let_def n_def [symmetric])
qed

section \<open>The decoder reads the layout\<close>

lemma decodeList_wire:
  assumes "\<forall>k \<in> {1..<length gs}. gs ! (k - 1) < gs ! k" and "0 < i \<longrightarrow> gs \<noteq> [] \<longrightarrow> prev < hd gs"
  shows "decodeList (length gs) (pre @ concat (map BE_PutUint16 gs) @ rest) (length pre) i prev = Ok gs"
  using assms
proof (induction gs arbitrary: pre i prev)
  case (Cons g gs)
  have "\<forall>k \<in> {1..<length gs}. gs ! (k - 1) < gs ! k"
  proof
    fix k assume "k \<in> {1..<length gs}"
    then show "gs ! (k - 1) < gs ! k" using Cons.prems(1) [rule_format, of "Suc k"] by (cases k) simp_all
  qed
  moreover have "gs \<noteq> [] \<longrightarrow> g < hd gs"
    using Cons.prems(1) [rule_format, of 1] by (cases gs) simp_all
  ultimately have "decodeList (length gs) ((pre @ BE_PutUint16 g) @ concat (map BE_PutUint16 gs) @ rest)
      (length (pre @ BE_PutUint16 g)) (Suc i) g = Ok gs"
    by (intro Cons.IH) simp_all
  then show ?case
    using Cons.prems(2) by (auto simp: read_mid not_le)
qed simp

lemma decodeSources_wire:
  "\<forall>s \<in> set ss. length s = 16 \<Longrightarrow>
   decodeSources (length ss) (pre @ concat ss @ rest) (length pre) = Ok ss"
proof (induction ss arbitrary: pre)
  case (Cons s ss)
  from Cons.IH [of "pre @ s"] Cons.prems
  have "decodeSources (length ss) ((pre @ s) @ concat ss @ rest) (length (pre @ s)) = Ok ss" by simp
  with Cons.prems show ?case by (simp add: read_mid)
qed simp

lemma decodeSuccessor_wire:
  assumes "succ_shape s"
  shows "decodeSuccessor (pre @ concat (succ_chunks s) @ rest) (length pre) = Ok s"
proof -
  let ?b = "pre @ concat (succ_chunks s) @ rest"
  have "?b ! (length pre + 16) = sb_ShardBits s" "?b ! (length pre + 17) = sb_Flags s"
    "take 4 (drop (length pre + 20) ?b) = BE_PutUint32 (sb_TransitionEpoch s)"
    "take 16 (drop (length pre) ?b) = sb_GenerationID s"
    using assms by (simp_all add: succ_chunks_def succ_shape_def nth_append)
  moreover have "length pre + 24 \<le> length ?b" using assms by simp
  ultimately show ?thesis by (simp add: decodeSuccessor_def del: append_assoc)
qed

lemma decodeDescriptor_wire:
  assumes "desc_shape d"
  shows "decodeDescriptor (pre @ concat (desc_chunks d) @ rest) (length pre) = Ok (d\<lparr>dd_Successor := None\<rparr>)"
    and "index (pre @ concat (desc_chunks d) @ rest) (length pre + 3) = (Ok (dd_Flags d) :: (manifest_err, _) res)"
proof -
  let ?b = "pre @ concat (desc_chunks d) @ rest"
  have f: "?b ! length pre = dd_DomainID d" "?b ! (length pre + 1) = dd_ShardBits d"
    "?b ! (length pre + 2) = dd_SlotSpan d" "?b ! (length pre + 3) = dd_Flags d" "?b ! (length pre + 4) = dd_Version d"
    "take 16 (drop (length pre + 8) ?b) = dd_GenerationID d"
    using assms by (simp_all add: desc_chunks_def desc_shape_def nth_append)
  have l: "length pre + 24 \<le> length ?b" using length_desc_chunks [OF assms] by simp
  have "decodeDescriptor b k = Ok (d\<lparr>dd_Successor := None\<rparr>)"
    if "b ! k = dd_DomainID d" "b ! (k + 1) = dd_ShardBits d" "b ! (k + 2) = dd_SlotSpan d" "b ! (k + 3) = dd_Flags d"
      "b ! (k + 4) = dd_Version d" "take 16 (drop (k + 8) b) = dd_GenerationID d" "k + 24 \<le> length b" for b k
    using that by (simp add: decodeDescriptor_def)
  from this [OF f l] show "decodeDescriptor ?b (length pre) = Ok (d\<lparr>dd_Successor := None\<rparr>)" .
  show "index ?b (length pre + 3) = Ok (dd_Flags d)"
    using f l by (simp add: index_def)
qed

lemma scanDescriptors_wire:
  "\<forall>d \<in> set ds. desc_shape d \<and> (has (dd_Flags d) DomainFlagSuccessorValid \<longleftrightarrow> dd_Successor d \<noteq> None) \<Longrightarrow>
   scanDescriptors (length ds) (pre @ concat (concat (map desc_chunks ds)) @ rest) (length pre) =
   Ok (length pre + length (concat (concat (map desc_chunks ds))))"
proof (induction ds arbitrary: pre)
  case (Cons d ds)
  then have d: "desc_shape d" "has (dd_Flags d) DomainFlagSuccessorValid \<longleftrightarrow> dd_Successor d \<noteq> None" by simp_all
  note len = length_desc_chunks [OF d(1)]
  let ?w = "concat (concat (map desc_chunks ds))"
  have ih: "scanDescriptors (length ds) ((pre @ concat (desc_chunks d)) @ ?w @ rest) (length (pre @ concat (desc_chunks d))) =
      Ok (length (pre @ concat (desc_chunks d)) + length ?w)"
    using Cons.prems by (intro Cons.IH) simp
  have nxt: "DomainDescriptorSize + (if has (dd_Flags d) DomainFlagSuccessorValid then SuccessorBlockSize else 0) =
      length (concat (desc_chunks d))"
    using len d(2) by simp
  have "\<not> length (pre @ concat (desc_chunks d) @ ?w @ rest) < length pre + DomainDescriptorSize"
    using len by simp
  moreover have "index (pre @ concat (desc_chunks d) @ ?w @ rest) (length pre + 3) = (Ok (dd_Flags d) :: (manifest_err, _) res)"
    by (rule decodeDescriptor_wire(2) [OF d(1)])
  ultimately show ?case
    using ih by (simp only: list.size(4) add_0_right One_nat_def add_Suc_right scanDescriptors.simps list.map concat.simps
        concat_append append_assoc if_False rbind.simps nxt length_append add.assoc)
qed simp

lemma decodeDescriptors_wire:
  "\<forall>d \<in> set ds. desc_shape d \<and> (has (dd_Flags d) DomainFlagSuccessorValid \<longleftrightarrow> dd_Successor d \<noteq> None) \<Longrightarrow>
   decodeDescriptors (length ds) (pre @ concat (concat (map desc_chunks ds)) @ rest) (length pre) = Ok ds"
proof (induction ds arbitrary: pre)
  case (Cons d ds)
  then have d: "desc_shape d" "has (dd_Flags d) DomainFlagSuccessorValid \<longleftrightarrow> dd_Successor d \<noteq> None" by simp_all
  note len = length_desc_chunks [OF d(1)]
  let ?w = "concat (concat (map desc_chunks ds))"
  let ?b = "pre @ concat (desc_chunks d) @ ?w @ rest"
  have ih: "decodeDescriptors (length ds) ?b (length pre + length (concat (desc_chunks d))) = Ok ds"
    using Cons.IH [of "pre @ concat (desc_chunks d)"] Cons.prems by simp
  have dd: "decodeDescriptor ?b (length pre) = Ok (d\<lparr>dd_Successor := None\<rparr>)"
    by (rule decodeDescriptor_wire(1) [OF d(1)])
  show ?case
  proof (cases "dd_Successor d")
    case None
    then have "d\<lparr>dd_Successor := None\<rparr> = d" by simp
    with None dd ih len d(2) show ?thesis by simp
  next
    case (Some s)
    let ?p = "pre @ [dd_DomainID d, dd_ShardBits d, dd_SlotSpan d, dd_Flags d, dd_Version d, 0, 0, 0] @ dd_GenerationID d"
    have "decodeSuccessor (?p @ concat (succ_chunks s) @ ?w @ rest) (length ?p) = Ok s"
      using d(1) Some by (intro decodeSuccessor_wire) (simp add: desc_shape_def)
    moreover have "length ?p = length pre + 24" using d(1) by (simp add: desc_shape_def)
    moreover have "?p @ concat (succ_chunks s) @ ?w @ rest = ?b" using Some by (simp add: desc_chunks_def)
    ultimately have "decodeSuccessor ?b (length pre + 24) = Ok s" by metis
    moreover have upd: "d\<lparr>dd_Successor := Some s\<rparr> = d" using Some by simp
    ultimately show ?thesis using Some dd ih len d(2) by (simp add: upd add.commute [of "length pre"])
  qed
qed simp

text \<open>The fixed header.\<close>

lemma manifest_frame_fields:
  assumes "manifest_shape m" and "length crc = 4"
  shows "take 4 (manifest_frame m crc) = BE_PutUint32 MagicBSV"
    and "(manifest_frame m crc @ rest) ! 6 = MsgTypeShardManifest"
    and "(manifest_frame m crc @ rest) ! 7 = sm_Flags m"
    and "take 16 (drop 8 (manifest_frame m crc)) = sm_SrcIPv6 m"
    and "take 4 (drop 24 (manifest_frame m crc)) = BE_PutUint32 (sm_InstanceID m)"
    and "take 4 (drop 28 (manifest_frame m crc)) = BE_PutUint32 (sm_Epoch m)"
    and "take 2 (drop 32 (manifest_frame m crc)) = BE_PutUint16 (sm_TTL m)"
    and "take 2 (drop 34 (manifest_frame m crc)) = BE_PutUint16 (sm_AnnounceInterval m)"
    and "(manifest_frame m crc @ rest) ! 36 = sm_ShardBits m"
    and "(manifest_frame m crc @ rest) ! 37 = sm_RoleHint m"
    and "take 2 (drop 38 (manifest_frame m crc)) = BE_PutUint16 (list_count m)"
    and "take 2 (drop 40 (manifest_frame m crc)) = BE_PutUint16 (word_of_nat (length (sm_Bitmap m)))"
    and "take 2 (drop 42 (manifest_frame m crc)) = BE_PutUint16 (word_of_nat (length (sm_Sources m)))"
    and "take 4 (drop 44 (manifest_frame m crc)) = crc"
    and "take 16 (drop 48 (manifest_frame m crc)) = sm_GenerationID m"
    and "64 \<le> length (manifest_frame m crc)"
  using assms unfolding manifest_frame_def head1_chunks_def manifest_shape_def by (simp_all add: nth_append)

lemma decodeHeader_wire:
  assumes "manifest_shape m" and "length crc = 4"
  shows "decodeHeader (manifest_frame m crc @ rest) =
    Ok (m\<lparr>sm_Groups := [], sm_Bitmap := [], sm_Sources := [], sm_Successor := None, sm_Domains := []\<rparr>)"
  using manifest_frame_fields [OF assms] by (simp add: decodeHeader_def)

lemma verifyCRC_wire:
  assumes "manifest_wf m"
  shows "verifyCRC (manifest_wire m @ rest) (ShardManifestSize m) = Ok ()"
proof -
  let ?crc = "BE_PutUint32 (crc32c (manifest_frame m [0, 0, 0, 0]))"
  have sh: "manifest_shape m" using assms by (simp add: manifest_wf_def)
  have h44: "length (concat (head1_chunks m)) = 44" using sh by (simp add: manifest_shape_def length_head1)
  have w: "manifest_wire m = concat (head1_chunks m) @ ?crc @ sm_GenerationID m @ concat (payload_chunks m)"
    by (simp add: manifest_wire_def manifest_frame_def)
  have len: "length (manifest_wire m) = ShardManifestSize m"
    using assms by (simp add: manifest_wire_def length_manifest_frame)
  obtain a b c d where crc: "?crc = [a, b, c, d]" by (auto simp: BE_PutUint32_def be_bytes_numeral)
  have z: "[put8 44 0, put8 45 0, put8 46 0, put8 47 0] = (chunks 44 [[0], [0], [0], [0]] :: manifest_err writer list)"
    by (simp add: put8_copyTo)
  have "run [put8 44 0, put8 45 0, put8 46 0, put8 47 0] (manifest_wire m) =
      (Ok (manifest_frame m [0, 0, 0, 0]) :: (manifest_err, _) res)"
    unfolding z w by (subst run_chunks) (simp_all add: h44 crc manifest_frame_def)
  moreover have "BE32 (manifest_wire m @ rest) 44 48 = (Ok (crc32c (manifest_frame m [0, 0, 0, 0])) :: (manifest_err, _) res)"
    unfolding w using read_mid(4) [of 44 "concat (head1_chunks m)" 48] h44 by simp
  moreover have "slice (manifest_wire m @ rest) 0 (ShardManifestSize m) = (Ok (manifest_wire m) :: (manifest_err, _) res)"
    using len by simp
  ultimately show ?thesis by (simp add: verifyCRC_def del: run.simps)
qed

abbreviation cleared :: "shard_manifest \<Rightarrow> shard_manifest" where
  "cleared m \<equiv> m\<lparr>sm_Groups := [], sm_Bitmap := [], sm_Sources := [], sm_Successor := None, sm_Domains := []\<rparr>"

definition succ_part :: "shard_manifest \<Rightarrow> bytes" where
  "succ_part m = (if has (sm_Flags m) FlagSuccessorValid then concat (succ_chunks (the (sm_Successor m))) else [])"

definition dom_part :: "shard_manifest \<Rightarrow> bytes" where
  "dom_part m = (if has (sm_Flags m) FlagDomainsValid
     then word_of_nat (length (sm_Domains m)) # concat (concat (map desc_chunks (sm_Domains m))) else [])"

lemma payload_parts:
  "concat (payload_chunks m) = concat (groups_chunks m) @ concat (sm_Sources m) @ succ_part m @ dom_part m"
  by (simp add: payload_chunks_def tail_chunks_def succ_part_def dom_part_def)

lemma groups_stage:
  assumes wf: "manifest_wf m" and pre: "length pre = 64"
    and bb: "bb = (word_of_nat (length (sm_Bitmap m)) :: u16)"
  shows "decodeGroups (pre @ concat (groups_chunks m) @ rest) 64 (list_count m) bb = Ok (sm_Groups m, sm_Bitmap m)"
    and "(if 0 < bb then unat bb else 2 * unat (list_count m)) = length (concat (groups_chunks m))"
proof -
  note f = encodeChecks_facts [of m]
  have chk: "encodeChecks m = Ok ()" using wf by (simp add: manifest_wf_def)
  have u: "unat bb = length (sm_Bitmap m)" "unat (list_count m) = (if sm_Bitmap m = [] then length (sm_Groups m) else 0)"
    using f(4,5) [OF chk] by (simp_all add: bb list_count_def unat_u16_of_nat)
  have pos: "0 < bb \<longleftrightarrow> sm_Bitmap m \<noteq> []" using u(1) by (simp add: word_less_nat_alt)
  show "(if 0 < bb then unat bb else 2 * unat (list_count m)) = length (concat (groups_chunks m))"
    using pos u by (auto simp: length_groups_chunks)
  show "decodeGroups (pre @ concat (groups_chunks m) @ rest) 64 (list_count m) bb = Ok (sm_Groups m, sm_Bitmap m)"
  proof (cases "sm_Bitmap m = []")
    case True
    have "decodeList (length (sm_Groups m)) (pre @ concat (map BE_PutUint16 (sm_Groups m)) @ rest) (length pre) 0 0 =
        Ok (sm_Groups m)"
      using f(7) [OF chk] by (intro decodeList_wire) simp_all
    then show ?thesis using True pos u pre by (simp add: groups_chunks_def decodeGroups_def)
  next
    case False
    then have "sm_Groups m = []" using f(3) [OF chk] by simp
    with False pos u pre show ?thesis by (simp add: groups_chunks_def decodeGroups_def)
  qed
qed

lemma successor_stage:
  assumes wf: "manifest_wf m"
  shows "decodeSuccessorSection (pre @ succ_part m @ rest) (length pre) (sm_Flags m) (sm_ShardBits m) = Ok (sm_Successor m)"
    and "length (succ_part m) = (if has (sm_Flags m) FlagSuccessorValid then SuccessorBlockSize else 0)"
proof -
  have chk: "encodeChecks m = Ok ()" using wf by (simp add: manifest_wf_def)
  note f = encodeChecks_facts(10,11) [OF chk]
  have "succ_shape (the (sm_Successor m))" if "has (sm_Flags m) FlagSuccessorValid"
    using that wf f by (auto simp: manifest_wf_def manifest_shape_def)
  then show "length (succ_part m) = (if has (sm_Flags m) FlagSuccessorValid then SuccessorBlockSize else 0)"
    by (simp add: succ_part_def)
  show "decodeSuccessorSection (pre @ succ_part m @ rest) (length pre) (sm_Flags m) (sm_ShardBits m) = Ok (sm_Successor m)"
  proof (cases "sm_Successor m")
    case (Some s)
    then have "decodeSuccessor (pre @ concat (succ_chunks s) @ rest) (length pre) = Ok s"
      using wf by (intro decodeSuccessor_wire) (simp add: manifest_wf_def manifest_shape_def)
    with Some f show ?thesis
      by (auto simp: succ_part_def successorChecks_def decodeSuccessorSection_def Let_def split: if_splits)
  qed (use f in \<open>simp add: decodeSuccessorSection_def\<close>)
qed

lemma domains_count:
  assumes "manifest_wf m" and "has (sm_Flags m) FlagDomainsValid"
  shows "unat (word_of_nat (length (sm_Domains m)) :: u8) = length (sm_Domains m)"
    and "1 \<le> length (sm_Domains m)" "length (sm_Domains m) \<le> MaxDomainDescriptors"
    and "validateDomains (sm_Domains m) (sm_ShardBits m) (sm_GenerationID m) (has (sm_Flags m) FlagAuthoritative) = Ok ()"
proof -
  have chk: "encodeChecks m = Ok ()" using assms by (simp add: manifest_wf_def)
  show v: "validateDomains (sm_Domains m) (sm_ShardBits m) (sm_GenerationID m) (has (sm_Flags m) FlagAuthoritative) = Ok ()"
    using encodeChecks_facts(12) [OF chk] assms(2) by (simp add: domainsChecks_def split: if_splits)
  then show c: "1 \<le> length (sm_Domains m)" "length (sm_Domains m) \<le> MaxDomainDescriptors"
    by (auto simp: validateDomains_def Suc_le_eq split: if_splits)
  then show "unat (word_of_nat (length (sm_Domains m)) :: u8) = length (sm_Domains m)"
    by (simp add: unat_of_nat take_bit_nat_eq_self)
qed

lemma domains_stage:
  assumes wf: "manifest_wf m"
  shows "decodeDomainsSection (pre @ dom_part m @ rest) (length pre) (sm_Flags m) (sm_ShardBits m) (sm_GenerationID m) =
      Ok (sm_Domains m)"
    and "has (sm_Flags m) FlagDomainsValid \<Longrightarrow>
      scanDomains (pre @ dom_part m @ rest) (length pre) = Ok (length pre + length (dom_part m))"
proof -
  note d = manifest_wf_domains [OF wf]
  let ?c = "word_of_nat (length (sm_Domains m)) :: u8"
  let ?w = "concat (concat (map desc_chunks (sm_Domains m)))"
  show "decodeDomainsSection (pre @ dom_part m @ rest) (length pre) (sm_Flags m) (sm_ShardBits m) (sm_GenerationID m) =
      Ok (sm_Domains m)"
  proof (cases "has (sm_Flags m) FlagDomainsValid")
    case True
    note c = domains_count [OF wf True]
    have "decodeDescriptors (unat ?c) (pre @ dom_part m @ rest) (length pre + 1) = Ok (sm_Domains m)"
      using decodeDescriptors_wire [OF d, of "pre @ [?c]" rest] True c(1) by (simp add: dom_part_def)
    moreover have "index (pre @ dom_part m @ rest) (length pre) = (Ok ?c :: (manifest_err, _) res)"
      using True by (simp add: dom_part_def read_mid)
    ultimately show ?thesis using True c by (simp add: decodeDomainsSection_def)
  next
    case False
    moreover have "encodeChecks m = Ok ()" using wf by (simp add: manifest_wf_def)
    ultimately show ?thesis using encodeChecks_facts(13) by (simp add: decodeDomainsSection_def)
  qed
  assume True: "has (sm_Flags m) FlagDomainsValid"
  note c = domains_count [OF wf True]
  have "scanDescriptors (unat ?c) (pre @ dom_part m @ rest) (length pre + 1) = Ok (length pre + length (dom_part m))"
    using scanDescriptors_wire [OF d, of "pre @ [?c]" rest] True c(1) by (simp add: dom_part_def)
  moreover have "index (pre @ dom_part m @ rest) (length pre) = (Ok ?c :: (manifest_err, _) res)"
    using True by (simp add: dom_part_def read_mid)
  moreover have "0 < length (dom_part m)" using True by (simp add: dom_part_def)
  ultimately show "scanDomains (pre @ dom_part m @ rest) (length pre) = Ok (length pre + length (dom_part m))"
    using c by (auto simp: scanDomains_def)
qed

lemma countChecks_wf:
  assumes wf: "manifest_wf m"
  shows "countChecks (sm_Flags m) (list_count m) (word_of_nat (length (sm_Bitmap m))) (word_of_nat (length (sm_Sources m))) = Ok ()"
proof -
  have chk: "encodeChecks m = Ok ()" using wf by (simp add: manifest_wf_def)
  note f = encodeChecks_facts [OF chk]
  have z: "(word_of_nat n :: u16) = 0 \<longleftrightarrow> n = 0" if "n < 2 ^ 16" for n
    using unsigned_eq_0_iff [of "word_of_nat n :: u16", where ?'a = nat] unfolding unat_u16_of_nat [OF that] by blast
  have "has (sm_Flags m) FlagAuthoritative" if "has (sm_Flags m) FlagSuccessorValid"
    using f(10,11) that by (auto simp: successorChecks_def Let_def split: if_splits)
  then show ?thesis
    using f(2,3,8,9) z [OF f(4)] z [OF f(5)] z [OF f(6)]
    by (cases "sm_Bitmap m = []") (simp_all add: countChecks_def list_count_def word_gt_0)
qed

lemma DecodeShardManifest_wire:
  assumes wf: "manifest_wf m"
  shows "DecodeShardManifest (manifest_wire m @ rest) = Ok m"
proof -
  let ?W = "manifest_wire m @ rest"
  define crc where "crc = BE_PutUint32 (crc32c (manifest_frame m [0, 0, 0, 0]))"
  define pre where "pre = concat (head1_chunks m) @ crc @ sm_GenerationID m"
  define bb where "bb = (word_of_nat (length (sm_Bitmap m)) :: u16)"
  define sc where "sc = (word_of_nat (length (sm_Sources m)) :: u16)"
  let ?G = "concat (groups_chunks m)" and ?S = "concat (sm_Sources m)"
  have sh: "manifest_shape m" and chk: "encodeChecks m = Ok ()" using wf by (simp_all add: manifest_wf_def)
  note f = encodeChecks_facts [OF chk]
  have W: "?W = pre @ ?G @ ?S @ succ_part m @ dom_part m @ rest" "manifest_wire m = manifest_frame m crc"
    by (simp_all add: manifest_wire_def manifest_frame_def crc_def pre_def payload_parts)
  have pre: "length pre = 64"
    using sh by (simp add: pre_def crc_def length_head1 manifest_shape_def)
  have sc: "unat sc = length (sm_Sources m)" using f(6) by (simp add: sc_def unat_u16_of_nat)
  have S: "length ?S = 16 * length (sm_Sources m)" using sh by (simp add: length_sources manifest_shape_def)
  note G = groups_stage(1) [OF wf pre bb_def, of "?S @ succ_part m @ dom_part m @ rest", folded W(1)]
    groups_stage(2) [OF wf pre bb_def]
  have src: "decodeSources (unat sc) ?W (64 + length ?G) = Ok (sm_Sources m)"
    using decodeSources_wire [of "sm_Sources m" "pre @ ?G" "succ_part m @ dom_part m @ rest"] sh pre
    by (simp add: W(1) sc manifest_shape_def)
  define off2 where "off2 = 64 + length ?G + 16 * unat sc"
  define off3 where "off3 = off2 + length (succ_part m)"
  have off: "length (pre @ ?G @ ?S) = off2" "length (pre @ ?G @ ?S @ succ_part m) = off3"
    using pre S by (simp_all add: off2_def off3_def sc)
  have W2: "(pre @ ?G @ ?S) @ succ_part m @ dom_part m @ rest = ?W"
    "(pre @ ?G @ ?S @ succ_part m) @ dom_part m @ rest = ?W" by (simp_all add: W(1))
  note su = successor_stage(1) [OF wf, of "pre @ ?G @ ?S" "dom_part m @ rest", unfolded W2 off]
  note do = domains_stage [OF wf, of "pre @ ?G @ ?S @ succ_part m" rest, unfolded W2 off]
  have payload: "decodePayload ?W (list_count m) bb sc (cleared m) = Ok m"
    using G src su do(1) unfolding off3_def successor_stage(2) [OF wf]
    by (simp add: decodePayload_def Let_def off2_def [symmetric])
  have ext: "fixedExtent (sm_Flags m) (list_count m) bb sc = off3"
    using G(2) by (simp add: fixedExtent_def off3_def off2_def successor_stage(2) [OF wf] word_gt_0 split: if_splits)
  have "length (manifest_wire m) = off3 + length (dom_part m)" using W(1) off by simp
  moreover have "length (manifest_wire m) = ShardManifestSize m" by (simp add: W(2) crc_def length_manifest_frame [OF wf])
  ultimately have scan: "datagramExtent ?W (sm_Flags m) off3 = Ok (ShardManifestSize m)"
    using do(2) by (auto simp: datagramExtent_def dom_part_def)
  have lc: "length crc = 4" by (simp add: crc_def)
  note fld = manifest_frame_fields [OF sh lc] decodeHeader_wire [OF sh lc]
  show ?thesis
    using fld f(1) countChecks_wf [OF wf] ext scan payload verifyCRC_wire [OF wf, of rest]
    by (simp add: DecodeShardManifest_def W(2) bb_def [symmetric] sc_def [symmetric] not_less)
qed

section \<open>The decoder stays in bounds\<close>

lemma decodeList_total: "off + 2 * n \<le> length buf \<Longrightarrow> decodeList n buf off i prev \<noteq> Panic"
  by (induction n arbitrary: off i prev) (auto simp: rbind_Panic_iff)

lemma decodeSources_total: "off + 16 * n \<le> length buf \<Longrightarrow> decodeSources n buf off \<noteq> Panic"
  by (induction n arbitrary: off) (auto simp: rbind_Panic_iff)

lemma decodeSuccessor_in:
  "off + 24 \<le> length buf \<Longrightarrow> \<exists>s. decodeSuccessor buf off = Ok s \<and> succ_shape s"
  by (simp add: decodeSuccessor_def succ_shape_def)

lemma decodeDescriptor_in:
  "off + 24 \<le> length buf \<Longrightarrow> \<exists>d. decodeDescriptor buf off = Ok d \<and> length (dd_GenerationID d) = 16 \<and>
     dd_Flags d = buf ! (off + 3) \<and> dd_Successor d = None"
  by (simp add: decodeDescriptor_def)

lemma scanDescriptors_total: "scanDescriptors n buf off \<noteq> Panic"
  by (induction n arbitrary: off) (auto intro!: rbind_not_PanicI)

lemma scanDescriptors_mono: "scanDescriptors n buf off = Ok e \<Longrightarrow> off \<le> e"
proof (induction n arbitrary: off)
  case (Suc n)
  then show ?case by (fastforce simp: rbind_Ok_iff split: if_splits)
qed simp

lemma decodeDescriptors_scan:
  assumes "scanDescriptors n buf off = Ok e" and "e \<le> length buf"
  shows "\<exists>ds. decodeDescriptors n buf off = Ok ds \<and> length ds = n \<and>
    (\<forall>d \<in> set ds. desc_shape d \<and> (has (dd_Flags d) DomainFlagSuccessorValid \<longleftrightarrow> dd_Successor d \<noteq> None)) \<and>
    off + sum_list (map (\<lambda>d. DomainDescriptorSize +
       (if has (dd_Flags d) DomainFlagSuccessorValid then SuccessorBlockSize else 0)) ds) = e"
  using assms
proof (induction n arbitrary: off)
  case (Suc n)
  have len: "off + 24 \<le> length buf" using Suc.prems(1) by (simp split: if_splits)
  then obtain d where d: "decodeDescriptor buf off = Ok d" "length (dd_GenerationID d) = 16"
      "dd_Flags d = buf ! (off + 3)" "dd_Successor d = None"
    using decodeDescriptor_in by blast
  let ?nxt = "off + DomainDescriptorSize + (if has (dd_Flags d) DomainFlagSuccessorValid then SuccessorBlockSize else 0)"
  have scan: "scanDescriptors n buf ?nxt = Ok e" using Suc.prems(1) len d(3) by simp
  from Suc.IH [OF this Suc.prems(2)] obtain ds where ds: "decodeDescriptors n buf ?nxt = Ok ds" "length ds = n"
    "\<forall>d \<in> set ds. desc_shape d \<and> (has (dd_Flags d) DomainFlagSuccessorValid \<longleftrightarrow> dd_Successor d \<noteq> None)"
    "?nxt + sum_list (map (\<lambda>d. DomainDescriptorSize +
       (if has (dd_Flags d) DomainFlagSuccessorValid then SuccessorBlockSize else 0)) ds) = e" by blast
  show ?case
  proof (cases "has (dd_Flags d) DomainFlagSuccessorValid")
    case True
    have "off + 24 + 24 \<le> length buf" using scanDescriptors_mono [OF scan] True Suc.prems(2) by simp
    then obtain s where "decodeSuccessor buf (off + 24) = Ok s" "succ_shape s" using decodeSuccessor_in by blast
    then show ?thesis
      using True d ds by (intro exI [of _ "d\<lparr>dd_Successor := Some s\<rparr> # ds"]) (simp add: desc_shape_def)
  next
    case False
    then show ?thesis using d ds by (intro exI [of _ "d # ds"]) (simp add: desc_shape_def)
  qed
qed simp

lemma datagramExtent_bounds:
  "datagramExtent buf flags ext = Ok n \<Longrightarrow> ext \<le> n \<and> n \<le> length buf"
  by (auto simp: datagramExtent_def scanDomains_def rbind_Ok_iff dest!: scanDescriptors_mono split: if_splits)

lemma datagramExtent_total: "datagramExtent buf flags ext \<noteq> Panic"
  by (auto simp: datagramExtent_def scanDomains_def scanDescriptors_total rbind_Panic_iff split: if_splits)

lemma verifyCRC_total:
  assumes "64 \<le> n" and "n \<le> length buf"
  shows "verifyCRC buf n \<noteq> Panic"
  using assms by (simp add: verifyCRC_def put8_def)

lemma reserveSlots_total: "s + n \<le> length slots \<Longrightarrow> reserveSlots n s slots \<noteq> Panic"
  by (induction n arbitrary: s slots) (auto simp: Let_def)

lemma reserveSlots_length: "reserveSlots n s slots = Ok slots' \<Longrightarrow> length slots' = length slots"
  by (induction n arbitrary: s slots) (auto simp: Let_def split: if_splits)

lemma validateDomain_total:
  assumes "length seen = 15" and "length slots = 15"
  shows "validateDomain bits gen a d (seen, slots) \<noteq> Panic"
    and "validateDomain bits gen a d (seen, slots) = Ok (seen', slots') \<Longrightarrow> length seen' = 15 \<and> length slots' = 15"
proof -
  have "validateDomainSuccessor d mb a \<noteq> Panic" for mb
    by (auto simp: validateDomainSuccessor_def Let_def split: option.splits)
  moreover have "reserveSlots (unat (dd_SlotSpan d)) (unat (dd_DomainID d)) slots \<noteq> Panic"
    if "unat (dd_DomainID d) + unat (dd_SlotSpan d) \<le> 15"
    using that assms by (intro reserveSlots_total) simp
  ultimately show "validateDomain bits gen a d (seen, slots) \<noteq> Panic"
    using assms by (auto simp: validateDomain_def Let_def rbind_Panic_iff word_less_nat_alt)
  show "length seen' = 15 \<and> length slots' = 15" if "validateDomain bits gen a d (seen, slots) = Ok (seen', slots')"
    using that assms by (auto simp: validateDomain_def Let_def rbind_Ok_iff dest: reserveSlots_length split: if_splits)
qed

lemma validateLoop_total:
  "length seen = 15 \<Longrightarrow> length slots = 15 \<Longrightarrow> validateLoop bits gen a ds (seen, slots) \<noteq> Panic"
proof (induction ds arbitrary: seen slots)
  case (Cons d ds)
  note v = validateDomain_total [OF Cons.prems, of bits gen a d]
  show ?case
  proof (cases "validateDomain bits gen a d (seen, slots)")
    case (Ok st)
    then show ?thesis using v(2) Cons.IH by (cases st) auto
  qed (use v(1) in simp_all)
qed simp

lemma validateDomains_total: "validateDomains ds bits gen a \<noteq> Panic"
  by (simp add: validateDomains_def validateLoop_total)

lemma fixedExtent_eq:
  "fixedExtent flags gc bb sc = 64 + (if 0 < bb then unat bb else 2 * unat gc) + 16 * unat sc +
     (if has flags FlagSuccessorValid then SuccessorBlockSize else 0)"
  by (auto simp: fixedExtent_def Let_def word_gt_0)

definition descs_size :: "domain_descriptor list \<Rightarrow> nat" where
  "descs_size ds = sum_list (map (\<lambda>d. DomainDescriptorSize +
     (if has (dd_Flags d) DomainFlagSuccessorValid then SuccessorBlockSize else 0)) ds)"

lemma domainsSection_in:
  assumes "datagramExtent buf flags off = Ok n" and "has flags FlagDomainsValid"
  shows "\<exists>c ds. index buf off = (Ok c :: (manifest_err, _) res) \<and> decodeDescriptors (unat c) buf (off + 1) = Ok ds \<and>
    (\<forall>d \<in> set ds. desc_shape d) \<and> n = off + 1 + descs_size ds"
proof -
  have "off < length buf" and c: "scanDescriptors (unat (buf ! off)) buf (off + 1) = Ok n" "n \<le> length buf"
    using assms by (auto simp: datagramExtent_def scanDomains_def rbind_Ok_iff split: if_splits)
  moreover from decodeDescriptors_scan [OF c] obtain ds where "decodeDescriptors (unat (buf ! off)) buf (off + 1) = Ok ds"
    "\<forall>d \<in> set ds. desc_shape d" "n = off + 1 + descs_size ds" by (auto simp: descs_size_def)
  ultimately show ?thesis by (auto simp: index_def)
qed

lemma decodePayload_total:
  assumes ext: "datagramExtent buf (sm_Flags m) (fixedExtent (sm_Flags m) gc bb sc) = Ok n"
  shows "decodePayload buf gc bb sc m \<noteq> Panic"
proof -
  let ?off3 = "fixedExtent (sm_Flags m) gc bb sc"
  have len: "?off3 \<le> length buf" using datagramExtent_bounds [OF ext] by simp
  have "decodeGroups buf 64 gc bb \<noteq> Panic"
    using len decodeList_total [of 64 "unat gc" buf 0 0]
    by (auto simp: decodeGroups_def fixedExtent_eq rbind_Panic_iff split: if_splits)
  moreover have "decodeSources (unat sc) buf (64 + (if 0 < bb then unat bb else 2 * unat gc)) \<noteq> Panic"
    using len by (intro decodeSources_total) (simp add: fixedExtent_eq split: if_splits)
  moreover have "decodeSuccessorSection buf (64 + (if 0 < bb then unat bb else 2 * unat gc) + 16 * unat sc) (sm_Flags m) b \<noteq> Panic" for b
    using len decodeSuccessor_in [of "64 + (if 0 < bb then unat bb else 2 * unat gc) + 16 * unat sc" buf]
    by (auto simp: decodeSuccessorSection_def fixedExtent_eq rbind_Panic_iff split: if_splits)
  moreover have "decodeDomainsSection buf ?off3 (sm_Flags m) b g \<noteq> Panic" for b g
    using domainsSection_in [OF ext] validateDomains_total
    by (auto simp: decodeDomainsSection_def rbind_Panic_iff)
  ultimately show ?thesis
    by (auto simp: decodePayload_def Let_def rbind_Panic_iff fixedExtent_eq split: prod.splits)
qed

text \<open>The stages a datagram goes through once its header is accepted.\<close>

definition decodeBody :: "bytes \<Rightarrow> shard_manifest \<Rightarrow> u16 \<Rightarrow> u16 \<Rightarrow> u16 \<Rightarrow> (manifest_err, shard_manifest) res" where
  "decodeBody buf m gc bb sc =
     rbind (countChecks (sm_Flags m) gc bb sc) (\<lambda>_.
     rbind (datagramExtent buf (sm_Flags m) (fixedExtent (sm_Flags m) gc bb sc)) (\<lambda>n.
     rbind (verifyCRC buf n) (\<lambda>_. decodePayload buf gc bb sc m)))"

lemma decodeHeader_in:
  "64 \<le> length buf \<Longrightarrow> \<exists>m. decodeHeader buf = Ok m \<and> length (sm_SrcIPv6 m) = 16 \<and> length (sm_GenerationID m) = 16"
  by (simp add: decodeHeader_def)

text \<open>The extent that a datagram declares: of the fixed sections by its flags and counts, and of the domain descriptors after them.\<close>

definition declaredFixed :: "bytes \<Rightarrow> nat" where
  "declaredFixed buf = fixedExtent (buf ! 7) (BE_Uint16 (take 2 (drop 38 buf))) (BE_Uint16 (take 2 (drop 40 buf))) (BE_Uint16 (take 2 (drop 42 buf)))"

definition declaredExtent :: "bytes \<Rightarrow> (manifest_err, nat) res" where
  "declaredExtent buf = datagramExtent buf (buf ! 7) (declaredFixed buf)"

lemma decodeHeader_flags: "decodeHeader buf = Ok m \<Longrightarrow> sm_Flags m = buf ! 7"
  by (auto simp: decodeHeader_def rbind_Ok_iff index_def split: if_splits)

lemma DecodeShardManifest_body:
  assumes "\<And>e. DecodeShardManifest buf \<noteq> Err e"
  obtains m gc bb sc where "64 \<le> length buf" and "length (sm_SrcIPv6 m) = 16" and "length (sm_GenerationID m) = 16"
    and "sm_ShardBits m \<le> MaxShardBits" and "DecodeShardManifest buf = decodeBody buf m gc bb sc"
    and "datagramExtent buf (sm_Flags m) (fixedExtent (sm_Flags m) gc bb sc) = declaredExtent buf"
proof -
  have len: "64 \<le> length buf"
    using assms [of ErrShardManifestTooShort] by (simp add: DecodeShardManifest_def split: if_splits)
  from decodeHeader_in [OF this] obtain m where m: "decodeHeader buf = Ok m" "length (sm_SrcIPv6 m) = 16"
    "length (sm_GenerationID m) = 16" by blast
  have "BE_Uint32 (take 4 buf) = MagicBSV"
    using assms [of ErrManifestBadMagic] len by (simp add: DecodeShardManifest_def split: if_splits)
  moreover from this have "buf ! 6 = MsgTypeShardManifest"
    using assms [of ErrShardManifestBadMsgType] len by (simp add: DecodeShardManifest_def split: if_splits)
  moreover from calculation this have bits: "sm_ShardBits m \<le> MaxShardBits"
    using assms [of ErrShardManifestBadShardBits] len m(1)
    by (simp add: DecodeShardManifest_def not_less split: if_splits)
  ultimately have "DecodeShardManifest buf = decodeBody buf m (BE_Uint16 (take 2 (drop 38 buf)))
      (BE_Uint16 (take 2 (drop 40 buf))) (BE_Uint16 (take 2 (drop 42 buf)))"
    using len m by (auto simp add: DecodeShardManifest_def decodeBody_def leD)
  then show thesis by (rule that [OF len m(2,3) bits]) (simp add: declaredExtent_def declaredFixed_def decodeHeader_flags [OF m(1)])
qed

lemma DecodeShardManifest_total: "DecodeShardManifest buf \<noteq> Panic"
proof
  assume panic: "DecodeShardManifest buf = Panic"
  then obtain m gc bb sc where p: "decodeBody buf m gc bb sc = Panic"
    by (metis DecodeShardManifest_body res.distinct(5))
  have "countChecks (sm_Flags m) gc bb sc \<noteq> Panic"
    by (simp add: countChecks_def validateFlags_def Let_def)
  with p obtain n where n: "datagramExtent buf (sm_Flags m) (fixedExtent (sm_Flags m) gc bb sc) = Ok n"
    and "verifyCRC buf n = Panic \<or> decodePayload buf gc bb sc m = Panic"
    using datagramExtent_total by (auto simp: decodeBody_def rbind_Panic_iff)
  moreover have "64 \<le> n" "n \<le> length buf"
    using datagramExtent_bounds [OF n] by (simp_all add: fixedExtent_eq)
  ultimately show False using verifyCRC_total decodePayload_total [OF n] by blast
qed

section \<open>The decoder accepts what the encoder would send\<close>

lemma decodeList_Ok:
  "decodeList n buf off i prev = Ok gs \<Longrightarrow> length gs = n \<and> (0 < i \<longrightarrow> gs \<noteq> [] \<longrightarrow> prev < hd gs) \<and>
     (\<forall>k \<in> {1..<length gs}. gs ! (k - 1) < gs ! k)"
proof (induction n arbitrary: off i prev gs)
  case (Suc n)
  then obtain g gs' where g: "gs = g # gs'" "\<not> (0 < i \<and> g \<le> prev)"
    and r: "decodeList n buf (off + 2) (Suc i) g = Ok gs'"
    by (auto simp: rbind_Ok_iff split: if_splits)
  from Suc.IH [OF r] have ih: "length gs' = n" "gs' \<noteq> [] \<longrightarrow> g < hd gs'"
    "\<forall>k \<in> {1..<length gs'}. gs' ! (k - 1) < gs' ! k" by auto
  have "gs ! (k - 1) < gs ! k" if "k \<in> {1..<length gs}" for k
  proof (cases "k = 1")
    case True
    with ih(2) that g(1) show ?thesis by (cases gs') simp_all
  next
    case False
    with that obtain j where "k = Suc j" "j \<in> {1..<length gs'}" using g(1) by (cases k) auto
    with ih(3) [rule_format, of j] g(1) show ?thesis by (cases j) auto
  qed
  with g ih(1) show ?case by auto
qed simp

lemma decodeSources_Ok:
  "decodeSources n buf off = Ok ss \<Longrightarrow> length ss = n \<and> (\<forall>s \<in> set ss. length s = 16)"
proof (induction n arbitrary: off ss)
  case (Suc n)
  then show ?case by (fastforce simp: rbind_Ok_iff slice_Ok_iff)
qed simp

lemma groups_checked:
  assumes "countChecks flags gc bb sc = Ok ()" and "decodeGroups buf 64 gc bb = Ok (gs, bm)"
    and "sm_Flags m = flags" and "sm_Groups m = gs" and "sm_Bitmap m = bm"
  shows "groupsChecks m = Ok ()"
    and "(if has flags FlagGroupsValid then if 0 < length bm then length bm else 2 * length gs else 0) =
      (if 0 < bb then unat bb else 2 * unat gc)"
proof -
  have c: "has flags FlagGroupsValid \<longleftrightarrow> 0 < bb \<or> 0 < gc" "\<not> (0 < bb \<and> 0 < gc)"
    using assms(1) by (auto simp: countChecks_def Let_def word_gt_0 split: if_splits)
  consider "0 < bb" "gs = []" "length bm = unat bb" |
    "\<not> 0 < bb" "bm = []" "length gs = unat gc" "\<forall>k \<in> {1..<length gs}. gs ! (k - 1) < gs ! k"
    using assms(2) by (auto simp: decodeGroups_def rbind_Ok_iff slice_Ok_iff dest: decodeList_Ok split: if_splits)
  note cs = this
  have "unat bb \<le> 0xFFFF" "unat gc \<le> 0xFFFF"
    using unat_u16_less [of bb] unat_u16_less [of gc] by linarith+
  moreover have "0 < bb \<longleftrightarrow> 0 < unat bb" "0 < gc \<longleftrightarrow> 0 < unat gc" by (simp_all add: word_less_nat_alt)
  ultimately have u: "unat bb \<le> 0xFFFF" "unat gc \<le> 0xFFFF" "0 < bb \<longleftrightarrow> 0 < unat bb" "0 < gc \<longleftrightarrow> 0 < unat gc"
    by blast+
  show "groupsChecks m = Ok ()"
    using cs assms(3-5) c u by cases (auto simp: groupsChecks_def Let_def not_le)
  show "(if has flags FlagGroupsValid then if 0 < length bm then length bm else 2 * length gs else 0) =
      (if 0 < bb then unat bb else 2 * unat gc)"
    using cs c u by cases auto
qed

lemma sources_checked:
  assumes "countChecks flags gc bb sc = Ok ()" and "sm_Flags m = flags" and "length (sm_Sources m) = unat sc"
  shows "sourcesChecks m = Ok ()"
proof -
  have "has flags FlagSourcesValid \<longleftrightarrow> 0 < sc"
    using assms(1) by (auto simp: countChecks_def Let_def word_gt_0 split: if_splits)
  moreover have "unat sc \<le> 0xFFFF" using unat_u16_less [of sc] by linarith
  ultimately show ?thesis using assms by (auto simp: sourcesChecks_def Let_def word_less_nat_alt)
qed

lemma successor_checked:
  assumes "countChecks flags gc bb sc = Ok ()" and "decodeSuccessorSection buf off flags bits = Ok su"
    and "sm_Flags m = flags" and "sm_ShardBits m = bits" and "sm_Successor m = su"
  shows "successorChecks m = Ok ()" and "\<forall>s. su = Some s \<longrightarrow> succ_shape s"
proof -
  have "has flags FlagSuccessorValid \<longrightarrow> has flags FlagAuthoritative"
    using assms(1) by (auto simp: countChecks_def Let_def rbind_Ok_iff split: if_splits)
  then show "successorChecks m = Ok ()"
    using assms(2-5) by (auto simp: decodeSuccessorSection_def successorChecks_def rbind_Ok_iff
        dest: sym [of "Some _"] split: if_splits option.splits)
  show "\<forall>s. su = Some s \<longrightarrow> succ_shape s"
    using assms(2) by (auto simp: decodeSuccessorSection_def decodeSuccessor_def succ_shape_def rbind_Ok_iff slice_Ok_iff
        split: if_splits)
qed

lemma domains_checked:
  assumes "decodeDomainsSection buf off flags bits gen = Ok ds" and "datagramExtent buf flags off = Ok n"
    and "sm_Flags m = flags" and "sm_ShardBits m = bits" and "sm_GenerationID m = gen" and "sm_Domains m = ds"
  shows "domainsChecks m = Ok ()" and "\<forall>d \<in> set ds. desc_shape d"
    and "n = off + (if has flags FlagDomainsValid then 1 + descs_size ds else 0)"
proof -
  have v: "validateDomains ds bits gen (has flags FlagAuthoritative) = Ok ()" if "has flags FlagDomainsValid"
    using that assms(1) by (auto simp: decodeDomainsSection_def rbind_Ok_iff)
  moreover have "ds = []" if "\<not> has flags FlagDomainsValid" using that assms(1) by (simp add: decodeDomainsSection_def)
  ultimately show "domainsChecks m = Ok ()"
    using assms(3-6) by (auto simp: domainsChecks_def Let_def validateDomains_def)
  have "(\<forall>d \<in> set ds. desc_shape d) \<and> n = off + 1 + descs_size ds" if "has flags FlagDomainsValid"
    using domainsSection_in [OF assms(2) that] assms(1) that by (auto simp: decodeDomainsSection_def rbind_Ok_iff)
  moreover have "n = off" if "\<not> has flags FlagDomainsValid"
    using that assms(2) by (simp add: datagramExtent_def split: if_splits)
  ultimately show "\<forall>d \<in> set ds. desc_shape d" "n = off + (if has flags FlagDomainsValid then 1 + descs_size ds else 0)"
    using \<open>\<not> has flags FlagDomainsValid \<Longrightarrow> ds = []\<close> by (cases "has flags FlagDomainsValid"; simp)+
qed

lemma DecodeShardManifest_wf:
  assumes ok: "DecodeShardManifest buf = Ok m"
  shows "manifest_wf m" and "ShardManifestSize m \<le> length buf" and "verifyCRC buf (ShardManifestSize m) = Ok ()"
    and "declaredExtent buf = Ok (ShardManifestSize m)"
proof -
  from ok obtain h gc bb sc where h: "64 \<le> length buf" "length (sm_SrcIPv6 h) = 16" "length (sm_GenerationID h) = 16"
      "sm_ShardBits h \<le> MaxShardBits" and body: "decodeBody buf h gc bb sc = Ok m"
      and decl: "datagramExtent buf (sm_Flags h) (fixedExtent (sm_Flags h) gc bb sc) = declaredExtent buf"
    by (metis DecodeShardManifest_body res.distinct(1))
  let ?off1 = "64 + (if 0 < bb then unat bb else 2 * unat gc)"
  from body obtain n where cc: "countChecks (sm_Flags h) gc bb sc = Ok ()"
    and ext: "datagramExtent buf (sm_Flags h) (fixedExtent (sm_Flags h) gc bb sc) = Ok n"
    and crc: "verifyCRC buf n = Ok ()" and pl: "decodePayload buf gc bb sc h = Ok m"
    by (auto simp: decodeBody_def rbind_Ok_iff)
  from pl obtain gs bm ss su ds where st: "decodeGroups buf 64 gc bb = Ok (gs, bm)"
      "decodeSources (unat sc) buf ?off1 = Ok ss"
      "decodeSuccessorSection buf (?off1 + 16 * unat sc) (sm_Flags h) (sm_ShardBits h) = Ok su"
      "decodeDomainsSection buf (fixedExtent (sm_Flags h) gc bb sc) (sm_Flags h) (sm_ShardBits h) (sm_GenerationID h) = Ok ds"
    and m: "m = h\<lparr>sm_Groups := gs, sm_Bitmap := bm, sm_Sources := ss, sm_Successor := su, sm_Domains := ds\<rparr>"
    by (auto simp: decodePayload_def Let_def rbind_Ok_iff fixedExtent_eq)
  have fl: "sm_Flags m = sm_Flags h" "sm_ShardBits m = sm_ShardBits h" "sm_GenerationID m = sm_GenerationID h"
    "sm_SrcIPv6 m = sm_SrcIPv6 h" "sm_Groups m = gs" "sm_Bitmap m = bm" "sm_Sources m = ss" "sm_Successor m = su"
    "sm_Domains m = ds" by (simp_all add: m)
  have vf: "validateFlags (sm_Flags h) = Ok ()"
    using cc by (auto simp: countChecks_def Let_def rbind_Ok_iff split: if_splits)
  note ss = decodeSources_Ok [OF st(2)]
  note g = groups_checked [OF cc st(1) fl(1,5,6)]
  note s = successor_checked [OF cc st(3) fl(1,2,8)]
  note d = domains_checked [OF st(4) ext fl(1,2,3,9)]
  have "sourcesChecks m = Ok ()" using ss fl by (intro sources_checked [OF cc fl(1)]) simp
  with g(1) s(1) d(1) vf h(4) have "encodeChecks m = Ok ()"
    by (simp add: encodeChecks_def fl leD)
  moreover have "manifest_shape m"
    using h(2,3) ss s(2) d(2) by (simp add: manifest_shape_def fl)
  ultimately show "manifest_wf m" by (simp add: manifest_wf_def)
  have "ShardManifestSize m = fixedExtent (sm_Flags h) gc bb sc + (if has (sm_Flags h) FlagDomainsValid then 1 + descs_size ds else 0)"
    unfolding ShardManifestSize_def fixedExtent_eq fl g(2) descs_size_def using ss by simp
  with d(3) have "ShardManifestSize m = n" by simp
  with datagramExtent_bounds [OF ext] crc ext decl show "ShardManifestSize m \<le> length buf" "verifyCRC buf (ShardManifestSize m) = Ok ()"
    "declaredExtent buf = Ok (ShardManifestSize m)" by simp_all
qed

lemma length_manifest_wire: "manifest_wf m \<Longrightarrow> length (manifest_wire m) = ShardManifestSize m"
  by (simp add: manifest_wire_def length_manifest_frame)

interpretation manifest_codec:
  closed_codec manifest_wf manifest_wire ErrManifestBufferTooSmall EncodeShardManifest DecodeShardManifest
proof unfold_locales
  show "EncodeShardManifest m buf = Err ErrManifestBufferTooSmall"
    if "manifest_wf m" "length buf < length (manifest_wire m)" for m buf
    using that by (simp add: EncodeShardManifest_def length_manifest_wire Let_def) (simp add: manifest_wf_def)
  show "length (manifest_wire m) \<le> length buf" if "DecodeShardManifest buf = Ok m" for m buf
    using DecodeShardManifest_wf [OF that] by (simp add: length_manifest_wire)
qed (simp_all add: EncodeShardManifest_fits DecodeShardManifest_wire DecodeShardManifest_total DecodeShardManifest_wf)

end
