(* ===== verification/Shard.thy ===== *)
theory Shard
  imports Prelude
begin

unbundle bit_operations_syntax

text \<open>
  The sharding arithmetic of \<^verbatim>\<open>shard/\<close>: the engine that maps a 32-byte key to a multicast group
  (\<^verbatim>\<open>shard.go\<close>), the BRC-148 object planes (\<^verbatim>\<open>plane.go\<close>), addressing modes and scopes (\<^verbatim>\<open>mode.go\<close>) and the
  network-service groups (\<^verbatim>\<open>control.go\<close>). Go's \<^verbatim>\<open>uint\<close> is \<open>64 word\<close>; a shift by the width of its
  operand or more gives zero, for \<open>push_bit\<close> and \<open>drop_bit\<close> as in Go. A \<^verbatim>\<open>*[32]byte\<close> is a byte list of
  length 32.
\<close>

section \<open>The engine (shard.go)\<close>

abbreviation (input) DefaultGroupID :: u16 where "DefaultGroupID \<equiv> 0x000B"

record engine =
  eng_mcPrefix :: u16
  eng_groupID :: u16
  eng_shardBits :: u64
  eng_mask :: u32

record udp_addr =
  ua_IP :: bytes
  ua_Port :: int

definition New :: "u16 \<Rightarrow> u16 \<Rightarrow> u64 \<Rightarrow> engine" where
  "New mcPrefix groupID shardBits =
     \<lparr>eng_mcPrefix = mcPrefix, eng_groupID = groupID, eng_shardBits = shardBits,
      eng_mask = push_bit (unat shardBits) 1 - 1\<rparr>"

definition GroupIndex :: "engine \<Rightarrow> bytes \<Rightarrow> u32" where
  "GroupIndex e txid =
     (let prefix32 = BE_Uint32 (take 4 txid) in
      drop_bit (unat (32 - eng_shardBits e)) prefix32 AND eng_mask e)"

definition Addr :: "engine \<Rightarrow> u32 \<Rightarrow> int \<Rightarrow> ('e, udp_addr) res" where
  "Addr e groupIndex port =
     rbind (run
       [putBE16 0 2 (eng_mcPrefix e),
        putBE16 12 14 (eng_groupID e),
        putBE16 14 16 (ucast groupIndex)] (replicate 16 0)) (\<lambda>ip.
     Ok \<lparr>ua_IP = ip, ua_Port = port\<rparr>)"

definition NumGroups :: "engine \<Rightarrow> u32" where
  "NumGroups e = eng_mask e + 1"

section \<open>Object planes (plane.go)\<close>

abbreviation (input) DomainTx :: u8 where "DomainTx \<equiv> 0x0"
abbreviation (input) DomainBEEF :: u8 where "DomainBEEF \<equiv> 0x1"
abbreviation (input) DomainMax :: u8 where "DomainMax \<equiv> 0x0E"
abbreviation (input) ControlBase :: u16 where "ControlBase \<equiv> 0xF800"

datatype shard_err = ErrBadPlane | ErrUnknownSourceMode | ErrUnknownScope | ErrASMGlobal | ErrUnsupportedModeScope

definition PlaneBase :: "u8 \<Rightarrow> u16" where
  "PlaneBase domain = push_bit 12 (ucast domain)"

definition PlaneOf :: "u16 \<Rightarrow> u8" where
  "PlaneOf idx = ucast (drop_bit 12 idx)"

definition SlotSpan :: "u64 \<Rightarrow> u8" where
  "SlotSpan shardBits = (if shardBits \<le> 12 then 1 else push_bit (unat (shardBits - 12)) 1)"

definition ValidatePlane :: "u8 \<Rightarrow> u64 \<Rightarrow> (shard_err, unit) res" where
  "ValidatePlane domain shardBits =
     (if DomainMax < domain then Err ErrBadPlane
      else if 15 < shardBits then Err ErrBadPlane
      else if domain = DomainTx \<and> 12 < shardBits then Err ErrBadPlane
      else let limit = ucast (PlaneBase domain) + push_bit (unat shardBits) 1 :: u32 in
      if ucast ControlBase < limit then Err ErrBadPlane
      else Ok ())"

record plane_engine =
  pl_Engine :: engine
  pl_base :: u16

definition NewPlane :: "u16 \<Rightarrow> u16 \<Rightarrow> u64 \<Rightarrow> u8 \<Rightarrow> (shard_err, plane_engine) res" where
  "NewPlane mcPrefix groupID shardBits domain =
     rbind (ValidatePlane domain shardBits) (\<lambda>_.
     Ok \<lparr>pl_Engine = New mcPrefix groupID shardBits, pl_base = PlaneBase domain\<rparr>)"

definition PlaneGroupIndex :: "plane_engine \<Rightarrow> bytes \<Rightarrow> u32" where
  "PlaneGroupIndex p key = ucast (pl_base p) + GroupIndex (pl_Engine p) key"

definition Groups :: "plane_engine \<Rightarrow> u16 list" where
  "Groups p = map (\<lambda>i. pl_base p + word_of_nat i) [0..<unat (NumGroups (pl_Engine p))]"

section \<open>Addressing modes and scopes (mode.go)\<close>

abbreviation (input) SourceModeASM :: u8 where "SourceModeASM \<equiv> 0"
abbreviation (input) SourceModeSSM :: u8 where "SourceModeSSM \<equiv> 1"
abbreviation (input) ScopeSite :: u8 where "ScopeSite \<equiv> 0"
abbreviation (input) ScopeGlobal :: u8 where "ScopeGlobal \<equiv> 1"

text \<open>The verbs \<^verbatim>\<open>%d\<close> and \<^verbatim>\<open>%04x\<close> of \<^verbatim>\<open>fmt.Sprintf\<close> on unsigned integers.\<close>

definition hexdigit :: "nat \<Rightarrow> char" where
  "hexdigit d = ''0123456789abcdef'' ! d"

fun decimal :: "nat \<Rightarrow> string" where
  "decimal n = (if n < 10 then [hexdigit n] else decimal (n div 10) @ [hexdigit (n mod 10)])"

declare decimal.simps [simp del]

definition hex4 :: "u16 \<Rightarrow> string" where
  "hex4 w = map (\<lambda>s. hexdigit (unat w div 16 ^ s mod 16)) [3, 2, 1, 0]"

definition SourceMode_String :: "u8 \<Rightarrow> string" where
  "SourceMode_String m =
     (if m = SourceModeASM then ''asm''
      else if m = SourceModeSSM then ''ssm''
      else ''sourcemode('' @ decimal (unat m) @ '')'')"

definition ParseSourceMode :: "string \<Rightarrow> (shard_err, u8) res" where
  "ParseSourceMode s =
     (if s = ''asm'' \<or> s = ''ASM'' then Ok SourceModeASM
      else if s = ''ssm'' \<or> s = ''SSM'' then Ok SourceModeSSM
      else Err ErrUnknownSourceMode)"

definition Scope_String :: "u8 \<Rightarrow> string" where
  "Scope_String s =
     (if s = ScopeSite then ''site''
      else if s = ScopeGlobal then ''global''
      else ''scope('' @ decimal (unat s) @ '')'')"

definition ParseScope :: "string \<Rightarrow> (shard_err, u8) res" where
  "ParseScope s =
     (if s = ''site'' \<or> s = ''SITE'' then Ok ScopeSite
      else if s = ''global'' \<or> s = ''GLOBAL'' then Ok ScopeGlobal
      else Err ErrUnknownScope)"

definition Prefix :: "u8 \<Rightarrow> u8 \<Rightarrow> (shard_err, u16) res" where
  "Prefix mode scope =
     (if mode = SourceModeASM \<and> scope = ScopeSite then Ok 0xFF05
      else if mode = SourceModeSSM \<and> scope = ScopeSite then Ok 0xFF35
      else if mode = SourceModeSSM \<and> scope = ScopeGlobal then Ok 0xFF3E
      else if mode = SourceModeASM \<and> scope = ScopeGlobal then Err ErrASMGlobal
      else Err ErrUnsupportedModeScope)"

section \<open>Network-service groups (control.go)\<close>

abbreviation (input) GroupBlockHeader :: u16 where "GroupBlockHeader \<equiv> 0xFFFA"
abbreviation (input) GroupSubtreeDataAnnounce :: u16 where "GroupSubtreeDataAnnounce \<equiv> 0xFFFB"
abbreviation (input) GroupSubtreeGroupAnnounce :: u16 where "GroupSubtreeGroupAnnounce \<equiv> 0xFFFC"
abbreviation (input) GroupBeacon :: u16 where "GroupBeacon \<equiv> 0xFFFD"
abbreviation (input) GroupBlockBroadcast :: u16 where "GroupBlockBroadcast \<equiv> 0xFFFE"
abbreviation (input) GroupCoinbaseFlow :: u16 where "GroupCoinbaseFlow \<equiv> 0xFFF8"
abbreviation (input) GroupAnchorFlow :: u16 where "GroupAnchorFlow \<equiv> 0xFFF9"

definition GroupIdx_String :: "u16 \<Rightarrow> string" where
  "GroupIdx_String g =
     (if g = GroupBlockHeader then ''block_header''
      else if g = GroupSubtreeDataAnnounce then ''subtree_data_announce''
      else if g = GroupSubtreeGroupAnnounce then ''subtree_group_announce''
      else if g = GroupBeacon then ''beacon''
      else if g = GroupBlockBroadcast then ''block_broadcast''
      else if g = GroupCoinbaseFlow then ''coinbase_flow''
      else if g = GroupAnchorFlow then ''anchor_flow''
      else ''0x'' @ hex4 g)"

definition GroupAddr :: "u16 \<Rightarrow> u16 \<Rightarrow> u16 \<Rightarrow> ('e, bytes) res" where
  "GroupAddr scopePrefix groupID idx =
     run [putBE16 0 2 scopePrefix, putBE16 12 14 groupID, putBE16 14 16 idx] (replicate 16 0)"

section \<open>Arithmetic of the engine\<close>

lemma GroupIndex_unat:
  assumes "n \<le> 32" and "4 \<le> length k"
  shows "unat (GroupIndex (New p g n) k) = be_nat (take 4 k) div 2 ^ (32 - unat n)"
proof -
  let ?w = "BE_Uint32 (take 4 k)"
  have w: "unat ?w = be_nat (take 4 k)" using assms(2) by (simp add: unat_BE_Uint)
  have n: "unat n \<le> 32" using assms(1) by (simp add: word_le_nat_alt)
  have sh: "unat (32 - n) = 32 - unat n" using assms(1) by (simp add: unat_sub)
  have "push_bit (unat n) 1 - 1 = (mask (unat n) :: u32)"
    by (simp add: mask_eq_exp_minus_1)
  then have "GroupIndex (New p g n) k = take_bit (unat n) (drop_bit (32 - unat n) ?w)"
    by (simp add: GroupIndex_def New_def Let_def sh take_bit_eq_mask)
  also have "\<dots> = drop_bit (32 - unat n) ?w"
    using n by (simp only: take_bit_drop_bit le_add_diff_inverse) (simp add: take_bit_word_eq_self)
  finally have "unat (GroupIndex (New p g n) k) = drop_bit (32 - unat n) (unat ?w)"
    by (simp only: unat_drop_bit_eq)
  then show ?thesis by (simp only: drop_bit_eq_div w)
qed

lemma be_nat_4: "length s = 4 \<Longrightarrow> be_nat s < 2 ^ 32"
  using be_nat_less [of s] by simp

lemma GroupIndex_less:
  assumes "n \<le> 32" and "4 \<le> length k"
  shows "unat (GroupIndex (New p g n) k) < 2 ^ unat n"
proof -
  have n: "unat n \<le> 32" using assms(1) by (simp add: word_le_nat_alt)
  have "be_nat (take 4 k) < 2 ^ (unat n + (32 - unat n))"
    using be_nat_4 [of "take 4 k"] assms(2) n by simp
  then show ?thesis
    unfolding GroupIndex_unat [OF assms] by (simp add: div_less_iff_less_mult power_add)
qed

lemma unat_exp_u32: "k < 32 \<Longrightarrow> unat (2 ^ k :: u32) = 2 ^ k"
proof -
  assume "k < 32"
  then have "(2::nat) ^ k < 2 ^ 32" by (rule power_strict_increasing) simp
  then have "unat (word_of_nat (2 ^ k) :: u32) = 2 ^ k"
    by (simp only: unat_of_nat) (simp add: take_bit_nat_eq_self)
  then show ?thesis by simp
qed

lemma NumGroups_New: "n < 32 \<Longrightarrow> unat (NumGroups (New p g n)) = 2 ^ unat n"
proof -
  assume "n < 32"
  then have "unat n < 32" by (simp add: word_less_nat_alt)
  then show ?thesis by (simp add: NumGroups_def New_def unat_exp_u32)
qed

lemma GroupIndex_split:
  assumes "n < 32" and "4 \<le> length k"
  shows "unat (GroupIndex (New p g (n + 1)) k) div 2 = unat (GroupIndex (New p g n) k)"
proof -
  have n: "unat n < 32" "unat (n + 1) = Suc (unat n)" "n + 1 \<le> 32"
    using assms(1) by (auto simp: word_less_nat_alt word_le_nat_alt unat_word_ariths)
  have "(32 - unat n) = Suc (32 - Suc (unat n))" using n(1) by simp
  then show ?thesis
    using assms n by (simp add: GroupIndex_unat div_mult2_eq mult.commute [of 2])
qed

section \<open>Addresses\<close>

definition group_ip :: "u16 \<Rightarrow> u16 \<Rightarrow> u16 \<Rightarrow> bytes" where
  "group_ip prefix gid idx = BE_PutUint16 prefix @ replicate 10 0 @ BE_PutUint16 gid @ BE_PutUint16 idx"

lemma GroupAddr_layout: "GroupAddr prefix gid idx = Ok (group_ip prefix gid idx)"
proof -
  obtain a b where p: "BE_PutUint16 prefix = [a, b]" by (auto simp: BE_PutUint16_def be_bytes_numeral)
  obtain c d where g: "BE_PutUint16 gid = [c, d]" by (auto simp: BE_PutUint16_def be_bytes_numeral)
  obtain e f where i: "BE_PutUint16 idx = [e, f]" by (auto simp: BE_PutUint16_def be_bytes_numeral)
  show ?thesis
    by (simp add: GroupAddr_def group_ip_def putBE16_def copyTo_def p g i numeral_eq_Suc)
qed

lemma Addr_layout:
  "Addr e idx port = Ok \<lparr>ua_IP = group_ip (eng_mcPrefix e) (eng_groupID e) (ucast idx), ua_Port = port\<rparr>"
  unfolding Addr_def GroupAddr_def [symmetric] GroupAddr_layout by simp

lemma group_ip_eq_iff: "group_ip p g i = group_ip p' g' i' \<longleftrightarrow> p = p' \<and> g = g' \<and> i = i'"
  by (auto simp: group_ip_def dest: arg_cong [where f = BE_Uint16])

section \<open>Planes\<close>

lemma unat_PlaneBase: "unat d \<le> 15 \<Longrightarrow> unat (PlaneBase d) = unat d * 4096"
  by (simp add: PlaneBase_def push_bit_eq_mult unat_word_ariths)

lemma ValidatePlane_iff:
  "ValidatePlane d b = Ok () \<longleftrightarrow>
   unat d \<le> 14 \<and> unat b \<le> 15 \<and> (d = 0 \<longrightarrow> unat b \<le> 12) \<and> unat d * 4096 + 2 ^ unat b \<le> 0xF800"
proof (cases "unat d \<le> 14 \<and> unat b \<le> 15")
  case True
  then have "(2::nat) ^ unat b \<le> 2 ^ 15" by (intro power_increasing) simp_all
  moreover have "unat (ucast (PlaneBase d) :: u32) = unat d * 4096"
    using True by (simp add: unat_PlaneBase)
  moreover have "unat (2 ^ unat b :: u32) = 2 ^ unat b" using True by (simp add: unat_exp_u32)
  ultimately have "unat (ucast (PlaneBase d) + 2 ^ unat b :: u32) = unat d * 4096 + 2 ^ unat b"
    using True by (simp add: unat_word_ariths)
  with True show ?thesis
    by (auto simp: ValidatePlane_def Let_def word_less_nat_alt not_less)
next
  case False
  then show ?thesis by (auto simp: ValidatePlane_def Let_def word_less_nat_alt not_less)
qed

lemma unat_PlaneOf: "unat (PlaneOf idx) = unat idx div 4096"
proof -
  have "drop_bit 12 (unat idx) = unat idx div 4096" by (simp add: drop_bit_eq_div)
  moreover have "unat idx div 4096 < 16" by (rule less_mult_imp_div_less) simp
  ultimately show ?thesis by (simp add: PlaneOf_def unat_ucast_down unat_drop_bit_eq)
qed

lemma NewPlane_Ok_iff:
  "NewPlane pr g b d = Ok p \<longleftrightarrow>
   ValidatePlane d b = Ok () \<and> p = \<lparr>pl_Engine = New pr g b, pl_base = PlaneBase d\<rparr>"
  by (auto simp: NewPlane_def rbind_Ok_iff)

lemma PlaneGroupIndex_unat:
  assumes "NewPlane pr g b d = Ok p" and "length key = 32"
  shows "unat (PlaneGroupIndex p key) = unat d * 4096 + unat (GroupIndex (New pr g b) key)"
    and "unat (GroupIndex (New pr g b) key) < 2 ^ unat b"
proof -
  have v: "unat d \<le> 14" "unat b \<le> 15" "unat d * 4096 + 2 ^ unat b \<le> 0xF800"
    using assms(1) by (auto simp: NewPlane_Ok_iff ValidatePlane_iff)
  then have "b \<le> 32" by (simp add: word_le_nat_alt)
  then show less: "unat (GroupIndex (New pr g b) key) < 2 ^ unat b"
    using assms(2) by (intro GroupIndex_less) simp_all
  have "unat (ucast (PlaneBase d) :: u32) = unat d * 4096"
    using v by (simp add: unat_PlaneBase)
  with less v assms(1) show "unat (PlaneGroupIndex p key) = unat d * 4096 + unat (GroupIndex (New pr g b) key)"
    by (simp add: PlaneGroupIndex_def NewPlane_Ok_iff unat_word_ariths)
qed

lemma unat_SlotSpan: "unat b \<le> 15 \<Longrightarrow> unat (SlotSpan b) = (if unat b \<le> 12 then 1 else 2 ^ (unat b - 12))"
proof -
  assume b: "unat b \<le> 15"
  then consider "unat b \<le> 12" | "unat b = 13" | "unat b = 14" | "unat b = 15" by linarith
  then show ?thesis
    by cases (auto simp: SlotSpan_def word_le_nat_alt unat_sub)
qed

lemma exp_le_SlotSpan: "unat b \<le> 15 \<Longrightarrow> 2 ^ unat b \<le> unat (SlotSpan b) * 4096"
proof -
  assume b: "unat b \<le> 15"
  have "(2::nat) ^ unat b \<le> 2 ^ 12" if "unat b \<le> 12" using that by (intro power_increasing) simp_all
  moreover have "(2::nat) ^ unat b = 2 ^ (unat b - 12) * 2 ^ 12" if "12 < unat b"
    using that by (simp only: power_add [symmetric]) simp
  ultimately show ?thesis using b by (cases "unat b \<le> 12") (simp_all add: unat_SlotSpan)
qed

lemma Groups_unat:
  assumes "NewPlane pr g b d = Ok p"
  shows "map unat (Groups p) = [unat d * 4096..<unat d * 4096 + 2 ^ unat b]"
proof -
  have v: "unat d \<le> 14" "unat b \<le> 15" "unat d * 4096 + 2 ^ unat b \<le> 0xF800"
    and p: "p = \<lparr>pl_Engine = New pr g b, pl_base = PlaneBase d\<rparr>"
    using assms by (auto simp: NewPlane_Ok_iff ValidatePlane_iff)
  have n: "unat (NumGroups (New pr g b)) = 2 ^ unat b"
    using v by (intro NumGroups_New) (simp add: word_less_nat_alt)
  have "unat (PlaneBase d + word_of_nat i) = unat d * 4096 + i" if "i < 2 ^ unat b" for i
    using that v by (simp add: unat_word_ariths unat_PlaneBase unat_of_nat take_bit_nat_eq_self)
  then have "map unat (Groups p) = map (\<lambda>i. i + unat d * 4096) [0..<2 ^ unat b]"
    by (simp add: Groups_def p n)
  then show ?thesis by (simp add: map_add_upt add.commute)
qed

section \<open>Labels\<close>

lemma hexdigit_inj: "d < 16 \<Longrightarrow> d' < 16 \<Longrightarrow> hexdigit d = hexdigit d' \<Longrightarrow> d = d'"
proof -
  have "distinct ''0123456789abcdef''" by simp
  then show "d < 16 \<Longrightarrow> d' < 16 \<Longrightarrow> hexdigit d = hexdigit d' \<Longrightarrow> d = d'"
    unfolding hexdigit_def by (subst (asm) nth_eq_iff_index_eq) simp_all
qed

lemma digit_step:
  assumes "(m::nat) div 16 = n div 16" and "m mod 16 = n mod 16" shows "m = n"
  using div_mult_mod_eq [of m 16] div_mult_mod_eq [of n 16] unfolding assms by simp

lemma digit_steps:
  "(m::nat) div 4096 = n div 4096 \<Longrightarrow> m div 256 mod 16 = n div 256 mod 16 \<Longrightarrow> m div 256 = n div 256"
  "m div 256 = n div 256 \<Longrightarrow> m div 16 mod 16 = n div 16 mod 16 \<Longrightarrow> m div 16 = n div 16"
  by (rule digit_step; simp add: div_mult2_eq [symmetric])+

lemma hexdigit_mod: "hexdigit (m mod 16) = hexdigit (n mod 16) \<Longrightarrow> m mod 16 = n mod 16"
  by (rule hexdigit_inj) simp_all

lemma top_digit: "unat (v :: u16) div 4096 mod 16 = unat v div 4096"
  by (intro mod_less less_mult_imp_div_less) simp

lemma hex4_digits:
  assumes "hex4 w = hex4 w'"
  shows "hexdigit (unat w div 4096 mod 16) = hexdigit (unat w' div 4096 mod 16)"
    and "hexdigit (unat w div 256 mod 16) = hexdigit (unat w' div 256 mod 16)"
    and "hexdigit (unat w div 16 mod 16) = hexdigit (unat w' div 16 mod 16)"
    and "hexdigit (unat w mod 16) = hexdigit (unat w' mod 16)"
  using assms by (simp_all add: hex4_def)

lemma hex4_inj:
  assumes "hex4 w = hex4 w'" shows "w = w'"
proof -
  note eqs = hex4_digits [OF assms, THEN hexdigit_mod]
  have "unat w div 256 = unat w' div 256"
    using eqs(1,2) unfolding top_digit by (rule digit_steps)
  then have "unat w div 16 = unat w' div 16" using eqs(3) by (rule digit_steps)
  then have "unat w = unat w'" using eqs(4) by (rule digit_step)
  then show "w = w'" by (simp only: word_unat_eq_iff)
qed

section \<open>Properties\<close>

text \<open>
  C14: the sharding rule is the top bits of the key, and widening it is consistent. For every width of
  at most 31 bits the group index of a key is its first 32 bits divided by \<open>2^(32-n)\<close>, it is below
  the number of groups, and with one more bit every group splits into exactly its two children: the
  index at width \<open>n+1\<close> is twice the index at width \<open>n\<close>, or one more. No key moves to another group.
\<close>

theorem group_split:
  assumes "n < 32" and "length key = 32"
  shows "unat (GroupIndex (New p g n) key) = be_nat (take 4 key) div 2 ^ (32 - unat n) \<and>
    unat (GroupIndex (New p g n) key) < unat (NumGroups (New p g n)) \<and>
    unat (NumGroups (New p g n)) = 2 ^ unat n \<and>
    unat (GroupIndex (New p g (n + 1)) key) \<in>
      {2 * unat (GroupIndex (New p g n) key), 2 * unat (GroupIndex (New p g n) key) + 1}"
proof -
  have half: "a \<in> {2 * b, 2 * b + 1}" if "a div 2 = b" for a b :: nat using that by auto
  have n: "n \<le> 32" and k: "4 \<le> length key" using assms by simp_all
  have num: "unat (NumGroups (New p g n)) = 2 ^ unat n" by (rule NumGroups_New [OF assms(1)])
  show ?thesis
    unfolding num using GroupIndex_unat [OF n k] GroupIndex_less [OF n k] half [OF GroupIndex_split [OF assms(1) k]]
    by blast
qed

theorem group_split_witness:
  "unat (GroupIndex (New 0xFF05 0xB 4) ([0xA7, 0, 0, 0] @ replicate 28 0)) = 0xA \<and>
   unat (GroupIndex (New 0xFF05 0xB 5) ([0xA7, 0, 0, 0] @ replicate 28 0)) \<in> {0x14, 0x15}"
proof -
  have key: "be_nat (take 4 ([0xA7, 0, 0, 0] @ replicate 28 0)) = 0xA7000000" by simp
  have "(4 :: u64) + 1 = 5" by simp
  with group_split [where n = 4 and key = "[0xA7, 0, 0, 0] @ replicate 28 0" and p = "0xFF05" and g = "0xB",
      unfolded key]
  show ?thesis by auto
qed

text \<open>
  C15: object planes stay in their bands. Every index a validated plane derives lies in
  \<open>[planeBase, planeBase + 2^bits)\<close>, below the control plane, is one of the plane's \<^verbatim>\<open>Groups\<close> (which are
  exactly the indices of the band, in ascending order without repetition), and its high nibble is
  one of the plane's reserved slots.
\<close>

theorem plane_band:
  assumes "NewPlane pr g b d = Ok p" and "length key = 32"
  shows "unat (PlaneBase d) \<le> unat (PlaneGroupIndex p key) \<and>
    unat (PlaneGroupIndex p key) < unat (PlaneBase d) + 2 ^ unat b \<and>
    unat (PlaneBase d) + 2 ^ unat b \<le> unat ControlBase \<and>
    ucast (PlaneGroupIndex p key) \<in> set (Groups p) \<and>
    map unat (Groups p) = [unat (PlaneBase d)..<unat (PlaneBase d) + 2 ^ unat b] \<and>
    unat d \<le> unat (PlaneOf (ucast (PlaneGroupIndex p key))) \<and>
    unat (PlaneOf (ucast (PlaneGroupIndex p key))) < unat d + unat (SlotSpan b)"
proof -
  have v: "unat d \<le> 14" "unat b \<le> 15" "unat d * 4096 + 2 ^ unat b \<le> 0xF800"
    using assms(1) by (auto simp: NewPlane_Ok_iff ValidatePlane_iff)
  let ?i = "unat (PlaneGroupIndex p key)"
  have base: "unat (PlaneBase d) = unat d * 4096" using v by (simp add: unat_PlaneBase)
  have band: "unat d * 4096 \<le> ?i" "?i < unat d * 4096 + 2 ^ unat b"
    using PlaneGroupIndex_unat [OF assms] by simp_all
  then have i: "unat (ucast (PlaneGroupIndex p key) :: u16) = ?i"
    using v by (simp add: unat_ucast_down)
  have "?i \<in> set (map unat (Groups p))" using band Groups_unat [OF assms(1)] by simp
  then obtain x where "x \<in> set (Groups p)" and "unat x = ?i" by auto
  moreover from this i have "x = ucast (PlaneGroupIndex p key)" by (simp only: word_unat_eq_iff)
  ultimately have mem: "ucast (PlaneGroupIndex p key) \<in> set (Groups p)" by simp
  have of: "unat (PlaneOf (ucast (PlaneGroupIndex p key))) = ?i div 4096"
    by (simp only: unat_PlaneOf i)
  have "?i < (unat d + unat (SlotSpan b)) * 4096"
    using band exp_le_SlotSpan [OF v(2)] by (simp add: algebra_simps)
  then have "?i div 4096 < unat d + unat (SlotSpan b)" by (simp add: div_less_iff_less_mult)
  moreover have "unat d \<le> ?i div 4096" using band(1) by (simp add: less_eq_div_iff_mult_less_eq)
  ultimately show ?thesis
    using base band v mem of Groups_unat [OF assms(1)] by simp
qed

theorem plane_band_witness:
  "\<exists>p. NewPlane 0xFF05 0xB 13 1 = Ok p \<and> 0x1000 \<le> unat (PlaneGroupIndex p (replicate 32 0xFF)) \<and>
     unat (PlaneGroupIndex p (replicate 32 0xFF)) < 0x3000"
proof -
  have "ValidatePlane 1 13 = Ok ()" by (simp add: ValidatePlane_iff)
  then have p: "NewPlane 0xFF05 0xB 13 1 = Ok \<lparr>pl_Engine = New 0xFF05 0xB 13, pl_base = PlaneBase 1\<rparr>"
    by (simp add: NewPlane_Ok_iff)
  have "unat (PlaneBase 1) = 0x1000" by (simp add: unat_PlaneBase)
  moreover have "unat (PlaneBase 1) \<le> unat (PlaneGroupIndex \<lparr>pl_Engine = New 0xFF05 0xB 13, pl_base = PlaneBase 1\<rparr> (replicate 32 0xFF))"
    and "unat (PlaneGroupIndex \<lparr>pl_Engine = New 0xFF05 0xB 13, pl_base = PlaneBase 1\<rparr> (replicate 32 0xFF)) <
      unat (PlaneBase 1) + 2 ^ unat (13 :: u64)"
    using plane_band [OF p length_replicate] by blast+
  ultimately show ?thesis using p by simp
qed

text \<open>
  C16: planes do not collide. When the slots reserved by one plane end before the domain of another,
  no key of the first and no key of the second share a group, and the multicast addresses differ;
  nor does any plane's address coincide with the address of a network service on the same prefix.
\<close>

theorem planes_disjoint:
  assumes p: "NewPlane pr g b d = Ok p" and q: "NewPlane pr' g' b' d' = Ok q"
    and slots: "unat d + unat (SlotSpan b) \<le> unat d'"
    and k: "length k = 32" and k': "length k' = 32"
    and svc: "ControlBase \<le> svc"
  shows "PlaneGroupIndex p k \<noteq> PlaneGroupIndex q k' \<and>
    Addr (pl_Engine p) (PlaneGroupIndex p k) port \<noteq> (Addr (pl_Engine q) (PlaneGroupIndex q k') port :: (unit, udp_addr) res) \<and>
    rbind (Addr (pl_Engine p) (PlaneGroupIndex p k) port) (\<lambda>a. Ok (ua_IP a)) \<noteq> (GroupAddr pr g svc :: (unit, bytes) res)"
proof -
  have v: "unat b \<le> 15" "unat d * 4096 + 2 ^ unat b \<le> 0xF800" "unat d' * 4096 + 2 ^ unat b' \<le> 0xF800"
    using p q by (auto simp: NewPlane_Ok_iff ValidatePlane_iff)
  have "unat (PlaneGroupIndex p k) < unat d * 4096 + 2 ^ unat b"
    using PlaneGroupIndex_unat [OF p k] by simp
  also have "\<dots> \<le> (unat d + unat (SlotSpan b)) * 4096"
    using exp_le_SlotSpan [OF v(1)] by simp
  also have "\<dots> \<le> unat d' * 4096" using slots by (rule mult_right_mono) simp
  also have "\<dots> \<le> unat (PlaneGroupIndex q k')" using PlaneGroupIndex_unat [OF q k'] by simp
  finally have less: "unat (PlaneGroupIndex p k) < unat (PlaneGroupIndex q k')" .
  have small: "unat (PlaneGroupIndex p k) < 0xF800" "unat (PlaneGroupIndex q k') < 0xF800"
    using PlaneGroupIndex_unat [OF p k] PlaneGroupIndex_unat [OF q k'] v by simp_all
  then have low: "unat (ucast (PlaneGroupIndex p k) :: u16) = unat (PlaneGroupIndex p k)"
    "unat (ucast (PlaneGroupIndex q k') :: u16) = unat (PlaneGroupIndex q k')"
    by (simp_all add: unat_ucast_down)
  then have ne: "ucast (PlaneGroupIndex p k) \<noteq> (ucast (PlaneGroupIndex q k') :: u16)"
    using less by (simp add: word_unat_eq_iff)
  have "ucast (PlaneGroupIndex p k) \<noteq> svc"
    using low small svc by (auto simp: word_le_nat_alt)
  with less ne show ?thesis
    by (auto simp: Addr_layout GroupAddr_layout group_ip_eq_iff)
qed

theorem planes_disjoint_witness:
  "\<exists>p q. NewPlane 0xFF05 0xB 12 0 = Ok p \<and> NewPlane 0xFF05 0xB 0 1 = Ok q \<and>
     PlaneGroupIndex p (replicate 32 0xFF) \<noteq> PlaneGroupIndex q (replicate 32 0xFF)"
proof -
  have v: "ValidatePlane 0 12 = Ok ()" "ValidatePlane 1 0 = Ok ()" by (simp_all add: ValidatePlane_iff)
  then have p: "NewPlane 0xFF05 0xB 12 0 = Ok \<lparr>pl_Engine = New 0xFF05 0xB 12, pl_base = PlaneBase 0\<rparr>"
    and q: "NewPlane 0xFF05 0xB 0 1 = Ok \<lparr>pl_Engine = New 0xFF05 0xB 0, pl_base = PlaneBase 1\<rparr>"
    by (simp_all add: NewPlane_Ok_iff)
  have "unat (0 :: u8) + unat (SlotSpan 12) \<le> unat (1 :: u8)" by (simp add: SlotSpan_def)
  from planes_disjoint [OF p q this length_replicate length_replicate order_refl]
  show ?thesis using p q by blast
qed

text \<open>
  Labels. The label of a network-service group determines the group, over all 65536 indices; the
  two defined source modes and scopes parse back from their labels; and of their combinations exactly
  any-source multicast at global scope is refused (RFC 8815), the prefixes of the other three being
  distinct multicast prefixes.
\<close>

theorem labels_and_prefixes:
  "(GroupIdx_String i = GroupIdx_String j \<longleftrightarrow> i = j) \<and>
   ParseSourceMode (SourceMode_String SourceModeASM) = Ok SourceModeASM \<and>
   ParseSourceMode (SourceMode_String SourceModeSSM) = Ok SourceModeSSM \<and>
   ParseScope (Scope_String ScopeSite) = Ok ScopeSite \<and> ParseScope (Scope_String ScopeGlobal) = Ok ScopeGlobal \<and>
   (m \<in> {SourceModeASM, SourceModeSSM} \<and> s \<in> {ScopeSite, ScopeGlobal} \<longrightarrow>
     (if m = SourceModeASM \<and> s = ScopeGlobal then Prefix m s = Err ErrASMGlobal
      else \<exists>w. Prefix m s = Ok w \<and> drop_bit 8 w = 0xFF \<and>
        (\<forall>m' s'. Prefix m' s' = Ok w \<longrightarrow> m' = m \<and> s' = s)))"
proof -
  have "GroupIdx_String i = GroupIdx_String j \<longleftrightarrow> i = j"
    by (auto simp: GroupIdx_String_def dest: hex4_inj split: if_splits)
  moreover have "(m \<in> {SourceModeASM, SourceModeSSM} \<and> s \<in> {ScopeSite, ScopeGlobal} \<longrightarrow>
     (if m = SourceModeASM \<and> s = ScopeGlobal then Prefix m s = Err ErrASMGlobal
      else \<exists>w. Prefix m s = Ok w \<and> drop_bit 8 w = 0xFF \<and>
        (\<forall>m' s'. Prefix m' s' = Ok w \<longrightarrow> m' = m \<and> s' = s)))"
    by (auto simp: Prefix_def)
  ultimately show ?thesis
    by (simp add: ParseSourceMode_def SourceMode_String_def ParseScope_def Scope_String_def)
qed

theorem labels_and_prefixes_witness:
  "\<exists>w. Prefix SourceModeSSM ScopeGlobal = Ok w \<and> drop_bit 8 w = 0xFF \<and>
     Prefix SourceModeSSM ScopeSite \<noteq> Ok w"
proof -
  have "\<exists>w. Prefix SourceModeSSM ScopeGlobal = Ok w \<and> drop_bit 8 w = 0xFF \<and>
      (\<forall>m' s'. Prefix m' s' = Ok w \<longrightarrow> m' = SourceModeSSM \<and> s' = ScopeGlobal)"
    using labels_and_prefixes [of _ _ SourceModeSSM ScopeGlobal] by simp
  then show ?thesis by fastforce
qed

end
