(* ===== verification/Manifest_Spec.thy ===== *)
theory Manifest_Spec
  imports Shard_Manifest Shard
begin

unbundle bit_operations_syntax

text \<open>
  What the manifest codec guarantees beyond the round trip: the domains section is accepted exactly
  when its planes are legal for the sharding engine and their slot reservations are disjoint, and
  the checksum detects every corruption of a single byte.
\<close>

section \<open>The domains section against the plane rules\<close>

definition slots_of :: "domain_descriptor \<Rightarrow> nat set" where
  "slots_of d = {unat (dd_DomainID d)..<unat (dd_DomainID d) + unat (dd_SlotSpan d)}"

primrec disjoint_slots :: "domain_descriptor list \<Rightarrow> bool" where
  "disjoint_slots [] \<longleftrightarrow> True"
| "disjoint_slots (d # ds) \<longleftrightarrow> (\<forall>e \<in> set ds. slots_of d \<inter> slots_of e = {}) \<and> disjoint_slots ds"

definition successor_ok :: "bool \<Rightarrow> domain_descriptor \<Rightarrow> bool" where
  "successor_ok auth d = (case dd_Successor d of
     None \<Rightarrow> \<not> has (dd_Flags d) DomainFlagSuccessorValid
   | Some s \<Rightarrow> has (dd_Flags d) DomainFlagSuccessorValid \<and> auth \<and> withinOneBit (dd_ShardBits d) (sb_ShardBits s) \<and>
       ValidatePlane (dd_DomainID d) (ucast (sb_ShardBits s)) = Ok ())"

definition domain_ok :: "u8 \<Rightarrow> bytes \<Rightarrow> bool \<Rightarrow> domain_descriptor \<Rightarrow> bool" where
  "domain_ok bits gen auth d \<longleftrightarrow>
     ValidatePlane (dd_DomainID d) (ucast (dd_ShardBits d)) = Ok () \<and>
     unat (SlotSpan (ucast (dd_ShardBits d))) \<le> unat (dd_SlotSpan d) \<and>
     unat (dd_DomainID d) + unat (dd_SlotSpan d) \<le> 15 \<and>
     (dd_DomainID d = 0 \<longrightarrow> dd_ShardBits d = bits \<and> dd_GenerationID d = gen) \<and>
     successor_ok auth d"

text \<open>The loop state of \<^verbatim>\<open>validateDomains\<close> represents the set of reserved slots.\<close>

definition reserved :: "nat set \<Rightarrow> u8 list \<Rightarrow> bool" where
  "reserved U slots \<longleftrightarrow> length slots = 15 \<and> (\<forall>s < 15. slots ! s = (if s \<in> U then 1 else 0))"

definition seen_in :: "nat set \<Rightarrow> bool list \<Rightarrow> bool" where
  "seen_in U seen \<longleftrightarrow> length seen = 15 \<and> (\<forall>i < 15. seen ! i \<longrightarrow> i \<in> U)"

lemma reserveSlots_spec:
  assumes "reserved U slots" and "s + n \<le> 15"
  shows "if {s..<s + n} \<inter> U = {} then \<exists>slots'. reserveSlots n s slots = Ok slots' \<and> reserved (U \<union> {s..<s + n}) slots'
    else reserveSlots n s slots = Err ErrShardManifestBadDomains"
  using assms
proof (induction n arbitrary: s slots U)
  case (Suc n)
  have len: "length slots = 15" "s < 15" using Suc.prems by (simp_all add: reserved_def)
  let ?slots = "slots[s := slots ! s + 1]"
  show ?case
  proof (cases "s \<in> U")
    case True
    then have "slots ! s = 1" using Suc.prems by (simp add: reserved_def)
    then have "reserveSlots (Suc n) s slots = Err ErrShardManifestBadDomains" using len by (simp add: Let_def)
    moreover have "s \<in> {s..<s + Suc n} \<inter> U" using True by simp
    then have "{s..<s + Suc n} \<inter> U \<noteq> {}" by blast
    ultimately show ?thesis by (simp only: if_False)
  next
    case False
    then have "slots ! s = 0" using Suc.prems len by (simp add: reserved_def)
    then have step: "reserveSlots (Suc n) s slots = reserveSlots n (Suc s) ?slots" using len by (simp add: Let_def)
    have "reserved (insert s U) ?slots"
      using Suc.prems(1) \<open>slots ! s = 0\<close> len by (auto simp: reserved_def nth_list_update)
    from Suc.IH [OF this, of "Suc s"] Suc.prems(2)
    have ih: "if {Suc s..<Suc s + n} \<inter> insert s U = {}
      then \<exists>slots'. reserveSlots n (Suc s) ?slots = Ok slots' \<and> reserved (insert s U \<union> {Suc s..<Suc s + n}) slots'
      else reserveSlots n (Suc s) ?slots = Err ErrShardManifestBadDomains" by simp
    have ivl: "{s..<s + Suc n} = insert s {Suc s..<Suc s + n}" by auto
    have dis: "{Suc s..<Suc s + n} \<inter> insert s U = {} \<longleftrightarrow> {s..<s + Suc n} \<inter> U = {}"
      unfolding ivl using False by simp
    have un: "insert s U \<union> {Suc s..<Suc s + n} = U \<union> {s..<s + Suc n}" unfolding ivl by simp
    show ?thesis using ih unfolding step dis un .
  qed
qed (auto simp: reserved_def)

lemma plane_limit:
  assumes "unat w \<le> 14" and "unat b \<le> 15"
  shows "domainControlBase < push_bit 12 (ucast (w :: u8)) + push_bit (unat (b :: u8)) (1 :: u32) \<longleftrightarrow>
    0xF800 < unat w * 4096 + 2 ^ unat b"
proof -
  have "(2::nat) ^ unat b \<le> 2 ^ 15" using assms(2) by (intro power_increasing) simp_all
  moreover have "unat (push_bit 12 (ucast w) :: u32) = unat w * 4096"
    using assms(1) by (simp add: push_bit_eq_mult unat_word_ariths)
  moreover have "unat (push_bit (unat b) 1 :: u32) = 2 ^ unat b" using assms(2) by (simp add: unat_exp_u32)
  ultimately have "unat (push_bit 12 (ucast w) + push_bit (unat b) 1 :: u32) = unat w * 4096 + 2 ^ unat b"
    using assms(1) by (simp only: unat_word_ariths) simp
  then show ?thesis by (simp only: word_less_nat_alt) simp
qed

lemma validateDomainSuccessor_iff:
  assumes "mb = (if dd_DomainID d = 0 then MaxShardBits else MaxPlaneShardBits)" and "unat (dd_DomainID d) \<le> 14"
  shows "validateDomainSuccessor d mb auth = (if successor_ok auth d then Ok () else Err ErrShardManifestBadDomains)"
proof (cases "dd_Successor d")
  case None
  then show ?thesis by (simp add: validateDomainSuccessor_def successor_ok_def)
next
  case (Some s)
  have mb: "mb < sb_ShardBits s \<longleftrightarrow> \<not> (unat (sb_ShardBits s) \<le> 15 \<and> (dd_DomainID d = 0 \<longrightarrow> unat (sb_ShardBits s) \<le> 12))"
    by (auto simp: assms(1) word_less_nat_alt)
  show ?thesis
  proof (cases "unat (sb_ShardBits s) \<le> 15")
    case True
    then show ?thesis
      unfolding validateDomainSuccessor_def Let_def Some option.case mb plane_limit [OF assms(2) True]
      using assms(2) by (auto simp: successor_ok_def Some ValidatePlane_iff)
  next
    case False
    then show ?thesis
      unfolding validateDomainSuccessor_def Let_def Some option.case mb
      by (auto simp: successor_ok_def Some ValidatePlane_iff)
  qed
qed

lemma implied_span:
  "(if 12 < b then push_bit (unat (b - 12)) 1 else 1 :: u8) = SlotSpan (ucast (b :: u8))"
proof -
  have le: "ucast b \<le> (12 :: u64) \<longleftrightarrow> \<not> 12 < b" by (simp add: word_le_nat_alt word_less_nat_alt not_less)
  have "unat (ucast b - 12 :: u64) = unat (b - 12)" if "12 < b"
    using that le by (simp add: unat_sub word_le_nat_alt word_less_nat_alt)
  then show ?thesis by (simp add: SlotSpan_def le)
qed

lemma domain_ok_iff:
  assumes "unat (dd_DomainID d) \<le> 14"
  shows "domain_ok bits gen auth d \<longleftrightarrow>
    \<not> (if dd_DomainID d = 0 then MaxShardBits else MaxPlaneShardBits) < dd_ShardBits d \<and>
    \<not> domainControlBase < push_bit 12 (ucast (dd_DomainID d)) + push_bit (unat (dd_ShardBits d)) (1 :: u32) \<and>
    \<not> dd_SlotSpan d < SlotSpan (ucast (dd_ShardBits d)) \<and>
    \<not> 15 < unat (dd_DomainID d) + unat (dd_SlotSpan d) \<and>
    \<not> (dd_DomainID d = 0 \<and> (dd_ShardBits d \<noteq> bits \<or> dd_GenerationID d \<noteq> gen)) \<and> successor_ok auth d"
proof (cases "(if dd_DomainID d = 0 then MaxShardBits else MaxPlaneShardBits) < dd_ShardBits d")
  case True
  then show ?thesis
    by (auto simp: domain_ok_def ValidatePlane_iff word_less_nat_alt split: if_splits)
next
  case False
  then have "unat (dd_ShardBits d) \<le> 15" and "dd_DomainID d = 0 \<longrightarrow> unat (dd_ShardBits d) \<le> 12"
    by (auto simp: word_less_nat_alt split: if_splits)
  then have "ValidatePlane (dd_DomainID d) (ucast (dd_ShardBits d)) = Ok () \<longleftrightarrow>
      \<not> domainControlBase < push_bit 12 (ucast (dd_DomainID d)) + push_bit (unat (dd_ShardBits d)) (1 :: u32)"
    unfolding plane_limit [OF assms \<open>unat (dd_ShardBits d) \<le> 15\<close>] using assms by (auto simp: ValidatePlane_iff)
  with False show ?thesis
    unfolding domain_ok_def word_less_nat_alt [of "dd_SlotSpan d"] by (simp only: not_less) blast
qed

lemma one_le_SlotSpan: "unat b \<le> 15 \<Longrightarrow> 1 \<le> unat (SlotSpan b)"
  by (simp add: unat_SlotSpan)

lemma validateDomain_unfold:
  assumes "unat (dd_DomainID d) \<le> 14" and "length seen = 15"
  shows "validateDomain bits gen auth d (seen, slots) =
    (if seen ! unat (dd_DomainID d) then Err ErrShardManifestBadDomains
     else if (if dd_DomainID d = 0 then MaxShardBits else MaxPlaneShardBits) < dd_ShardBits d
     then Err ErrShardManifestBadDomains
     else if domainControlBase < push_bit 12 (ucast (dd_DomainID d)) + push_bit (unat (dd_ShardBits d)) (1 :: u32)
     then Err ErrShardManifestBadDomains
     else if dd_SlotSpan d < SlotSpan (ucast (dd_ShardBits d)) then Err ErrShardManifestBadDomains
     else if 15 < unat (dd_DomainID d) + unat (dd_SlotSpan d) then Err ErrShardManifestBadDomains
     else rbind (reserveSlots (unat (dd_SlotSpan d)) (unat (dd_DomainID d)) slots) (\<lambda>slots'.
       if dd_DomainID d = 0 \<and> (dd_ShardBits d \<noteq> bits \<or> dd_GenerationID d \<noteq> gen) then Err ErrShardManifestBadDomains
       else if \<not> successor_ok auth d then Err ErrShardManifestBadDomains
       else Ok (seen[unat (dd_DomainID d) := True], slots')))"
proof -
  have a: "\<not> MaxDomainID < dd_DomainID d" "\<not> length seen \<le> unat (dd_DomainID d)" "unat MaxDomainID + 1 = 15"
    using assms by (simp_all add: word_less_nat_alt)
  show ?thesis
    unfolding validateDomain_def prod.case Let_def implied_span a(3) validateDomainSuccessor_iff [OF refl assms(1)]
    using a(1,2) by (simp cong: if_cong)
qed

lemma guard_chain:
  assumes "\<not> (\<not> p1 \<and> \<not> p2 \<and> \<not> p3 \<and> \<not> p4 \<and> \<not> p5 \<and> p6)" and "\<not> p4 \<Longrightarrow> r = Err e \<or> (\<exists>x. r = Ok x)"
  shows "(if p0 then Err e else if p1 then Err e else if p2 then Err e else if p3 then Err e else if p4 then Err e
    else rbind r (\<lambda>x. if p5 then Err e else if \<not> p6 then Err e else Ok (g x))) = Err e"
  using assms by (cases r) auto

lemma validateDomain_iff:
  assumes seen: "seen_in U seen" and slots: "reserved U slots"
  shows "if domain_ok bits gen auth d \<and> slots_of d \<inter> U = {}
    then \<exists>seen' slots'. validateDomain bits gen auth d (seen, slots) = Ok (seen', slots') \<and>
      seen_in (U \<union> slots_of d) seen' \<and> reserved (U \<union> slots_of d) slots'
    else validateDomain bits gen auth d (seen, slots) = Err ErrShardManifestBadDomains"
proof (cases "unat (dd_DomainID d) \<le> 14")
  case False
  then show ?thesis by (simp add: validateDomain_def domain_ok_def ValidatePlane_iff word_less_nat_alt)
next
  case True
  let ?i = "unat (dd_DomainID d)" and ?n = "unat (dd_SlotSpan d)"
  have len: "length seen = 15" using seen by (simp add: seen_in_def)
  note u = validateDomain_unfold [OF True len, of bits gen auth slots] and ok = domain_ok_iff [OF True, of bits gen auth]
  show ?thesis
  proof (cases "domain_ok bits gen auth d")
    case dok: True
    then have n: "1 \<le> ?n" "?i + ?n \<le> 15"
      using one_le_SlotSpan [of "ucast (dd_ShardBits d)"] by (auto simp: domain_ok_def ValidatePlane_iff)
    then have self: "?i \<in> slots_of d" by (simp add: slots_of_def)
    have "?i \<in> U" if "seen ! ?i" using that seen True by (simp add: seen_in_def)
    with self have dis: "\<not> seen ! ?i" if "slots_of d \<inter> U = {}" using that by blast
    have nxt: "seen_in (U \<union> slots_of d) (seen[?i := True])"
      using seen self True by (auto simp: seen_in_def nth_list_update)
    have v: "validateDomain bits gen auth d (seen, slots) = (if seen ! ?i then Err ErrShardManifestBadDomains
        else rbind (reserveSlots ?n ?i slots) (\<lambda>slots'. Ok (seen[?i := True], slots')))"
      using dok unfolding u ok by (simp only: if_False if_True simp_thms)
    show ?thesis
    proof (cases "slots_of d \<inter> U = {}")
      case empty: True
      with reserveSlots_spec [OF slots n(2)] obtain slots' where "reserveSlots ?n ?i slots = Ok slots'"
        "reserved (U \<union> slots_of d) slots'" by (auto simp: slots_of_def)
      then show ?thesis using dok empty dis nxt unfolding v by simp
    next
      case False
      then have "reserveSlots ?n ?i slots = Err ErrShardManifestBadDomains"
        using reserveSlots_spec [OF slots n(2)] by (simp add: slots_of_def)
      then show ?thesis using False unfolding v by simp
    qed
  next
    case False
    have "reserveSlots ?n ?i slots = Err ErrShardManifestBadDomains \<or> (\<exists>s. reserveSlots ?n ?i slots = Ok s)"
      if "\<not> 15 < ?i + ?n"
      using reserveSlots_spec [OF slots, of ?i ?n] that by (auto simp: not_less split: if_splits)
    with False have "validateDomain bits gen auth d (seen, slots) = Err ErrShardManifestBadDomains"
      unfolding u ok by (rule guard_chain)
    with False show ?thesis by simp
  qed
qed

lemma validateLoop_iff:
  assumes "seen_in U seen" and "reserved U slots"
  shows "validateLoop bits gen auth ds (seen, slots) =
    (if (\<forall>d \<in> set ds. domain_ok bits gen auth d \<and> slots_of d \<inter> U = {}) \<and> disjoint_slots ds then Ok ()
     else Err ErrShardManifestBadDomains)"
  using assms
proof (induction ds arbitrary: U seen slots)
  case (Cons d ds)
  note v = validateDomain_iff [OF Cons.prems, of bits gen auth d]
  show ?case
  proof (cases "domain_ok bits gen auth d \<and> slots_of d \<inter> U = {}")
    case True
    with v obtain seen' slots' where st: "validateDomain bits gen auth d (seen, slots) = Ok (seen', slots')"
      "seen_in (U \<union> slots_of d) seen'" "reserved (U \<union> slots_of d) slots'" by auto
    have "(\<forall>e \<in> set ds. domain_ok bits gen auth e \<and> slots_of e \<inter> (U \<union> slots_of d) = {}) \<longleftrightarrow>
        (\<forall>e \<in> set ds. domain_ok bits gen auth e \<and> slots_of e \<inter> U = {}) \<and> (\<forall>e \<in> set ds. slots_of d \<inter> slots_of e = {})"
      by blast
    with True st(1) Cons.IH [OF st(2,3)] show ?thesis by auto
  next
    case False
    with v show ?thesis by auto
  qed
qed simp

section \<open>The checksum\<close>

lemma crcBit_top: "bit (crcBit c) 31 \<longleftrightarrow> bit c 0"
  by (auto simp: crcBit_def bit_xor_iff bit_drop_bit_eq dest: bit_imp_le_length)

lemma xor_right_inj: "(c :: u32) XOR d = c' XOR d \<Longrightarrow> c = c'"
  by (metis xor.assoc xor_self_eq xor.right_neutral)

lemma crcBit_inj: "crcBit c = crcBit c' \<Longrightarrow> c = c'"
proof (rule bit_word_eqI)
  fix n assume eq: "crcBit c = crcBit c'" and n: "n < LENGTH(32)"
  then have b0: "bit c 0 \<longleftrightarrow> bit c' 0" using crcBit_top by metis
  then have "drop_bit 1 c = drop_bit 1 c'"
    using eq by (auto simp: crcBit_def dest: xor_right_inj split: if_splits)
  then have "bit (drop_bit 1 c) (n - 1) \<longleftrightarrow> bit (drop_bit 1 c') (n - 1)" by simp
  then show "bit c n \<longleftrightarrow> bit c' n" using b0 by (cases n) (simp_all add: bit_drop_bit_eq)
qed

lemma crcByte_inj:
  "crcByte c v = crcByte c' v \<Longrightarrow> c = c'"
  "crcByte c v = crcByte c v' \<Longrightarrow> v = v'"
proof -
  have pw: "(crcBit ^^ n) a = (crcBit ^^ n) b \<Longrightarrow> a = b" for n a b
    by (induction n) (auto dest: crcBit_inj)
  show "crcByte c v = crcByte c' v \<Longrightarrow> c = c'" by (auto simp: crcByte_def dest!: pw xor_right_inj)
  assume "crcByte c v = crcByte c v'"
  then have "ucast v = (ucast v' :: u32)" using pw xor_right_inj by (metis crcByte_def xor.commute)
  then show "v = v'" by (metis unat_ucast_up(3) word_unat_eq_iff)
qed

lemma foldl_crc_inj: "foldl crcByte c ys = foldl crcByte c' ys \<Longrightarrow> c = c'"
  by (induction ys arbitrary: c c') (auto dest: crcByte_inj)

lemma crc32c_one_byte: "crc32c (xs @ a # ys) = crc32c (xs @ b # ys) \<Longrightarrow> a = b"
proof -
  assume "crc32c (xs @ a # ys) = crc32c (xs @ b # ys)"
  then have "foldl crcByte (NOT 0) (xs @ a # ys) = foldl crcByte (NOT 0) (xs @ b # ys)"
    unfolding crc32c_def by (metis bit.double_compl)
  then show "a = b" by (auto dest: foldl_crc_inj crcByte_inj)
qed

text \<open>What \<^verbatim>\<open>verifyCRC\<close> compares.\<close>

definition blanked :: "bytes \<Rightarrow> bytes" where
  "blanked d = take 44 d @ [0, 0, 0, 0] @ drop 48 d"

lemma verifyCRC_Ok:
  assumes "verifyCRC d n = Ok ()" and "64 \<le> n" and "n \<le> length d"
  shows "crc32c (blanked (take n d)) = BE_Uint32 (take 4 (drop 44 d))"
proof -
  let ?t = "take n d"
  have len: "length ?t = n" using assms(3) by simp
  have z: "[put8 44 0, put8 45 0, put8 46 0, put8 47 0] = (chunks 44 [[0], [0], [0], [0]] :: manifest_err writer list)"
    by (simp add: put8_copyTo)
  have "run (chunks 44 [[0], [0], [0], [0]]) (take 44 ?t @ drop 44 ?t) = (Ok (blanked ?t) :: (manifest_err, _) res)"
    using assms(2) len by (subst run_chunks) (simp_all add: blanked_def)
  then have "run (chunks 44 [[0], [0], [0], [0]]) ?t = (Ok (blanked ?t) :: (manifest_err, _) res)"
    by (simp only: append_take_drop_id)
  then show ?thesis
    using assms unfolding verifyCRC_def z by (simp del: run.simps chunks.simps split: if_splits)
qed

lemma length_blanked: "48 \<le> length t \<Longrightarrow> length (blanked t) = length t"
  by (simp add: blanked_def)

lemma nth_blanked:
  "48 \<le> length t \<Longrightarrow> j < length t \<Longrightarrow> blanked t ! j = (if 44 \<le> j \<and> j < 48 then 0 else t ! j)"
proof -
  assume t: "48 \<le> length t" and j: "j < length t"
  consider "j < 44" | "j = 44" | "j = 45" | "j = 46" | "j = 47" | "48 \<le> j" by linarith
  then show ?thesis using t j by cases (simp_all add: blanked_def nth_append)
qed

lemma BE_Uint32_inj: "length s = 4 \<Longrightarrow> length t = 4 \<Longrightarrow> BE_Uint32 s = BE_Uint32 t \<Longrightarrow> s = t"
  by (metis BE_Put_Uint(2))

lemma single_byte_detected:
  assumes n: "64 \<le> n" "n \<le> length d" and i: "i < n"
    and "verifyCRC d n = Ok ()" and "verifyCRC (d[i := b]) n = Ok ()"
  shows "b = d ! i"
proof -
  let ?e = "d[i := b]"
  define x where "x = blanked (take n d)"
  define y where "y = blanked (take n ?e)"
  have crc: "crc32c x = BE_Uint32 (take 4 (drop 44 d))" "crc32c y = BE_Uint32 (take 4 (drop 44 ?e))"
    unfolding x_def y_def using assms by (intro verifyCRC_Ok; simp)+
  have len: "length x = n" "length y = n" using n by (simp_all add: x_def y_def length_blanked)
  have nth: "x ! j = (if 44 \<le> j \<and> j < 48 then 0 else d ! j)" "y ! j = (if 44 \<le> j \<and> j < 48 then 0 else ?e ! j)"
    if "j < n" for j using that n by (simp_all add: x_def y_def nth_blanked)
  show ?thesis
  proof (cases "44 \<le> i \<and> i < 48")
    case True
    then have "y = x" using len by (intro nth_equalityI) (auto simp: nth nth_list_update)
    with crc have eq: "take 4 (drop 44 ?e) = take 4 (drop 44 d)" using n by (intro BE_Uint32_inj) simp_all
    obtain k where k: "i = 44 + k" "k < 4" using True by (intro that [of "i - 44"]) auto
    have "?e ! i = take 4 (drop 44 ?e) ! k" using k n by simp
    also have "\<dots> = d ! i" unfolding eq using k n by simp
    finally show ?thesis using i n by simp
  next
    case False
    then have "take 4 (drop 44 ?e) = take 4 (drop 44 d)"
      by (cases "i < 44") (simp_all add: drop_update_cancel drop_update_swap)
    with crc have c: "crc32c y = crc32c x" by simp
    have "y = x[i := b]"
      using len False i n by (intro nth_equalityI) (auto simp: nth nth_list_update)
    then have "y = take i x @ b # drop (Suc i) x" using len i by (simp add: upd_conv_take_nth_drop)
    moreover have "x = take i x @ d ! i # drop (Suc i) x"
      using id_take_nth_drop [of i x] len i False by (simp add: nth)
    ultimately show ?thesis using c crc32c_one_byte by metis
  qed
qed

section \<open>Properties\<close>

text \<open>
  C11: shard manifests survive the wire. A manifest that passes the encoder's checks is written as
  \<^verbatim>\<open>ShardManifestSize\<close> bytes, nothing behind them is touched, and the datagram, with anything after
  it, decodes to the same manifest: every header field, the list or bitmap, the sources, the
  successor block and all domain descriptors; a smaller buffer is refused. Conversely every datagram
  the decoder accepts passes the encoder's checks and can be re-encoded in place to a datagram that
  decodes to the same manifest, and the decoder never reads out of bounds.
\<close>

theorem manifest_roundtrip:
  "(manifest_shape m \<and> encodeChecks m = Ok () \<longrightarrow>
     (if ShardManifestSize m \<le> length buf
      then \<exists>out. EncodeShardManifest m buf = Ok (ShardManifestSize m, out) \<and> length out = length buf \<and>
        drop (ShardManifestSize m) out = drop (ShardManifestSize m) buf \<and>
        DecodeShardManifest (take (ShardManifestSize m) out @ rest) = Ok m
      else EncodeShardManifest m buf = Err ErrManifestBufferTooSmall)) \<and>
   (DecodeShardManifest d = Ok m' \<longrightarrow> encodeChecks m' = Ok () \<and>
     (\<exists>n out. EncodeShardManifest m' d = Ok (n, out) \<and> n \<le> length d \<and> DecodeShardManifest (take n out) = Ok m')) \<and>
   DecodeShardManifest d \<noteq> Panic"
proof (intro conjI impI manifest_codec.forward DecodeShardManifest_total)
  assume "manifest_shape m \<and> encodeChecks m = Ok ()"
  then have wf: "manifest_wf m" by (simp add: manifest_wf_def)
  show "if ShardManifestSize m \<le> length buf
      then \<exists>out. EncodeShardManifest m buf = Ok (ShardManifestSize m, out) \<and> length out = length buf \<and>
        drop (ShardManifestSize m) out = drop (ShardManifestSize m) buf \<and>
        DecodeShardManifest (take (ShardManifestSize m) out @ rest) = Ok m
      else EncodeShardManifest m buf = Err ErrManifestBufferTooSmall"
    by (rule manifest_codec.send [OF wf length_manifest_wire [OF wf, symmetric]])
next
  assume "DecodeShardManifest d = Ok m'"
  from DecodeShardManifest_wf(1) [OF this] show "encodeChecks m' = Ok ()" by (simp add: manifest_wf_def)
qed

definition sample_manifest :: shard_manifest where
  "sample_manifest = \<lparr>sm_Flags = 0x13, sm_SrcIPv6 = replicate 16 1, sm_InstanceID = 7, sm_Epoch = 8, sm_TTL = 30,
     sm_AnnounceInterval = 10, sm_ShardBits = 4, sm_RoleHint = 1, sm_GenerationID = replicate 16 2,
     sm_Groups = [1, 5, 9], sm_Bitmap = [], sm_Sources = [replicate 16 3], sm_Successor = None, sm_Domains = []\<rparr>"

lemma sample_manifest_ok: "manifest_shape sample_manifest \<and> encodeChecks sample_manifest = Ok ()"
proof
  have ivl: "{Suc 0..<Suc (Suc (Suc 0))} = {1, 2}" by auto
  show "manifest_shape sample_manifest" by (simp add: manifest_shape_def sample_manifest_def)
  show "encodeChecks sample_manifest = Ok ()"
    by (simp add: encodeChecks_def groupsChecks_def sourcesChecks_def validateFlags_def successorChecks_def
        domainsChecks_def has_def sample_manifest_def ivl word_le_nat_alt word_less_nat_alt)
qed

lemma sample_manifest_size: "ShardManifestSize sample_manifest = 86"
  by (simp add: ShardManifestSize_def has_def sample_manifest_def)

theorem manifest_roundtrip_witness:
  "\<exists>out. EncodeShardManifest sample_manifest (replicate 100 0) = Ok (86, out) \<and>
     DecodeShardManifest (take 86 out) = Ok sample_manifest \<and>
     (\<exists>n out'. EncodeShardManifest sample_manifest (take 86 out) = Ok (n, out') \<and>
        DecodeShardManifest (take n out') = Ok sample_manifest)"
proof -
  obtain out where o: "EncodeShardManifest sample_manifest (replicate 100 0) = Ok (86, out)"
    and d: "DecodeShardManifest (take 86 out) = Ok sample_manifest"
    using manifest_roundtrip [of sample_manifest "replicate 100 0" "[]"] sample_manifest_ok
    unfolding sample_manifest_size by auto
  with manifest_roundtrip [of _ _ _ "take 86 out" sample_manifest] show ?thesis by blast
qed

text \<open>
  C12: the domains section is accepted exactly when it describes legal, non-overlapping planes. For
  one to fifteen descriptors, \<^verbatim>\<open>validateDomains\<close> succeeds if and only if every descriptor's domain and
  width are accepted by \<^verbatim>\<open>shard.ValidatePlane\<close> (for the successor's width too, which needs an
  authoritative announcer and a change of at most one bit), its slot span covers what
  \<^verbatim>\<open>shard.SlotSpan\<close> reserves and stays below slot 15, a descriptor of domain 0 agrees with the top-level
  width and generation, and no slot is reserved twice.
\<close>

theorem validateDomains_spec:
  "validateDomains ds bits gen auth =
     (if 1 \<le> length ds \<and> length ds \<le> 15 \<and> (\<forall>d \<in> set ds. domain_ok bits gen auth d) \<and> disjoint_slots ds
      then Ok () else Err ErrShardManifestBadDomains)"
proof -
  have "seen_in {} (replicate 15 False)" "reserved {} (replicate 15 0)"
    by (simp_all add: seen_in_def reserved_def)
  from validateLoop_iff [OF this, of bits gen auth ds] show ?thesis
    by (auto simp: validateDomains_def Suc_le_eq not_le)
qed

theorem validateDomains_spec_witness:
  "validateDomains
     [\<lparr>dd_DomainID = 1, dd_ShardBits = 13, dd_SlotSpan = 2, dd_Flags = 4, dd_Version = 0, dd_GenerationID = replicate 16 1, dd_Successor = None\<rparr>,
      \<lparr>dd_DomainID = 3, dd_ShardBits = 0, dd_SlotSpan = 1, dd_Flags = 4, dd_Version = 0, dd_GenerationID = replicate 16 1, dd_Successor = None\<rparr>]
     4 (replicate 16 0) False = Ok ()"
  unfolding validateDomains_spec
  by (simp add: domain_ok_def successor_ok_def slots_of_def ValidatePlane_iff SlotSpan_def has_def)

text \<open>
  The bytes of a datagram that declare its extent: the flags, the three counts, and where there are domain descriptors their
  count and the flags of each.
\<close>

primrec descriptorFlags :: "nat \<Rightarrow> bytes \<Rightarrow> nat \<Rightarrow> nat list" where
  "descriptorFlags 0 buf scan = []"
| "descriptorFlags (Suc n) buf scan =
     (scan + 3) # descriptorFlags n buf (scan + DomainDescriptorSize + (if has (buf ! (scan + 3)) DomainFlagSuccessorValid then SuccessorBlockSize else 0))"

definition extentBytes :: "bytes \<Rightarrow> nat list" where
  "extentBytes buf = 7 # [38..<44] @
     (if has (buf ! 7) FlagDomainsValid
      then declaredFixed buf # descriptorFlags (unat (buf ! declaredFixed buf)) buf (declaredFixed buf + 1) else [])"

lemma scanDescriptors_same:
  "i \<notin> set (descriptorFlags n d scan) \<Longrightarrow> scanDescriptors n (d[i := b]) scan = scanDescriptors n d scan"
  by (induction n arbitrary: scan) (auto simp: index_def)

lemma declaredExtent_same:
  assumes "i \<notin> set (extentBytes d)" and "64 \<le> length d"
  shows "declaredExtent (d[i := b]) = declaredExtent d"
proof -
  have i: "i \<noteq> 7" "i < 38 \<or> 44 \<le> i" using assms(1) by (auto simp: extentBytes_def)
  have "take 2 (drop j (d[i := b])) = take 2 (drop j d)" if "38 \<le> j" "j \<le> 42" for j
    using i(2) that by (auto simp: drop_update_swap take_update_cancel)
  then have fixed: "(d[i := b]) ! 7 = d ! 7" "declaredFixed (d[i := b]) = declaredFixed d" using i(1) by (simp_all add: declaredFixed_def)
  have "scanDomains (d[i := b]) (declaredFixed d) = scanDomains d (declaredFixed d)" if "has (d ! 7) FlagDomainsValid"
    using assms(1) that by (auto simp: scanDomains_def extentBytes_def index_def scanDescriptors_same)
  then show ?thesis unfolding declaredExtent_def fixed by (auto simp: datagramExtent_def)
qed

text \<open>
  C13: the checksum protects the datagram. If a datagram decodes and a byte within its extent is changed, the result is rejected, unless the
  byte is one of those that declare the extent (the flags, the counts, the domain count and the flags of a descriptor) and the
  changed datagram declares another extent: only then is the checksum taken over other bytes, and it may match. So a change of any other byte, and one
  of these that leaves the extent as it is, is always rejected.
\<close>

theorem corrupt_byte_rejected:
  assumes "DecodeShardManifest d = Ok m" and "i < ShardManifestSize m" and "b \<noteq> d ! i"
  shows "(\<exists>e. DecodeShardManifest (d[i := b]) = Err e) \<or>
    (\<exists>m'. DecodeShardManifest (d[i := b]) = Ok m' \<and> i \<in> set (extentBytes d) \<and> ShardManifestSize m' \<noteq> ShardManifestSize m)"
proof (cases "DecodeShardManifest (d[i := b])")
  case (Ok m')
  note d = DecodeShardManifest_wf [OF assms(1)] and e = DecodeShardManifest_wf [OF Ok]
  have size: "64 \<le> ShardManifestSize m" by (simp add: ShardManifestSize_def)
  have other: "ShardManifestSize m' \<noteq> ShardManifestSize m"
    using single_byte_detected [OF size d(2) assms(2) d(3), of b] e(3) assms(3) by auto
  moreover have "i \<in> set (extentBytes d)"
    using declaredExtent_same [of i d b] size d(2,4) e(4) other by auto
  ultimately show ?thesis using Ok by blast
qed (use DecodeShardManifest_total in blast)+

theorem corrupt_byte_rejected_witness:
  "\<exists>e. DecodeShardManifest ((manifest_wire sample_manifest)[70 := manifest_wire sample_manifest ! 70 + 1]) = Err e"
proof -
  have wf: "manifest_wf sample_manifest" using sample_manifest_ok by (simp add: manifest_wf_def)
  have d: "DecodeShardManifest (manifest_wire sample_manifest) = Ok sample_manifest"
    using manifest_codec.decode_wire [OF wf, of "[]"] by simp
  have "manifest_wire sample_manifest ! 7 = 0x13"
    unfolding manifest_wire_def manifest_frame_def by (simp add: head1_chunks_def sample_manifest_def nth_append)
  then have "70 \<notin> set (extentBytes (manifest_wire sample_manifest))" by (simp add: extentBytes_def has_def)
  then show ?thesis
    using corrupt_byte_rejected [OF d, of 70 "manifest_wire sample_manifest ! 70 + 1"] by (simp add: sample_manifest_size)
qed

end
