(* ===== verification/Sha256.thy ===== *)
theory Sha256
  imports Prelude
begin

unbundle bit_operations_syntax

text \<open>
  \<^verbatim>\<open>crypto/sha256\<close> of the Go standard library (FIPS 180-4), used for transaction ids, block hashes and
  content ids: padding, message schedule and compression over \<open>32 word\<close>.
\<close>

text \<open>
  The constants, from their definition in the standard: the first 32 bits of the fractional parts of the
  cube roots of the first 64 primes, and of the square roots of the first eight. \<open>iroot k n\<close> is the
  integer part of the \<open>k\<close>-th root of \<open>n\<close>, found bit by bit (the roots taken here have at most 35 bits).
\<close>

definition iroot :: "nat \<Rightarrow> nat \<Rightarrow> nat" where
  "iroot k n = foldl (\<lambda>r i. if (r + 2 ^ i) ^ k \<le> n then r + 2 ^ i else r) 0 (rev [0..<36])"

definition sha_primes :: "nat list" where
  "sha_primes = filter (\<lambda>p. list_all (\<lambda>d. p mod d \<noteq> 0) [2..<p]) [2..<312]"

definition sha_k :: "u32 list" where
  "sha_k = map (\<lambda>p. word_of_nat (iroot 3 (p * 2 ^ 96))) sha_primes"

definition sha_init :: "u32 list" where
  "sha_init = map (\<lambda>i. word_of_nat (iroot 2 (sha_primes ! i * 2 ^ 64))) [0..<8]"

definition rotr :: "nat \<Rightarrow> u32 \<Rightarrow> u32" where
  "rotr n w = drop_bit n w OR push_bit (32 - n) w"

definition sha_pad :: "bytes \<Rightarrow> bytes" where
  "sha_pad msg =
     (let n = length msg in msg @ [0x80] @ replicate ((119 - n mod 64) mod 64) 0 @ be_bytes 8 (8 * n))"

fun words32 :: "bytes \<Rightarrow> u32 list" where
  "words32 (a # b # c # d # rest) = BE_Uint32 [a, b, c, d] # words32 rest"
| "words32 _ = []"

definition sched_step :: "u32 list \<Rightarrow> u32 list" where
  "sched_step w =
     (let t = length w; v1 = w ! (t - 2); v2 = w ! (t - 15);
          t1 = rotr 17 v1 XOR rotr 19 v1 XOR drop_bit 10 v1;
          t2 = rotr 7 v2 XOR rotr 18 v2 XOR drop_bit 3 v2 in
      w @ [t1 + w ! (t - 7) + t2 + w ! (t - 16)])"

definition sched :: "u32 list \<Rightarrow> u32 list" where
  "sched w = (sched_step ^^ 48) w"

fun sha_round :: "u32 list \<Rightarrow> u32 \<times> u32 \<Rightarrow> u32 list" where
  "sha_round [a, b, c, d, e, f, g, h] (k, w) =
     (let t1 = h + (rotr 6 e XOR rotr 11 e XOR rotr 25 e) + ((e AND f) XOR (NOT e AND g)) + k + w;
          t2 = (rotr 2 a XOR rotr 13 a XOR rotr 22 a) + ((a AND b) XOR (a AND c) XOR (b AND c)) in
      [t1 + t2, a, b, c, d + t1, e, f, g])"
| "sha_round st _ = st"

definition sha_block :: "u32 list \<Rightarrow> bytes \<Rightarrow> u32 list" where
  "sha_block h blk = map2 (+) h (foldl sha_round h (zip sha_k (sched (words32 blk))))"

fun blocks64 :: "bytes \<Rightarrow> bytes list" where
  "blocks64 bs = (if length bs < 64 then [] else take 64 bs # blocks64 (drop 64 bs))"

declare blocks64.simps [simp del]

definition Sum256 :: "bytes \<Rightarrow> bytes" where
  "Sum256 msg = concat (map BE_PutUint32 (foldl sha_block sha_init (blocks64 (sha_pad msg))))"

lemma length_sha_round: "length (sha_round h kw) = length h"
  by (induction h kw rule: sha_round.induct) (simp_all add: Let_def)

lemma length_foldl_round: "length (foldl sha_round h kws) = length h"
  by (induction kws arbitrary: h) (simp_all add: length_sha_round)

lemma length_foldl_block: "length (foldl sha_block h bs) = length h"
  by (induction bs arbitrary: h) (simp_all add: sha_block_def length_foldl_round)

lemma length_Sum256 [simp]: "length (Sum256 msg) = 32"
proof -
  have "length (concat (map BE_PutUint32 ws)) = 4 * length ws" for ws by (induction ws) simp_all
  then show ?thesis by (simp add: Sum256_def length_foldl_block sha_init_def)
qed

end
