(* ===== verification/Bundle.thy ===== *)
theory Bundle
  imports Frame Shard Sha256 "HOL-Library.Multiset"
begin

text \<open>
  The coalescing bundle of \<^verbatim>\<open>bundle/\<close>: the wire format that packs the transactions of one flow into one
  datagram (bundle.go), the coalescer, its inverse and the re-bucketer (coalesce.go), and the flow
  identifier of \<^verbatim>\<open>seqhash/\<close>. The 64-bit hash of \<^verbatim>\<open>xxhash\<close>, a third-party package, is the parameter
  \<open>xxh\<close>; nothing is assumed of it.
\<close>

section \<open>Wire format (bundle.go)\<close>

abbreviation (input) FrameVerBundle :: u8 where "FrameVerBundle \<equiv> FrameVerV8"
abbreviation (input) BundleHeaderSize :: nat where "BundleHeaderSize \<equiv> 66"
abbreviation (input) FlagTxIDsPresent :: u8 where "FlagTxIDsPresent \<equiv> 1"
abbreviation (input) MaxMembers :: nat where "MaxMembers \<equiv> 65535"
abbreviation (input) MaxMemberTxLen :: nat where "MaxMemberTxLen \<equiv> 65535"
abbreviation (input) memberLenSize :: nat where "memberLenSize \<equiv> 2"
abbreviation (input) memberTxIDSize :: nat where "memberTxIDSize \<equiv> 32"

datatype bundle_err =
    BErrTooShort | BErrBadMagic | BErrBadVer | BErrTruncated | BErrTooMany | BErrMemberBig | BErrCountMismatch

record member =
  mb_TxID :: bytes
  mb_Tx :: bytes

record tx_bundle =
  bn_Flags :: u8
  bn_SubtreeID :: bytes
  bn_HashKey :: u64
  bn_SeqNum :: u64
  bn_GroupIdx :: u16
  bn_ShardBits :: u8
  bn_Members :: "member list"

definition TxIDsPresent :: "tx_bundle \<Rightarrow> bool" where
  "TxIDsPresent b = (bn_Flags b AND FlagTxIDsPresent \<noteq> 0)"

definition memberSectionLen :: "tx_bundle \<Rightarrow> nat" where
  "memberSectionLen b =
     (let per = (if TxIDsPresent b then memberLenSize + memberTxIDSize else memberLenSize);
          n = per * length (bn_Members b) in
      foldl (\<lambda>n m. n + length (mb_Tx m)) n (bn_Members b))"

definition MemberOverhead :: "bool \<Rightarrow> nat" where
  "MemberOverhead carryTxID = (if carryTxID then memberLenSize + memberTxIDSize else memberLenSize)"

fun encodeMembers :: "bool \<Rightarrow> nat \<Rightarrow> member list \<Rightarrow> bytes \<Rightarrow> (bundle_err, bytes) res" where
  "encodeMembers withTxID off [] buf = Ok buf"
| "encodeMembers withTxID off (m # ms) buf =
     (if MaxMemberTxLen < length (mb_Tx m) then Err BErrMemberBig else
      rbind (putBE16 off (off + 2) (word_of_nat (length (mb_Tx m))) buf) (\<lambda>buf.
      let off = off + memberLenSize in
      rbind (if withTxID then copyTo off (off + memberTxIDSize) (mb_TxID m) buf else Ok buf) (\<lambda>buf.
      let off = (if withTxID then off + memberTxIDSize else off) in
      rbind (copyTo off (off + length (mb_Tx m)) (mb_Tx m) buf) (\<lambda>buf.
      encodeMembers withTxID (off + length (mb_Tx m)) ms buf))))"

definition Bundle_Encode :: "tx_bundle \<Rightarrow> (bundle_err, bytes) res" where
  "Bundle_Encode b =
     (if MaxMembers < length (bn_Members b) then Err BErrTooMany else
      let withTxID = TxIDsPresent b; payLen = memberSectionLen b in
      rbind (run
        [putBE32 0 4 MagicBSV,
         putBE16 4 6 ProtoVer,
         put8 6 FrameVerBundle,
         put8 7 (bn_Flags b),
         copyTo 8 40 (bn_SubtreeID b),
         putBE64 40 48 (bn_HashKey b),
         putBE64 48 56 (bn_SeqNum b),
         putBE16 56 58 (bn_GroupIdx b),
         put8 58 (bn_ShardBits b),
         put8 59 0,
         putBE16 60 62 (word_of_nat (length (bn_Members b))),
         putBE32 62 66 (word_of_nat payLen)] (replicate (BundleHeaderSize + payLen) 0))
      (encodeMembers withTxID BundleHeaderSize (bn_Members b)))"

fun decodeMembers :: "bool \<Rightarrow> bytes \<Rightarrow> nat \<Rightarrow> nat \<Rightarrow> nat \<Rightarrow> (bundle_err, member list \<times> nat) res" where
  "decodeMembers withTxID buf fin 0 off = Ok ([], off)"
| "decodeMembers withTxID buf fin (Suc n) off =
     (if fin < off + memberLenSize then Err BErrTruncated else
      rbind (BE16 buf off (off + 2)) (\<lambda>l.
      let txLen = unat l; off = off + memberLenSize in
      rbind (if withTxID
             then if fin < off + memberTxIDSize then Err BErrTruncated
               else rbind (slice buf off (off + memberTxIDSize)) (\<lambda>txid. Ok (txid, off + memberTxIDSize))
             else Ok (zeros32, off)) (\<lambda>(txid, off).
      if fin < off + txLen then Err BErrTruncated else
      rbind (slice buf off (off + txLen)) (\<lambda>tx.
      rbind (decodeMembers withTxID buf fin n (off + txLen)) (\<lambda>(ms, off).
      Ok (\<lparr>mb_TxID = txid, mb_Tx = tx\<rparr> # ms, off))))))"

definition Bundle_Decode :: "bytes \<Rightarrow> (bundle_err, tx_bundle) res" where
  "Bundle_Decode buf =
     (if length buf < BundleHeaderSize then Err BErrTooShort else
      rbind (BE32 buf 0 4) (\<lambda>magic.
      if magic \<noteq> MagicBSV then Err BErrBadMagic else
      rbind (index buf 6) (\<lambda>ver.
      if ver \<noteq> FrameVerBundle then Err BErrBadVer else
      rbind (index buf 7) (\<lambda>flags.
      rbind (slice buf 8 40) (\<lambda>subtree.
      rbind (BE64 buf 40 48) (\<lambda>hashKey.
      rbind (BE64 buf 48 56) (\<lambda>seqNum.
      rbind (BE16 buf 56 58) (\<lambda>groupIdx.
      rbind (index buf 58) (\<lambda>shardBits.
      rbind (BE16 buf 60 62) (\<lambda>count.
      rbind (BE32 buf 62 66) (\<lambda>payLen.
      if length buf - BundleHeaderSize < unat payLen then Err BErrTruncated else
      let fin = BundleHeaderSize + unat payLen in
      rbind (decodeMembers (flags AND FlagTxIDsPresent \<noteq> 0) buf fin (unat count) BundleHeaderSize) (\<lambda>(ms, off).
      if off \<noteq> fin then Err BErrCountMismatch else
      Ok \<lparr>bn_Flags = flags, bn_SubtreeID = subtree, bn_HashKey = hashKey, bn_SeqNum = seqNum,
        bn_GroupIdx = groupIdx, bn_ShardBits = shardBits, bn_Members = ms\<rparr>))))))))))))"

section \<open>Flow identifier (seqhash.go)\<close>

text \<open>The 52-byte input array is filled completely by its three fields, which have fixed lengths.\<close>

definition seqhash_Hash :: "(bytes \<Rightarrow> u64) \<Rightarrow> bytes \<Rightarrow> u32 \<Rightarrow> bytes \<Rightarrow> u64" where
  "seqhash_Hash xxh senderIPv6 groupIdx subtreeID =
     xxh (take 16 senderIPv6 @ BE_PutUint32 groupIdx @ take 32 subtreeID)"

section \<open>Coalescing (coalesce.go)\<close>

record flow_key =
  fk_sender :: bytes
  fk_group :: u16
  fk_subtree :: bytes

record coalescer =
  co_eng :: engine
  co_maxBytes :: int
  co_maxCount :: int
  co_carryTxID :: bool
  co_seq :: "flow_key \<rightharpoonup> u64"

definition NewCoalescer :: "engine \<Rightarrow> int \<Rightarrow> int \<Rightarrow> bool \<Rightarrow> coalescer" where
  "NewCoalescer eng maxBytes maxCount carryTxID =
     (let maxCount = (if maxCount \<le> 0 \<or> int MaxMembers < maxCount then int MaxMembers else maxCount) in
      \<lparr>co_eng = eng, co_maxBytes = maxBytes, co_maxCount = maxCount, co_carryTxID = carryTxID,
       co_seq = Map.empty\<rparr>)"

definition flowOf :: "engine \<Rightarrow> bytes \<Rightarrow> frame \<Rightarrow> flow_key" where
  "flowOf eng sender f =
     \<lparr>fk_sender = sender, fk_group = ucast (GroupIndex eng (fr_TxID f)), fk_subtree = fr_SubtreeID f\<rparr>"

definition memberOf :: "frame \<Rightarrow> member" where
  "memberOf f = \<lparr>mb_TxID = fr_TxID f, mb_Tx = fr_Payload f\<rparr>"

text \<open>One round of the bucketing loop: the index map and the buckets in first-seen order.\<close>

definition bucketStep ::
  "engine \<Rightarrow> bytes \<Rightarrow> (flow_key \<rightharpoonup> nat) \<times> (flow_key \<times> member list) list \<Rightarrow> frame \<Rightarrow>
   (flow_key \<rightharpoonup> nat) \<times> (flow_key \<times> member list) list"
where
  "bucketStep eng sender st f =
     (let k = flowOf eng sender f;
          (idx, buckets) = st;
          (bi, idx, buckets) =
            (case idx k of
               Some bi \<Rightarrow> (bi, idx, buckets)
             | None \<Rightarrow> (length buckets, idx(k \<mapsto> length buckets), buckets @ [(k, [])])) in
      (idx, buckets[bi := (fst (buckets ! bi), snd (buckets ! bi) @ [memberOf f])]))"

text \<open>
  The packing loop of one bundle: \<open>n\<close> members of \<open>size\<close> bytes are in it; the result is what is added
  and what is left.
\<close>

fun packMembers :: "int \<Rightarrow> int \<Rightarrow> nat \<Rightarrow> nat \<Rightarrow> nat \<Rightarrow> member list \<Rightarrow> member list \<times> member list" where
  "packMembers maxBytes maxCount overhead n sz [] = ([], [])"
| "packMembers maxBytes maxCount overhead n sz (m # ms) =
     (if int n < maxCount then
        let add = overhead + length (mb_Tx m) in
        if 0 < n \<and> maxBytes < int (sz + add) then ([], m # ms) else
        let (taken, left) = packMembers maxBytes maxCount overhead (n + 1) (sz + add) ms in
        (m # taken, left)
      else ([], m # ms))"

definition seqOf :: "coalescer \<Rightarrow> flow_key \<Rightarrow> u64" where
  "seqOf c k = (case co_seq c k of Some n \<Rightarrow> n | None \<Rightarrow> 0)"

text \<open>The loop over one bucket; \<open>None\<close> would be a loop that does not end.\<close>

partial_function (option) packBucket ::
  "(bytes \<Rightarrow> u64) \<Rightarrow> coalescer \<Rightarrow> flow_key \<Rightarrow> member list \<Rightarrow> (coalescer \<times> tx_bundle list) option"
where
  "packBucket xxh c k mems =
     (if mems = [] then Some (c, []) else
      let (taken, left) =
            packMembers (co_maxBytes c) (co_maxCount c) (MemberOverhead (co_carryTxID c)) 0 BundleHeaderSize mems;
          seq = seqOf c k + 1;
          b = \<lparr>bn_Flags = (if co_carryTxID c then FlagTxIDsPresent else 0), bn_SubtreeID = fk_subtree k,
               bn_HashKey = seqhash_Hash xxh (fk_sender k) (ucast (fk_group k)) (fk_subtree k), bn_SeqNum = seq,
               bn_GroupIdx = fk_group k, bn_ShardBits = ucast (eng_shardBits (co_eng c)), bn_Members = taken\<rparr> in
      Option.bind (packBucket xxh (c\<lparr>co_seq := (co_seq c)(k \<mapsto> seq)\<rparr>) k left) (\<lambda>(c', out).
      Some (c', b # out)))"

primrec packBuckets ::
  "(bytes \<Rightarrow> u64) \<Rightarrow> coalescer \<Rightarrow> (flow_key \<times> member list) list \<Rightarrow> (coalescer \<times> tx_bundle list) option"
where
  "packBuckets xxh c [] = Some (c, [])"
| "packBuckets xxh c (bk # bks) =
     Option.bind (packBucket xxh c (fst bk) (snd bk)) (\<lambda>(c, out).
     Option.bind (packBuckets xxh c bks) (\<lambda>(c, outs). Some (c, out @ outs)))"

definition Coalesce ::
  "(bytes \<Rightarrow> u64) \<Rightarrow> coalescer \<Rightarrow> bytes \<Rightarrow> frame list \<Rightarrow> (coalescer \<times> tx_bundle list) option"
where
  "Coalesce xxh c sender frames =
     packBuckets xxh c (snd (foldl (bucketStep (co_eng c) sender) (Map.empty, []) frames))"

definition TxID :: "bytes \<Rightarrow> bytes" where
  "TxID tx = Sum256 (Sum256 tx)"

definition Decoalesce :: "tx_bundle \<Rightarrow> frame list" where
  "Decoalesce b =
     map (\<lambda>m. \<lparr>fr_Version = FrameVerV2, fr_TxID = (if TxIDsPresent b then mb_TxID m else TxID (mb_Tx m)),
            fr_HashKey = bn_HashKey b, fr_SeqNum = 0, fr_SubtreeID = bn_SubtreeID b, fr_Payload = mb_Tx m\<rparr>)
       (bn_Members b)"

text \<open>A \<^verbatim>\<open>Rebucketer\<close> holds a coalescer and nothing else.\<close>

definition NewRebucketer :: "engine \<Rightarrow> int \<Rightarrow> int \<Rightarrow> bool \<Rightarrow> coalescer" where
  "NewRebucketer newEng maxBytes maxCount carryTxID = NewCoalescer newEng maxBytes maxCount carryTxID"

definition Rebucket ::
  "(bytes \<Rightarrow> u64) \<Rightarrow> coalescer \<Rightarrow> bytes \<Rightarrow> tx_bundle \<Rightarrow> (coalescer \<times> tx_bundle list) option"
where
  "Rebucket xxh rb sender b = Coalesce xxh rb sender (Decoalesce b)"

section \<open>Correctness of the codec\<close>

definition member_wire :: "bool \<Rightarrow> member \<Rightarrow> bytes" where
  "member_wire w m =
     BE_PutUint16 (word_of_nat (length (mb_Tx m))) @ (if w then mb_TxID m else []) @ mb_Tx m"

definition bundle_header :: "tx_bundle \<Rightarrow> bytes" where
  "bundle_header b =
     BE_PutUint32 MagicBSV @ BE_PutUint16 ProtoVer @ [FrameVerBundle] @ [bn_Flags b] @ bn_SubtreeID b @
     BE_PutUint64 (bn_HashKey b) @ BE_PutUint64 (bn_SeqNum b) @ BE_PutUint16 (bn_GroupIdx b) @ [bn_ShardBits b] @ [0] @
     BE_PutUint16 (word_of_nat (length (bn_Members b))) @ BE_PutUint32 (word_of_nat (memberSectionLen b))"

definition bundle_wire :: "tx_bundle \<Rightarrow> bytes" where
  "bundle_wire b = bundle_header b @ concat (map (member_wire (TxIDsPresent b)) (bn_Members b))"

definition member_shape :: "member \<Rightarrow> bool" where
  "member_shape m \<longleftrightarrow> length (mb_TxID m) = 32"

definition bundle_shape :: "tx_bundle \<Rightarrow> bool" where
  "bundle_shape b \<longleftrightarrow> length (bn_SubtreeID b) = 32 \<and> (\<forall>m \<in> set (bn_Members b). member_shape m)"

text \<open>What the wire keeps of a member: without the flag its id is not carried.\<close>

definition carried :: "bool \<Rightarrow> member \<Rightarrow> member" where
  "carried w m = (if w then m else m\<lparr>mb_TxID := zeros32\<rparr>)"

definition carried_bundle :: "tx_bundle \<Rightarrow> tx_bundle" where
  "carried_bundle b = b\<lparr>bn_Members := map (carried (TxIDsPresent b)) (bn_Members b)\<rparr>"

definition bundle_wf :: "tx_bundle \<Rightarrow> bool" where
  "bundle_wf b \<longleftrightarrow> bundle_shape b \<and> length (bn_Members b) \<le> MaxMembers \<and>
     (\<forall>m \<in> set (bn_Members b). length (mb_Tx m) \<le> MaxMemberTxLen) \<and> memberSectionLen b < 2 ^ 32"

lemma foldl_lengths: "foldl (\<lambda>n m. n + length (mb_Tx m)) k ms = k + (\<Sum>m\<leftarrow>ms. length (mb_Tx m))"
  by (induction ms arbitrary: k) simp_all

lemma memberSectionLen_wire:
  assumes "bundle_shape b"
  shows "memberSectionLen b = length (concat (map (member_wire (TxIDsPresent b)) (bn_Members b)))"
proof -
  have "length (concat (map (member_wire w) ms)) =
      (if w then 34 else 2) * length ms + (\<Sum>m\<leftarrow>ms. length (mb_Tx m))"
    if "\<forall>m \<in> set ms. member_shape m" for w ms
    using that by (induction ms) (auto simp: member_wire_def member_shape_def)
  with assms show ?thesis by (simp add: memberSectionLen_def foldl_lengths bundle_shape_def)
qed

lemma length_bundle_header [simp]: "length (bn_SubtreeID b) = 32 \<Longrightarrow> length (bundle_header b) = 66"
  by (simp add: bundle_header_def)

lemma bundle_header_fields:
  assumes "length (bn_SubtreeID b) = 32"
  shows "BE32 (bundle_header b @ r) 0 4 = (Ok MagicBSV :: ('e, _) res)"
    and "index (bundle_header b @ r) 6 = (Ok FrameVerBundle :: ('e, _) res)"
    and "index (bundle_header b @ r) 7 = (Ok (bn_Flags b) :: ('e, _) res)"
    and "slice (bundle_header b @ r) 8 40 = (Ok (bn_SubtreeID b) :: ('e, _) res)"
    and "BE64 (bundle_header b @ r) 40 48 = (Ok (bn_HashKey b) :: ('e, _) res)"
    and "BE64 (bundle_header b @ r) 48 56 = (Ok (bn_SeqNum b) :: ('e, _) res)"
    and "BE16 (bundle_header b @ r) 56 58 = (Ok (bn_GroupIdx b) :: ('e, _) res)"
    and "index (bundle_header b @ r) 58 = (Ok (bn_ShardBits b) :: ('e, _) res)"
    and "BE16 (bundle_header b @ r) 60 62 = (Ok (word_of_nat (length (bn_Members b))) :: ('e, _) res)"
    and "BE32 (bundle_header b @ r) 62 66 = (Ok (word_of_nat (memberSectionLen b)) :: ('e, _) res)"
  using assms unfolding bundle_header_def by (simp_all add: nth_append)

lemma encodeMembers_eq:
  "\<forall>m \<in> set ms. member_shape m \<Longrightarrow> length pre = off \<Longrightarrow>
   length rest = length (concat (map (member_wire w) ms)) \<Longrightarrow>
   encodeMembers w off ms (pre @ rest) =
     (if \<forall>m \<in> set ms. length (mb_Tx m) \<le> MaxMemberTxLen then Ok (pre @ concat (map (member_wire w) ms))
      else Err BErrMemberBig)"
proof (induction ms arbitrary: off pre rest)
  case (Cons m ms)
  let ?ss = "[BE_PutUint16 (word_of_nat (length (mb_Tx m))), if w then mb_TxID m else [], mb_Tx m]"
  have id32: "w \<Longrightarrow> length (mb_TxID m) = 32" using Cons.prems(1) by (simp add: member_shape_def)
  have wire: "concat ?ss = member_wire w m" by (simp add: member_wire_def)
  show ?case
  proof (cases "MaxMemberTxLen < length (mb_Tx m)")
    case False
    have "encodeMembers w off (m # ms) (pre @ rest) =
        rbind (run (chunks off ?ss) (pre @ rest)) (encodeMembers w (off + length (member_wire w m)) ms)"
      using False Cons.prems(1,2) id32
      by (cases w) (auto simp: putBE16_def member_wire_def rbind_assoc Let_def copyTo_def add.assoc
          add.left_commute intro!: rbind_cong)
    also have "run (chunks off ?ss) (pre @ rest) = Ok (pre @ concat ?ss @ drop (length (concat ?ss)) rest)"
      using Cons.prems(3) by (intro run_chunks Cons.prems(2)) (simp add: member_wire_def)
    finally show ?thesis
      using Cons.IH [of "pre @ member_wire w m" "off + length (member_wire w m)" "drop (length (member_wire w m)) rest"]
        Cons.prems False unfolding wire by simp
  qed auto
qed simp

lemma Bundle_Encode_eq:
  assumes "bundle_shape b"
  shows "Bundle_Encode b =
    (if MaxMembers < length (bn_Members b) then Err BErrTooMany
     else if \<forall>m \<in> set (bn_Members b). length (mb_Tx m) \<le> MaxMemberTxLen then Ok (bundle_wire b)
     else Err BErrMemberBig)"
proof -
  let ?ss = "[BE_PutUint32 MagicBSV, BE_PutUint16 ProtoVer, [FrameVerBundle], [bn_Flags b], bn_SubtreeID b,
    BE_PutUint64 (bn_HashKey b), BE_PutUint64 (bn_SeqNum b), BE_PutUint16 (bn_GroupIdx b), [bn_ShardBits b], [0],
    BE_PutUint16 (word_of_nat (length (bn_Members b))), BE_PutUint32 (word_of_nat (memberSectionLen b))]"
  have sub: "length (bn_SubtreeID b) = 32" using assms by (simp add: bundle_shape_def)
  have ws: "[putBE32 0 4 MagicBSV, putBE16 4 6 ProtoVer, put8 6 FrameVerBundle, put8 7 (bn_Flags b),
      copyTo 8 40 (bn_SubtreeID b), putBE64 40 48 (bn_HashKey b), putBE64 48 56 (bn_SeqNum b),
      putBE16 56 58 (bn_GroupIdx b), put8 58 (bn_ShardBits b), put8 59 0,
      putBE16 60 62 (word_of_nat (length (bn_Members b))), putBE32 62 66 (word_of_nat (memberSectionLen b))] =
    chunks 0 ?ss"
    using sub by (simp add: writer_defs)
  have hd: "concat ?ss = bundle_header b" by (simp add: bundle_header_def)
  have run: "run (chunks 0 ?ss) (replicate (66 + memberSectionLen b) 0) =
      Ok (bundle_header b @ replicate (memberSectionLen b) 0)"
    using run_chunks0 [of ?ss "replicate (66 + memberSectionLen b) 0"] sub unfolding hd by simp
  have "encodeMembers (TxIDsPresent b) 66 (bn_Members b) (bundle_header b @ replicate (memberSectionLen b) 0) =
      (if \<forall>m \<in> set (bn_Members b). length (mb_Tx m) \<le> MaxMemberTxLen then Ok (bundle_wire b) else Err BErrMemberBig)"
    unfolding bundle_wire_def
    using assms by (intro encodeMembers_eq) (simp_all add: bundle_shape_def memberSectionLen_wire)
  then show ?thesis unfolding Bundle_Encode_def ws Let_def run by simp
qed

text \<open>One round of the member loop, with the offsets it reads at.\<close>

abbreviation txStart :: "bool \<Rightarrow> nat \<Rightarrow> nat" where
  "txStart w off \<equiv> off + MemberOverhead w"

abbreviation txSize :: "bytes \<Rightarrow> nat \<Rightarrow> nat" where
  "txSize buf off \<equiv> unat (BE_Uint16 (take 2 (drop off buf)))"

definition memberAt :: "bool \<Rightarrow> bytes \<Rightarrow> nat \<Rightarrow> member" where
  "memberAt w buf off =
     \<lparr>mb_TxID = (if w then take 32 (drop (off + 2) buf) else zeros32),
      mb_Tx = take (txSize buf off) (drop (txStart w off) buf)\<rparr>"

lemma decodeMembers_step:
  assumes "fin \<le> length buf"
  shows "decodeMembers w buf fin (Suc n) off =
    (if fin < txStart w off + txSize buf off then Err BErrTruncated else
     rbind (decodeMembers w buf fin n (txStart w off + txSize buf off)) (\<lambda>(ms, off').
     Ok (memberAt w buf off # ms, off')))"
proof (cases "fin < off + 2")
  case True
  then show ?thesis by (simp add: MemberOverhead_def)
next
  case False
  with assms show ?thesis
    by (cases w; cases "fin < off + 34") (simp_all add: MemberOverhead_def memberAt_def slice_def BE16_def Let_def add_ac)
qed

lemma decodeMembers_wire:
  "\<forall>m \<in> set ms. member_shape m \<and> length (mb_Tx m) \<le> MaxMemberTxLen \<Longrightarrow> off = length pre \<Longrightarrow>
   off + length (concat (map (member_wire w) ms)) \<le> fin \<Longrightarrow>
   fin \<le> length (pre @ concat (map (member_wire w) ms) @ rest) \<Longrightarrow>
   decodeMembers w (pre @ concat (map (member_wire w) ms) @ rest) fin (length ms) off =
     Ok (map (carried w) ms, off + length (concat (map (member_wire w) ms)))"
proof (induction ms arbitrary: off pre)
  case (Cons m ms)
  define c where "c = concat (map (member_wire w) ms)"
  let ?buf = "pre @ member_wire w m @ c @ rest"
  have m: "length (mb_TxID m) = 32" "unat (word_of_nat (length (mb_Tx m)) :: u16) = length (mb_Tx m)"
    using Cons.prems(1) by (simp_all add: member_shape_def unat_u16_of_nat)
  have at: "txSize ?buf off = length (mb_Tx m)" "memberAt w ?buf off = carried w m"
    "txStart w off + length (mb_Tx m) = off + length (member_wire w m)"
    using m Cons.prems(2) by (simp_all add: memberAt_def member_wire_def carried_def MemberOverhead_def)
  have "decodeMembers w ?buf fin (length ms) (off + length (member_wire w m)) =
      Ok (map (carried w) ms, off + length (member_wire w m) + length c)"
    using Cons.IH [of "off + length (member_wire w m)" "pre @ member_wire w m"] Cons.prems by (simp add: c_def)
  moreover have "fin \<le> length ?buf" "off + length (member_wire w m) \<le> fin" using Cons.prems by (simp_all add: c_def)
  ultimately show ?case
    using decodeMembers_step [of fin ?buf w "length ms" off] unfolding at by (simp add: c_def)
qed simp

lemma decodeMembers_total: "fin \<le> length buf \<Longrightarrow> decodeMembers w buf fin n off \<noteq> Panic"
proof (induction n arbitrary: off)
  case (Suc n)
  then show ?case
    by (simp only: decodeMembers_step) (auto simp: rbind_Panic_iff)
qed simp

lemma memberAt_wire:
  assumes "txStart w off + txSize buf off \<le> length buf"
  shows "member_shape (memberAt w buf off)" and "length (mb_Tx (memberAt w buf off)) = txSize buf off"
    and "member_wire w (memberAt w buf off) = take (MemberOverhead w + txSize buf off) (drop off buf)"
    and "carried w (memberAt w buf off) = memberAt w buf off"
proof -
  have off: "off + 2 \<le> length buf" using assms by (simp add: MemberOverhead_def split: if_splits)
  show "member_shape (memberAt w buf off)" and "carried w (memberAt w buf off) = memberAt w buf off"
    and len: "length (mb_Tx (memberAt w buf off)) = txSize buf off"
    using assms by (auto simp: memberAt_def member_shape_def MemberOverhead_def carried_def split: if_splits)
  have "BE_PutUint16 (word_of_nat (txSize buf off)) = take 2 (drop off buf)" using off by simp
  moreover have "take (34 + txSize buf off) (drop off buf) =
      take 2 (drop off buf) @ take 32 (drop (off + 2) buf) @ take (txSize buf off) (drop (off + 34) buf)"
    using take_add [of 2 "32 + txSize buf off" "drop off buf"] take_add [of 32 "txSize buf off" "drop (off + 2) buf"]
    by (simp add: add_ac)
  ultimately show "member_wire w (memberAt w buf off) = take (MemberOverhead w + txSize buf off) (drop off buf)"
    unfolding member_wire_def len
    using take_add [of 2 "txSize buf off" "drop off buf"] by (simp add: memberAt_def MemberOverhead_def add_ac)
qed

lemma decodeMembers_Ok:
  "decodeMembers w buf fin n off = Ok (ms, off') \<Longrightarrow> fin \<le> length buf \<Longrightarrow> off \<le> fin \<Longrightarrow>
   length ms = n \<and> off \<le> off' \<and> off' \<le> fin \<and> (\<forall>m \<in> set ms. member_shape m \<and> length (mb_Tx m) \<le> MaxMemberTxLen) \<and>
   map (carried w) ms = ms \<and> take (off' - off) (drop off buf) = concat (map (member_wire w) ms)"
proof (induction n arbitrary: off ms)
  case (Suc n)
  let ?m = "memberAt w buf off" and ?o = "txStart w off + txSize buf off"
  from Suc.prems(1) obtain ms' where rec: "decodeMembers w buf fin n ?o = Ok (ms', off')"
    and ms: "ms = ?m # ms'" and fin: "?o \<le> fin"
    unfolding decodeMembers_step [OF Suc.prems(2)] by (auto simp: rbind_Ok_iff split: if_splits)
  have o: "?o \<le> length buf" using fin Suc.prems(2) by simp
  note IH = Suc.IH [OF rec Suc.prems(2) fin] and at = memberAt_wire [OF o]
  have "length (mb_Tx ?m) \<le> MaxMemberTxLen" unfolding at(2) using unat_u16_less [of "BE_Uint16 (take 2 (drop off buf))"] by linarith
  moreover have "take (off' - off) (drop off buf) = member_wire w ?m @ concat (map (member_wire w) ms')"
  proof -
    have "off' - off = (MemberOverhead w + txSize buf off) + (off' - ?o)" using IH by simp
    then have "take (off' - off) (drop off buf) = take (MemberOverhead w + txSize buf off) (drop off buf) @
        take (off' - ?o) (drop (MemberOverhead w + txSize buf off) (drop off buf))"
      by (simp only: take_add)
    also have "drop (MemberOverhead w + txSize buf off) (drop off buf) = drop ?o buf" by (simp add: add_ac)
    finally show ?thesis using IH at(3) by (simp only:)
  qed
  ultimately show ?case using IH at(1,4) ms by auto
qed simp

lemma memberSectionLen_carried: "memberSectionLen (carried_bundle b) = memberSectionLen b"
proof -
  have "(\<Sum>m\<leftarrow>map (carried w) ms. length (mb_Tx m)) = (\<Sum>m\<leftarrow>ms. length (mb_Tx m))" for w ms
    by (induction ms) (simp_all add: carried_def)
  then show ?thesis by (simp add: memberSectionLen_def foldl_lengths carried_bundle_def TxIDsPresent_def)
qed

lemma Bundle_Decode_wire:
  assumes "bundle_wf b"
  shows "Bundle_Decode (bundle_wire b @ rest) = Ok (carried_bundle b)"
proof -
  let ?c = "concat (map (member_wire (TxIDsPresent b)) (bn_Members b))"
  have wf: "bundle_shape b" "length (bn_SubtreeID b) = 32" "length (bn_Members b) \<le> 65535" "memberSectionLen b < 2 ^ 32"
    using assms by (simp_all add: bundle_wf_def bundle_shape_def)
  have cnt: "unat (word_of_nat (length (bn_Members b)) :: u16) = length (bn_Members b)"
    "unat (word_of_nat (memberSectionLen b) :: u32) = memberSectionLen b"
    using wf by (simp_all add: unat_of_nat take_bit_nat_eq_self)
  have ms: "decodeMembers (TxIDsPresent b) (bundle_header b @ ?c @ rest) (66 + memberSectionLen b)
      (length (bn_Members b)) 66 = Ok (map (carried (TxIDsPresent b)) (bn_Members b), 66 + memberSectionLen b)"
    using assms decodeMembers_wire [of "bn_Members b" 66 "bundle_header b" "TxIDsPresent b" "66 + memberSectionLen b" rest]
    by (simp add: bundle_wf_def bundle_shape_def memberSectionLen_wire)
  have w: "(bn_Flags b AND 1 \<noteq> 0) = TxIDsPresent b" by (simp add: TxIDsPresent_def)
  have len: "\<not> length (bundle_header b @ ?c @ rest) < 66"
    "\<not> length (bundle_header b @ ?c @ rest) - 66 < memberSectionLen b"
    using wf(1,2) by (simp_all add: memberSectionLen_wire)
  show ?thesis
    unfolding bundle_wire_def Bundle_Decode_def append_assoc
    by (simp only: len bundle_header_fields [OF wf(2)] rbind.simps w cnt ms Let_def if_False if_True not_True_eq_False
        not_False_eq_True prod.case simp_thms) (simp add: carried_bundle_def)
qed

lemma Bundle_Decode_total: "Bundle_Decode buf \<noteq> Panic"
  using decodeMembers_total
  by (auto simp: Bundle_Decode_def Let_def rbind_Panic_iff split: prod.splits)

text \<open>
  What a decoded bundle is encoded to: the datagram itself, with the protocol version and the reserved
  byte, which the decoder ignores, normalised, and what follows the member section cut off.
\<close>

definition normalised :: "bytes \<Rightarrow> nat \<Rightarrow> bytes" where
  "normalised d n = take 4 d @ BE_PutUint16 ProtoVer @ take 53 (drop 6 d) @ [0] @ take (n - 60) (drop 60 d)"

lemma take_drop_split: "a \<le> n \<Longrightarrow> take n (drop i xs) = take a (drop i xs) @ take (n - a) (drop (i + a) xs)"
  using take_add [of a "n - a" "drop i xs"] by (simp add: add.commute)

lemma take_one_drop: "i < length xs \<Longrightarrow> take 1 (drop i xs) = [xs ! i]"
  by (simp add: take_Suc_conv_app_nth)

lemma header_slices:
  assumes "66 \<le> length (d :: bytes)"
  shows "take 53 (drop 6 d) = [d ! 6] @ [d ! 7] @ take 32 (drop 8 d) @ take 8 (drop 40 d) @ take 8 (drop 48 d) @
      take 2 (drop 56 d) @ [d ! 58]"
    and "take (6 + n) (drop 60 d) = take 2 (drop 60 d) @ take 4 (drop 62 d) @ take n (drop 66 d)"
  using assms take_drop_split [of 1 53 6 d] take_drop_split [of 1 52 7 d] take_drop_split [of 32 51 8 d]
    take_drop_split [of 8 19 40 d] take_drop_split [of 8 11 48 d] take_drop_split [of 2 3 56 d]
    take_drop_split [of 2 "6 + n" 60 d] take_drop_split [of 4 "4 + n" 62 d]
    take_one_drop [of 6 d] take_one_drop [of 7 d] take_one_drop [of 58 d]
  by simp_all

lemma Bundle_Decode_Ok:
  assumes "Bundle_Decode d = Ok b"
  shows "bundle_wf b" and "carried_bundle b = b" and "length (bundle_wire b) \<le> length d"
    and "bundle_wire b = normalised d (length (bundle_wire b))"
proof -
  define payLen where "payLen = unat (BE_Uint32 (take 4 (drop 62 d)))"
  let ?w = "TxIDsPresent b" and ?ms = "bn_Members b"
  have len: "66 \<le> length d" using assms by (simp add: Bundle_Decode_def split: if_splits)
  from assms len have pl: "payLen \<le> length d - 66"
    and hd: "BE_Uint32 (take 4 d) = MagicBSV" "d ! 6 = FrameVerBundle" "d ! 7 = bn_Flags b"
      "take 32 (drop 8 d) = bn_SubtreeID b" "BE_Uint64 (take 8 (drop 40 d)) = bn_HashKey b"
      "BE_Uint64 (take 8 (drop 48 d)) = bn_SeqNum b" "BE_Uint16 (take 2 (drop 56 d)) = bn_GroupIdx b"
      "d ! 58 = bn_ShardBits b"
    and dec: "decodeMembers ?w d (66 + payLen) (unat (BE_Uint16 (take 2 (drop 60 d)))) 66 = Ok (?ms, 66 + payLen)"
    by (auto simp: Bundle_Decode_def Let_def rbind_Ok_iff payLen_def TxIDsPresent_def split: if_splits)
  have fin: "66 + payLen \<le> length d" using pl len by simp
  note ms = decodeMembers_Ok [OF dec fin, simplified]
  have sub: "length (bn_SubtreeID b) = 32" using len by (simp flip: hd(4))
  then have shape: "bundle_shape b" using ms by (simp add: bundle_shape_def)
  have mem: "concat (map (member_wire ?w) ?ms) = take payLen (drop 66 d)" using ms by simp
  then have sec: "memberSectionLen b = payLen" using fin by (simp add: memberSectionLen_wire [OF shape])
  have cnt: "length ?ms = unat (BE_Uint16 (take 2 (drop 60 d)))" using ms by simp
  show "bundle_wf b"
    using shape ms sec unat_u32_less [of "BE_Uint32 (take 4 (drop 62 d))"] unat_u16_less [of "BE_Uint16 (take 2 (drop 60 d))"]
    unfolding bundle_wf_def cnt payLen_def by (auto simp: less_eq_Suc_le)
  show "carried_bundle b = b" using ms by (simp add: carried_bundle_def)
  have wl: "length (bundle_wire b) = 66 + payLen"
    using sub fin by (simp add: bundle_wire_def mem)
  with fin show "length (bundle_wire b) \<le> length d" by simp
  have "bundle_header b @ take payLen (drop 66 d) = normalised d (66 + payLen)"
    using header_slices(1) [OF len] header_slices(2) [OF len, of payLen] len
    by (simp add: normalised_def bundle_header_def cnt sec payLen_def add.commute flip: hd)
  then show "bundle_wire b = normalised d (length (bundle_wire b))" unfolding wl by (simp add: bundle_wire_def mem)
qed

interpretation bundle_codec:
  alloc_codec "\<lambda>b. bundle_wf b \<and> carried_bundle b = b" bundle_wire Bundle_Encode Bundle_Decode
proof unfold_locales
  fix b rest assume b: "bundle_wf b \<and> carried_bundle b = b"
  then show "Bundle_Encode b = Ok (bundle_wire b)" by (simp add: bundle_wf_def Bundle_Encode_eq)
  show "Bundle_Decode (bundle_wire b @ rest) = Ok b" using b Bundle_Decode_wire [of b rest] by simp
next
  fix buf b assume d: "Bundle_Decode buf = Ok b"
  show "bundle_wf b \<and> carried_bundle b = b" using Bundle_Decode_Ok(1,2) [OF d] by simp
  show "length (bundle_wire b) \<le> length buf" by (rule Bundle_Decode_Ok(3) [OF d])
qed (rule Bundle_Decode_total)

section \<open>Correctness of coalescing\<close>

subsection \<open>Bucketing\<close>

text \<open>
  After the frames \<open>fs\<close> there is one bucket for each of the distinct flows \<open>ks\<close> seen, it holds the
  members of the flow in arrival order, and the index map locates it.
\<close>

definition members_of :: "engine \<Rightarrow> bytes \<Rightarrow> frame list \<Rightarrow> flow_key \<Rightarrow> member list" where
  "members_of eng sender fs k = map memberOf (filter (\<lambda>f. flowOf eng sender f = k) fs)"

definition buckets_inv ::
  "engine \<Rightarrow> bytes \<Rightarrow> frame list \<Rightarrow> flow_key list \<Rightarrow> (flow_key \<rightharpoonup> nat) \<times> (flow_key \<times> member list) list \<Rightarrow> bool"
where
  "buckets_inv eng sender fs ks st \<longleftrightarrow>
     distinct ks \<and> set ks = flowOf eng sender ` set fs \<and>
     snd st = map (\<lambda>k. (k, members_of eng sender fs k)) ks \<and>
     (\<forall>k i. fst st k = Some i \<longleftrightarrow> i < length ks \<and> ks ! i = k)"

lemma members_of_snoc:
  "members_of eng sender (fs @ [f]) k =
     (if k = flowOf eng sender f then members_of eng sender fs k @ [memberOf f] else members_of eng sender fs k)"
  by (simp add: members_of_def)

lemma bucketStep_inv:
  assumes "buckets_inv eng sender fs ks st"
  shows "\<exists>ks'. buckets_inv eng sender (fs @ [f]) ks' (bucketStep eng sender st f)"
proof -
  obtain idx bks where st: "st = (idx, bks)" by (cases st)
  let ?k = "flowOf eng sender f" and ?M = "members_of eng sender fs"
  have d: "distinct ks" and ks: "set ks = flowOf eng sender ` set fs" and b: "bks = map (\<lambda>k. (k, ?M k)) ks"
    and at: "\<And>k i. idx k = Some i \<longleftrightarrow> i < length ks \<and> ks ! i = k"
    using assms by (simp_all add: buckets_inv_def st)
  show ?thesis
  proof (cases "idx ?k")
    case (Some i)
    have i: "i < length ks" "ks ! i = ?k" using at Some by auto
    have "map (\<lambda>k. (k, members_of eng sender (fs @ [f]) k)) ks = bks[i := (fst (bks ! i), snd (bks ! i) @ [memberOf f])]"
    proof (rule nth_equalityI)
      fix j assume "j < length (map (\<lambda>k. (k, members_of eng sender (fs @ [f]) k)) ks)"
      with d i show "map (\<lambda>k. (k, members_of eng sender (fs @ [f]) k)) ks ! j =
          bks[i := (fst (bks ! i), snd (bks ! i) @ [memberOf f])] ! j"
        using nth_eq_iff_index_eq [of ks i j] by (cases "i = j") (simp_all add: b members_of_snoc)
    qed (simp add: b)
    moreover have "insert ?k (set ks) = set ks" using i nth_mem by (metis insert_absorb)
    moreover have "bucketStep eng sender st f = (idx, bks[i := (fst (bks ! i), snd (bks ! i) @ [memberOf f])])"
      using Some by (simp add: bucketStep_def st Let_def)
    ultimately have "buckets_inv eng sender (fs @ [f]) ks (bucketStep eng sender st f)"
      using d at by (simp add: buckets_inv_def flip: ks)
    then show ?thesis by blast
  next
    case None
    have new: "?k \<notin> set ks" using at None by (metis in_set_conv_nth option.distinct(1))
    have "\<forall>g \<in> set fs. flowOf eng sender g \<noteq> ?k" using new unfolding ks by (metis image_eqI)
    then have "?M ?k = []" by (simp add: members_of_def filter_empty_conv)
    then have "map (\<lambda>k. (k, members_of eng sender (fs @ [f]) k)) (ks @ [?k]) = bks @ [(?k, [memberOf f])]"
      using new by (auto simp: b members_of_snoc)
    moreover have "(idx(?k \<mapsto> length bks)) k = Some j \<longleftrightarrow> j < length (ks @ [?k]) \<and> (ks @ [?k]) ! j = k" for k j
      using at [of k j] None new nth_mem [of j ks] by (cases "k = ?k") (auto simp: nth_append b)
    moreover have "bucketStep eng sender st f = (idx(?k \<mapsto> length bks), bks @ [(?k, [memberOf f])])"
      using None by (simp add: bucketStep_def st Let_def)
    ultimately have "buckets_inv eng sender (fs @ [f]) (ks @ [?k]) (bucketStep eng sender st f)"
      using d new unfolding buckets_inv_def by (simp flip: ks)
    then show ?thesis by blast
  qed
qed

lemma buckets_correct:
  obtains ks where "buckets_inv eng sender fs ks (foldl (bucketStep eng sender) (Map.empty, []) fs)"
proof -
  have "\<exists>ks. buckets_inv eng sender fs ks (foldl (bucketStep eng sender) (Map.empty, []) fs)"
  proof (induction fs rule: rev_induct)
    case Nil
    have "buckets_inv eng sender [] [] (Map.empty, [])" by (simp add: buckets_inv_def)
    then show ?case by auto
  next
    case (snoc f fs)
    then show ?case using bucketStep_inv by fastforce
  qed
  then show thesis using that by blast
qed

subsection \<open>Packing\<close>

lemma packMembers_split: "packMembers mb mc ov n sz ms = (taken, left) \<Longrightarrow> ms = taken @ left"
  by (induction mb mc ov n sz ms arbitrary: taken left rule: packMembers.induct)
    (auto simp: Let_def split: if_splits prod.splits)

lemma packMembers_nonempty:
  "packMembers mb mc ov 0 sz ms = (taken, left) \<Longrightarrow> 1 \<le> mc \<Longrightarrow> ms \<noteq> [] \<Longrightarrow> taken \<noteq> []"
  by (cases ms) (auto simp: Let_def split: if_splits prod.splits)

lemma packMembers_Cons:
  assumes "packMembers mb mc ov n sz (m # ms) = (taken, left)" and "taken \<noteq> []"
  shows "taken = m # tl taken" and "packMembers mb mc ov (n + 1) (sz + (ov + length (mb_Tx m))) ms = (tl taken, left)"
    and "int n < mc" and "0 < n \<Longrightarrow> int (sz + (ov + length (mb_Tx m))) \<le> mb"
  using assms by (auto simp: Let_def not_less split: if_splits prod.splits)

lemma packMembers_count:
  "packMembers mb mc ov n sz ms = (taken, left) \<Longrightarrow> taken \<noteq> [] \<Longrightarrow> int (n + length taken) \<le> mc"
proof (induction ms arbitrary: n sz taken)
  case (Cons m ms)
  note p = packMembers_Cons [OF Cons.prems]
  show ?case using Cons.IH [OF p(2)] p(3) by (subst p(1)) (cases "tl taken = []", simp_all)
qed simp

lemma packMembers_size:
  "packMembers mb mc ov n sz ms = (taken, left) \<Longrightarrow> 0 < n \<Longrightarrow> taken \<noteq> [] \<Longrightarrow>
   int (sz + (\<Sum>m\<leftarrow>taken. ov + length (mb_Tx m))) \<le> mb"
proof (induction ms arbitrary: n sz taken)
  case (Cons m ms)
  note p = packMembers_Cons [OF Cons.prems(1,3)]
  show ?case using Cons.IH [OF p(2)] p(4) [OF Cons.prems(2)] by (subst p(1)) (cases "tl taken = []", simp_all)
qed simp

lemma memberSectionLen_sum:
  "memberSectionLen b = (\<Sum>m\<leftarrow>bn_Members b. MemberOverhead (TxIDsPresent b) + length (mb_Tx m))"
  by (simp add: memberSectionLen_def foldl_lengths MemberOverhead_def sum_list_addf sum_list_triv)

lemma packMembers_first:
  assumes "packMembers mb mc ov 0 sz ms = (taken, left)" and "taken \<noteq> []"
  shows "length taken = 1 \<or> int (sz + (\<Sum>m\<leftarrow>taken. ov + length (mb_Tx m))) \<le> mb"
proof (cases ms)
  case (Cons m ms')
  note p = packMembers_Cons [OF assms [unfolded Cons]]
  show ?thesis
  proof (cases "tl taken = []")
    case False
    have "(\<Sum>m\<leftarrow>taken. ov + length (mb_Tx m)) = ov + length (mb_Tx m) + (\<Sum>m\<leftarrow>tl taken. ov + length (mb_Tx m))"
      by (subst p(1)) simp
    with packMembers_size [OF p(2) _ False] show ?thesis by (simp add: add_ac)
  qed (subst p(1), simp)
qed (use assms in simp)

text \<open>The flow of a bundle, and what the coalescer promises of every bundle it builds.\<close>

definition bundle_flow :: "bytes \<Rightarrow> tx_bundle \<Rightarrow> flow_key" where
  "bundle_flow sender b = \<lparr>fk_sender = sender, fk_group = bn_GroupIdx b, fk_subtree = bn_SubtreeID b\<rparr>"

definition bundle_ok :: "(bytes \<Rightarrow> u64) \<Rightarrow> coalescer \<Rightarrow> bytes \<Rightarrow> tx_bundle \<Rightarrow> bool" where
  "bundle_ok xxh c sender b \<longleftrightarrow>
     bn_Members b \<noteq> [] \<and> int (length (bn_Members b)) \<le> co_maxCount c \<and>
     (length (bn_Members b) = 1 \<or> int (BundleHeaderSize + memberSectionLen b) \<le> co_maxBytes c) \<and>
     TxIDsPresent b = co_carryTxID c \<and> bn_ShardBits b = ucast (eng_shardBits (co_eng c)) \<and>
     bn_HashKey b = seqhash_Hash xxh sender (ucast (bn_GroupIdx b)) (bn_SubtreeID b)"

text \<open>The sequence numbers that follow \<open>n\<close>, wrapping at 64 bits.\<close>

definition seq_after :: "u64 \<Rightarrow> nat \<Rightarrow> u64 list" where
  "seq_after n len = map (\<lambda>i. n + word_of_nat (Suc i)) [0..<len]"

lemma seq_after_0 [simp]: "seq_after n 0 = []"
  by (simp add: seq_after_def)

lemma seq_after_Cons: "(n + 1) # seq_after (n + 1) len = seq_after n (Suc len)"
proof -
  have "[0..<Suc len] = 0 # map Suc [0..<len]" by (simp only: map_Suc_upt upt_conv_Cons zero_less_Suc)
  then show ?thesis by (simp add: seq_after_def o_def add_ac del: upt_Suc)
qed

definition packed :: "(bytes \<Rightarrow> u64) \<Rightarrow> coalescer \<Rightarrow> flow_key \<Rightarrow> member list \<Rightarrow> tx_bundle list \<Rightarrow> bool" where
  "packed xxh c k ms bs \<longleftrightarrow>
     concat (map bn_Members bs) = ms \<and> map bn_SeqNum bs = seq_after (seqOf c k) (length bs) \<and>
     (\<forall>b \<in> set bs. bundle_ok xxh c (fk_sender k) b \<and> bundle_flow (fk_sender k) b = k)"

lemma bundle_ok_cong [simp]: "bundle_ok xxh (c\<lparr>co_seq := s\<rparr>) = bundle_ok xxh c"
  by (rule ext)+ (simp add: bundle_ok_def)

lemma packBucket_ex:
  "1 \<le> co_maxCount c \<Longrightarrow>
   \<exists>s bs. packBucket xxh c k ms = Some (c\<lparr>co_seq := s\<rparr>, bs) \<and> packed xxh c k ms bs \<and>
     (\<forall>j. seqOf (c\<lparr>co_seq := s\<rparr>) j = (if j = k then seqOf c k + word_of_nat (length bs) else seqOf c j))"
proof (induction "length ms" arbitrary: ms c rule: less_induct)
  case less
  show ?case
  proof (cases "ms = []")
    case True
    then show ?thesis
      by (subst packBucket.simps) (auto intro!: exI [of _ "co_seq c"] simp: packed_def seq_after_def)
  next
    case False
    obtain taken left where pk: "packMembers (co_maxBytes c) (co_maxCount c) (MemberOverhead (co_carryTxID c)) 0 66 ms = (taken, left)"
      by fastforce
    have ne: "taken \<noteq> []" by (rule packMembers_nonempty [OF pk less.prems False])
    have ms: "ms = taken @ left" by (rule packMembers_split [OF pk])
    define c1 where "c1 = c\<lparr>co_seq := (co_seq c)(k \<mapsto> seqOf c k + 1)\<rparr>"
    define b where "b = \<lparr>bn_Flags = (if co_carryTxID c then FlagTxIDsPresent else 0), bn_SubtreeID = fk_subtree k,
               bn_HashKey = seqhash_Hash xxh (fk_sender k) (ucast (fk_group k)) (fk_subtree k), bn_SeqNum = seqOf c k + 1,
               bn_GroupIdx = fk_group k, bn_ShardBits = ucast (eng_shardBits (co_eng c)), bn_Members = taken\<rparr>"
    have seq1: "seqOf c1 j = (if j = k then seqOf c k + 1 else seqOf c j)" for j by (simp add: seqOf_def c1_def)
    have "length left < length ms" "1 \<le> co_maxCount c1" using ms ne less.prems by (simp_all add: c1_def)
    from less.hyps [OF this] obtain s bs where rec: "packBucket xxh c1 k left = Some (c1\<lparr>co_seq := s\<rparr>, bs)"
      "packed xxh c1 k left bs"
      "\<forall>j. seqOf (c1\<lparr>co_seq := s\<rparr>) j = (if j = k then seqOf c1 k + word_of_nat (length bs) else seqOf c1 j)" by blast
    have b: "bundle_ok xxh c (fk_sender k) b" "bundle_flow (fk_sender k) b = k" "bn_Members b = taken" "bn_SeqNum b = seqOf c k + 1"
      using packMembers_first [OF pk ne] packMembers_count [OF pk ne] ne
      by (auto simp: b_def bundle_ok_def bundle_flow_def TxIDsPresent_def memberSectionLen_sum)
    have "packBucket xxh c k ms = Some (c\<lparr>co_seq := s\<rparr>, b # bs)"
      using False by (subst packBucket.simps) (simp add: pk Let_def rec(1) c1_def [symmetric] b_def [symmetric], simp add: c1_def)
    moreover have "packed xxh c k ms (b # bs)"
      using rec(2) b ms seq1 by (simp add: packed_def seq_after_Cons c1_def)
    moreover have "\<forall>j. seqOf (c\<lparr>co_seq := s\<rparr>) j = (if j = k then seqOf c k + word_of_nat (length (b # bs)) else seqOf c j)"
      using rec(3) seq1 by (simp add: c1_def)
    ultimately show ?thesis by blast
  qed
qed

text \<open>The bundles of one flow in the output, and what the coalescer did to that flow.\<close>

abbreviation of_flow :: "bytes \<Rightarrow> flow_key \<Rightarrow> tx_bundle list \<Rightarrow> tx_bundle list" where
  "of_flow sender k bs \<equiv> filter (\<lambda>b. bundle_flow sender b = k) bs"

definition flow_done :: "coalescer \<Rightarrow> coalescer \<Rightarrow> flow_key \<Rightarrow> member list \<Rightarrow> tx_bundle list \<Rightarrow> bool" where
  "flow_done c c' k ms bs \<longleftrightarrow> concat (map bn_Members bs) = ms \<and>
     map bn_SeqNum bs = seq_after (seqOf c k) (length bs) \<and> seqOf c' k = seqOf c k + word_of_nat (length bs)"

lemma bundles_conserved:
  "\<forall>b \<in> set bs. bn_Members b \<noteq> [] \<Longrightarrow> concat (map bn_Members bs) = [] \<Longrightarrow> bs = []"
  by (cases bs) simp_all

lemma packBuckets_ex:
  "distinct (map fst bks) \<Longrightarrow> \<forall>bk \<in> set bks. fk_sender (fst bk) = sender \<Longrightarrow> 1 \<le> co_maxCount c \<Longrightarrow>
   \<exists>s bs. packBuckets xxh c bks = Some (c\<lparr>co_seq := s\<rparr>, bs) \<and> (\<forall>b \<in> set bs. bundle_ok xxh c sender b) \<and>
     (\<forall>k. flow_done c (c\<lparr>co_seq := s\<rparr>) k (case map_of bks k of None \<Rightarrow> [] | Some ms \<Rightarrow> ms) (of_flow sender k bs))"
proof (induction bks arbitrary: c)
  case Nil
  show ?case by (auto intro!: exI [of _ "co_seq c"] simp: flow_done_def seq_after_def)
next
  case (Cons bk bks)
  obtain k ms where bk: "bk = (k, ms)" by (cases bk)
  have sk: "fk_sender k = sender" and new: "map_of bks k = None"
    using Cons.prems(1,2) by (auto simp: bk map_of_eq_None_iff)
  from packBucket_ex [OF Cons.prems(3)] obtain s1 bs1 where
    p1: "packBucket xxh c k ms = Some (c\<lparr>co_seq := s1\<rparr>, bs1)" "packed xxh c k ms bs1"
    and q1: "\<And>j. seqOf (c\<lparr>co_seq := s1\<rparr>) j = (if j = k then seqOf c k + word_of_nat (length bs1) else seqOf c j)" by blast
  have "1 \<le> co_maxCount (c\<lparr>co_seq := s1\<rparr>)" using Cons.prems(3) by simp
  from Cons.IH [OF _ _ this] Cons.prems(1,2) obtain s bs where
    p2: "packBuckets xxh (c\<lparr>co_seq := s1\<rparr>) bks = Some (c\<lparr>co_seq := s\<rparr>, bs)" "\<forall>b \<in> set bs. bundle_ok xxh c sender b"
    and q2: "\<And>j. flow_done (c\<lparr>co_seq := s1\<rparr>) (c\<lparr>co_seq := s\<rparr>) j (case map_of bks j of None \<Rightarrow> [] | Some ms \<Rightarrow> ms) (of_flow sender j bs)"
    by auto
  have own: "of_flow sender j bs1 = (if j = k then bs1 else [])" for j
    using p1(2) by (auto simp: packed_def sk filter_id_conv filter_empty_conv)
  have none: "of_flow sender k bs = []"
    using p2(2) q2 [of k] new by (intro bundles_conserved) (auto simp: flow_done_def bundle_ok_def)
  have "flow_done c (c\<lparr>co_seq := s\<rparr>) j (case map_of (bk # bks) j of None \<Rightarrow> [] | Some ms \<Rightarrow> ms) (of_flow sender j (bs1 @ bs))" for j
    using q2 [of j] p1(2) q1 [of j] none by (simp add: own bk flow_done_def packed_def new)
  moreover have "\<forall>b \<in> set (bs1 @ bs). bundle_ok xxh c sender b" using p1(2) p2(2) sk by (auto simp: packed_def)
  moreover have "packBuckets xxh c (bk # bks) = Some (c\<lparr>co_seq := s\<rparr>, bs1 @ bs)" by (simp add: bk p1(1) p2(1))
  ultimately show ?case by blast
qed

lemma Coalesce_ex:
  assumes "1 \<le> co_maxCount c"
  shows "\<exists>s bs. Coalesce xxh c sender fs = Some (c\<lparr>co_seq := s\<rparr>, bs) \<and> (\<forall>b \<in> set bs. bundle_ok xxh c sender b) \<and>
    (\<forall>k. flow_done c (c\<lparr>co_seq := s\<rparr>) k (members_of (co_eng c) sender fs k) (of_flow sender k bs))"
proof -
  let ?st = "foldl (bucketStep (co_eng c) sender) (Map.empty, []) fs"
  obtain ks where inv: "buckets_inv (co_eng c) sender fs ks ?st" by (rule buckets_correct)
  have bks: "snd ?st = map (\<lambda>k. (k, members_of (co_eng c) sender fs k)) ks"
    and d: "distinct ks" and ks: "set ks = flowOf (co_eng c) sender ` set fs"
    using inv by (simp_all add: buckets_inv_def)
  have "(case map_of (snd ?st) k of None \<Rightarrow> [] | Some ms \<Rightarrow> ms) = members_of (co_eng c) sender fs k" for k
  proof (cases "k \<in> set ks")
    case False
    then have "members_of (co_eng c) sender fs k = []" unfolding ks by (auto simp: members_of_def filter_empty_conv)
    with False show ?thesis by (simp add: bks map_of_map_restrict)
  qed (simp add: bks map_of_map_restrict)
  moreover have "distinct (map fst (snd ?st))" using d by (simp add: bks o_def)
  moreover have "\<forall>bk \<in> set (snd ?st). fk_sender (fst bk) = sender" using ks by (auto simp: bks flowOf_def)
  ultimately show ?thesis
    using packBuckets_ex [of "snd ?st" sender c xxh] assms by (simp add: Coalesce_def)
qed

subsection \<open>Splitting a bundle again\<close>

lemma mset_by_key:
  assumes "finite K" and "key ` set xs \<subseteq> K"
  shows "mset (concat (map M xs)) = (\<Sum>k \<in> K. mset (concat (map M (filter (\<lambda>x. key x = k) xs))))"
  using assms(2)
proof (induction xs)
  case (Cons x xs)
  have "(\<Sum>k \<in> K. mset (concat (map M (filter (\<lambda>y. key y = k) (x # xs))))) =
      (\<Sum>k \<in> K. (if key x = k then mset (M x) else {#}) + mset (concat (map M (filter (\<lambda>y. key y = k) xs))))"
    by (intro sum.cong) simp_all
  also have "\<dots> = mset (M x) + mset (concat (map M xs))"
    using Cons assms(1) by (simp add: sum.distrib sum.delta')
  finally show ?case by simp
qed simp

lemma Coalesce_mset:
  assumes "\<And>k. concat (map bn_Members (of_flow sender k bs)) = members_of eng sender fs k"
  shows "mset (concat (map bn_Members bs)) = mset (map memberOf fs)"
proof -
  let ?K = "bundle_flow sender ` set bs \<union> flowOf eng sender ` set fs"
  have "mset (concat (map bn_Members bs)) = (\<Sum>k \<in> ?K. mset (members_of eng sender fs k))"
    using mset_by_key [of ?K "bundle_flow sender" bs bn_Members] assms by simp
  also have "\<dots> = mset (concat (map (\<lambda>f. [memberOf f]) fs))"
    using mset_by_key [of ?K "flowOf eng sender" fs "\<lambda>f. [memberOf f]"] by (simp add: members_of_def)
  finally show ?thesis by simp
qed

text \<open>The frame a member of a flow becomes again.\<close>

definition egress_frame :: "(bytes \<Rightarrow> u64) \<Rightarrow> flow_key \<Rightarrow> frame \<Rightarrow> frame" where
  "egress_frame xxh k f = f\<lparr>fr_Version := FrameVerV2, fr_SeqNum := 0,
     fr_HashKey := seqhash_Hash xxh (fk_sender k) (ucast (fk_group k)) (fk_subtree k)\<rparr>"

lemma Decoalesce_flow:
  assumes ok: "\<forall>b \<in> set bs. bundle_ok xxh c sender b"
    and mem: "concat (map bn_Members (of_flow sender k bs)) = members_of eng sender fs k"
    and ids: "co_carryTxID c \<or> (\<forall>f \<in> set fs. fr_TxID f = TxID (fr_Payload f))"
    and k: "fk_sender k = sender"
  shows "concat (map Decoalesce (of_flow sender k bs)) =
    map (egress_frame xxh k) (filter (\<lambda>f. flowOf eng sender f = k) fs)"
proof -
  define F where "F = (\<lambda>m :: member. \<lparr>fr_Version = FrameVerV2, fr_TxID = (if co_carryTxID c then mb_TxID m else TxID (mb_Tx m)),
      fr_HashKey = seqhash_Hash xxh sender (ucast (fk_group k)) (fk_subtree k), fr_SeqNum = 0,
      fr_SubtreeID = fk_subtree k, fr_Payload = mb_Tx m\<rparr>)"
  have "Decoalesce b = map F (bn_Members b)" if "b \<in> set (of_flow sender k bs)" for b
    using that ok by (auto simp: Decoalesce_def F_def bundle_ok_def bundle_flow_def)
  then have "map Decoalesce (of_flow sender k bs) = map (\<lambda>b. map F (bn_Members b)) (of_flow sender k bs)" by simp
  then have "concat (map Decoalesce (of_flow sender k bs)) = map F (members_of eng sender fs k)"
    by (simp only: flip: mem) (simp add: map_concat o_def)
  also have "F (memberOf f) = egress_frame xxh k f" if "f \<in> set fs" "flowOf eng sender f = k" for f
  proof -
    have "fk_subtree k = fr_SubtreeID f" unfolding that(2) [symmetric] by (simp add: flowOf_def)
    then show ?thesis using ids k that(1) by (auto simp: F_def memberOf_def egress_frame_def)
  qed
  then have "map F (members_of eng sender fs k) = map (egress_frame xxh k) (filter (\<lambda>f. flowOf eng sender f = k) fs)"
    by (simp add: members_of_def)
  finally show ?thesis .
qed

lemma GroupIndex_finer:
  assumes "n \<le> m" and "m \<le> 16" and "length key = 32"
  shows "unat (ucast (GroupIndex (New p g m) key) :: u16) div 2 ^ (unat m - unat n) =
    unat (ucast (GroupIndex (New p' g' n) key) :: u16)"
proof -
  have nm: "unat n \<le> unat m" "unat m \<le> 16" using assms by (simp_all add: word_le_nat_alt)
  have small: "unat (ucast (GroupIndex (New p g w) key) :: u16) = be_nat (take 4 key) div 2 ^ (32 - unat w)" if "unat w \<le> 16" for w p g
  proof -
    have "w \<le> 32" "4 \<le> length key" using that assms(3) by (simp_all add: word_le_nat_alt)
    note gi = GroupIndex_unat [OF this, of p g] GroupIndex_less [OF this, of p g]
    have "(2::nat) ^ unat w \<le> 2 ^ 16" using that by (rule power_increasing) simp
    then show ?thesis using gi by (simp add: unat_ucast_down)
  qed
  have "2 ^ (32 - unat m) * 2 ^ (unat m - unat n) = (2::nat) ^ (32 - unat n)"
    using nm by (simp flip: power_add)
  then show ?thesis using nm by (simp add: small flip: div_mult2_eq)
qed

section \<open>Properties\<close>

definition sample_bundle :: tx_bundle where
  "sample_bundle = \<lparr>bn_Flags = 1, bn_SubtreeID = replicate 32 7, bn_HashKey = 5, bn_SeqNum = 1, bn_GroupIdx = 3,
     bn_ShardBits = 2, bn_Members = [\<lparr>mb_TxID = [0xC0, 0, 0, 0] @ replicate 28 0, mb_Tx = [1, 2, 3]\<rparr>, \<lparr>mb_TxID = [0xD0, 0, 0, 0] @ replicate 28 0, mb_Tx = []\<rparr>]\<rparr>"

definition sample_frames :: "frame list" where
  "sample_frames =
     map (\<lambda>(t, p). \<lparr>fr_Version = FrameVerV2, fr_TxID = [t, 0, 0, 0] @ replicate 28 0, fr_HashKey = 0, fr_SeqNum = 0,
            fr_SubtreeID = replicate 32 0, fr_Payload = p\<rparr>)
       [(0xC0, [1, 2]), (0x10, [3]), (0xD0, [4, 5, 6]), (0xE0, [])]"

lemma sample_group:
  "ucast (GroupIndex (New 0xFF05 0 2) ([0xC0, 0, 0, 0] @ replicate 28 0)) = (3 :: u16)"
  "ucast (GroupIndex (New 0xFF05 0 2) ([0x10, 0, 0, 0] @ replicate 28 0)) = (0 :: u16)"
  "ucast (GroupIndex (New 0xFF05 0 2) ([0xD0, 0, 0, 0] @ replicate 28 0)) = (3 :: u16)"
  "ucast (GroupIndex (New 0xFF05 0 2) ([0xE0, 0, 0, 0] @ replicate 28 0)) = (3 :: u16)"
  by (simp_all only: word_unat_eq_iff unat_ucast_down) (simp_all add: GroupIndex_unat)

text \<open>
  C32: bundles survive the wire. A bundle is refused exactly when it has more than 65535 members or a
  member longer than 65535 bytes; otherwise what is written decodes, with anything behind it, to the
  same bundle (without the member ids when the flag does not carry them). Conversely every datagram
  the decoder accepts encodes again to its own bytes, up to the two fields the decoder ignores and
  what follows the member section, and that decodes to the same bundle. The decoder never panics.
\<close>

theorem bundle_codec_correct:
  "(bundle_shape b \<and> memberSectionLen b < 2 ^ 32 \<longrightarrow>
     (if MaxMembers < length (bn_Members b) then Bundle_Encode b = Err BErrTooMany
      else if \<exists>m \<in> set (bn_Members b). MaxMemberTxLen < length (mb_Tx m) then Bundle_Encode b = Err BErrMemberBig
      else \<exists>w. Bundle_Encode b = Ok w \<and> length w = BundleHeaderSize + memberSectionLen b \<and>
        Bundle_Decode (w @ rest) = Ok (carried_bundle b))) \<and>
   (Bundle_Decode d = Ok b' \<longrightarrow>
     (\<exists>e. Bundle_Encode b' = Ok e \<and> length e \<le> length d \<and> e = normalised d (length e) \<and> Bundle_Decode (e @ rest) = Ok b')) \<and>
   Bundle_Decode d \<noteq> Panic"
proof (intro conjI impI Bundle_Decode_total)
  assume "bundle_shape b \<and> memberSectionLen b < 2 ^ 32"
  then have sh: "bundle_shape b" "memberSectionLen b < 2 ^ 32" by simp_all
  show "if MaxMembers < length (bn_Members b) then Bundle_Encode b = Err BErrTooMany
      else if \<exists>m \<in> set (bn_Members b). MaxMemberTxLen < length (mb_Tx m) then Bundle_Encode b = Err BErrMemberBig
      else \<exists>w. Bundle_Encode b = Ok w \<and> length w = BundleHeaderSize + memberSectionLen b \<and>
        Bundle_Decode (w @ rest) = Ok (carried_bundle b)"
    using sh Bundle_Decode_wire [of b rest] memberSectionLen_wire [OF sh(1)]
    by (auto simp: Bundle_Encode_eq bundle_wf_def bundle_wire_def bundle_shape_def not_less not_le)
next
  assume d: "Bundle_Decode d = Ok b'"
  have "Bundle_Encode b' = Ok (bundle_wire b')"
    using Bundle_Decode_Ok(1) [OF d] by (simp add: bundle_wf_def Bundle_Encode_eq)
  then show "\<exists>e. Bundle_Encode b' = Ok e \<and> length e \<le> length d \<and> e = normalised d (length e) \<and> Bundle_Decode (e @ rest) = Ok b'"
    using Bundle_Decode_Ok [OF d] bundle_codec.reencode [OF d, of rest] by simp
qed

theorem bundle_codec_correct_witness:
  "bundle_shape sample_bundle \<and> (\<exists>w. Bundle_Encode sample_bundle = Ok w \<and> length w = 66 + 71 \<and> Bundle_Decode (w @ [9]) = Ok sample_bundle)"
proof -
  have "bundle_shape sample_bundle" "memberSectionLen sample_bundle = 71" "carried_bundle sample_bundle = sample_bundle"
    "length (bn_Members sample_bundle) = 2" "\<forall>m \<in> set (bn_Members sample_bundle). length (mb_Tx m) \<le> 3"
    by (simp_all add: sample_bundle_def bundle_shape_def member_shape_def memberSectionLen_def TxIDsPresent_def carried_bundle_def carried_def)
  moreover from this have "\<not> (\<exists>m \<in> set (bn_Members sample_bundle). 65535 < length (mb_Tx m))" by force
  ultimately show ?thesis
    using conjunct1 [OF bundle_codec_correct [of sample_bundle "[9]" "[]" sample_bundle]] by simp
qed

text \<open>
  C33: coalescing neither loses, duplicates nor reorders. For any frames, the coalescer returns (its
  packing loops end), and for every flow (sender, group, subtree) the members of that flow's bundles,
  read in order, are the frames of the flow in arrival order. Every bundle is non-empty, within the
  member limit and within the size limit unless it holds a single member, and carries the flow's hash
  key and the width of the engine.
\<close>

theorem coalesce_conserves:
  assumes "c = NewCoalescer eng maxBytes maxCount carry \<lparr>co_seq := seqs\<rparr>"
  shows "\<exists>c' bs. Coalesce xxh c sender fs = Some (c', bs) \<and>
    (\<forall>k. concat (map bn_Members (of_flow sender k bs)) = map memberOf (filter (\<lambda>f. flowOf eng sender f = k) fs)) \<and>
    (\<forall>b \<in> set bs. bn_Members b \<noteq> [] \<and> int (length (bn_Members b)) \<le> co_maxCount c \<and>
      length (bn_Members b) \<le> MaxMembers \<and>
      (length (bn_Members b) = 1 \<or> int (BundleHeaderSize + memberSectionLen b) \<le> maxBytes) \<and>
      TxIDsPresent b = carry \<and> bn_ShardBits b = ucast (eng_shardBits eng) \<and>
      bn_HashKey b = seqhash_Hash xxh sender (ucast (bn_GroupIdx b)) (bn_SubtreeID b))"
proof -
  have c: "1 \<le> co_maxCount c" "co_maxCount c \<le> 65535" "co_eng c = eng" "co_maxBytes c = maxBytes" "co_carryTxID c = carry"
    using assms by (simp_all add: NewCoalescer_def)
  from Coalesce_ex [OF c(1), of xxh sender fs] obtain s bs where
    "Coalesce xxh c sender fs = Some (c\<lparr>co_seq := s\<rparr>, bs)" "\<forall>b \<in> set bs. bundle_ok xxh c sender b"
    "\<forall>k. flow_done c (c\<lparr>co_seq := s\<rparr>) k (members_of eng sender fs k) (of_flow sender k bs)" using c by auto
  with c show ?thesis by (auto simp: bundle_ok_def flow_done_def members_of_def intro!: exI)
qed

text \<open>
  Bundle sequence numbers have no gaps. The bundles of a flow carry the consecutive numbers that
  follow the last one the coalescer used for the flow, modulo \<open>2^64\<close>, and the coalescer remembers the
  last; flows without frames keep theirs. So the numbers continue across calls.
\<close>

theorem coalesce_sequences:
  assumes "1 \<le> co_maxCount c"
  shows "\<exists>c' bs. Coalesce xxh c sender fs = Some (c', bs) \<and> co_maxCount c' = co_maxCount c \<and> co_eng c' = co_eng c \<and>
    (\<forall>k. map bn_SeqNum (of_flow sender k bs) =
        map (\<lambda>i. seqOf c k + word_of_nat (Suc i)) [0..<length (of_flow sender k bs)] \<and>
      seqOf c' k = seqOf c k + word_of_nat (length (of_flow sender k bs)))"
  using Coalesce_ex [OF assms, of xxh sender fs] by (force simp: flow_done_def seq_after_def)

theorem coalesce_conserves_witness:
  "\<exists>c' bs. Coalesce (\<lambda>_. 7) (NewCoalescer (New 0xFF05 0 2) 1500 2 True) (replicate 16 1) sample_frames = Some (c', bs) \<and>
    concat (map bn_Members (of_flow (replicate 16 1) \<lparr>fk_sender = replicate 16 1, fk_group = 3, fk_subtree = zeros32\<rparr> bs)) =
      [\<lparr>mb_TxID = [0xC0, 0, 0, 0] @ replicate 28 0, mb_Tx = [1, 2]\<rparr>, \<lparr>mb_TxID = [0xD0, 0, 0, 0] @ replicate 28 0, mb_Tx = [4, 5, 6]\<rparr>,
       \<lparr>mb_TxID = [0xE0, 0, 0, 0] @ replicate 28 0, mb_Tx = []\<rparr>]"
proof -
  let ?k = "\<lparr>fk_sender = replicate 16 1, fk_group = 3, fk_subtree = zeros32\<rparr>"
  have "map memberOf (filter (\<lambda>f. flowOf (New 0xFF05 0 2) (replicate 16 1) f = ?k) sample_frames) =
      [\<lparr>mb_TxID = [0xC0, 0, 0, 0] @ replicate 28 0, mb_Tx = [1, 2]\<rparr>, \<lparr>mb_TxID = [0xD0, 0, 0, 0] @ replicate 28 0, mb_Tx = [4, 5, 6]\<rparr>,
       \<lparr>mb_TxID = [0xE0, 0, 0, 0] @ replicate 28 0, mb_Tx = []\<rparr>]"
    by (simp add: sample_frames_def flowOf_def memberOf_def sample_group [simplified])
  moreover have "NewCoalescer (New 0xFF05 0 2) 1500 2 True = NewCoalescer (New 0xFF05 0 2) 1500 2 True \<lparr>co_seq := Map.empty\<rparr>"
    by (simp add: NewCoalescer_def)
  from coalesce_conserves [OF this, of "\<lambda>_. 7" "replicate 16 1" sample_frames]
  obtain c' bs where "Coalesce (\<lambda>_. 7) (NewCoalescer (New 0xFF05 0 2) 1500 2 True) (replicate 16 1) sample_frames = Some (c', bs)"
    "\<forall>k. concat (map bn_Members (of_flow (replicate 16 1) k bs)) =
       map memberOf (filter (\<lambda>f. flowOf (New 0xFF05 0 2) (replicate 16 1) f = k) sample_frames)" by blast
  ultimately show ?thesis by metis
qed

theorem coalesce_sequences_witness:
  "\<exists>c' bs. Coalesce (\<lambda>_. 7) (NewCoalescer (New 0xFF05 0 2) 1500 2 True) (replicate 16 1) sample_frames = Some (c', bs) \<and>
    (\<forall>k. seqOf c' k = word_of_nat (length (of_flow (replicate 16 1) k bs)))"
proof -
  have "1 \<le> co_maxCount (NewCoalescer (New 0xFF05 0 2) 1500 2 True)" "seqOf (NewCoalescer (New 0xFF05 0 2) 1500 2 True) k = 0" for k
    by (simp_all add: NewCoalescer_def seqOf_def)
  then show ?thesis
    using coalesce_sequences [of "NewCoalescer (New 0xFF05 0 2) 1500 2 True" "\<lambda>_. 7" "replicate 16 1" sample_frames] by force
qed

text \<open>
  Splitting undoes coalescing. When the member ids ride on the wire, or are the double hash of the
  transactions, the frames that the bundles of a flow expand to are the frames of the flow in arrival
  order, with the flow's hash key, version 2 and the sequence number cleared.
\<close>

theorem decoalesce_coalesce:
  assumes "1 \<le> co_maxCount c" and "co_carryTxID c \<or> (\<forall>f \<in> set fs. fr_TxID f = TxID (fr_Payload f))"
  shows "\<exists>c' bs. Coalesce xxh c sender fs = Some (c', bs) \<and>
    (\<forall>k. fk_sender k = sender \<longrightarrow> concat (map Decoalesce (of_flow sender k bs)) =
      map (\<lambda>f. f\<lparr>fr_Version := FrameVerV2, fr_SeqNum := 0, fr_HashKey := seqhash_Hash xxh sender (ucast (fk_group k)) (fk_subtree k)\<rparr>)
        (filter (\<lambda>f. flowOf (co_eng c) sender f = k) fs))"
proof -
  from Coalesce_ex [OF assms(1), of xxh sender fs] obtain s bs where
    c: "Coalesce xxh c sender fs = Some (c\<lparr>co_seq := s\<rparr>, bs)" "\<forall>b \<in> set bs. bundle_ok xxh c sender b"
    "\<And>k. flow_done c (c\<lparr>co_seq := s\<rparr>) k (members_of (co_eng c) sender fs k) (of_flow sender k bs)" by auto
  have "concat (map Decoalesce (of_flow sender k bs)) =
      map (egress_frame xxh k) (filter (\<lambda>f. flowOf (co_eng c) sender f = k) fs)" if "fk_sender k = sender" for k
    using c(3) [of k] by (intro Decoalesce_flow [OF c(2) _ assms(2) that]) (simp add: flow_done_def)
  then show ?thesis using c(1) by (auto simp: egress_frame_def)
qed

theorem decoalesce_coalesce_witness:
  "\<exists>c' bs. Coalesce (\<lambda>_. 7) (NewCoalescer (New 0xFF05 0 2) 1500 2 True) (replicate 16 1) sample_frames = Some (c', bs) \<and>
    map fr_Payload (concat (map Decoalesce (of_flow (replicate 16 1)
      \<lparr>fk_sender = replicate 16 1, fk_group = 3, fk_subtree = zeros32\<rparr> bs))) = [[1, 2], [4, 5, 6], []]"
proof -
  let ?c = "NewCoalescer (New 0xFF05 0 2) 1500 2 True" and ?k = "\<lparr>fk_sender = replicate 16 1, fk_group = 3, fk_subtree = zeros32\<rparr>"
  have c: "1 \<le> co_maxCount ?c" "co_carryTxID ?c \<or> (\<forall>f \<in> set sample_frames. fr_TxID f = TxID (fr_Payload f))" "co_eng ?c = New 0xFF05 0 2"
    by (simp_all add: NewCoalescer_def)
  have "map fr_Payload (filter (\<lambda>f. flowOf (New 0xFF05 0 2) (replicate 16 1) f = ?k) sample_frames) = [[1, 2], [4, 5, 6], []]"
    by (simp add: sample_frames_def flowOf_def memberOf_def sample_group [simplified])
  with decoalesce_coalesce [OF c(1,2), of "\<lambda>_. 7" "replicate 16 1"] show ?thesis
    unfolding c(3) by (auto simp: o_def dest!: spec [of _ ?k])
qed

text \<open>
  Re-bucketing at a finer width routes every member to its child group. A bundle built for group
  \<open>g\<close> at width \<open>n\<close>, with member ids, splits at any width \<open>m\<close> from \<open>n\<close> to 16 into bundles that
  together hold exactly its members; each is a bundle of a group whose leading \<open>n\<close> bits are \<open>g\<close>, of
  the same subtree, whose members all derive that group at the new width.
\<close>

theorem rebucket_children:
  assumes "rb = NewRebucketer (New p g m) maxBytes maxCount carry \<lparr>co_seq := seqs\<rparr>"
    and "n \<le> m" and "m \<le> 16" and "TxIDsPresent b" and "bundle_shape b"
    and "\<forall>x \<in> set (bn_Members b). ucast (GroupIndex (New p' g' n) (mb_TxID x)) = bn_GroupIdx b"
  shows "\<exists>c' bs. Rebucket xxh rb sender b = Some (c', bs) \<and>
    mset (concat (map bn_Members bs)) = mset (bn_Members b) \<and>
    (\<forall>b' \<in> set bs. bn_SubtreeID b' = bn_SubtreeID b \<and> bn_Members b' \<noteq> [] \<and>
      unat (bn_GroupIdx b') div 2 ^ (unat m - unat n) = unat (bn_GroupIdx b) \<and>
      (\<forall>x \<in> set (bn_Members b'). x \<in> set (bn_Members b) \<and> ucast (GroupIndex (New p g m) (mb_TxID x)) = bn_GroupIdx b'))"
proof -
  let ?fs = "Decoalesce b" and ?eng = "New p g m"
  have rb: "1 \<le> co_maxCount rb" "co_eng rb = ?eng" using assms(1) by (simp_all add: NewRebucketer_def NewCoalescer_def)
  have fs: "map memberOf ?fs = bn_Members b" "\<forall>f \<in> set ?fs. fr_SubtreeID f = bn_SubtreeID b"
    using assms(4) by (auto simp: Decoalesce_def memberOf_def intro: map_idI)
  from Coalesce_ex [OF rb(1), of xxh sender ?fs] rb(2) obtain s bs where
    c: "Coalesce xxh rb sender ?fs = Some (rb\<lparr>co_seq := s\<rparr>, bs)" "\<forall>b \<in> set bs. bundle_ok xxh rb sender b"
    and fl: "\<And>k. concat (map bn_Members (of_flow sender k bs)) = members_of ?eng sender ?fs k" by (auto simp: flow_done_def)
  have ms: "mset (concat (map bn_Members bs)) = mset (bn_Members b)" using Coalesce_mset [OF fl] fs(1) by simp
  have mem: "\<exists>f \<in> set ?fs. x = memberOf f \<and> flowOf ?eng sender f = bundle_flow sender b'"
    if "b' \<in> set bs" "x \<in> set (bn_Members b')" for b' x
  proof -
    have "x \<in> set (concat (map bn_Members (of_flow sender (bundle_flow sender b') bs)))" using that by auto
    then show ?thesis unfolding fl by (auto simp: members_of_def)
  qed
  have grp: "bn_SubtreeID b' = bn_SubtreeID b \<and> x \<in> set (bn_Members b) \<and> ucast (GroupIndex ?eng (mb_TxID x)) = bn_GroupIdx b'"
    if "b' \<in> set bs" "x \<in> set (bn_Members b')" for b' x
    using mem [OF that] fs by (force simp: flowOf_def bundle_flow_def memberOf_def simp flip: fs(1))
  have "unat (bn_GroupIdx b') div 2 ^ (unat m - unat n) = unat (bn_GroupIdx b)"
    if "b' \<in> set bs" "x \<in> set (bn_Members b')" for b' x
  proof -
    have "length (mb_TxID x) = 32" "ucast (GroupIndex (New p' g' n) (mb_TxID x)) = bn_GroupIdx b"
      using grp [OF that] assms(5,6) by (auto simp: bundle_shape_def member_shape_def)
    then show ?thesis using GroupIndex_finer [OF assms(2,3)] grp [OF that] by metis
  qed
  moreover have "hd (bn_Members b') \<in> set (bn_Members b')" "bn_Members b' \<noteq> []" if "b' \<in> set bs" for b'
    using c(2) that by (auto simp: bundle_ok_def)
  ultimately show ?thesis using c(1) ms grp unfolding Rebucket_def by metis
qed

theorem rebucket_children_witness:
  "\<exists>c' bs. Rebucket (\<lambda>_. 7) (NewRebucketer (New 0xFF05 0 3) 1500 0 True) (replicate 16 1) sample_bundle = Some (c', bs) \<and>
    mset (concat (map bn_Members bs)) = mset (bn_Members sample_bundle) \<and>
    (\<forall>b \<in> set bs. unat (bn_GroupIdx b) div 2 = 3)"
proof -
  have rb: "NewRebucketer (New 0xFF05 0 3) 1500 0 True = NewRebucketer (New 0xFF05 0 3) 1500 0 True \<lparr>co_seq := Map.empty\<rparr>"
    by (simp add: NewRebucketer_def NewCoalescer_def)
  have w: "(2 :: u64) \<le> 3" "(3 :: u64) \<le> 16" by (simp_all add: word_le_nat_alt)
  have b: "TxIDsPresent sample_bundle" "bundle_shape sample_bundle"
    by (simp_all add: sample_bundle_def TxIDsPresent_def bundle_shape_def member_shape_def)
  have g: "\<forall>x \<in> set (bn_Members sample_bundle). ucast (GroupIndex (New 0xFF05 0 2) (mb_TxID x)) = bn_GroupIdx sample_bundle"
    by (simp add: sample_bundle_def sample_group [simplified])
  note rebucket_children [OF rb w b g, where xxh = "\<lambda>_. 7" and sender = "replicate 16 1"]
  then have "\<exists>c' bs. Rebucket (\<lambda>_. 7) (NewRebucketer (New 0xFF05 0 3) 1500 0 True) (replicate 16 1) sample_bundle = Some (c', bs) \<and>
    mset (concat (map bn_Members bs)) = mset (bn_Members sample_bundle) \<and>
    (\<forall>b' \<in> set bs. unat (bn_GroupIdx b') div 2 ^ (unat (3 :: u64) - unat (2 :: u64)) = unat (bn_GroupIdx sample_bundle))"
    by blast
  then show ?thesis by (simp add: sample_bundle_def)
qed

end
