(* ===== verification/Relay.thy ===== *)
theory Relay
  imports Bundle
begin

text \<open>
  The transaction path from end to end: frames are received (\<^verbatim>\<open>frame.Decode\<close>), coalesced into bundles (\<^verbatim>\<open>bundle.Coalescer\<close>), sent as
  datagrams (\<^verbatim>\<open>Bundle.Encode\<close>), received (\<^verbatim>\<open>bundle.Decode\<close>), split (\<^verbatim>\<open>Decoalesce\<close>) and sent on as frames (\<^verbatim>\<open>frame.Encode\<close>).
\<close>

definition carry_bundle :: "tx_bundle \<Rightarrow> (bundle_err, tx_bundle) res" where
  "carry_bundle b = rbind (Bundle_Encode b) Bundle_Decode"

definition relay :: "(bytes \<Rightarrow> u64) \<Rightarrow> coalescer \<Rightarrow> bytes \<Rightarrow> frame list \<Rightarrow> (bundle_err, frame list) res option" where
  "relay xxh c sender fs =
     map_option (\<lambda>(c', bs). rbind (rmap carry_bundle bs) (\<lambda>bs. Ok (concat (map Decoalesce bs)))) (Coalesce xxh c sender fs)"

text \<open>What a received frame is known to satisfy.\<close>

lemma Decode_shape:
  assumes "Decode d = Ok f"
  shows "length (fr_TxID f) = 32" and "length (fr_SubtreeID f) = 32" and "length (fr_Payload f) + 44 \<le> length d"
  using assms by (auto simp: Decode_def decodeV1_def decodeV2_def rbind_Ok_iff slice_Ok_iff Let_def split: if_splits)

lemma Decoalesce_carried [simp]: "Decoalesce (carried_bundle b) = Decoalesce b"
  by (auto simp: Decoalesce_def carried_bundle_def carried_def TxIDsPresent_def)

lemma carry_bundle_wf: "bundle_wf b \<Longrightarrow> carry_bundle b = Ok (carried_bundle b)"
  using Bundle_Decode_wire [of b "[]"] by (simp add: carry_bundle_def Bundle_Encode_eq bundle_wf_def)

text \<open>The largest transaction that a datagram of 65535 bytes brings.\<close>

abbreviation (input) maxReceivedTx :: nat where "maxReceivedTx \<equiv> 65491"

lemma memberSectionLen_bound:
  assumes "length (bn_Members b) \<le> MaxMembers" and "\<forall>m \<in> set (bn_Members b). length (mb_Tx m) \<le> maxReceivedTx"
  shows "memberSectionLen b < 2 ^ 32"
proof -
  have "memberSectionLen b \<le> (\<Sum>m\<leftarrow>bn_Members b. 34 + maxReceivedTx)" unfolding memberSectionLen_sum
    using assms(2) by (intro sum_list_mono add_mono) (simp_all add: MemberOverhead_def)
  then show ?thesis using assms(1) by (simp add: sum_list_triv)
qed

lemma filter_concat_blocks:
  assumes "\<forall>x \<in> set xs. \<forall>y \<in> set (g x). h y = key x"
  shows "filter (\<lambda>y. h y = k) (concat (map g xs)) = concat (map g (filter (\<lambda>x. key x = k) xs))"
  using assms by (induction xs) (auto simp: filter_empty_conv)

text \<open>Frames that fit a bundle and whose ids survive it.\<close>

definition relayable :: "bool \<Rightarrow> frame \<Rightarrow> bool" where
  "relayable carry f \<longleftrightarrow> length (fr_TxID f) = 32 \<and> length (fr_SubtreeID f) = 32 \<and> length (fr_Payload f) \<le> maxReceivedTx \<and>
     (carry \<or> fr_TxID f = TxID (fr_Payload f))"

text \<open>Every member of a bundle comes from a frame of the bundle's flow.\<close>

lemma member_origin:
  assumes "\<And>k. flow_done c c' k (members_of eng sender fs k) (of_flow sender k bs)" and "b \<in> set bs" and "m \<in> set (bn_Members b)"
  obtains f where "f \<in> set fs" and "flowOf eng sender f = bundle_flow sender b" and "m = memberOf f"
proof -
  let ?k = "bundle_flow sender b"
  have "m \<in> set (concat (map bn_Members (of_flow sender ?k bs)))" using assms(2,3) by auto
  then have "m \<in> set (members_of eng sender fs ?k)" using assms(1) [of ?k] by (simp only: flow_done_def)
  then show ?thesis using that by (auto simp: members_of_def)
qed

lemma bundle_sendable:
  assumes "bundle_ok xxh c sender b" and "co_maxCount c \<le> int MaxMembers"
    and "length (bn_SubtreeID b) = 32" and "\<forall>m \<in> set (bn_Members b). length (mb_TxID m) = 32 \<and> length (mb_Tx m) \<le> maxReceivedTx"
  shows "bundle_wf b"
  using memberSectionLen_bound [of b] assms by (fastforce simp: bundle_wf_def bundle_shape_def member_shape_def bundle_ok_def)

lemma Decoalesce_frames:
  assumes "\<And>k. flow_done c c' k (members_of eng sender fs k) (of_flow sender k bs)" and "\<forall>f \<in> set fs. relayable (co_carryTxID c) f"
    and "b \<in> set bs" and "bundle_ok xxh c sender b" and "y \<in> set (Decoalesce b)"
  shows "flowOf eng sender y = bundle_flow sender b \<and> frame_wf FrameVerV2 y"
proof -
  obtain m where m: "m \<in> set (bn_Members b)" "fr_Version y = FrameVerV2" "fr_Payload y = mb_Tx m" "fr_SubtreeID y = bn_SubtreeID b"
    "fr_TxID y = (if TxIDsPresent b then mb_TxID m else TxID (mb_Tx m))" using assms(5) by (auto simp: Decoalesce_def)
  obtain f where f: "f \<in> set fs" "flowOf eng sender f = bundle_flow sender b" "m = memberOf f" by (rule member_origin [OF assms(1,3) m(1)])
  have r: "relayable (co_carryTxID c) f" using assms(2) f(1) by blast
  then have "fr_TxID y = fr_TxID f" using m(5) f(3) assms(4) by (auto simp: memberOf_def bundle_ok_def relayable_def)
  then show ?thesis using m f r by (auto simp: flowOf_def bundle_flow_def frame_wf_def memberOf_def relayable_def)
qed

lemma coalesced_sendable:
  assumes "\<And>k. flow_done c c' k (members_of eng sender fs k) (of_flow sender k bs)" and "\<forall>f \<in> set fs. relayable (co_carryTxID c) f"
    and "b \<in> set bs" and "bundle_ok xxh c sender b" and "co_maxCount c \<le> int MaxMembers"
  shows "carry_bundle b = Ok (carried_bundle b)"
proof (rule carry_bundle_wf, rule bundle_sendable [OF assms(4,5)])
  have orig: "\<exists>f. relayable (co_carryTxID c) f \<and> flowOf eng sender f = bundle_flow sender b \<and> m = memberOf f" if "m \<in> set (bn_Members b)" for m
    using member_origin [OF assms(1,3) that] assms(2) by blast
  then show "\<forall>m \<in> set (bn_Members b). length (mb_TxID m) = 32 \<and> length (mb_Tx m) \<le> maxReceivedTx" by (fastforce simp: memberOf_def relayable_def)
  obtain m where "m \<in> set (bn_Members b)" using assms(4) by (cases "bn_Members b") (auto simp: bundle_ok_def)
  then obtain f where "relayable (co_carryTxID c) f" "flowOf eng sender f = bundle_flow sender b" using orig by blast
  then show "length (bn_SubtreeID b) = 32" by (simp add: relayable_def flowOf_def bundle_flow_def)
qed

lemma frame_sendable: "frame_wf FrameVerV2 f \<Longrightarrow> \<exists>n w. Encode f (replicate (92 + length (fr_Payload f)) 0) = Ok (n, w) \<and> Decode (take n w) = Ok f"
  using tx_codec.send [of f "length (frame_wire f)" "replicate (92 + length (fr_Payload f)) 0" "[]"]
  by (fastforce simp: frame_wire_def frame_wf_def)

text \<open>
  C3: the transaction path. When frames that were received (in datagrams of at most 65535 bytes) are coalesced, the bundles sent as
  datagrams, received and split, the path returns without an error. For every group and subtree the resulting frames carry the
  id, subtree and transaction of the frames received for it, none lost, doubled or reordered; their version, hash key and sequence number
  are those that \<open>Decoalesce\<close> assigns: 2, the hash of the flow, and 0, to be stamped by the sender. Every resulting frame can be sent on as a datagram that decodes to it.
  The bundles carry the ids, or the ids of the received frames are the double SHA-256 of their transactions, as \<open>Decoalesce\<close>
  recomputes them; that is not so for the id of an extended-format transaction, which a coalescer without ids does not preserve.
\<close>

theorem relay_preserves:
  assumes "c = NewCoalescer eng maxBytes maxCount carry \<lparr>co_seq := seqs\<rparr>"
    and "\<forall>f \<in> set fs. \<exists>d. Decode d = Ok f \<and> length d \<le> 65535"
    and "carry \<or> (\<forall>f \<in> set fs. fr_TxID f = TxID (fr_Payload f))"
  shows "\<exists>out. relay xxh c sender fs = Some (Ok out) \<and>
    (\<forall>grp subtree. filter (\<lambda>f. flowOf eng sender f = \<lparr>fk_sender = sender, fk_group = grp, fk_subtree = subtree\<rparr>) out =
      map (\<lambda>f. f\<lparr>fr_Version := FrameVerV2, fr_SeqNum := 0, fr_HashKey := seqhash_Hash xxh sender (ucast grp) subtree\<rparr>)
        (filter (\<lambda>f. flowOf eng sender f = \<lparr>fk_sender = sender, fk_group = grp, fk_subtree = subtree\<rparr>) fs)) \<and>
    (\<forall>f \<in> set out. \<exists>n w. Encode f (replicate (92 + length (fr_Payload f)) 0) = Ok (n, w) \<and> Decode (take n w) = Ok f)"
proof -
  have c: "co_eng c = eng" "co_carryTxID c = carry" "1 \<le> co_maxCount c" "co_maxCount c \<le> int MaxMembers"
    using assms(1) by (simp_all add: NewCoalescer_def Let_def)
  obtain s bs where co: "Coalesce xxh c sender fs = Some (c\<lparr>co_seq := s\<rparr>, bs)" and ok: "\<forall>b \<in> set bs. bundle_ok xxh c sender b"
    and flows: "\<And>k. flow_done c (c\<lparr>co_seq := s\<rparr>) k (members_of eng sender fs k) (of_flow sender k bs)"
    using Coalesce_ex [OF c(3), of xxh sender fs] c(1) by auto
  have fs: "\<forall>f \<in> set fs. relayable (co_carryTxID c) f"
    using assms(2,3) Decode_shape c(2) by (fastforce simp: relayable_def)
  have "rmap carry_bundle bs = Ok (map carried_bundle bs)" using coalesced_sendable [OF flows fs _ _ c(4)] ok by (blast intro: rmap_Ok)
  then have r: "relay xxh c sender fs = Some (Ok (concat (map Decoalesce bs)))" by (simp add: relay_def co o_def)
  have split: "\<forall>b \<in> set bs. \<forall>y \<in> set (Decoalesce b). flowOf eng sender y = bundle_flow sender b"
    using Decoalesce_frames [OF flows fs] ok by blast
  have "filter (\<lambda>f. flowOf eng sender f = k) (concat (map Decoalesce bs)) = map (egress_frame xxh k) (filter (\<lambda>f. flowOf eng sender f = k) fs)"
    if k: "fk_sender k = sender" for k
    using Decoalesce_flow [OF ok _ _ k, of eng fs] flows [of k] assms(3) c(2) by (simp add: filter_concat_blocks [OF split] flow_done_def)
  moreover have "frame_wf FrameVerV2 f" if "f \<in> set (concat (map Decoalesce bs))" for f
    using that Decoalesce_frames [OF flows fs] ok by auto
  ultimately show ?thesis using r frame_sendable by (simp add: egress_frame_def)
qed

theorem relay_preserves_witness:
  "\<exists>out. relay (\<lambda>_. 7) (NewCoalescer (New 0xFF05 0 2) 1500 2 True \<lparr>co_seq := Map.empty\<rparr>) (replicate 16 1) [sample_frame] = Some (Ok out) \<and>
     map fr_Payload (filter (\<lambda>f. flowOf (New 0xFF05 0 2) (replicate 16 1) f = flowOf (New 0xFF05 0 2) (replicate 16 1) sample_frame) out) = [fr_Payload sample_frame]"
proof -
  have "Decode (frame_wire sample_frame) = Ok sample_frame" using tx_codec.decode_wire [of sample_frame "[]"] by (simp add: frame_wf_def sample_frame_def)
  moreover have "length (frame_wire sample_frame) \<le> 65535" by (simp add: frame_wire_def sample_frame_def)
  ultimately have d: "\<forall>f \<in> set [sample_frame]. \<exists>d. Decode d = Ok f \<and> length d \<le> 65535" by auto
  obtain out where out: "relay (\<lambda>_. 7) (NewCoalescer (New 0xFF05 0 2) 1500 2 True \<lparr>co_seq := Map.empty\<rparr>) (replicate 16 1) [sample_frame] = Some (Ok out)"
    and flow: "\<And>grp subtree. filter (\<lambda>f. flowOf (New 0xFF05 0 2) (replicate 16 1) f = \<lparr>fk_sender = replicate 16 1, fk_group = grp, fk_subtree = subtree\<rparr>) out =
      map (\<lambda>f. f\<lparr>fr_Version := FrameVerV2, fr_SeqNum := 0, fr_HashKey := 7\<rparr>)
        (filter (\<lambda>f. flowOf (New 0xFF05 0 2) (replicate 16 1) f = \<lparr>fk_sender = replicate 16 1, fk_group = grp, fk_subtree = subtree\<rparr>) [sample_frame])"
    using relay_preserves [where maxBytes = 1500 and maxCount = 2 and carry = True and eng = "New 0xFF05 0 2" and seqs = Map.empty
      and xxh = "\<lambda>_. 7" and sender = "replicate 16 1", OF refl d] by (auto simp: seqhash_Hash_def)
  show ?thesis using out flow [of "fk_group (flowOf (New 0xFF05 0 2) (replicate 16 1) sample_frame)" "fr_SubtreeID sample_frame"]
    by (simp add: flowOf_def)
qed

end
