(* ===== verification/Objfmt_Size.thy ===== *)
theory Objfmt_Size
  imports Frame_Payload Sha256
begin

text \<open>
  The stream delimiters of \<^verbatim>\<open>objfmt/\<close>: how long is the object of a class at the start of a buffer? One
  function per class (tx.go, subtree.go, block.go, beef.go, header.go), the dispatcher \<^verbatim>\<open>Size\<close>, and the
  contract \<open>stream_delim\<close> that the stream reader relies on. A delimiter answers with a length, with
  \<open>OErrShort\<close> (more bytes are needed) or with \<open>OErrMalformed\<close> (no suffix helps); the lemmas of the section
  on walks show that it reads only the bytes of the object it reports.
\<close>

section \<open>Outcomes\<close>

datatype objfmt_err =
    OErrShort
  | OErrMalformed
  | OErrClassNotRegistered
  | OErrObjectTooLarge
  | OErrNotStrippable
  | OErrFrame frame_err
  | OErrEOF
  | OErrUnexpectedEOF
  | OErrRead

datatype obj_class =
    ClassTx | ClassSubtree | ClassBlock | ClassBEEF | ClassBEEFDelivery | ClassBlockHeader | ClassOther u8

definition Class_String :: "obj_class \<Rightarrow> string" where
  "Class_String c =
     (case c of
        ClassTx \<Rightarrow> ''tx''
      | ClassSubtree \<Rightarrow> ''subtree''
      | ClassBlock \<Rightarrow> ''block''
      | ClassBEEF \<Rightarrow> ''beef''
      | ClassBEEFDelivery \<Rightarrow> ''beef''
      | ClassBlockHeader \<Rightarrow> ''header''
      | ClassOther _ \<Rightarrow> ''unknown'')"

abbreviation (input) MaxInt32 :: nat where "MaxInt32 \<equiv> 2147483647"
abbreviation (input) MaxInt :: nat where "MaxInt \<equiv> 9223372036854775807"

section \<open>Transactions (tx.go)\<close>

definition objfmt_IsEF :: "bytes \<Rightarrow> bool" where
  "objfmt_IsEF tx \<longleftrightarrow> 10 \<le> length tx \<and> list_all (\<lambda>(i, b). tx ! (4 + i) = b) (enumerate 0 efMarker)"

definition varInt :: "bytes \<Rightarrow> nat \<Rightarrow> (objfmt_err, u64 \<times> nat) res" where
  "varInt buf off =
     (if length buf \<le> off then Err OErrShort else
      rbind (index buf off) (\<lambda>first.
      if first < 0xFD then Ok (ucast first, 1)
      else if first = 0xFD then
        if length buf < off + 3 then Err OErrShort else
        rbind (slice buf (off + 1) (length buf)) (\<lambda>s. Ok (ucast (LE_Uint16 (take 2 s)), 3))
      else if first = 0xFE then
        if length buf < off + 5 then Err OErrShort else
        rbind (slice buf (off + 1) (length buf)) (\<lambda>s. Ok (ucast (LE_Uint32 (take 4 s)), 5))
      else
        if length buf < off + 9 then Err OErrShort else
        rbind (slice buf (off + 1) (length buf)) (\<lambda>s. Ok (LE_Uint64 (take 8 s), 9))))"

definition advance :: "bytes \<Rightarrow> nat \<Rightarrow> u64 \<Rightarrow> (objfmt_err, nat) res" where
  "advance buf off n =
     (if MaxInt32 < unat n \<or> MaxInt32 < off then Err OErrMalformed else
      let next = off + unat n in
      if length buf < next then Err OErrShort else Ok next)"

text \<open>The loop over the inputs and the loop over the outputs of a transaction.\<close>

primrec txInputs :: "bool \<Rightarrow> bytes \<Rightarrow> nat \<Rightarrow> nat \<Rightarrow> (objfmt_err, nat) res" where
  "txInputs ef buf 0 off = Ok off"
| "txInputs ef buf (Suc cnt) off =
     rbind (advance buf off 36) (\<lambda>off.
     rbind (varInt buf off) (\<lambda>(sLen, n).
     rbind (advance buf (off + n) sLen) (\<lambda>off.
     rbind (advance buf off 4) (\<lambda>off.
     rbind (if ef then
         rbind (advance buf off 8) (\<lambda>off.
         rbind (varInt buf off) (\<lambda>(lLen, n).
         advance buf (off + n) lLen))
       else Ok off) (\<lambda>off.
     txInputs ef buf cnt off)))))"

primrec txOutputs :: "bytes \<Rightarrow> nat \<Rightarrow> nat \<Rightarrow> (objfmt_err, nat) res" where
  "txOutputs buf 0 off = Ok off"
| "txOutputs buf (Suc cnt) off =
     rbind (advance buf off 8) (\<lambda>off.
     rbind (varInt buf off) (\<lambda>(sLen, n).
     rbind (advance buf (off + n) sLen) (\<lambda>off.
     txOutputs buf cnt off)))"

definition TxSize :: "bytes \<Rightarrow> (objfmt_err, nat) res" where
  "TxSize buf =
     rbind (advance buf 0 4) (\<lambda>off.
     let ef = objfmt_IsEF buf in
     if \<not> ef \<and> 5 \<le> length buf \<and> buf ! 4 = 0x00
     then if length buf < 10 then Err OErrShort else Err OErrMalformed
     else
       let off = (if ef then off + 6 else off) in
       rbind (varInt buf off) (\<lambda>(inCount, n).
       if inCount = 0 then Err OErrMalformed else
       rbind (txInputs ef buf (unat inCount) (off + n)) (\<lambda>off.
       rbind (varInt buf off) (\<lambda>(outCount, n).
       if outCount = 0 then Err OErrMalformed else
       rbind (txOutputs buf (unat outCount) (off + n)) (\<lambda>off.
       advance buf off 4)))))"

section \<open>Subtrees (subtree.go), block headers (header.go) and blocks (block.go)\<close>

abbreviation (input) SubtreeHeaderSize :: nat where "SubtreeHeaderSize \<equiv> 40"
abbreviation (input) subtreeNodeSize :: nat where "subtreeNodeSize \<equiv> 32"
abbreviation (input) BlockPrefixSize :: nat where "BlockPrefixSize \<equiv> 104"
abbreviation (input) blockRootSize :: nat where "blockRootSize \<equiv> 32"

definition SubtreeSize :: "bytes \<Rightarrow> (objfmt_err, nat) res" where
  "SubtreeSize buf =
     (if length buf < SubtreeHeaderSize then Err OErrShort else
      rbind (BE64 buf 32 40) (\<lambda>n.
      if (MaxInt - SubtreeHeaderSize) div subtreeNodeSize < unat n then Err OErrMalformed else
      let total = SubtreeHeaderSize + unat n * subtreeNodeSize in
      if length buf < total then Err OErrShort else Ok total))"

definition ObjBlockHeaderSize :: "bytes \<Rightarrow> (objfmt_err, nat) res" where
  "ObjBlockHeaderSize buf = (if length buf < BlockHeaderSize then Err OErrShort else Ok BlockHeaderSize)"

definition BlockSize :: "bytes \<Rightarrow> (objfmt_err, nat) res" where
  "BlockSize buf =
     (if length buf < BlockPrefixSize then Err OErrShort else
      rbind (BE64 buf 96 104) (\<lambda>m.
      if (MaxInt - BlockPrefixSize) div blockRootSize < unat m then Err OErrMalformed else
      let off = BlockPrefixSize + unat m * blockRootSize in
      if length buf < off then Err OErrShort else
      rbind (slice buf off (length buf)) (\<lambda>rest.
      rbind (TxSize rest) (\<lambda>cb.
      let off = off + cb in
      if length buf < off + 16 then Err OErrShort else
      rbind (BE64 buf (off + 8) (off + 16)) (\<lambda>l.
      let off = off + 16 in
      if MaxInt - off < unat l then Err OErrMalformed else
      let fin = off + unat l in
      if length buf < fin then Err OErrShort else Ok fin)))))"

section \<open>BEEF records (beef.go)\<close>

abbreviation (input) BEEFRecordTag :: u16 where "BEEFRecordTag \<equiv> 0xBEEF"
abbreviation (input) BEEFRecordVer :: u8 where "BEEFRecordVer \<equiv> 0x01"
abbreviation (input) BEEFMaxTopics :: nat where "BEEFMaxTopics \<equiv> 15"
abbreviation (input) BEEFMaxTopicLen :: nat where "BEEFMaxTopicLen \<equiv> 64"
abbreviation (input) beefRecordMin :: nat where "beefRecordMin \<equiv> 4"
abbreviation (input) BEEFDeliveryHeaderSize :: nat where "BEEFDeliveryHeaderSize \<equiv> 36"

primrec topicsSize :: "bytes \<Rightarrow> nat \<Rightarrow> nat \<Rightarrow> (objfmt_err, nat) res" where
  "topicsSize buf 0 off = Ok off"
| "topicsSize buf (Suc cnt) off =
     (if length buf < off + 1 then Err OErrShort else
      rbind (index buf off) (\<lambda>nameLen.
      if unat nameLen < 1 \<or> BEEFMaxTopicLen < unat nameLen then Err OErrMalformed else
      let off = off + (1 + unat nameLen) in
      if length buf < off then Err OErrShort else
      topicsSize buf cnt off))"

definition BEEFRecordSize :: "bytes \<Rightarrow> (objfmt_err, nat) res" where
  "BEEFRecordSize buf =
     (if length buf < 2 then Err OErrShort else
      rbind (BE16 buf 0 2) (\<lambda>tag.
      if tag \<noteq> BEEFRecordTag then Err OErrMalformed else
      if length buf < beefRecordMin then Err OErrShort else
      rbind (index buf 2) (\<lambda>ver.
      if ver \<noteq> BEEFRecordVer then Err OErrMalformed else
      rbind (index buf 3) (\<lambda>count.
      if unat count < 1 \<or> BEEFMaxTopics < unat count then Err OErrMalformed else
      rbind (topicsSize buf (unat count) beefRecordMin) (\<lambda>off.
      if length buf < off + 4 then Err OErrShort else
      rbind (BE32 buf off (off + 4)) (\<lambda>objLen.
      if objLen = 0 then Err OErrMalformed else
      if MaxInt - off - 4 < unat objLen then Err OErrMalformed else
      let total = off + 4 + unat objLen in
      if length buf < total then Err OErrShort else Ok total))))))"

definition BEEFDeliverySize :: "bytes \<Rightarrow> (objfmt_err, nat) res" where
  "BEEFDeliverySize buf =
     (if length buf < BEEFDeliveryHeaderSize then Err OErrShort else
      rbind (BE32 buf 32 36) (\<lambda>objLen.
      if objLen = 0 then Err OErrMalformed else
      if MaxInt - BEEFDeliveryHeaderSize < unat objLen then Err OErrMalformed else
      let total = BEEFDeliveryHeaderSize + unat objLen in
      if length buf < total then Err OErrShort else Ok total))"

section \<open>The dispatcher (objfmt.go)\<close>

definition Size :: "obj_class \<Rightarrow> bytes \<Rightarrow> (objfmt_err, nat) res" where
  "Size c buf =
     (case c of
        ClassTx \<Rightarrow> TxSize buf
      | ClassSubtree \<Rightarrow> SubtreeSize buf
      | ClassBlock \<Rightarrow> BlockSize buf
      | ClassBEEF \<Rightarrow> BEEFRecordSize buf
      | ClassBEEFDelivery \<Rightarrow> BEEFDeliverySize buf
      | ClassBlockHeader \<Rightarrow> ObjBlockHeaderSize buf
      | ClassOther _ \<Rightarrow> Err OErrClassNotRegistered)"

section \<open>Walks\<close>

text \<open>
  \<open>walks lo f e\<close>: \<open>f\<close> examines a buffer of which the first \<open>lo\<close> bytes are there. When it succeeds with \<open>x\<close>
  it has looked at the first \<open>e x\<close> bytes and nothing else, so any buffer that agrees on them gives the
  same answer; when it fails it needs more bytes, or is malformed whatever follows.
\<close>

definition walks :: "nat \<Rightarrow> (bytes \<Rightarrow> (objfmt_err, 'a) res) \<Rightarrow> ('a \<Rightarrow> nat) \<Rightarrow> bool" where
  "walks lo f e \<longleftrightarrow> (\<forall>buf. lo \<le> length buf \<longrightarrow> (case f buf of
       Ok x \<Rightarrow> lo \<le> e x \<and> e x \<le> length buf \<and> (\<forall>k rest. e x \<le> k \<longrightarrow> f (take k buf @ rest) = Ok x)
     | Err er \<Rightarrow> er = OErrShort \<or> er = OErrMalformed \<and> (\<forall>rest. f (buf @ rest) = Err OErrMalformed)
     | Panic \<Rightarrow> False))"

named_theorems walk_intros \<open>introduction rules for walks\<close>

lemma walksI:
  assumes "\<And>buf x. lo \<le> length buf \<Longrightarrow> f buf = Ok x \<Longrightarrow> lo \<le> e x \<and> e x \<le> length buf"
    and "\<And>buf x k rest. lo \<le> length buf \<Longrightarrow> f buf = Ok x \<Longrightarrow> e x \<le> k \<Longrightarrow> f (take k buf @ rest) = Ok x"
    and "\<And>buf er. lo \<le> length buf \<Longrightarrow> f buf = Err er \<Longrightarrow> er = OErrShort \<or> er = OErrMalformed"
    and "\<And>buf rest. lo \<le> length buf \<Longrightarrow> f buf = Err OErrMalformed \<Longrightarrow> f (buf @ rest) = Err OErrMalformed"
    and "\<And>buf. lo \<le> length buf \<Longrightarrow> f buf \<noteq> Panic"
  shows "walks lo f e"
  unfolding walks_def
proof (intro allI impI)
  fix buf :: bytes assume lo: "lo \<le> length buf"
  show "case f buf of Ok x \<Rightarrow> lo \<le> e x \<and> e x \<le> length buf \<and> (\<forall>k rest. e x \<le> k \<longrightarrow> f (take k buf @ rest) = Ok x)
     | Err er \<Rightarrow> er = OErrShort \<or> er = OErrMalformed \<and> (\<forall>rest. f (buf @ rest) = Err OErrMalformed) | Panic \<Rightarrow> False"
  proof (cases "f buf")
    case (Err er)
    then show ?thesis using assms(3) [OF lo Err] assms(4) [OF lo] by auto
  qed (use assms(1,2,5) [OF lo] in auto)
qed

lemma walksD:
  assumes "walks lo f e" and "lo \<le> length buf"
  shows "f buf = Ok x \<Longrightarrow> lo \<le> e x" and "f buf = Ok x \<Longrightarrow> e x \<le> length buf"
    and "f buf = Ok x \<Longrightarrow> e x \<le> k \<Longrightarrow> f (take k buf @ rest) = Ok x"
    and "f buf = Err er \<Longrightarrow> er = OErrShort \<or> er = OErrMalformed"
    and "f buf = Err OErrMalformed \<Longrightarrow> f (buf @ rest) = Err OErrMalformed"
    and "f buf \<noteq> Panic"
  using assms(1) [unfolded walks_def, rule_format, OF assms(2)] by auto

lemma walks_append: "walks lo f e \<Longrightarrow> lo \<le> length buf \<Longrightarrow> f buf = Ok x \<Longrightarrow> f (buf @ rest) = Ok x"
  using walksD(3) [of lo f e buf x "length buf" rest] walksD(2) [of lo f e buf x] by simp

lemma walks_bind [walk_intros]:
  assumes f: "walks lo f e" and g: "\<And>x. walks (e x) (g x) e'"
  shows "walks lo (\<lambda>buf. rbind (f buf) (\<lambda>x. g x buf)) e'"
proof (rule walksI)
  fix buf y k rest assume lo: "lo \<le> length buf" and "rbind (f buf) (\<lambda>x. g x buf) = Ok y"
  then obtain x where x: "f buf = Ok x" "g x buf = Ok y" by (auto simp: rbind_Ok_iff)
  note ex = walksD(1,2) [OF f lo x(1)]
  note gx = walksD(1,2,3) [OF g ex(2) x(2)]
  show "lo \<le> e' y \<and> e' y \<le> length buf" using ex gx by simp
  assume "e' y \<le> k"
  then show "rbind (f (take k buf @ rest)) (\<lambda>x. g x (take k buf @ rest)) = Ok y"
    using walksD(3) [OF f lo x(1), of k rest] gx(1,3) by simp
next
  fix buf er assume lo: "lo \<le> length buf" and "rbind (f buf) (\<lambda>x. g x buf) = Err er"
  then show "er = OErrShort \<or> er = OErrMalformed"
    using walksD(2,4) [OF f lo] walksD(4) [OF g] by (cases "f buf") auto
next
  fix buf rest assume lo: "lo \<le> length buf" and m: "rbind (f buf) (\<lambda>x. g x buf) = Err OErrMalformed"
  show "rbind (f (buf @ rest)) (\<lambda>x. g x (buf @ rest)) = Err OErrMalformed"
  proof (cases "f buf")
    case (Ok x)
    with m show ?thesis using walks_append [OF f lo Ok] walksD(5) [OF g walksD(2) [OF f lo Ok]] by simp
  next
    case (Err er)
    with m show ?thesis using walksD(5) [OF f lo] by simp
  qed (use m in simp)
next
  fix buf :: bytes assume lo: "lo \<le> length buf"
  show "rbind (f buf) (\<lambda>x. g x buf) \<noteq> Panic"
    using walksD(2,6) [OF f lo] walksD(6) [OF g] by (cases "f buf") auto
qed

lemma walks_bind_prod [walk_intros]:
  assumes "walks lo f e" and "\<And>a b. walks (e (a, b)) (g a b) e'"
  shows "walks lo (\<lambda>buf. rbind (f buf) (\<lambda>(a, b). g a b buf)) e'"
proof -
  have "walks (e x) (g (fst x) (snd x)) e'" for x using assms(2) [of "fst x" "snd x"] by simp
  from walks_bind [OF assms(1) this] show ?thesis by (simp add: case_prod_unfold)
qed

lemma walks_malformed [walk_intros]: "walks lo f e \<Longrightarrow> walks lo (\<lambda>buf. if c then Err OErrMalformed else f buf) e"
  by (cases c) (simp_all add: walks_def)

lemma walks_if [walk_intros]: "walks lo f e \<Longrightarrow> walks lo g e \<Longrightarrow> walks lo (\<lambda>buf. if c then f buf else g buf) e"
  by (cases c) simp_all

lemma walks_len [walk_intros]:
  assumes f: "walks j f e" and lo: "lo \<le> j"
  shows "walks lo (\<lambda>buf. if length buf < j then Err OErrShort else f buf) e"
proof (rule walksI)
  fix buf x k rest
  assume ok: "(if length buf < j then Err OErrShort else f buf) = Ok x"
  then have b: "j \<le> length buf" "f buf = Ok x" by (simp_all split: if_splits)
  note fx = walksD(1,2,3) [OF f b]
  show "lo \<le> e x \<and> e x \<le> length buf" using fx lo by simp
  assume "e x \<le> k"
  then show "(if length (take k buf @ rest) < j then Err OErrShort else f (take k buf @ rest)) = Ok x"
    using fx by (simp add: min_def)
next
  fix buf er assume "(if length buf < j then Err OErrShort else f buf) = Err er"
  then show "er = OErrShort \<or> er = OErrMalformed" using walksD(4) [OF f, of buf er] by (simp split: if_splits)
next
  fix buf rest assume "(if length buf < j then Err OErrShort else f buf) = Err OErrMalformed"
  then show "(if length (buf @ rest) < j then Err OErrShort else f (buf @ rest)) = Err OErrMalformed"
    using walksD(5) [OF f, of buf rest] by (simp split: if_splits)
next
  fix buf :: bytes
  show "(if length buf < j then Err OErrShort else f buf) \<noteq> Panic" using walksD(6) [OF f, of buf] by simp
qed

lemma walks_Ok [walk_intros]: "e x = lo \<Longrightarrow> walks lo (\<lambda>buf. Ok x) e"
  by (simp add: walks_def)

lemma walks_index [walk_intros]: "i < lo \<Longrightarrow> walks lo (\<lambda>buf. index buf i) (\<lambda>_. lo)"
  by (simp add: walks_def index_def nth_append min_def)

lemma walks_slice: "i \<le> j \<Longrightarrow> j \<le> lo \<Longrightarrow> walks lo (\<lambda>buf. slice buf i j) (\<lambda>_. lo)"
proof (rule walksI)
  fix buf x k rest assume "i \<le> j" "j \<le> lo" "lo \<le> length buf" "slice buf i j = Ok x" "lo \<le> k"
  then show "slice (take k buf @ rest) i j = Ok x" by (auto simp: slice_def min_def drop_take)
qed (auto simp: slice_def split: if_splits)

lemma walks_BE [walk_intros]:
  "i \<le> j \<Longrightarrow> j \<le> lo \<Longrightarrow> walks lo (\<lambda>buf. BE16 buf i j) (\<lambda>_. lo)"
  "i \<le> j \<Longrightarrow> j \<le> lo \<Longrightarrow> walks lo (\<lambda>buf. BE32 buf i j) (\<lambda>_. lo)"
  "i \<le> j \<Longrightarrow> j \<le> lo \<Longrightarrow> walks lo (\<lambda>buf. BE64 buf i j) (\<lambda>_. lo)"
  unfolding BE16_def BE32_def BE64_def by (rule walks_bind walks_slice walks_Ok | simp)+

section \<open>The delimiters are walks\<close>

lemma walks_advance [walk_intros]: "walks off (\<lambda>buf. advance buf off n) (\<lambda>x. x)"
  unfolding advance_def Let_def by (rule walk_intros | simp)+

lemma varInt_alt:
  "varInt buf off =
     (if length buf < Suc off then Err OErrShort else
      rbind (index buf off) (\<lambda>first.
      if first < 0xFD then Ok (ucast first, 1)
      else if first = 0xFD then
        if length buf < off + 3 then Err OErrShort else
        rbind (slice buf (off + 1) (off + 3)) (\<lambda>s. Ok (ucast (LE_Uint16 s), 3))
      else if first = 0xFE then
        if length buf < off + 5 then Err OErrShort else
        rbind (slice buf (off + 1) (off + 5)) (\<lambda>s. Ok (ucast (LE_Uint32 s), 5))
      else
        if length buf < off + 9 then Err OErrShort else
        rbind (slice buf (off + 1) (off + 9)) (\<lambda>s. Ok (LE_Uint64 s, 9))))"
  by (auto simp: varInt_def)

lemma walks_varInt [walk_intros]: "walks off (\<lambda>buf. varInt buf off) (\<lambda>(v, n). off + n)"
  unfolding varInt_alt by (rule walk_intros walks_slice | simp)+

lemma walks_raise:
  assumes f: "walks lo f e" and "lo \<le> lo'" and "\<And>buf x. f buf = Ok x \<Longrightarrow> lo' \<le> e x"
  shows "walks lo' f e"
  using assms unfolding walks_def by (auto split: res.splits)

lemma walks_varInt_next [walk_intros]: "walks (Suc off) (\<lambda>buf. varInt buf off) (\<lambda>(v, n). off + n)"
  by (rule walks_raise [OF walks_varInt]) (auto simp: varInt_def index_def slice_def split: if_splits)

lemma walks_txInputs [walk_intros]: "walks off (\<lambda>buf. txInputs ef buf cnt off) (\<lambda>x. x)"
proof (induction cnt arbitrary: off)
  case (Suc cnt)
  show ?case by (simp only: txInputs.simps) (rule walk_intros Suc | simp)+
qed (simp add: walk_intros)

lemma walks_txOutputs [walk_intros]: "walks off (\<lambda>buf. txOutputs buf cnt off) (\<lambda>x. x)"
proof (induction cnt arbitrary: off)
  case (Suc cnt)
  show ?case by (simp only: txOutputs.simps) (rule walk_intros Suc | simp)+
qed (simp add: walk_intros)

lemma walks_SubtreeSize: "walks 0 SubtreeSize (\<lambda>x. x)"
  unfolding SubtreeSize_def Let_def by (rule walk_intros | simp)+

lemma walks_ObjBlockHeaderSize: "walks 0 ObjBlockHeaderSize (\<lambda>x. x)"
  unfolding ObjBlockHeaderSize_def by (rule walk_intros | simp)+

lemma walks_BEEFDeliverySize: "walks 0 BEEFDeliverySize (\<lambda>x. x)"
  unfolding BEEFDeliverySize_def Let_def by (rule walk_intros | simp)+

lemma walks_topicsSize [walk_intros]: "walks off (\<lambda>buf. topicsSize buf cnt off) (\<lambda>x. x)"
proof (induction cnt arbitrary: off)
  case (Suc cnt)
  show ?case unfolding topicsSize.simps Let_def by (rule walk_intros Suc | simp)+
qed (simp add: walk_intros)

lemma walks_BEEFRecordSize: "walks 0 BEEFRecordSize (\<lambda>x. x)"
  unfolding BEEFRecordSize_def Let_def by (rule walk_intros | simp)+

lemma objfmt_IsEF: "objfmt_IsEF tx \<longleftrightarrow> 10 \<le> length tx \<and> take 6 (drop 4 tx) = efMarker"
proof -
  have "take 6 (drop 4 tx) = [tx ! 4, tx ! 5, tx ! 6, tx ! 7, tx ! 8, tx ! 9]" if "10 \<le> length tx"
    using that by (intro nth_equalityI) (auto simp: less_Suc_eq nth_Cons' numeral_eq_Suc)
  then show ?thesis by (auto simp: objfmt_IsEF_def efMarker_def)
qed

text \<open>The head of a transaction: is it in extended format, and where does the input count start?\<close>

definition txHead :: "bytes \<Rightarrow> (objfmt_err, bool \<times> nat) res" where
  "txHead buf =
     (if length buf < 5 then Err OErrShort else
      rbind (index buf 4) (\<lambda>b.
      if b = 0 then
        if length buf < 10 then Err OErrShort else
        rbind (slice buf 4 10) (\<lambda>s.
        if s \<noteq> efMarker then Err OErrMalformed else
        if length buf < 11 then Err OErrShort else Ok (True, 10))
      else Ok (False, 4)))"

lemma walks_txHead [walk_intros]: "walks 0 txHead (\<lambda>(ef, off). Suc off)"
  unfolding txHead_def by (rule walk_intros walks_slice | simp)+

lemma TxSize_alt:
  "TxSize buf =
     rbind (txHead buf) (\<lambda>(ef, off).
     rbind (varInt buf off) (\<lambda>(inCount, n).
     if inCount = 0 then Err OErrMalformed else
     rbind (txInputs ef buf (unat inCount) (off + n)) (\<lambda>off.
     rbind (varInt buf off) (\<lambda>(outCount, n).
     if outCount = 0 then Err OErrMalformed else
     rbind (txOutputs buf (unat outCount) (off + n)) (\<lambda>off.
     advance buf off 4)))))"
proof (cases "length buf < 5")
  case True
  then show ?thesis by (simp add: TxSize_def txHead_def advance_def Let_def objfmt_IsEF varInt_alt)
next
  case len: False
  show ?thesis
  proof (cases "objfmt_IsEF buf")
    case True
    have "buf ! 4 = 0" using True by (simp add: objfmt_IsEF_def efMarker_def)
    moreover have "10 \<le> length buf" "take 6 (drop 4 buf) = efMarker" using True by (simp_all add: objfmt_IsEF)
    moreover have "length efMarker = 6" by (simp add: efMarker_def)
    ultimately show ?thesis using True
      by (cases "length buf < 11") (simp_all add: TxSize_def txHead_def advance_def Let_def varInt_alt [of buf 10])
  next
    case False
    then have ef: "10 \<le> length buf \<Longrightarrow> take 6 (drop 4 buf) \<noteq> efMarker" by (simp add: objfmt_IsEF)
    with len False show ?thesis
      by (cases "buf ! 4 = 0") (simp_all add: TxSize_def txHead_def advance_def Let_def)
  qed
qed

lemma walks_TxSize: "walks 0 TxSize (\<lambda>x. x)"
  unfolding TxSize_alt by (rule walk_intros | simp)+

lemma walks_shift: "walks 0 f e \<Longrightarrow> walks off (\<lambda>buf. f (drop off buf)) (\<lambda>x. off + e x)"
proof (rule walksI)
  fix buf x k rest
  assume f: "walks 0 f e" and lo: "off \<le> length buf" and ok: "f (drop off buf) = Ok x"
  show "off \<le> off + e x \<and> off + e x \<le> length buf" using walksD(2) [OF f _ ok] lo by simp
  assume k: "off + e x \<le> k"
  then have "drop off (take k buf @ rest) = take (k - off) (drop off buf) @ rest" using lo by (simp add: drop_take)
  then show "f (drop off (take k buf @ rest)) = Ok x" using walksD(3) [OF f _ ok, of "k - off" rest] k by simp
qed (auto dest: walksD(4,5,6) [rotated 2])

lemma BlockSize_alt:
  "BlockSize buf =
     (if length buf < 104 then Err OErrShort else
      rbind (BE64 buf 96 104) (\<lambda>m.
      if (MaxInt - 104) div 32 < unat m then Err OErrMalformed else
      if length buf < 104 + unat m * 32 then Err OErrShort else
      rbind (TxSize (drop (104 + unat m * 32) buf)) (\<lambda>cb.
      if length buf < 104 + unat m * 32 + cb + 16 then Err OErrShort else
      rbind (BE64 buf (104 + unat m * 32 + cb + 8) (104 + unat m * 32 + cb + 16)) (\<lambda>l.
      if MaxInt - (104 + unat m * 32 + cb + 16) < unat l then Err OErrMalformed else
      if length buf < 104 + unat m * 32 + cb + 16 + unat l then Err OErrShort else
      Ok (104 + unat m * 32 + cb + 16 + unat l)))))"
  unfolding BlockSize_def Let_def by (simp cong: if_cong)

lemma walks_BlockSize: "walks 0 BlockSize (\<lambda>x. x)"
  unfolding BlockSize_alt by (rule walk_intros walks_shift [OF walks_TxSize] | simp)+

section \<open>The contract of a stream delimiter\<close>

locale stream_delim =
  fixes size_of :: "bytes \<Rightarrow> (objfmt_err, nat) res"
  assumes delim_walk: "walks 0 size_of (\<lambda>n. n)"
    and delim_nil: "size_of [] = Err OErrShort"
begin

lemma delim_pos: "size_of buf = Ok n \<Longrightarrow> 0 < n"
  using walksD(3) [OF delim_walk, of buf n 0 "[]"] delim_nil by (cases n) simp_all

lemma delim_bounds: "size_of buf = Ok n \<Longrightarrow> 0 < n \<and> n \<le> length buf"
  using delim_pos walksD(2) [OF delim_walk] by simp

lemma delim_total: "size_of buf \<noteq> Panic"
  using walksD(6) [OF delim_walk] by simp

lemma delim_errors: "size_of buf = Err e \<Longrightarrow> e = OErrShort \<or> e = OErrMalformed"
  by (rule walksD(4) [OF delim_walk]) simp_all

text \<open>The answer depends on the object alone: cutting the buffer behind it or appending bytes changes nothing.\<close>

lemma delim_exact: "size_of buf = Ok n \<Longrightarrow> size_of (take n buf @ rest) = Ok n"
  using walksD(3) [OF delim_walk, of buf n n rest] by simp

lemma delim_append: "size_of buf = Ok n \<Longrightarrow> size_of (buf @ rest) = Ok n"
  using walks_append [OF delim_walk, of buf n rest] by simp

lemma delim_malformed: "size_of buf = Err OErrMalformed \<Longrightarrow> size_of (buf @ rest) = Err OErrMalformed"
  by (rule walksD(5) [OF delim_walk]) simp_all

lemma delim_short: "size_of (buf @ rest) = Err OErrShort \<Longrightarrow> size_of buf = Err OErrShort"
proof (cases "size_of buf")
  case (Ok n)
  assume "size_of (buf @ rest) = Err OErrShort"
  with delim_append [OF Ok, of rest] show ?thesis by simp
next
  case (Err e)
  assume "size_of (buf @ rest) = Err OErrShort"
  with delim_errors [OF Err] delim_malformed [of buf rest] Err show ?thesis by auto
qed (simp add: delim_total)

text \<open>Every proper prefix of an object asks for more bytes.\<close>

lemma delim_prefix:
  assumes "size_of buf = Ok n" and "k < n"
  shows "size_of (take k buf) = Err OErrShort"
proof (cases "size_of (take k buf)")
  case (Ok m)
  then show ?thesis
    using delim_append [OF Ok, of "drop k buf"] delim_bounds [OF Ok] assms by simp
next
  case (Err e)
  then show ?thesis
    using delim_malformed [of "take k buf" "drop k buf"] delim_errors [OF Err] assms by auto
qed (simp add: delim_total)

text \<open>A sequence of objects splits in one way only.\<close>

lemma objects_unique:
  assumes "size_of x = Ok (length x)" and "size_of y = Ok (length y)" and "x @ r = y @ s"
  shows "x = y" and "r = s"
proof -
  have "length x = length y"
    using delim_append [OF assms(1), of r] delim_append [OF assms(2), of s] assms(3) by simp
  with assms(3) show "x = y" and "r = s" by simp_all
qed

lemma split_unique:
  "\<forall>x \<in> set xs. size_of x = Ok (length x) \<Longrightarrow> \<forall>y \<in> set ys. size_of y = Ok (length y) \<Longrightarrow>
   concat xs = concat ys \<Longrightarrow> xs = ys"
proof (induction xs arbitrary: ys)
  case Nil
  then show ?case using delim_nil by (cases ys) auto
next
  case (Cons x xs)
  have x: "size_of x = Ok (length x)" "x \<noteq> []" using Cons.prems(1) delim_nil by auto
  obtain y ys' where ys: "ys = y # ys'" using Cons.prems(3) x(2) by (cases ys) auto
  have y: "size_of y = Ok (length y)" "x @ concat xs = y @ concat ys'" using Cons.prems ys by simp_all
  note u = objects_unique [OF x(1) y]
  have "xs = ys'" using Cons.prems(1,2) ys u(2) by (intro Cons.IH) simp_all
  with u(1) ys show ?case by simp
qed

end

interpretation tx_delim: stream_delim TxSize
  by unfold_locales (rule walks_TxSize, simp add: TxSize_def advance_def)

interpretation subtree_delim: stream_delim SubtreeSize
  by unfold_locales (rule walks_SubtreeSize, simp add: SubtreeSize_def)

interpretation block_delim: stream_delim BlockSize
  by unfold_locales (rule walks_BlockSize, simp add: BlockSize_def)

interpretation beef_record_delim: stream_delim BEEFRecordSize
  by unfold_locales (rule walks_BEEFRecordSize, simp add: BEEFRecordSize_def)

interpretation beef_delivery_delim: stream_delim BEEFDeliverySize
  by unfold_locales (rule walks_BEEFDeliverySize, simp add: BEEFDeliverySize_def)

interpretation header_delim: stream_delim ObjBlockHeaderSize
  by unfold_locales (rule walks_ObjBlockHeaderSize, simp add: ObjBlockHeaderSize_def)

lemma stream_delim_Size: "(\<nexists>v. c = ClassOther v) \<Longrightarrow> stream_delim (Size c)"
  using tx_delim.stream_delim_axioms subtree_delim.stream_delim_axioms block_delim.stream_delim_axioms
    beef_record_delim.stream_delim_axioms beef_delivery_delim.stream_delim_axioms header_delim.stream_delim_axioms
  by (cases c) (auto simp: Size_def [abs_def])

text \<open>
  C18: The delimiter of every registered class, on any bytes: it never panics and its only errors are
  ``more bytes needed'' and ``malformed''. When it finds an object, the object is non-empty and within
  the buffer, the bytes behind it do not matter, and every proper prefix of it asks for more bytes.
  When it reports malformed bytes, no continuation repairs them. An unregistered class is refused.
\<close>

theorem size_delimits:
  "((\<exists>v. c = ClassOther v) \<longrightarrow> Size c buf = Err OErrClassNotRegistered) \<and>
   ((\<nexists>v. c = ClassOther v) \<longrightarrow>
   (case Size c buf of
      Ok n \<Rightarrow> 0 < n \<and> n \<le> length buf \<and> (\<forall>rest. Size c (take n buf @ rest) = Ok n) \<and> (\<forall>k < n. Size c (take k buf) = Err OErrShort)
    | Err e \<Rightarrow> e = OErrShort \<or> e = OErrMalformed \<and> (\<forall>rest. Size c (buf @ rest) = Err OErrMalformed)
    | Panic \<Rightarrow> False))" (is "?other \<and> ?registered")
proof
  show ?other by (auto simp: Size_def)
  show ?registered
  proof
    assume c: "\<nexists>v. c = ClassOther v"
    note D = stream_delim_Size [OF c]
    show "case Size c buf of
      Ok n \<Rightarrow> 0 < n \<and> n \<le> length buf \<and> (\<forall>rest. Size c (take n buf @ rest) = Ok n) \<and> (\<forall>k < n. Size c (take k buf) = Err OErrShort)
    | Err e \<Rightarrow> e = OErrShort \<or> e = OErrMalformed \<and> (\<forall>rest. Size c (buf @ rest) = Err OErrMalformed)
    | Panic \<Rightarrow> False"
    proof (cases "Size c buf")
      case (Ok n)
      then show ?thesis
        using stream_delim.delim_bounds [OF D Ok] stream_delim.delim_exact [OF D Ok] stream_delim.delim_prefix [OF D Ok] by simp
    next
      case (Err e)
      then show ?thesis
        using stream_delim.delim_errors [OF D Err] stream_delim.delim_malformed [OF D] by auto
    qed (simp add: stream_delim.delim_total [OF D])
  qed
qed

theorem size_delimits_witness:
  "Size (ClassOther 9) [] = Err OErrClassNotRegistered \<and>
   Size ClassBlockHeader (replicate 81 0) = Ok 80 \<and> Size ClassBlockHeader (take 79 (replicate 81 0)) = Err OErrShort"
  using size_delimits [of "ClassOther 9" "[]"] size_delimits [of ClassBlockHeader "replicate 81 0"]
  by (simp add: Size_def ObjBlockHeaderSize_def)

end
