(* ===== verification/Objfmt_Tx.thy ===== *)
theory Objfmt_Tx
  imports Objfmt_Size
begin

text \<open>
  Transactions of \<^verbatim>\<open>objfmt/tx.go\<close>: the conversion of a transaction in extended format to its standard
  serialization, the transaction id, and a grammar of serialized transactions against which the
  delimiter, the conversion and the id are shown correct.
\<close>

section \<open>Standard serialization and transaction id\<close>

text \<open>
  The loop over the inputs copies the standard part of every input. \<^verbatim>\<open>TxSize\<close> has accepted the
  transaction before, so that the script lengths are below \<open>2^31\<close> and their conversion to \<^verbatim>\<open>int\<close> is exact.
\<close>

primrec standardInputs :: "bytes \<Rightarrow> nat \<Rightarrow> bytes \<Rightarrow> nat \<Rightarrow> (objfmt_err, bytes \<times> nat) res" where
  "standardInputs tx 0 out off = Ok (out, off)"
| "standardInputs tx (Suc cnt) out off =
     (let start = off; off = off + 36 in
      rbind (varInt tx off) (\<lambda>(sLen, n3).
      let off = off + (n3 + unat sLen + 4) in
      rbind (slice tx start off) (\<lambda>s.
      let out = out @ s; off = off + 8 in
      rbind (varInt tx off) (\<lambda>(lLen, n4).
      let off = off + (n4 + unat lLen) in
      standardInputs tx cnt out off))))"

definition ToStandard :: "bytes \<Rightarrow> (objfmt_err, bytes) res" where
  "ToStandard tx =
     rbind (TxSize tx) (\<lambda>n.
     rbind (slice tx 0 n) (\<lambda>tx.
     if \<not> objfmt_IsEF tx then Ok tx else
     rbind (slice tx 0 4) (\<lambda>out.
     let off = 10 in
     rbind (varInt tx off) (\<lambda>(inCount, n2).
     rbind (slice tx off (off + n2)) (\<lambda>s.
     let out = out @ s; off = off + n2 in
     rbind (standardInputs tx (unat inCount) out off) (\<lambda>(out, off).
     rbind (slice tx off (length tx)) (\<lambda>s. Ok (out @ s))))))))"

text \<open>
  A \<^verbatim>\<open>sha256.New()\<close> digest is represented by the bytes written to it; \<^verbatim>\<open>Sum\<close> hashes them.
\<close>

primrec hashInputs :: "bytes \<Rightarrow> nat \<Rightarrow> bytes \<Rightarrow> nat \<Rightarrow> (objfmt_err, bytes \<times> nat) res" where
  "hashInputs tx 0 h off = Ok (h, off)"
| "hashInputs tx (Suc cnt) h off =
     (let start = off; off = off + 36 in
      rbind (varInt tx off) (\<lambda>(sLen, n3).
      let off = off + (n3 + unat sLen + 4) in
      rbind (slice tx start off) (\<lambda>s.
      let h = h @ s; off = off + 8 in
      rbind (varInt tx off) (\<lambda>(lLen, n4).
      let off = off + (n4 + unat lLen) in
      hashInputs tx cnt h off))))"

definition objfmt_TxID :: "bytes \<Rightarrow> (objfmt_err, bytes) res" where
  "objfmt_TxID tx =
     rbind (TxSize tx) (\<lambda>n.
     rbind (slice tx 0 n) (\<lambda>tx.
     if \<not> objfmt_IsEF tx then let first = Sum256 tx in Ok (Sum256 first) else
     rbind (slice tx 0 4) (\<lambda>s.
     let h = s; off = 10 in
     rbind (varInt tx off) (\<lambda>(inCount, n2).
     rbind (slice tx off (off + n2)) (\<lambda>s.
     let h = h @ s; off = off + n2 in
     rbind (hashInputs tx (unat inCount) h off) (\<lambda>(h, off).
     rbind (slice tx off (length tx)) (\<lambda>s.
     let h = h @ s; first = Sum256 h in Ok (Sum256 first))))))))"

section \<open>The grammar of a transaction\<close>

text \<open>
  A length field is any compact-size encoding of the number, canonical or not; the grammar keeps the
  bytes that encode it.
\<close>

definition encodes :: "bytes \<Rightarrow> nat \<Rightarrow> bool" where
  "encodes bs k \<longleftrightarrow> (\<exists>v. varInt bs 0 = Ok (v, length bs) \<and> unat v = k)"

record tx_in =
  ti_prev :: bytes
  ti_slen :: bytes
  ti_script :: bytes
  ti_seq :: bytes
  ti_value :: bytes
  ti_llen :: bytes
  ti_lock :: bytes

record tx_out =
  to_value :: bytes
  to_slen :: bytes
  to_script :: bytes

record btx =
  tx_version :: bytes
  tx_inlen :: bytes
  tx_ins :: "tx_in list"
  tx_outlen :: bytes
  tx_outs :: "tx_out list"
  tx_locktime :: bytes

definition in_std :: "tx_in \<Rightarrow> bytes" where
  "in_std i = ti_prev i @ ti_slen i @ ti_script i @ ti_seq i"

definition in_wire :: "bool \<Rightarrow> tx_in \<Rightarrow> bytes" where
  "in_wire ef i = in_std i @ (if ef then ti_value i @ ti_llen i @ ti_lock i else [])"

definition in_wf :: "bool \<Rightarrow> tx_in \<Rightarrow> bool" where
  "in_wf ef i \<longleftrightarrow> length (ti_prev i) = 36 \<and> encodes (ti_slen i) (length (ti_script i)) \<and> length (ti_seq i) = 4 \<and>
     (ef \<longrightarrow> length (ti_value i) = 8 \<and> encodes (ti_llen i) (length (ti_lock i)))"

definition out_wire :: "tx_out \<Rightarrow> bytes" where
  "out_wire i = to_value i @ to_slen i @ to_script i"

definition out_wf :: "tx_out \<Rightarrow> bool" where
  "out_wf i \<longleftrightarrow> length (to_value i) = 8 \<and> encodes (to_slen i) (length (to_script i))"

definition tx_tail :: "btx \<Rightarrow> bytes" where
  "tx_tail t = tx_outlen t @ concat (map out_wire (tx_outs t)) @ tx_locktime t"

definition tx_wire :: "bool \<Rightarrow> btx \<Rightarrow> bytes" where
  "tx_wire ef t = tx_version t @ (if ef then efMarker else []) @ tx_inlen t @ concat (map (in_wire ef) (tx_ins t)) @ tx_tail t"

definition tx_wf :: "bool \<Rightarrow> btx \<Rightarrow> bool" where
  "tx_wf ef t \<longleftrightarrow> length (tx_version t) = 4 \<and> length (tx_locktime t) = 4 \<and>
     encodes (tx_inlen t) (length (tx_ins t)) \<and> encodes (tx_outlen t) (length (tx_outs t)) \<and>
     tx_ins t \<noteq> [] \<and> tx_outs t \<noteq> [] \<and> (\<forall>i \<in> set (tx_ins t). in_wf ef i) \<and> (\<forall>i \<in> set (tx_outs t). out_wf i) \<and>
     length (tx_wire ef t) \<le> MaxInt32 + 4"

section \<open>Compact-size integers\<close>

lemma varInt_drop: "off \<le> length buf \<Longrightarrow> varInt buf off = varInt (drop off buf) 0"
  by (auto simp: varInt_alt index_def slice_def add.commute)

lemma varInt_bounds: "varInt buf off = Ok (v, n) \<Longrightarrow> off + n \<le> length buf \<and> 1 \<le> n \<and> n \<le> 9"
  by (auto simp: varInt_alt rbind_Ok_iff index_def slice_def split: if_splits)

lemma varInt_encodes:
  assumes "encodes bs k"
  shows "varInt (bs @ rest) 0 = Ok (word_of_nat k, length bs)" and "1 \<le> length bs" and "k < 2 ^ 64"
proof -
  obtain v where v: "varInt bs 0 = Ok (v, length bs)" "unat v = k" using assms by (auto simp: encodes_def)
  show "varInt (bs @ rest) 0 = Ok (word_of_nat k, length bs)"
    using walks_append [OF walks_varInt _ v(1), of rest] v(2) by auto
  show "1 \<le> length bs" using varInt_bounds [OF v(1)] by simp
  show "k < 2 ^ 64" using unat_u64_less [of v] v(2) by simp
qed

lemma encodes_varInt:
  assumes "varInt buf off = Ok (v, n)"
  shows "encodes (take n (drop off buf)) (unat v)" and "length (take n (drop off buf)) = n"
proof -
  have off: "off \<le> length buf" "off + n \<le> length buf" using varInt_bounds [OF assms] by auto
  have "varInt (drop off buf) 0 = Ok (v, n)" using assms varInt_drop [OF off(1)] by simp
  from walksD(3) [OF walks_varInt _ this, of n "[]"] off show "encodes (take n (drop off buf)) (unat v)"
    by (auto simp: encodes_def)
  show "length (take n (drop off buf)) = n" using off by simp
qed

section \<open>Reading at a position\<close>

text \<open>\<open>at_off buf off s\<close>: what is left of the buffer from \<open>off\<close> on is \<open>s\<close>.\<close>

definition at_off :: "bytes \<Rightarrow> nat \<Rightarrow> bytes \<Rightarrow> bool" where
  "at_off buf off s \<longleftrightarrow> off \<le> length buf \<and> drop off buf = s"

lemma at_next: "at_off buf off (x @ r) \<Longrightarrow> at_off buf (off + length x) r"
  unfolding at_off_def
proof (elim conjE, intro conjI)
  assume off: "off \<le> length buf" and d: "drop off buf = x @ r"
  have "length buf - off = length x + length r" using d by (metis length_drop length_append)
  then show "off + length x \<le> length buf" using off by simp
  show "drop (off + length x) buf = r" using d by (metis add.commute append_eq_conv_conj drop_drop)
qed

lemma at_length: "at_off buf off s \<Longrightarrow> off + length s = length buf"
  by (auto simp: at_off_def)

lemma advance_at:
  "at_off buf off (x @ r) \<Longrightarrow> length x = unat n \<Longrightarrow> off \<le> MaxInt32 \<Longrightarrow> unat n \<le> MaxInt32 \<Longrightarrow>
   advance buf off n = Ok (off + length x)"
  using at_length [of buf off "x @ r"] by (simp add: advance_def Let_def)

lemma varInt_at:
  "at_off buf off (bs @ r) \<Longrightarrow> encodes bs k \<Longrightarrow> varInt buf off = Ok (word_of_nat k, length bs)"
  using varInt_encodes(1) [of bs k r] varInt_drop [of off buf] by (simp add: at_off_def)

lemma slice_at: "at_off buf off (x @ r) \<Longrightarrow> j = off + length x \<Longrightarrow> slice buf off j = Ok x"
  using at_length [of buf off "x @ r"] by (auto simp: slice_def at_off_def)

lemma unat_len: "encodes bs k \<Longrightarrow> unat (word_of_nat k :: u64) = k"
  using varInt_encodes(3) by (simp add: unat_of_nat take_bit_nat_eq_self)

lemma txInput_at:
  assumes wf: "in_wf ef i" and at: "at_off buf off (in_wire ef i @ r)" and big: "off + length (in_wire ef i) \<le> MaxInt32"
  shows "txInputs ef buf (Suc cnt) off = txInputs ef buf cnt (off + length (in_wire ef i))"
proof -
  let ?E = "if ef then ti_value i @ ti_llen i @ ti_lock i else []"
  have l: "length (ti_prev i) = 36" "length (ti_seq i) = 4" "encodes (ti_slen i) (length (ti_script i))"
    using wf by (simp_all add: in_wf_def)
  have a0: "at_off buf off (ti_prev i @ ti_slen i @ ti_script i @ ti_seq i @ ?E @ r)"
    using at by (simp add: in_wire_def in_std_def split: if_splits)
  note a1 = at_next [OF a0, unfolded l] and a2 = at_next [OF at_next [OF a0], unfolded l]
    and a3 = at_next [OF at_next [OF at_next [OF a0]], unfolded l]
    and a4 = at_next [OF at_next [OF at_next [OF at_next [OF a0]]], unfolded l]
  have len: "length (in_wire ef i) = 36 + length (ti_slen i) + length (ti_script i) + 4 + length ?E"
    using l by (simp add: in_wire_def in_std_def)
  define o4 where "o4 = off + 36 + length (ti_slen i) + length (ti_script i) + 4"
  have "txInputs ef buf (Suc cnt) off =
      rbind (if ef then rbind (advance buf o4 8) (\<lambda>off. rbind (varInt buf off) (\<lambda>(lLen, n). advance buf (off + n) lLen))
       else Ok o4) (\<lambda>off. txInputs ef buf cnt off)"
    using l big len unat_len [OF l(3)] unfolding o4_def
    by (simp add: advance_at [OF a0] varInt_at [OF a1 l(3)] advance_at [OF a2] advance_at [OF a3])
  also have "(if ef then rbind (advance buf o4 8) (\<lambda>off. rbind (varInt buf off) (\<lambda>(lLen, n). advance buf (off + n) lLen)) else Ok o4) =
      Ok (off + length (in_wire ef i))"
  proof (cases ef)
    case True
    then have e: "length (ti_value i) = 8" "encodes (ti_llen i) (length (ti_lock i))" using wf by (simp_all add: in_wf_def)
    have b0: "at_off buf o4 (ti_value i @ ti_llen i @ ti_lock i @ r)" using a4 True by (simp add: o4_def)
    note b1 = at_next [OF b0, unfolded e] and b2 = at_next [OF at_next [OF b0], unfolded e]
    have o4: "o4 + 8 + length (ti_llen i) + length (ti_lock i) = off + length (in_wire ef i)"
      using True e len by (simp add: o4_def)
    have "rbind (advance buf o4 8) (\<lambda>off. rbind (varInt buf off) (\<lambda>(lLen, n). advance buf (off + n) lLen)) =
        Ok (o4 + 8 + length (ti_llen i) + length (ti_lock i))"
      using e big o4 unat_len [OF e(2)] by (simp add: advance_at [OF b0] varInt_at [OF b1 e(2)] advance_at [OF b2])
    with True o4 show ?thesis by simp
  next
    case False
    then show ?thesis using len by (simp add: o4_def)
  qed
  finally show ?thesis by simp
qed

lemma txInputs_at:
  "\<forall>i \<in> set ins. in_wf ef i \<Longrightarrow> at_off buf off (concat (map (in_wire ef) ins) @ r) \<Longrightarrow>
   off + length (concat (map (in_wire ef) ins)) \<le> MaxInt32 \<Longrightarrow>
   txInputs ef buf (length ins) off = Ok (off + length (concat (map (in_wire ef) ins)))"
proof (induction ins arbitrary: off)
  case (Cons i ins)
  have at: "at_off buf off (in_wire ef i @ concat (map (in_wire ef) ins) @ r)" using Cons.prems(2) by simp
  then have "txInputs ef buf (length (i # ins)) off = txInputs ef buf (length ins) (off + length (in_wire ef i))"
    using Cons.prems(1,3) txInput_at [OF _ at] by (simp del: txInputs.simps)
  also have "\<dots> = Ok (off + length (in_wire ef i) + length (concat (map (in_wire ef) ins)))"
    using Cons.prems at_next [OF at] by (intro Cons.IH) simp_all
  finally show ?case by (simp add: add.assoc)
qed simp

lemma txOutputs_at:
  "\<forall>i \<in> set outs. out_wf i \<Longrightarrow> at_off buf off (concat (map out_wire outs) @ r) \<Longrightarrow>
   off + length (concat (map out_wire outs)) \<le> MaxInt32 \<Longrightarrow>
   txOutputs buf (length outs) off = Ok (off + length (concat (map out_wire outs)))"
proof (induction outs arbitrary: off)
  case (Cons i outs)
  let ?r = "concat (map out_wire outs) @ r"
  have l: "length (to_value i) = 8" "encodes (to_slen i) (length (to_script i))" using Cons.prems(1) by (simp_all add: out_wf_def)
  have a0: "at_off buf off (to_value i @ to_slen i @ to_script i @ ?r)" using Cons.prems(2) out_wire_def [of i] by simp
  note a1 = at_next [OF a0, unfolded l] and a2 = at_next [OF at_next [OF a0], unfolded l]
    and a3 = at_next [OF at_next [OF at_next [OF a0]], unfolded l]
  have len: "length (out_wire i) = 8 + length (to_slen i) + length (to_script i)" using l by (simp add: out_wire_def)
  have "txOutputs buf (length (i # outs)) off = txOutputs buf (length outs) (off + 8 + length (to_slen i) + length (to_script i))"
    using l Cons.prems(3) len unat_len [OF l(2)]
    by (simp add: advance_at [OF a0] varInt_at [OF a1 l(2)] advance_at [OF a2])
  also have "\<dots> = Ok (off + 8 + length (to_slen i) + length (to_script i) + length (concat (map out_wire outs)))"
    using Cons.prems a3 len by (intro Cons.IH) simp_all
  finally show ?case using len by (simp add: add.assoc)
qed simp

section \<open>The delimiter accepts exactly the grammar\<close>

lemma encodes_hd: "encodes bs k \<Longrightarrow> k \<noteq> 0 \<Longrightarrow> hd bs \<noteq> 0"
  by (cases bs) (auto simp: encodes_def varInt_alt index_def)

lemma TxSize_wire:
  assumes "tx_wf ef t"
  shows "TxSize (tx_wire ef t @ rest) = Ok (length (tx_wire ef t))"
proof -
  let ?buf = "tx_wire ef t @ rest" 
  let ?I = "concat (map (in_wire ef) (tx_ins t))" and ?O = "concat (map out_wire (tx_outs t))"
  have wf: "length (tx_version t) = 4" "length (tx_locktime t) = 4" "encodes (tx_inlen t) (length (tx_ins t))"
    "encodes (tx_outlen t) (length (tx_outs t))" "tx_ins t \<noteq> []" "tx_outs t \<noteq> []" "\<forall>i \<in> set (tx_ins t). in_wf ef i"
    "\<forall>i \<in> set (tx_outs t). out_wf i"
    and big: "length (tx_wire ef t) \<le> 2147483651" using assms by (simp_all add: tx_wf_def)
  define off0 :: nat where "off0 = (if ef then 10 else 4)"
  have m: "length efMarker = 6" by (simp add: efMarker_def)
  have a0: "at_off ?buf off0 (tx_inlen t @ ?I @ tx_outlen t @ ?O @ tx_locktime t @ rest)"
    using wf(1) m by (simp add: at_off_def tx_wire_def tx_tail_def off0_def)
  note a1 = at_next [OF a0] and a2 = at_next [OF at_next [OF a0]] and a3 = at_next [OF at_next [OF at_next [OF a0]]]
    and a4 = at_next [OF at_next [OF at_next [OF at_next [OF a0]]]]
  have len: "length (tx_wire ef t) = off0 + length (tx_inlen t) + length ?I + length (tx_outlen t) + length ?O + 4"
    using wf(1,2) m by (simp add: tx_wire_def tx_tail_def off0_def)
  have in1: "1 \<le> length (tx_inlen t)" by (rule varInt_encodes(2) [OF wf(3)])
  have hd: "hd (tx_inlen t) \<noteq> 0" using encodes_hd [OF wf(3)] wf(5) by simp
  have "txHead ?buf = Ok (ef, off0)"
  proof (cases ef)
    case True
    then show ?thesis using wf(1) in1 m
      by (cases "tx_inlen t") (simp_all add: txHead_def tx_wire_def tx_tail_def nth_append index_def slice_def off0_def, simp add: efMarker_def)
  next
    case False
    then show ?thesis using wf(1) in1 hd by (cases "tx_inlen t") (simp_all add: txHead_def tx_wire_def tx_tail_def nth_append index_def off0_def)
  qed
  moreover have "txInputs ef ?buf (length (tx_ins t)) (off0 + length (tx_inlen t)) = Ok (off0 + length (tx_inlen t) + length ?I)"
    using big len by (intro txInputs_at [OF wf(7) a1]) simp
  moreover have "txOutputs ?buf (length (tx_outs t)) (off0 + length (tx_inlen t) + length ?I + length (tx_outlen t)) =
      Ok (off0 + length (tx_inlen t) + length ?I + length (tx_outlen t) + length ?O)"
    using big len by (intro txOutputs_at [OF wf(8) a3]) simp
  moreover have "advance ?buf (off0 + length (tx_inlen t) + length ?I + length (tx_outlen t) + length ?O) 4 = Ok (length (tx_wire ef t))"
    using advance_at [OF a4, of 4] big len wf(2) by simp
  moreover have "(word_of_nat (length (tx_ins t)) :: u64) \<noteq> 0" "(word_of_nat (length (tx_outs t)) :: u64) \<noteq> 0"
    using wf(5,6) unat_len [OF wf(3)] unat_len [OF wf(4)] by (metis length_0_conv unat_0)+
  ultimately show ?thesis
    unfolding TxSize_alt by (simp only: rbind.simps prod.case varInt_at [OF a0 wf(3)] varInt_at [OF a2 wf(4)] if_False unat_len [OF wf(3)] unat_len [OF wf(4)])
qed

text \<open>Segments of a buffer.\<close>

definition seg :: "bytes \<Rightarrow> nat \<Rightarrow> nat \<Rightarrow> bytes" where
  "seg buf i j = take (j - i) (drop i buf)"

lemma seg_append: "i \<le> j \<Longrightarrow> j \<le> k \<Longrightarrow> seg buf i j @ seg buf j k = seg buf i k"
  using take_add [of "j - i" "k - j" "drop i buf"] by (simp add: seg_def)

lemma length_seg [simp]: "i \<le> j \<Longrightarrow> j \<le> length buf \<Longrightarrow> length (seg buf i j) = j - i"
  by (simp add: seg_def)

lemma seg_nil [simp]: "seg buf i i = []"
  by (simp add: seg_def)

lemma advance_Ok: "advance buf off n = Ok off' \<Longrightarrow> off' = off + unat n \<and> off' \<le> length buf \<and> off \<le> MaxInt32"
  by (auto simp: advance_def Let_def split: if_splits)

lemma varInt_seg: "varInt buf off = Ok (v, n) \<Longrightarrow> encodes (seg buf off (off + n)) (unat v)"
  using encodes_varInt(1) [of buf off v n] by (simp add: seg_def)

lemma txInput_inv:
  assumes "txInputs ef buf (Suc cnt) off = Ok off'"
  shows "\<exists>i o1. in_wf ef i \<and> in_wire ef i = seg buf off o1 \<and> off \<le> o1 \<and> o1 \<le> length buf \<and> txInputs ef buf cnt o1 = Ok off'"
proof -
  from assms obtain o1 sLen n o3 o4 where a: "advance buf off 36 = Ok o1" "varInt buf o1 = Ok (sLen, n)"
    "advance buf (o1 + n) sLen = Ok o3" "advance buf o3 4 = Ok o4"
    and e: "rbind (if ef then rbind (advance buf o4 8) (\<lambda>off. rbind (varInt buf off) (\<lambda>(lLen, n). advance buf (off + n) lLen))
       else Ok o4) (\<lambda>off. txInputs ef buf cnt off) = Ok off'"
    unfolding txInputs.simps by (auto simp: rbind_Ok_iff)
  have b: "o1 = off + 36" "o1 + n \<le> o3" "o4 = o3 + 4" "o4 \<le> length buf" "length (seg buf (o1 + n) o3) = unat sLen"
    using advance_Ok [OF a(1)] advance_Ok [OF a(3)] advance_Ok [OF a(4)] by simp_all
  define i0 where "i0 = \<lparr>ti_prev = seg buf off o1, ti_slen = seg buf o1 (o1 + n), ti_script = seg buf (o1 + n) o3,
    ti_seq = seg buf o3 o4, ti_value = [], ti_llen = [], ti_lock = []\<rparr>"
  have std: "in_std i0 = seg buf off o4" using b by (simp add: in_std_def i0_def seg_append)
  have wf: "length (ti_prev i0) = 36" "encodes (ti_slen i0) (length (ti_script i0))" "length (ti_seq i0) = 4"
    using b varInt_seg [OF a(2)] by (simp_all add: i0_def)
  show ?thesis
  proof (cases ef)
    case False
    with std wf e b show ?thesis by (intro exI [of _ i0] exI [of _ o4]) (simp add: in_wf_def in_wire_def)
  next
    case True
    with e obtain o5 lLen n' o6 where c: "advance buf o4 8 = Ok o5" "varInt buf o5 = Ok (lLen, n')"
      "advance buf (o5 + n') lLen = Ok o6" "txInputs ef buf cnt o6 = Ok off'" by (auto simp: rbind_Ok_iff)
    have d: "o5 = o4 + 8" "o5 + n' \<le> o6" "o6 \<le> length buf" "length (seg buf (o5 + n') o6) = unat lLen"
      using advance_Ok [OF c(1)] advance_Ok [OF c(3)] by simp_all
    define i1 where "i1 = i0\<lparr>ti_value := seg buf o4 o5, ti_llen := seg buf o5 (o5 + n'), ti_lock := seg buf (o5 + n') o6\<rparr>"
    have "in_wire ef i1 = seg buf off o6"
      using True std b d by (simp add: in_wire_def i1_def in_std_def seg_append)
    moreover have "in_wf ef i1" using wf d varInt_seg [OF c(2)] b by (simp add: in_wf_def i1_def)
    ultimately show ?thesis using c(4) d b by (intro exI [of _ i1] exI [of _ o6]) simp
  qed
qed

lemma txInputs_inv:
  "txInputs ef buf cnt off = Ok off' \<Longrightarrow> off \<le> length buf \<Longrightarrow>
   \<exists>ins. length ins = cnt \<and> (\<forall>i \<in> set ins. in_wf ef i) \<and> concat (map (in_wire ef) ins) = seg buf off off' \<and>
     off \<le> off' \<and> off' \<le> length buf"
proof (induction cnt arbitrary: off)
  case (Suc cnt)
  from txInput_inv [OF Suc.prems(1)] obtain i o1 where i: "in_wf ef i" "in_wire ef i = seg buf off o1" "off \<le> o1" "o1 \<le> length buf"
    "txInputs ef buf cnt o1 = Ok off'" by blast
  from Suc.IH [OF i(5,4)] obtain ins where "length ins = cnt" "\<forall>i \<in> set ins. in_wf ef i"
    "concat (map (in_wire ef) ins) = seg buf o1 off'" "o1 \<le> off'" "off' \<le> length buf" by blast
  with i show ?case by (intro exI [of _ "i # ins"]) (simp add: seg_append)
qed simp

lemma txOutputs_inv:
  "txOutputs buf cnt off = Ok off' \<Longrightarrow> off \<le> length buf \<Longrightarrow>
   \<exists>outs. length outs = cnt \<and> (\<forall>i \<in> set outs. out_wf i) \<and> concat (map out_wire outs) = seg buf off off' \<and>
     off \<le> off' \<and> off' \<le> length buf"
proof (induction cnt arbitrary: off)
  case (Suc cnt)
  from Suc.prems(1) obtain o1 sLen n o3 where a: "advance buf off 8 = Ok o1" "varInt buf o1 = Ok (sLen, n)"
    "advance buf (o1 + n) sLen = Ok o3" "txOutputs buf cnt o3 = Ok off'"
    unfolding txOutputs.simps by (auto simp: rbind_Ok_iff)
  have b: "o1 = off + 8" "o1 + n \<le> o3" "o3 \<le> length buf" "length (seg buf (o1 + n) o3) = unat sLen"
    using advance_Ok [OF a(1)] advance_Ok [OF a(3)] by simp_all
  define i where "i = \<lparr>to_value = seg buf off o1, to_slen = seg buf o1 (o1 + n), to_script = seg buf (o1 + n) o3\<rparr>"
  have i: "out_wf i" "out_wire i = seg buf off o3"
    using b varInt_seg [OF a(2)] by (simp_all add: i_def out_wf_def out_wire_def seg_append)
  from Suc.IH [OF a(4) b(3)] obtain outs where "length outs = cnt" "\<forall>i \<in> set outs. out_wf i"
    "concat (map out_wire outs) = seg buf o3 off'" "o3 \<le> off'" "off' \<le> length buf" by blast
  with i b show ?case by (intro exI [of _ "i # outs"]) (simp add: seg_append)
qed simp

lemma txHead_Ok:
  assumes "txHead buf = Ok (ef, off)"
  shows "off = (if ef then 10 else 4)" and "off \<le> length buf" and "seg buf 4 off = (if ef then efMarker else [])"
  using assms by (auto simp: txHead_def slice_def seg_def split: if_splits)

lemma TxSize_inv:
  assumes "TxSize buf = Ok n"
  shows "\<exists>ef t. tx_wf ef t \<and> take n buf = tx_wire ef t \<and> length (tx_wire ef t) = n"
proof -
  from assms obtain ef o0 inCount n1 o2 outCount n2 o4 where h: "txHead buf = Ok (ef, o0)" and v1: "varInt buf o0 = Ok (inCount, n1)"
    and c: "inCount \<noteq> 0" "outCount \<noteq> 0" and ti: "txInputs ef buf (unat inCount) (o0 + n1) = Ok o2"
    and v2: "varInt buf o2 = Ok (outCount, n2)" and tu: "txOutputs buf (unat outCount) (o2 + n2) = Ok o4"
    and ad: "advance buf o4 4 = Ok n"
    unfolding TxSize_alt by (auto simp: rbind_Ok_iff split: if_splits)
  note hd = txHead_Ok [OF h]
  obtain ins where ins: "length ins = unat inCount" "\<forall>i \<in> set ins. in_wf ef i"
    "concat (map (in_wire ef) ins) = seg buf (o0 + n1) o2" "o0 + n1 \<le> o2" "o2 \<le> length buf"
    using txInputs_inv [OF ti] varInt_bounds [OF v1] by auto
  obtain outs where outs: "length outs = unat outCount" "\<forall>i \<in> set outs. out_wf i"
    "concat (map out_wire outs) = seg buf (o2 + n2) o4" "o2 + n2 \<le> o4" "o4 \<le> length buf"
    using txOutputs_inv [OF tu] varInt_bounds [OF v2] by auto
  have n: "n = o4 + 4" "n \<le> length buf" "o4 \<le> 2147483647" using advance_Ok [OF ad] by simp_all
  define t where "t = \<lparr>tx_version = seg buf 0 4, tx_inlen = seg buf o0 (o0 + n1), tx_ins = ins, tx_outlen = seg buf o2 (o2 + n2),
    tx_outs = outs, tx_locktime = seg buf o4 n\<rparr>"
  have "tx_wire ef t = seg buf 0 4 @ seg buf 4 o0 @ seg buf o0 (o0 + n1) @ seg buf (o0 + n1) o2 @ seg buf o2 (o2 + n2) @
      seg buf (o2 + n2) o4 @ seg buf o4 n"
    by (simp add: tx_wire_def tx_tail_def t_def ins outs hd(3))
  also have "\<dots> = seg buf 0 n" using hd(1) ins outs n by (simp add: seg_append)
  finally have w: "tx_wire ef t = take n buf" by (simp add: seg_def)
  have "ins \<noteq> []" "outs \<noteq> []" using ins(1) outs(1) c by (auto simp: unsigned_eq_0_iff)
  with ins outs n varInt_seg [OF v1] varInt_seg [OF v2] have "tx_wf ef t"
    unfolding tx_wf_def w by (simp add: t_def)
  with w n show ?thesis by (intro exI [of _ ef] exI [of _ t]) simp
qed

section \<open>Conversion and id\<close>

lemma standardInputs_at:
  "\<forall>i \<in> set ins. in_wf True i \<Longrightarrow> at_off tx off (concat (map (in_wire True) ins) @ r) \<Longrightarrow>
   standardInputs tx (length ins) out off =
     Ok (out @ concat (map in_std ins), off + length (concat (map (in_wire True) ins)))"
proof (induction ins arbitrary: off out)
  case (Cons i ins)
  let ?r = "concat (map (in_wire True) ins) @ r"
  have l: "length (ti_prev i) = 36" "length (ti_seq i) = 4" "length (ti_value i) = 8"
    and e: "encodes (ti_slen i) (length (ti_script i))" "encodes (ti_llen i) (length (ti_lock i))"
    using Cons.prems(1) by (simp_all add: in_wf_def)
  have a0: "at_off tx off (ti_prev i @ ti_slen i @ ti_script i @ ti_seq i @ ti_value i @ ti_llen i @ ti_lock i @ ?r)"
    using Cons.prems(2) in_wire_def [of True i] in_std_def [of i] by simp
  have s0: "at_off tx off (in_std i @ ti_value i @ ti_llen i @ ti_lock i @ ?r)" using a0 by (simp add: in_std_def)
  define o4 where "o4 = off + length (in_std i)"
  have o4: "off + 36 + (length (ti_slen i) + length (ti_script i) + 4) = o4" using l by (simp add: o4_def in_std_def)
  note v = varInt_at [OF at_next [OF a0, unfolded l] e(1)]
  note a4 = at_next [OF s0, folded o4_def] 
  note w = varInt_at [OF at_next [OF a4, unfolded l] e(2)]
  have "at_off tx (o4 + 8 + (length (ti_llen i) + length (ti_lock i))) ?r"
    using at_next [OF at_next [OF at_next [OF a4]], unfolded l] by (simp add: add.assoc)
  then have IH: "standardInputs tx (length ins) (out @ in_std i) (o4 + 8 + (length (ti_llen i) + length (ti_lock i))) =
      Ok ((out @ in_std i) @ concat (map in_std ins),
        o4 + 8 + (length (ti_llen i) + length (ti_lock i)) + length (concat (map (in_wire True) ins)))"
    using Cons.prems(1) by (intro Cons.IH) simp_all
  have "standardInputs tx (Suc (length ins)) out off =
      standardInputs tx (length ins) (out @ in_std i) (o4 + 8 + (length (ti_llen i) + length (ti_lock i)))"
    by (simp only: standardInputs.simps Let_def v rbind.simps prod.case unat_len [OF e(1)] o4 slice_at [OF s0 o4_def] w unat_len [OF e(2)])
  also note IH
  also have "o4 + 8 + (length (ti_llen i) + length (ti_lock i)) = off + length (in_wire True i)"
    using l by (simp add: in_wire_def o4_def)
  finally show ?case by (simp only: list.size list.map concat.simps length_append append_assoc add.assoc add_0_right add_Suc_right)
qed simp

lemma hashInputs_eq: "hashInputs = standardInputs"
proof (intro ext)
  show "hashInputs tx cnt h off = standardInputs tx cnt h off" for tx cnt h off
    by (induction cnt arbitrary: h off) (simp_all add: Let_def)
qed

lemma IsEF_wire:
  assumes "tx_wf ef t"
  shows "objfmt_IsEF (tx_wire ef t) \<longleftrightarrow> ef"
proof (cases ef)
  case True
  then show ?thesis using assms by (simp add: objfmt_IsEF tx_wire_def tx_wf_def efMarker_def)
next
  case False
  have wf: "length (tx_version t) = 4" "encodes (tx_inlen t) (length (tx_ins t))" "tx_ins t \<noteq> []"
    using assms by (simp_all add: tx_wf_def)
  have "hd (tx_inlen t) \<noteq> 0" "1 \<le> length (tx_inlen t)" using encodes_hd [OF wf(2)] wf(3) varInt_encodes(2) [OF wf(2)] by simp_all
  then have "tx_wire ef t ! 4 \<noteq> 0" using wf(1) False by (cases "tx_inlen t") (simp_all add: tx_wire_def nth_append)
  with False show ?thesis by (auto simp: objfmt_IsEF_def efMarker_def)
qed

lemma tx_wf_standard: "tx_wf True t \<Longrightarrow> tx_wf False t"
proof -
  have "length (concat (map (in_wire False) is)) \<le> length (concat (map (in_wire True) is))" for "is"
    by (induction "is") (simp_all add: in_wire_def)
  then have "length (tx_wire False t) \<le> length (tx_wire True t)" by (simp add: tx_wire_def trans_le_add2)
  then show "tx_wf True t \<Longrightarrow> tx_wf False t" by (auto simp: tx_wf_def in_wf_def)
qed

lemma ToStandard_wire:
  assumes wf: "tx_wf ef t"
  shows "ToStandard (tx_wire ef t @ rest) = Ok (tx_wire False t)"
proof (cases ef)
  case False
  then show ?thesis using wf IsEF_wire [OF wf] TxSize_wire [OF wf, of rest] by (simp add: ToStandard_def)
next
  case True
  let ?I = "concat (map (in_wire True) (tx_ins t))" and ?w = "tx_wire True t"
  have w: "length (tx_version t) = 4" "encodes (tx_inlen t) (length (tx_ins t))" "\<forall>i \<in> set (tx_ins t). in_wf True i"
    "length efMarker = 6"
    using wf True by (simp_all add: tx_wf_def efMarker_def)
  have a: "at_off ?w 10 (tx_inlen t @ ?I @ tx_tail t)" "at_off ?w 0 (tx_version t @ efMarker @ tx_inlen t @ ?I @ tx_tail t)"
    using w by (simp_all add: at_off_def tx_wire_def)
  note a1 = at_next [OF a(1)] and a2 = at_next [OF at_next [OF a(1)]]
  have "standardInputs ?w (length (tx_ins t)) (tx_version t @ tx_inlen t) (10 + length (tx_inlen t)) =
      Ok ((tx_version t @ tx_inlen t) @ concat (map in_std (tx_ins t)), 10 + length (tx_inlen t) + length ?I)"
    by (rule standardInputs_at [OF w(3) a1])
  moreover have "slice ?w (10 + length (tx_inlen t) + length ?I) (length ?w) = (Ok (tx_tail t) :: (objfmt_err, _) res)"
    using a2 at_length [OF a2] by (intro slice_at [of _ _ _ "[]"]) simp_all
  moreover have "slice ?w 10 (10 + length (tx_inlen t)) = (Ok (tx_inlen t) :: (objfmt_err, _) res)" by (rule slice_at [OF a(1)]) simp
  moreover have "slice ?w 0 4 = (Ok (tx_version t) :: (objfmt_err, _) res)" using w(1) by (intro slice_at [OF a(2)]) simp
  moreover have "slice (?w @ rest) 0 (length ?w) = (Ok ?w :: (objfmt_err, _) res)" by simp
  moreover have "objfmt_IsEF ?w" "TxSize (?w @ rest) = Ok (length ?w)" using IsEF_wire [OF wf] TxSize_wire [OF wf, of rest] True by simp_all
  moreover have "in_wire False = in_std" by (rule ext) (simp add: in_wire_def)
  ultimately show ?thesis
    using True unfolding ToStandard_def
    by (simp only: rbind.simps Let_def varInt_at [OF a(1) w(2)] unat_len [OF w(2)] prod.case not_True_eq_False if_False)
      (simp add: tx_wire_def)
qed

lemma TxID_ToStandard: "objfmt_TxID tx = rbind (ToStandard tx) (\<lambda>s. Ok (Sum256 (Sum256 s)))"
  unfolding objfmt_TxID_def ToStandard_def hashInputs_eq
  by (simp add: rbind_assoc Let_def case_prod_unfold if_distrib [of "\<lambda>m. rbind m (\<lambda>s. Ok (Sum256 (Sum256 s)))"] cong: if_cong)

lemma ToStandard_cases:
  "(\<exists>e. TxSize tx = Err e \<and> ToStandard tx = Err e) \<or>
   (\<exists>ef t. tx_wf ef t \<and> TxSize tx = Ok (length (tx_wire ef t)) \<and> take (length (tx_wire ef t)) tx = tx_wire ef t \<and>
     ToStandard tx = Ok (tx_wire False t))"
proof (cases "TxSize tx")
  case (Ok n)
  from TxSize_inv [OF Ok] obtain ef t where t: "tx_wf ef t" "take n tx = tx_wire ef t" "length (tx_wire ef t) = n" by blast
  then have "tx = tx_wire ef t @ drop n tx" by (metis append_take_drop_id)
  with ToStandard_wire [OF t(1), of "drop n tx"] t Ok show ?thesis by auto
next
  case (Err e)
  then show ?thesis by (simp add: ToStandard_def)
qed (simp add: tx_delim.delim_total)

section \<open>Properties\<close>

definition sample_tx :: btx where
  "sample_tx = \<lparr>tx_version = [1, 0, 0, 0], tx_inlen = [1],
     tx_ins = [\<lparr>ti_prev = replicate 36 9, ti_slen = [0xFD, 2, 0], ti_script = [5, 6], ti_seq = [255, 255, 255, 255],
       ti_value = [1, 0, 0, 0, 0, 0, 0, 0], ti_llen = [1], ti_lock = [0x51]\<rparr>],
     tx_outlen = [1], tx_outs = [\<lparr>to_value = [8, 0, 0, 0, 0, 0, 0, 0], to_slen = [0], to_script = []\<rparr>], tx_locktime = [0, 0, 0, 0]\<rparr>"

lemma encodes_small: "k < 0xFD \<Longrightarrow> encodes [word_of_nat k] k"
  by (simp add: encodes_def varInt_alt index_def word_less_nat_alt unat_of_nat)

lemma sample_tx_wf: "tx_wf True sample_tx"
proof -
  have "encodes [0xFD, 2, 0] (Suc (Suc 0))" by (simp add: encodes_def varInt_alt index_def slice_def LE_Uint16_def BE_Uint16_def)
  moreover have "encodes [1] (Suc 0)" "encodes [0] 0" using encodes_small [of 1] encodes_small [of 0] by simp_all
  ultimately show "tx_wf True sample_tx"
    by (simp add: sample_tx_def tx_wf_def in_wf_def out_wf_def tx_wire_def tx_tail_def in_wire_def in_std_def out_wire_def efMarker_def)
qed

text \<open>
  C19: the transaction delimiter accepts exactly the serialized transactions. \<^verbatim>\<open>TxSize\<close> answers \<open>n\<close> if and
  only if the first \<open>n\<close> bytes are a transaction of the grammar (standard or extended format, any
  compact-size encodings, at least one input and one output) of at most \<open>2^31 + 3\<close> bytes.
\<close>

theorem tx_delimiter_grammar:
  "TxSize buf = Ok n \<longleftrightarrow>
   (\<exists>ef t. tx_wf ef t \<and> length (tx_wire ef t) = n \<and> take n buf = tx_wire ef t)"
proof
  assume "TxSize buf = Ok n"
  from TxSize_inv [OF this] show "\<exists>ef t. tx_wf ef t \<and> length (tx_wire ef t) = n \<and> take n buf = tx_wire ef t" by blast
next
  assume "\<exists>ef t. tx_wf ef t \<and> length (tx_wire ef t) = n \<and> take n buf = tx_wire ef t"
  then obtain ef t where t: "tx_wf ef t" "length (tx_wire ef t) = n" "take n buf = tx_wire ef t" by blast
  then have "buf = tx_wire ef t @ drop n buf" by (metis append_take_drop_id)
  with TxSize_wire [OF t(1), of "drop n buf"] t(2) show "TxSize buf = Ok n" by simp
qed

text \<open>
  C20: the standard serialization and the transaction id. For a transaction in either format, followed
  by anything, \<^verbatim>\<open>ToStandard\<close> yields its standard serialization. On every input the id is the double hash
  of what \<^verbatim>\<open>ToStandard\<close> yields, fails exactly when the delimiter fails and with the same error, and never
  panics; the result is a standard transaction that \<^verbatim>\<open>ToStandard\<close> leaves alone.
\<close>

theorem to_standard_correct:
  "(tx_wf ef t \<longrightarrow> ToStandard (tx_wire ef t @ rest) = Ok (tx_wire False t)) \<and>
   objfmt_TxID buf = rbind (ToStandard buf) (\<lambda>s. Ok (Sum256 (Sum256 s))) \<and>
   ToStandard buf \<noteq> Panic \<and> (\<forall>e. ToStandard buf = Err e \<longleftrightarrow> TxSize buf = Err e) \<and>
   (\<forall>s. ToStandard buf = Ok s \<longrightarrow> TxSize s = Ok (length s) \<and> \<not> objfmt_IsEF s \<and> ToStandard s = Ok s)"
proof -
  have std: "TxSize s = Ok (length s) \<and> \<not> objfmt_IsEF s \<and> ToStandard s = Ok s" if s: "ToStandard buf = Ok s" for s
  proof -
    from ToStandard_cases [of buf] s obtain ef t where "tx_wf ef t" "s = tx_wire False t" by auto
    moreover from this have "tx_wf False t" by (cases ef) (simp_all add: tx_wf_standard)
    ultimately show ?thesis using TxSize_wire [of False t "[]"] IsEF_wire [of False t] ToStandard_wire [of False t "[]"] by simp
  qed
  from ToStandard_cases [of buf] have "ToStandard buf \<noteq> Panic \<and> (\<forall>e. ToStandard buf = Err e \<longleftrightarrow> TxSize buf = Err e)" by auto
  with std show ?thesis by (simp add: ToStandard_wire TxID_ToStandard)
qed

theorem to_standard_correct_witness:
  "ToStandard (tx_wire True sample_tx @ [7]) = Ok (tx_wire False sample_tx) \<and>
   objfmt_TxID (tx_wire True sample_tx @ [7]) = Ok (Sum256 (Sum256 (tx_wire False sample_tx)))"
  using to_standard_correct [of True sample_tx "[7]" "tx_wire True sample_tx @ [7]"] sample_tx_wf by simp

end
