(* ===== verification/Objfmt_Beef.thy ===== *)
theory Objfmt_Beef
  imports Objfmt_Tx
begin

text \<open>
  The BEEF object plane of \<^verbatim>\<open>objfmt/beef.go\<close>: submission records (the lane grammar of the up direction),
  delivery records (the down direction), identities, the wrap into a multicast frame and the topic ids
  a listener may match it on. A Go string is the list of its bytes.
\<close>

section \<open>UTF-8 (unicode/utf8)\<close>

text \<open>\<^verbatim>\<open>utf8.ValidString\<close>: the ranges of the second byte exclude overlong forms, surrogates and values above 0x10FFFF.\<close>

definition utf8_cont :: "byte \<Rightarrow> bool" where
  "utf8_cont b \<longleftrightarrow> 0x80 \<le> b \<and> b \<le> 0xBF"

definition utf8_second :: "byte \<Rightarrow> byte \<Rightarrow> bool" where
  "utf8_second b0 b1 \<longleftrightarrow>
     (if b0 = 0xE0 then 0xA0 \<le> b1 \<and> b1 \<le> 0xBF
      else if b0 = 0xED then 0x80 \<le> b1 \<and> b1 \<le> 0x9F
      else if b0 = 0xF0 then 0x90 \<le> b1 \<and> b1 \<le> 0xBF
      else if b0 = 0xF4 then 0x80 \<le> b1 \<and> b1 \<le> 0x8F
      else utf8_cont b1)"

fun utf8_ValidString :: "bytes \<Rightarrow> bool" where
  "utf8_ValidString [] \<longleftrightarrow> True"
| "utf8_ValidString (b0 # bs) \<longleftrightarrow>
     (if b0 < 0x80 then utf8_ValidString bs
      else if 0xC2 \<le> b0 \<and> b0 \<le> 0xDF then
        (case bs of b1 # r \<Rightarrow> utf8_second b0 b1 \<and> utf8_ValidString r | _ \<Rightarrow> False)
      else if 0xE0 \<le> b0 \<and> b0 \<le> 0xEF then
        (case bs of b1 # b2 # r \<Rightarrow> utf8_second b0 b1 \<and> utf8_cont b2 \<and> utf8_ValidString r | _ \<Rightarrow> False)
      else if 0xF0 \<le> b0 \<and> b0 \<le> 0xF4 then
        (case bs of b1 # b2 # b3 # r \<Rightarrow> utf8_second b0 b1 \<and> utf8_cont b2 \<and> utf8_cont b3 \<and> utf8_ValidString r | _ \<Rightarrow> False)
      else False)"

section \<open>Markers and identities\<close>

abbreviation (input) BEEFMarkerV1 :: u32 where "BEEFMarkerV1 \<equiv> 4022206465"
abbreviation (input) BEEFMarkerV2 :: u32 where "BEEFMarkerV2 \<equiv> 4022206466"
abbreviation (input) AtomicBEEFMarker :: u32 where "AtomicBEEFMarker \<equiv> 0x01010101"

definition BEEFVersionWord :: "bytes \<Rightarrow> u32 option" where
  "BEEFVersionWord obj = (if length obj < 4 then None else Some (LE_Uint32 (take 4 obj)))"

definition IsBEEFObject :: "bytes \<Rightarrow> bool" where
  "IsBEEFObject obj =
     (case BEEFVersionWord obj of
        None \<Rightarrow> False
      | Some w \<Rightarrow> w = BEEFMarkerV1 \<or> w = BEEFMarkerV2 \<or> w = AtomicBEEFMarker)"

definition TopicID :: "bytes \<Rightarrow> bytes" where
  "TopicID name = Sum256 name"

definition ContentID :: "bytes \<Rightarrow> bytes" where
  "ContentID obj = (let h = Sum256 obj in Sum256 h)"

section \<open>Submission records\<close>

record beef_record =
  br_Topics :: "bytes list"
  br_Object :: bytes

primrec decodeTopics :: "bytes \<Rightarrow> nat \<Rightarrow> nat \<Rightarrow> (objfmt_err, bytes list \<times> nat) res" where
  "decodeTopics buf 0 off = Ok ([], off)"
| "decodeTopics buf (Suc cnt) off =
     rbind (index buf off) (\<lambda>nameLen.
     rbind (slice buf (off + 1) (off + 1 + unat nameLen)) (\<lambda>t.
     rbind (decodeTopics buf cnt (off + (1 + unat nameLen))) (\<lambda>(ts, off).
     Ok (t # ts, off))))"

definition DecodeBEEFRecord :: "bytes \<Rightarrow> (objfmt_err, beef_record \<times> nat) res" where
  "DecodeBEEFRecord buf =
     rbind (BEEFRecordSize buf) (\<lambda>n.
     rbind (index buf 3) (\<lambda>count.
     rbind (decodeTopics buf (unat count) beefRecordMin) (\<lambda>(topics, off).
     rbind (BE32 buf off (off + 4)) (\<lambda>objLen.
     rbind (slice buf (off + 4) (off + 4 + unat objLen)) (\<lambda>object.
     Ok (\<lparr>br_Topics = topics, br_Object = object\<rparr>, n))))))"

definition EncodeBEEFRecordHeader :: "bytes list \<Rightarrow> int \<Rightarrow> (objfmt_err, bytes) res" where
  "EncodeBEEFRecordHeader topics objectLen =
     (if length topics < 1 \<or> BEEFMaxTopics < length topics then Err OErrMalformed else
      if objectLen \<le> 0 then Err OErrMalformed else
      if 4294967295 < objectLen then Err OErrMalformed else
      if list_ex (\<lambda>t. length t < 1 \<or> BEEFMaxTopicLen < length t \<or> \<not> utf8_ValidString t) topics then Err OErrMalformed else
      let out = BE_PutUint16 BEEFRecordTag;
          out = out @ [BEEFRecordVer, word_of_nat (length topics)];
          out = foldl (\<lambda>out t. (out @ [word_of_nat (length t)]) @ t) out topics in
      Ok (out @ BE_PutUint32 (word_of_int objectLen)))"

definition EncodeBEEFRecord :: "bytes list \<Rightarrow> bytes \<Rightarrow> (objfmt_err, bytes) res" where
  "EncodeBEEFRecord topics object =
     rbind (EncodeBEEFRecordHeader topics (int (length object))) (\<lambda>hdr.
     let out = hdr in Ok (out @ object))"

section \<open>Delivery records\<close>

definition EncodeBEEFDelivery :: "bytes \<Rightarrow> bytes \<Rightarrow> bytes" where
  "EncodeBEEFDelivery topicID object = topicID @ BE_PutUint32 (word_of_nat (length object)) @ object"

definition DecodeBEEFDelivery :: "bytes \<Rightarrow> (objfmt_err, bytes \<times> bytes \<times> nat) res" where
  "DecodeBEEFDelivery buf =
     rbind (BEEFDeliverySize buf) (\<lambda>n.
     rbind (slice buf 0 32) (\<lambda>topicID.
     rbind (slice buf BEEFDeliveryHeaderSize n) (\<lambda>object.
     Ok (topicID, object, n))))"

section \<open>Frame payloads\<close>

definition SplitBEEFPayload :: "bytes \<Rightarrow> (objfmt_err, bytes \<times> bytes list) res" where
  "SplitBEEFPayload payload =
     (if 2 \<le> length payload \<and> BE_Uint16 (take 2 payload) = BEEFRecordTag then
        rbind (DecodeBEEFRecord payload) (\<lambda>(rec, n).
        if n \<noteq> length payload then Err OErrMalformed else
        Ok (br_Object rec, br_Topics rec))
      else Ok (payload, []))"

definition BEEFDeliverableTopicIDs :: "beef_frame \<Rightarrow> bytes list" where
  "BEEFDeliverableTopicIDs bf =
     (let ids = [bb_TopicID bf]; want = Deliverable bf in
      if want \<le> 1 then ids else
      case SplitBEEFPayload (bb_Payload bf) of
        Ok (_, topics) \<Rightarrow>
          if length topics < 2 then ids else
          let want = (if length topics < want then length topics else want) in
          ids @ map TopicID (take (want - 1) (drop 1 topics))
      | _ \<Rightarrow> ids)"

text \<open>A frame encoded into a buffer made for it: the header and the payload.\<close>

definition freshFrame :: "('f \<Rightarrow> bytes \<Rightarrow> (frame_err, nat \<times> bytes) res) \<Rightarrow> 'f \<Rightarrow> bytes \<Rightarrow> (objfmt_err, bytes) res" where
  "freshFrame encode f payload =
     rbind (map_err OErrFrame (encode f (replicate (HeaderSize + length payload) 0))) (\<lambda>(wn, buf).
     slice buf 0 wn)"

definition BEEFMulticastRecord :: "bytes \<Rightarrow> int \<Rightarrow> (objfmt_err, bytes) res" where
  "BEEFMulticastRecord rec deliverCount =
     rbind (DecodeBEEFRecord rec) (\<lambda>(r, n).
     if n \<noteq> length rec then Err OErrMalformed else
     let deliverCount = (if deliverCount < 1 then 1 else deliverCount);
         deliverCount = (if int (length (br_Topics r)) < deliverCount then int (length (br_Topics r)) else deliverCount) in
     case br_Topics r of
       [] \<Rightarrow> Panic
     | t # _ \<Rightarrow> freshFrame EncodeBEEF \<lparr>bb_ContentID = ContentID rec, bb_HashKey = 0, bb_SeqNum = 0, bb_TopicID = TopicID t,
         bb_DeliverCount = word_of_int deliverCount, bb_Payload = rec\<rparr> rec)"

definition BEEFMulticastBytes :: "bytes \<Rightarrow> bytes \<Rightarrow> (objfmt_err, bytes) res" where
  "BEEFMulticastBytes topicID obj =
     (if length obj = 0 then Err OErrMalformed else
      freshFrame EncodeBEEF \<lparr>bb_ContentID = ContentID obj, bb_HashKey = 0, bb_SeqNum = 0, bb_TopicID = topicID,
        bb_DeliverCount = 0, bb_Payload = obj\<rparr> obj)"

definition beefStrip :: "bytes \<Rightarrow> (objfmt_err, bytes) res" where
  "beefStrip mcast = rbind (map_err OErrFrame (DecodeBEEF mcast)) (\<lambda>bf. Ok (bb_Payload bf))"

section \<open>The record grammar\<close>

definition topic_wire :: "bytes \<Rightarrow> bytes" where
  "topic_wire t = word_of_nat (length t) # t"

definition record_wire :: "beef_record \<Rightarrow> bytes" where
  "record_wire r = BE_PutUint16 BEEFRecordTag @ [BEEFRecordVer, word_of_nat (length (br_Topics r))] @
     concat (map topic_wire (br_Topics r)) @ BE_PutUint32 (word_of_nat (length (br_Object r))) @ br_Object r"

definition topic_wf :: "bytes \<Rightarrow> bool" where
  "topic_wf t \<longleftrightarrow> 1 \<le> length t \<and> length t \<le> BEEFMaxTopicLen"

definition record_wf :: "beef_record \<Rightarrow> bool" where
  "record_wf r \<longleftrightarrow> 1 \<le> length (br_Topics r) \<and> length (br_Topics r) \<le> BEEFMaxTopics \<and>
     (\<forall>t \<in> set (br_Topics r). topic_wf t) \<and> 1 \<le> length (br_Object r) \<and> length (br_Object r) < 2 ^ 32"

lemma record_eta [simp]: "\<lparr>br_Topics = br_Topics r, br_Object = br_Object r\<rparr> = r"
  by (cases r) simp

lemma unat_u8_of_nat: "n < 256 \<Longrightarrow> unat (word_of_nat n :: u8) = n"
  by (simp add: unat_of_nat take_bit_nat_eq_self)

lemma topics_at:
  "\<forall>t \<in> set ts. topic_wf t \<Longrightarrow> at_off buf off (concat (map topic_wire ts) @ r) \<Longrightarrow>
   topicsSize buf (length ts) off = Ok (off + length (concat (map topic_wire ts))) \<and>
   decodeTopics buf (length ts) off = Ok (ts, off + length (concat (map topic_wire ts)))"
proof (induction ts arbitrary: off)
  case (Cons t ts)
  let ?r = "concat (map topic_wire ts) @ r"
  have t: "1 \<le> length t" "length t \<le> 64" using Cons.prems(1) by (simp_all add: topic_wf_def)
  have l: "unat (word_of_nat (length t) :: u8) = length t" using t by (simp add: unat_u8_of_nat)
  have at: "at_off buf off ([word_of_nat (length t)] @ t @ ?r)" using Cons.prems(2) topic_wire_def [of t] by simp
  have at1: "at_off buf (off + 1) (t @ ?r)" using at_next [OF at] by simp
  have at2: "at_off buf (off + (1 + length t)) ?r" using at_next [OF at1] by (simp add: add.assoc)
  have i: "index buf off = (Ok (word_of_nat (length t)) :: (objfmt_err, _) res)"
    using at at_length [OF at] by (simp add: at_off_def index_def nth_via_drop)
  have s: "slice buf (off + 1) (off + 1 + length t) = (Ok t :: (objfmt_err, _) res)" by (rule slice_at [OF at1]) simp
  have b: "\<not> length buf < off + 1" "\<not> length buf < off + (1 + length t)" using at_length [OF at] by simp_all
  have IH: "topicsSize buf (length ts) (off + (1 + length t)) = Ok (off + (1 + length t) + length (concat (map topic_wire ts)))"
    "decodeTopics buf (length ts) (off + (1 + length t)) = Ok (ts, off + (1 + length t) + length (concat (map topic_wire ts)))"
    using Cons.IH [OF _ at2] Cons.prems(1) by simp_all
  have w: "off + (1 + length t) + length (concat (map topic_wire ts)) = off + length (concat (map topic_wire (t # ts)))"
    by (simp add: topic_wire_def)
  have c: "\<not> (length t < 1 \<or> 64 < length t)" using t by auto
  have n: "length (t # ts) = Suc (length ts)" by simp
  show ?case
    unfolding w [symmetric] n topicsSize.simps decodeTopics.simps
    by (simp only: i s b IH l c rbind.simps Let_def if_False prod.case simp_thms)
qed simp

lemma record_at:
  assumes "record_wf r"
  defines "o1 \<equiv> 4 + length (concat (map topic_wire (br_Topics r)))"
  shows "at_off (record_wire r @ rest) 4 (concat (map topic_wire (br_Topics r)) @ BE_PutUint32 (word_of_nat (length (br_Object r))) @ br_Object r @ rest)"
    and "at_off (record_wire r @ rest) o1 (BE_PutUint32 (word_of_nat (length (br_Object r))) @ br_Object r @ rest)"
    and "length (record_wire r) = o1 + 4 + length (br_Object r)"
  by (simp_all add: at_off_def record_wire_def o1_def)

lemma record_head:
  assumes "record_wf r"
  shows "BE16 (record_wire r @ rest) 0 2 = (Ok BEEFRecordTag :: (objfmt_err, _) res)"
    and "index (record_wire r @ rest) 2 = (Ok BEEFRecordVer :: (objfmt_err, _) res)"
    and "index (record_wire r @ rest) 3 = (Ok (word_of_nat (length (br_Topics r))) :: (objfmt_err, _) res)"
  by (simp_all add: record_wire_def nth_append)

lemma record_object_at:
  assumes r: "record_wf r" and o1: "o1 = 4 + length (concat (map topic_wire (br_Topics r)))"
  shows "BE32 (record_wire r @ rest) o1 (o1 + 4) = (Ok (word_of_nat (length (br_Object r))) :: (objfmt_err, _) res)"
    and "slice (record_wire r @ rest) (o1 + 4) (o1 + 4 + length (br_Object r)) = (Ok (br_Object r) :: (objfmt_err, _) res)"
    and "unat (word_of_nat (length (br_Object r)) :: u32) = length (br_Object r)"
    and "unat (word_of_nat (length (br_Topics r)) :: u8) = length (br_Topics r)"
proof -
  note a = record_at(2) [OF r, of rest, folded o1]
  show "BE32 (record_wire r @ rest) o1 (o1 + 4) = (Ok (word_of_nat (length (br_Object r))) :: (objfmt_err, _) res)"
    unfolding BE32_def by (subst slice_at [OF a]) simp_all
  show "slice (record_wire r @ rest) (o1 + 4) (o1 + 4 + length (br_Object r)) = (Ok (br_Object r) :: (objfmt_err, _) res)"
    using at_next [OF a] by (intro slice_at) simp_all
  show "unat (word_of_nat (length (br_Object r)) :: u32) = length (br_Object r)"
    "unat (word_of_nat (length (br_Topics r)) :: u8) = length (br_Topics r)"
    using r by (simp_all add: record_wf_def unat_of_nat take_bit_nat_eq_self)
qed

lemma concat_topics_le: "\<forall>t \<in> set ts. topic_wf t \<Longrightarrow> length (concat (map topic_wire ts)) \<le> 65 * length ts"
  by (induction ts) (auto simp: topic_wire_def topic_wf_def)

lemma BEEFRecord_wire:
  assumes r: "record_wf r"
  shows "BEEFRecordSize (record_wire r @ rest) = Ok (length (record_wire r))"
    and "DecodeBEEFRecord (record_wire r @ rest) = Ok (r, length (record_wire r))"
proof -
  let ?b = "record_wire r @ rest"
  define o1 where "o1 = 4 + length (concat (map topic_wire (br_Topics r)))"
  have wf: "1 \<le> length (br_Topics r)" "length (br_Topics r) \<le> 15" "\<forall>t \<in> set (br_Topics r). topic_wf t"
    "1 \<le> length (br_Object r)" "length (br_Object r) < 2 ^ 32" using r by (simp_all add: record_wf_def)
  note len = record_at(3) [OF r, folded o1_def] and ob = record_object_at(1,2) [OF r o1_def, of rest] record_object_at(3,4) [OF r o1_def] and hd = record_head [OF r, of rest]
  note tp = topics_at [OF wf(3) record_at(1) [OF r], of rest, folded o1_def]
  have o1: "4 \<le> o1" "o1 \<le> 979" using concat_topics_le [OF wf(3)] wf(2) by (simp_all add: o1_def)
  have "(word_of_nat (length (br_Object r)) :: u32) \<noteq> 0" using ob(3) wf(4) by (metis unat_0 not_one_le_zero)
  moreover have "\<not> (length (br_Topics r) < 1 \<or> 15 < length (br_Topics r))" "\<not> MaxInt - o1 - 4 < length (br_Object r)"
    using wf o1 by auto
  moreover have "\<not> length ?b < 2" "\<not> length ?b < 4" "\<not> length ?b < o1 + 4" "\<not> length ?b < o1 + 4 + length (br_Object r)"
    using len o1 by simp_all
  ultimately show size: "BEEFRecordSize ?b = Ok (length (record_wire r))"
    unfolding BEEFRecordSize_def by (simp only: hd ob tp rbind.simps Let_def if_False simp_thms len)
  show "DecodeBEEFRecord ?b = Ok (r, length (record_wire r))"
    unfolding DecodeBEEFRecord_def by (simp only: size hd ob tp rbind.simps prod.case) simp
qed

lemma seg_one: "i < length buf \<Longrightarrow> seg buf i (Suc i) = [buf ! i]"
  by (simp add: seg_def take_Suc_conv_app_nth)

lemma topics_inv:
  "topicsSize buf cnt off = Ok off' \<Longrightarrow> off \<le> length buf \<Longrightarrow>
   \<exists>ts. length ts = cnt \<and> (\<forall>t \<in> set ts. topic_wf t) \<and> concat (map topic_wire ts) = seg buf off off' \<and> off \<le> off' \<and> off' \<le> length buf"
proof (induction cnt arbitrary: off)
  case (Suc cnt)
  define k where "k = unat (buf ! off)"
  define t where "t = seg buf (Suc off) (off + (1 + k))"
  from Suc.prems have a: "off < length buf" "1 \<le> k" "k \<le> 64" "off + (1 + k) \<le> length buf"
    and rec: "topicsSize buf cnt (off + (1 + k)) = Ok off'"
    by (auto simp: Let_def k_def index_def not_less split: if_splits)
  have t: "length t = k" using a by (simp add: t_def)
  then have "topic_wire t = [buf ! off] @ t" by (simp add: topic_wire_def k_def)
  also have "\<dots> = seg buf off (off + (1 + k))"
    unfolding t_def using a(1) seg_append [of off "Suc off" "off + (1 + k)" buf] by (simp add: seg_one)
  finally have w: "topic_wire t = seg buf off (off + (1 + k))" .
  from Suc.IH [OF rec a(4)] obtain ts where "length ts = cnt" "\<forall>t \<in> set ts. topic_wf t"
    "concat (map topic_wire ts) = seg buf (off + (1 + k)) off'" "off + (1 + k) \<le> off'" "off' \<le> length buf" by blast
  with a t w show ?case by (intro exI [of _ "t # ts"]) (simp add: topic_wf_def seg_append)
qed simp

lemma BEEFRecordSize_inv:
  assumes "BEEFRecordSize buf = Ok n"
  shows "\<exists>r. record_wf r \<and> take n buf = record_wire r \<and> length (record_wire r) = n"
proof -
  from assms have len: "4 \<le> length buf" by (auto simp: BEEFRecordSize_def split: if_splits)
  from assms len obtain o1 where hd: "BE_Uint16 (take 2 buf) = BEEFRecordTag" "buf ! 2 = BEEFRecordVer"
    and cnt: "1 \<le> unat (buf ! 3)" "unat (buf ! 3) \<le> 15" and tp: "topicsSize buf (unat (buf ! 3)) 4 = Ok o1"
    and o1: "o1 + 4 \<le> length buf" "BE_Uint32 (take 4 (drop o1 buf)) \<noteq> 0"
    and n: "n = o1 + 4 + unat (BE_Uint32 (take 4 (drop o1 buf)))" "n \<le> length buf"
    by (auto simp: BEEFRecordSize_def Let_def rbind_Ok_iff not_less split: if_splits)
  from topics_inv [OF tp len] obtain ts where ts: "length ts = unat (buf ! 3)" "\<forall>t \<in> set ts. topic_wf t"
    "concat (map topic_wire ts) = seg buf 4 o1" "4 \<le> o1" "o1 \<le> length buf" by blast
  define r where "r = \<lparr>br_Topics = ts, br_Object = seg buf (o1 + 4) n\<rparr>"
  have ob: "length (seg buf (o1 + 4) n) = unat (BE_Uint32 (take 4 (drop o1 buf)))" using n by simp
  have "BE_PutUint16 BEEFRecordTag = seg buf 0 2" using len by (simp add: seg_def flip: hd(1))
  moreover have "[BEEFRecordVer] = seg buf 2 3" "[buf ! 3] = seg buf 3 4"
    using len seg_one [of 2 buf] seg_one [of 3 buf] hd(2) by (simp_all add: eval_nat_numeral)
  moreover have "BE_PutUint32 (BE_Uint32 (take 4 (drop o1 buf))) = seg buf o1 (o1 + 4)" using o1 by (simp add: seg_def)
  ultimately have "record_wire r = seg buf 0 2 @ seg buf 2 3 @ seg buf 3 4 @ seg buf 4 o1 @ seg buf o1 (o1 + 4) @ seg buf (o1 + 4) n"
    unfolding record_wire_def r_def beef_record.simps ob ts(1) ts(3) by simp
  also have "\<dots> = seg buf 0 n" using ts n by (simp add: seg_append)
  finally have w: "record_wire r = take n buf" by (simp add: seg_def)
  have "record_wf r"
    using ts cnt o1(2) unat_u32_less [of "BE_Uint32 (take 4 (drop o1 buf))"]
    unfolding record_wf_def r_def beef_record.simps ob by (auto simp: Suc_le_eq unat_gt_0)
  with w n show ?thesis by (intro exI [of _ r]) simp
qed

lemma DecodeBEEFRecord_cases:
  "(\<exists>e. BEEFRecordSize buf = Err e \<and> DecodeBEEFRecord buf = Err e) \<or>
   (\<exists>r. record_wf r \<and> BEEFRecordSize buf = Ok (length (record_wire r)) \<and> buf = record_wire r @ drop (length (record_wire r)) buf \<and>
     DecodeBEEFRecord buf = Ok (r, length (record_wire r)))"
proof (cases "BEEFRecordSize buf")
  case (Ok n)
  from BEEFRecordSize_inv [OF Ok] obtain r where r: "record_wf r" "take n buf = record_wire r" "length (record_wire r) = n" by blast
  then have b: "buf = record_wire r @ drop n buf" by (metis append_take_drop_id)
  with BEEFRecord_wire(2) [OF r(1), of "drop n buf"] r Ok show ?thesis by auto
next
  case (Err e)
  then show ?thesis by (simp add: DecodeBEEFRecord_def)
qed (simp add: beef_record_delim.delim_total)

lemma DecodeBEEFRecord_exact:
  "DecodeBEEFRecord buf = Ok (r, n) \<Longrightarrow> record_wf r \<and> n = length (record_wire r) \<and> buf = record_wire r @ drop n buf"
  using DecodeBEEFRecord_cases [of buf] by auto

lemma foldl_topics: "foldl (\<lambda>out t. (out @ [word_of_nat (length t)]) @ t) out ts = out @ concat (map topic_wire ts)"
  by (induction ts arbitrary: out) (simp_all add: topic_wire_def)

lemma EncodeBEEFRecord_eq:
  "EncodeBEEFRecord ts obj =
     (if record_wf \<lparr>br_Topics = ts, br_Object = obj\<rparr> \<and> (\<forall>t \<in> set ts. utf8_ValidString t)
      then Ok (record_wire \<lparr>br_Topics = ts, br_Object = obj\<rparr>) else Err OErrMalformed)"
proof -
  have "list_ex (\<lambda>t. length t < 1 \<or> BEEFMaxTopicLen < length t \<or> \<not> utf8_ValidString t) ts \<longleftrightarrow>
      \<not> (\<forall>t \<in> set ts. topic_wf t \<and> utf8_ValidString t)"
    unfolding list_ex_iff topic_wf_def by (metis not_le)
  then show ?thesis
    unfolding EncodeBEEFRecord_def EncodeBEEFRecordHeader_def Let_def foldl_topics
    by (auto simp: record_wf_def record_wire_def Suc_le_eq)
qed

section \<open>Delivery records and frames\<close>

lemma DecodeBEEFDelivery_wire:
  assumes "length tid = 32" and "obj \<noteq> []" and "length obj < 2 ^ 32"
  shows "DecodeBEEFDelivery (EncodeBEEFDelivery tid obj @ rest) = Ok (tid, obj, 36 + length obj)"
proof -
  have "unat (word_of_nat (length obj) :: u32) = length obj" using assms(3) by (simp add: unat_of_nat take_bit_nat_eq_self)
  moreover from this assms(2) have "(word_of_nat (length obj) :: u32) \<noteq> 0" by (metis length_0_conv unat_0)
  ultimately show ?thesis
    using assms by (simp add: DecodeBEEFDelivery_def BEEFDeliverySize_def EncodeBEEFDelivery_def Let_def slice_def)
qed

lemma freshFrame_fits:
  assumes "encode f (replicate (92 + length payload) 0) = Ok (length w, w @ drop (length w) (replicate (92 + length payload) 0))"
    and "length w = 92 + length payload"
  shows "freshFrame encode f payload = Ok w"
  using assms by (simp add: freshFrame_def)

lemma freshFrame_beef:
  assumes "beef_wf bf"
  shows "freshFrame EncodeBEEF bf (bb_Payload bf) = Ok (beef_wire bf)"
proof (rule freshFrame_fits)
  show "length (beef_wire bf) = 92 + length (bb_Payload bf)" using assms by (simp add: beef_wire_def beef_wf_def)
  then show "EncodeBEEF bf (replicate (92 + length (bb_Payload bf)) 0) =
      Ok (length (beef_wire bf), beef_wire bf @ drop (length (beef_wire bf)) (replicate (92 + length (bb_Payload bf)) 0))"
    by (intro beef_codec.encode_fits [OF assms]) simp
qed

lemma SplitBEEFPayload_record:
  assumes "record_wf r"
  shows "SplitBEEFPayload (record_wire r) = Ok (br_Object r, br_Topics r)"
  using BEEFRecord_wire(2) [OF assms, of "[]"] by (simp add: SplitBEEFPayload_def) (simp add: record_wire_def)

text \<open>The number of deliverable names after clamping to the names of the record.\<close>

definition clampDeliver :: "int \<Rightarrow> nat \<Rightarrow> nat" where
  "clampDeliver dc k = nat (min (max dc 1) (int k))"

definition submission_frame :: "beef_record \<Rightarrow> int \<Rightarrow> beef_frame" where
  "submission_frame r dc = \<lparr>bb_ContentID = ContentID (record_wire r), bb_HashKey = 0, bb_SeqNum = 0, bb_TopicID = TopicID (hd (br_Topics r)),
    bb_DeliverCount = word_of_nat (clampDeliver dc (length (br_Topics r))), bb_Payload = record_wire r\<rparr>"

lemma BEEFMulticastRecord_wf:
  assumes r: "record_wf r" and big: "length (record_wire r) < 2 ^ 32"
  shows "BEEFMulticastRecord (record_wire r) dc = Ok (beef_wire (submission_frame r dc))" and "beef_wf (submission_frame r dc)"
    and "Deliverable (submission_frame r dc) = clampDeliver dc (length (br_Topics r))"
proof -
  obtain t ts where ts: "br_Topics r = t # ts" using r by (cases "br_Topics r") (simp_all add: record_wf_def)
  have k: "1 \<le> clampDeliver dc (length (br_Topics r))" "clampDeliver dc (length (br_Topics r)) \<le> 15"
    using r ts by (auto simp: clampDeliver_def record_wf_def)
  show wf: "beef_wf (submission_frame r dc)" using big by (simp add: submission_frame_def beef_wf_def ContentID_def TopicID_def)
  have "(word_of_int (if int (length (br_Topics r)) < (if dc < 1 then 1 else dc) then int (length (br_Topics r)) else if dc < 1 then 1 else dc) :: u8) =
      word_of_nat (clampDeliver dc (length (br_Topics r)))"
    using ts by (auto simp: clampDeliver_def max_def min_def word_of_nat_eq_iff not_less)
  then show "BEEFMulticastRecord (record_wire r) dc = Ok (beef_wire (submission_frame r dc))"
    using freshFrame_beef [OF wf] BEEFRecord_wire(2) [OF r, of "[]"] ts
    by (simp add: BEEFMulticastRecord_def Let_def submission_frame_def)
  have "unat (word_of_nat (clampDeliver dc (length (br_Topics r))) :: u8) = clampDeliver dc (length (br_Topics r))"
    using k by (simp add: unat_u8_of_nat)
  moreover from this k(1) have "(word_of_nat (clampDeliver dc (length (br_Topics r))) :: u8) \<noteq> 0" by (metis unat_0 not_one_le_zero)
  ultimately show "Deliverable (submission_frame r dc) = clampDeliver dc (length (br_Topics r))" by (simp add: Deliverable_def submission_frame_def)
qed

lemma DeliverableTopicIDs_record:
  assumes "record_wf r" and "bb_Payload bf = record_wire r" and "bb_TopicID bf = TopicID (hd (br_Topics r))"
    and "1 \<le> Deliverable bf" and "Deliverable bf \<le> length (br_Topics r)"
  shows "BEEFDeliverableTopicIDs bf = map TopicID (take (Deliverable bf) (br_Topics r))"
proof -
  obtain t ts where ts: "br_Topics r = t # ts" using assms(1) by (cases "br_Topics r") (simp_all add: record_wf_def)
  show ?thesis
  proof (cases "Deliverable bf = 1")
    case True
    then show ?thesis using assms(3) ts by (simp add: BEEFDeliverableTopicIDs_def)
  next
    case False
    define k where "k = Deliverable bf - 2"
    have k: "Deliverable bf = Suc (Suc k)" using False assms(4) by (simp add: k_def)
    then have "\<not> length (br_Topics r) < 2" "\<not> length (br_Topics r) < Deliverable bf" using assms(5) by simp_all
    then have "BEEFDeliverableTopicIDs bf = [bb_TopicID bf] @ map TopicID (take (Deliverable bf - 1) (drop 1 (br_Topics r)))"
      using k assms(2) SplitBEEFPayload_record [OF assms(1)] by (simp add: BEEFDeliverableTopicIDs_def)
    then show ?thesis using assms(3) ts k by simp
  qed
qed

section \<open>Properties\<close>

definition sample_record :: beef_record where
  "sample_record = \<lparr>br_Topics = [[0x74, 0x6D], [0xC3, 0xA9]], br_Object = [1, 0, 0xBE, 0xEF, 7]\<rparr>"

lemma sample_record_wf: "record_wf sample_record" "\<forall>t \<in> set (br_Topics sample_record). utf8_ValidString t" "length (record_wire sample_record) < 2 ^ 32"
  by (simp_all add: sample_record_def record_wf_def topic_wf_def record_wire_def topic_wire_def utf8_second_def utf8_cont_def
      word_le_nat_alt word_less_nat_alt)

text \<open>
  C21: submission records. A record is encoded exactly when it has 1 to 15 topics, each valid UTF-8 of 1
  to 64 bytes, and an object of 1 to \<open>2^32 - 1\<close> bytes, and what is written decodes, with anything
  behind it, to the same topics and object. The decoder never panics and fails exactly like the
  delimiter. What it accepts encodes again to the bytes it was read from, provided the topics are valid
  UTF-8: the decoder does not check that, the encoder does.
\<close>

theorem beef_record_codec:
  "EncodeBEEFRecord ts obj =
     (if 1 \<le> length ts \<and> length ts \<le> 15 \<and> (\<forall>t \<in> set ts. 1 \<le> length t \<and> length t \<le> 64 \<and> utf8_ValidString t) \<and>
         1 \<le> length obj \<and> length obj < 2 ^ 32
      then Ok (record_wire \<lparr>br_Topics = ts, br_Object = obj\<rparr>) else Err OErrMalformed) \<and>
   (EncodeBEEFRecord ts obj = Ok w \<longrightarrow> DecodeBEEFRecord (w @ rest) = Ok (\<lparr>br_Topics = ts, br_Object = obj\<rparr>, length w)) \<and>
   (DecodeBEEFRecord d = Ok (r, n) \<longrightarrow> n \<le> length d \<and>
     EncodeBEEFRecord (br_Topics r) (br_Object r) =
       (if \<forall>t \<in> set (br_Topics r). utf8_ValidString t then Ok (take n d) else Err OErrMalformed)) \<and>
   DecodeBEEFRecord d \<noteq> Panic \<and> (\<forall>e. DecodeBEEFRecord d = Err e \<longleftrightarrow> BEEFRecordSize d = Err e)"
proof (intro conjI impI)
  show "EncodeBEEFRecord ts obj =
     (if 1 \<le> length ts \<and> length ts \<le> 15 \<and> (\<forall>t \<in> set ts. 1 \<le> length t \<and> length t \<le> 64 \<and> utf8_ValidString t) \<and>
         1 \<le> length obj \<and> length obj < 2 ^ 32
      then Ok (record_wire \<lparr>br_Topics = ts, br_Object = obj\<rparr>) else Err OErrMalformed)"
    unfolding EncodeBEEFRecord_eq record_wf_def topic_wf_def by auto
  assume "EncodeBEEFRecord ts obj = Ok w"
  then show "DecodeBEEFRecord (w @ rest) = Ok (\<lparr>br_Topics = ts, br_Object = obj\<rparr>, length w)"
    by (auto simp: EncodeBEEFRecord_eq BEEFRecord_wire split: if_splits)
next
  assume d: "DecodeBEEFRecord d = Ok (r, n)"
  note r = DecodeBEEFRecord_exact [OF d]
  then have w: "take n d = record_wire r" by (metis append_eq_conv_conj)
  then show "n \<le> length d" using r by (metis length_take min.cobounded1 nat_le_linear min.absorb2)
  show "EncodeBEEFRecord (br_Topics r) (br_Object r) =
       (if \<forall>t \<in> set (br_Topics r). utf8_ValidString t then Ok (take n d) else Err OErrMalformed)"
    using r w by (simp add: EncodeBEEFRecord_eq)
qed (use DecodeBEEFRecord_cases [of d] in auto)

theorem beef_record_codec_witness:
  "\<exists>w. EncodeBEEFRecord (br_Topics sample_record) (br_Object sample_record) = Ok w \<and>
     DecodeBEEFRecord (w @ [9]) = Ok (sample_record, length w)"
  using beef_record_codec [of "br_Topics sample_record" "br_Object sample_record" "record_wire sample_record" "[9]"] sample_record_wf
  by (simp add: record_wf_def topic_wf_def)



end
