(* ===== verification/Objfmt_Wrap.thy ===== *)
theory Objfmt_Wrap
  imports Objfmt_Beef
begin

text \<open>
  The two directions of \<^verbatim>\<open>objfmt/\<close>: wrapping a pushed object into its multicast frame (multicast.go and the
  wraps of subtree.go and block.go) and stripping a multicast frame to the bare object (strip.go). The
  property at the end is the inverse the package documents.
\<close>

section \<open>Wrapping\<close>

definition MulticastFrame :: "obj_class \<Rightarrow> bytes \<Rightarrow> (objfmt_err, frame) res" where
  "MulticastFrame c obj =
     (if c = ClassTx then
        rbind (TxSize obj) (\<lambda>n.
        rbind (slice obj 0 n) (\<lambda>o1.
        rbind (objfmt_TxID o1) (\<lambda>i.
        Ok \<lparr>fr_Version = FrameVerV2, fr_TxID = i, fr_HashKey = 0, fr_SeqNum = 0, fr_SubtreeID = zeros32, fr_Payload = o1\<rparr>)))
      else Err OErrClassNotRegistered)"

definition subtreeMulticast :: "bytes \<Rightarrow> (objfmt_err, bytes) res" where
  "subtreeMulticast obj =
     rbind (SubtreeSize obj) (\<lambda>n.
     rbind (slice obj 0 n) (\<lambda>obj.
     rbind (slice obj 0 32) (\<lambda>root.
     rbind (BE64 obj 32 40) (\<lambda>count.
     rbind (makeslice SubtreeNodeFullSize count) (\<lambda>_.
     rbind (rmap (\<lambda>i. let off = SubtreeHeaderSize + i * subtreeNodeSize in slice obj off (off + subtreeNodeSize)) [0..<unat count]) (\<lambda>hashes.
     let nodes = map (\<lambda>h. \<lparr>sn_TxHash = h, sn_Fee = 0, sn_Size = 0\<rparr>) hashes in
     rbind (map_err OErrFrame (EncodeSubtreeDataPayload
       \<lparr>sp_TotalFees = 0, sp_TotalSizeBytes = 0, sp_Nodes = nodes, sp_ConflictHashes = []\<rparr> SubtreeMsgHashesOnly)) (\<lambda>payload.
     freshFrame EncodeSubtreeData
       \<lparr>sf_MsgType = SubtreeMsgHashesOnly, sf_SubtreeID = root, sf_HashKey = 0, sf_SeqNum = 0, sf_Payload = payload\<rparr> payload)))))))"

definition blockMulticast :: "bytes \<Rightarrow> (objfmt_err, bytes) res" where
  "blockMulticast obj =
     rbind (BlockSize obj) (\<lambda>n.
     rbind (slice obj 0 n) (\<lambda>body.
     rbind (slice body 0 BlockHeaderSize) (\<lambda>hdr.
     let first = Sum256 hdr; blockHash = Sum256 first in
     freshFrame EncodeBlock
       \<lparr>bf_MsgType = BlockMsgAnnounce, bf_ContentID = blockHash, bf_HashKey = 0, bf_SeqNum = 0, bf_Payload = body\<rparr> body)))"

definition MulticastBytes :: "obj_class \<Rightarrow> bytes \<Rightarrow> (objfmt_err, bytes) res" where
  "MulticastBytes c obj =
     (case c of
        ClassTx \<Rightarrow> rbind (MulticastFrame ClassTx obj) (\<lambda>f. freshFrame Encode f (fr_Payload f))
      | ClassSubtree \<Rightarrow> subtreeMulticast obj
      | ClassBlock \<Rightarrow> blockMulticast obj
      | _ \<Rightarrow> Err OErrClassNotRegistered)"

section \<open>Stripping\<close>

definition subtreeStrip :: "bytes \<Rightarrow> (objfmt_err, bytes) res" where
  "subtreeStrip mcast =
     rbind (map_err OErrFrame (DecodeSubtreeData mcast)) (\<lambda>sf.
     rbind (map_err OErrFrame (DecodeSubtreeDataPayload (sf_Payload sf) (sf_MsgType sf))) (\<lambda>p.
     run ([copyTo 0 32 (sf_SubtreeID sf), putBE64 32 SubtreeHeaderSize (word_of_nat (length (sp_Nodes p)))] @
          map (\<lambda>(i, node). let off = SubtreeHeaderSize + i * subtreeNodeSize in copyTo off (off + subtreeNodeSize) (sn_TxHash node))
            (enumerate 0 (sp_Nodes p)))
       (replicate (SubtreeHeaderSize + length (sp_Nodes p) * subtreeNodeSize) 0)))"

definition blockStrip :: "bytes \<Rightarrow> (objfmt_err, bytes) res" where
  "blockStrip mcast =
     rbind (map_err OErrFrame (DecodeBlock mcast)) (\<lambda>bf.
     case BlockSize (bf_Payload bf) of
       Ok n \<Rightarrow> if n \<noteq> length (bf_Payload bf) then Err OErrNotStrippable else Ok (bf_Payload bf)
     | Err _ \<Rightarrow> Err OErrNotStrippable
     | Panic \<Rightarrow> Panic)"

definition StripBytes :: "obj_class \<Rightarrow> bytes \<Rightarrow> (objfmt_err, bytes) res" where
  "StripBytes c mcast =
     (case c of
        ClassTx \<Rightarrow> rbind (map_err OErrFrame (Decode mcast)) (\<lambda>f. Ok (fr_Payload f))
      | ClassSubtree \<Rightarrow> subtreeStrip mcast
      | ClassBlock \<Rightarrow> blockStrip mcast
      | ClassBEEF \<Rightarrow> beefStrip mcast
      | _ \<Rightarrow> Err OErrClassNotRegistered)"

section \<open>Stripping what was wrapped\<close>

lemma tx_wrap:
  assumes "TxSize obj = Ok n" and "length obj < 2 ^ 32"
  shows "\<exists>m. MulticastBytes ClassTx obj = Ok m \<and> StripBytes ClassTx m = Ok (take n obj)"
proof -
  have n: "n \<le> length obj" using tx_delim.delim_bounds [OF assms(1)] by simp
  have t: "TxSize (take n obj) = Ok n" using tx_delim.delim_exact [OF assms(1), of "[]"] by simp
  obtain s where "ToStandard (take n obj) = Ok s" using t ToStandard_cases [of "take n obj"] by auto
  then have i: "objfmt_TxID (take n obj) = Ok (Sum256 (Sum256 s))" by (simp add: TxID_ToStandard)
  define f where "f = \<lparr>fr_Version = FrameVerV2, fr_TxID = Sum256 (Sum256 s), fr_HashKey = 0, fr_SeqNum = 0, fr_SubtreeID = zeros32,
    fr_Payload = take n obj\<rparr>"
  have wf: "frame_wf FrameVerV2 f" using n assms(2) by (simp add: f_def frame_wf_def)
  have "MulticastFrame ClassTx obj = Ok f" using assms(1) n i by (simp add: MulticastFrame_def f_def)
  moreover have "freshFrame Encode f (fr_Payload f) = Ok (frame_wire f)"
  proof (rule freshFrame_fits)
    show "length (frame_wire f) = 92 + length (fr_Payload f)" using wf by (simp add: frame_wire_def frame_wf_def)
    then show "Encode f (replicate (92 + length (fr_Payload f)) 0) =
      Ok (length (frame_wire f), frame_wire f @ drop (length (frame_wire f)) (replicate (92 + length (fr_Payload f)) 0))"
      by (intro tx_codec.encode_fits [OF wf]) simp
  qed
  moreover have "Decode (frame_wire f) = Ok f" using tx_codec.decode_wire [OF wf, of "[]"] by simp
  ultimately show ?thesis by (intro exI [of _ "frame_wire f"]) (simp add: MulticastBytes_def StripBytes_def f_def)
qed

lemma block_wrap:
  assumes "BlockSize obj = Ok n" and "length obj < 2 ^ 32"
  shows "\<exists>m. MulticastBytes ClassBlock obj = Ok m \<and> StripBytes ClassBlock m = Ok (take n obj)"
proof -
  have n: "n \<le> length obj" using block_delim.delim_bounds [OF assms(1)] by simp
  have t: "BlockSize (take n obj) = Ok n" using block_delim.delim_exact [OF assms(1), of "[]"] by simp
  then have n80: "104 \<le> n" using n by (auto simp: BlockSize_def split: if_splits)
  define f where "f = \<lparr>bf_MsgType = BlockMsgAnnounce, bf_ContentID = Sum256 (Sum256 (take 80 obj)), bf_HashKey = 0, bf_SeqNum = 0,
    bf_Payload = take n obj\<rparr>"
  have wf: "block_wf f" using n assms(2) by (simp add: f_def block_wf_def)
  have "freshFrame EncodeBlock f (bf_Payload f) = Ok (block_wire f)"
  proof (rule freshFrame_fits)
    show "length (block_wire f) = 92 + length (bf_Payload f)" using wf by (simp add: block_wire_def block_wf_def)
    then show "EncodeBlock f (replicate (92 + length (bf_Payload f)) 0) =
      Ok (length (block_wire f), block_wire f @ drop (length (block_wire f)) (replicate (92 + length (bf_Payload f)) 0))"
      by (intro block_codec.encode_fits [OF wf]) simp
  qed
  then have "MulticastBytes ClassBlock obj = Ok (block_wire f)"
    using assms(1) n n80 by (simp add: MulticastBytes_def blockMulticast_def f_def min_def)
  moreover have "DecodeBlock (block_wire f) = Ok f" using block_codec.decode_wire [OF wf, of "[]"] by simp
  ultimately show ?thesis using t n by (intro exI [of _ "block_wire f"]) (simp add: StripBytes_def blockStrip_def f_def)
qed

text \<open>A subtree push frame: the root, the number of hashes, the hashes.\<close>

definition subtree_obj :: "bytes \<Rightarrow> bytes list \<Rightarrow> bytes" where
  "subtree_obj root hs = root @ BE_PutUint64 (word_of_nat (length hs)) @ concat hs"

lemma SubtreeSize_obj:
  assumes "SubtreeSize obj = Ok n"
  obtains root hs where "take n obj = subtree_obj root hs" and "length root = 32" and "\<forall>h \<in> set hs. length h = 32"
    and "n = 40 + length hs * 32" and "n \<le> length obj" and "length hs < 2 ^ 64"
proof -
  define count where "count = BE_Uint64 (take 8 (drop 32 obj))"
  from assms have n: "n = 40 + unat count * 32" "n \<le> length obj" "40 \<le> length obj"
    by (auto simp: SubtreeSize_def Let_def count_def split: if_splits)
  define hs where "hs = map (\<lambda>i. take 32 (drop (40 + i * 32) obj)) [0..<unat count]"
  have hs: "length hs = unat count" "\<forall>h \<in> set hs. length h = 32" "concat hs = take (unat count * 32) (drop 40 obj)"
    using n concat_slices [of 32 40 obj "unat count"] by (auto simp: hs_def)
  have "subtree_obj (take 32 obj) hs = take 32 obj @ take 8 (drop 32 obj) @ take (unat count * 32) (drop 40 obj)"
    using n(3) unfolding subtree_obj_def hs(1,3) by (simp add: count_def)
  also have "\<dots> = take n obj"
    using take_add [of 32 "8 + unat count * 32" obj] take_add [of 8 "unat count * 32" "drop 32 obj"] n(1) by simp
  finally have "take n obj = subtree_obj (take 32 obj) hs" by simp
  then show thesis using that [of "take 32 obj" hs] hs n unat_u64_less [of count] by simp
qed

lemma subtreeMulticast_obj:
  assumes root: "length root = 32" and hs: "\<forall>h \<in> set hs. length h = 32" and small: "length hs * 32 < 2 ^ 32"
  defines "p \<equiv> \<lparr>sp_TotalFees = 0, sp_TotalSizeBytes = 0, sp_Nodes = map (\<lambda>h. \<lparr>sn_TxHash = h, sn_Fee = 0, sn_Size = 0\<rparr>) hs, sp_ConflictHashes = []\<rparr>"
  defines "sf \<equiv> \<lparr>sf_MsgType = SubtreeMsgHashesOnly, sf_SubtreeID = root, sf_HashKey = 0, sf_SeqNum = 0,
    sf_Payload = subtree_payload_wire SubtreeMsgHashesOnly p\<rparr>"
  assumes size: "SubtreeSize obj = Ok (length (subtree_obj root hs))" and obj: "take (length (subtree_obj root hs)) obj = subtree_obj root hs"
    and len: "length (subtree_obj root hs) \<le> length obj" "length obj < 2 ^ 32"
  shows "subtreeMulticast obj = Ok (subtree_wire sf)" and "subtree_wf sf" and "subtree_payload_wf SubtreeMsgHashesOnly p"
proof -
  have cnt: "unat (word_of_nat (length hs) :: u64) = length hs" using small by (simp add: unat_of_nat take_bit_nat_eq_self)
  show pwf: "subtree_payload_wf SubtreeMsgHashesOnly p" using hs small by (auto simp: subtree_payload_wf_def p_def node_wf_def)
  have "length (concat hs) = length hs * 32" using hs by (induction hs) simp_all
  moreover have "concat (map (node_wire SubtreeMsgHashesOnly) (sp_Nodes p)) = concat hs"
    by (simp add: p_def node_wire_def o_def)
  ultimately have pl: "length (subtree_payload_wire SubtreeMsgHashesOnly p) = 32 + length hs * 32"
    and ol: "length (subtree_obj root hs) = 40 + length hs * 32"
    using root by (simp_all add: subtree_payload_wire_def p_def subtree_obj_def)
  show wf: "subtree_wf sf" using root pl len ol by (simp add: sf_def subtree_wf_def)
  have fresh: "freshFrame EncodeSubtreeData sf (sf_Payload sf) = Ok (subtree_wire sf)"
  proof (rule freshFrame_fits)
    show "length (subtree_wire sf) = 92 + length (sf_Payload sf)" using wf by (simp add: subtree_wire_def subtree_wf_def)
    then show "EncodeSubtreeData sf (replicate (92 + length (sf_Payload sf)) 0) =
      Ok (length (subtree_wire sf), subtree_wire sf @ drop (length (subtree_wire sf)) (replicate (92 + length (sf_Payload sf)) 0))"
      by (intro subtree_codec.encode_fits [OF wf]) simp
  qed
  have o: "slice obj 0 (length (subtree_obj root hs)) = (Ok (subtree_obj root hs) :: (objfmt_err, _) res)"
    using len obj by (simp add: slice_def)
  have r: "slice (subtree_obj root hs) 0 32 = (Ok root :: (objfmt_err, _) res)"
    "BE64 (subtree_obj root hs) 32 40 = (Ok (word_of_nat (length hs)) :: (objfmt_err, _) res)"
    using root by (simp_all add: subtree_obj_def slice_def BE64_def)
  have "rmap (\<lambda>i. let off = 40 + i * 32 in slice (subtree_obj root hs) off (off + 32)) [0..<length hs] = (Ok hs :: (objfmt_err, _) res)"
    using rmap_slices [of hs 32 40 "root @ BE_PutUint64 (word_of_nat (length hs))" "length hs" "[]"] hs root
    by (simp add: subtree_obj_def Let_def)
  moreover have "makeslice 48 (word_of_nat (length hs)) = (Ok () :: (objfmt_err, _) res)" using small cnt by (simp add: makeslice_def)
  ultimately show "subtreeMulticast obj = Ok (subtree_wire sf)"
    unfolding subtreeMulticast_def
    using fresh EncodeSubtreeDataPayload_wire [OF pwf]
    by (simp only: size o r cnt rbind.simps map_err.simps Let_def p_def sf_def subtree_data_frame.simps)
qed

lemma subtreeStrip_wire:
  assumes wf: "subtree_wf sf" and m: "sf_MsgType sf = m" and pay: "sf_Payload sf = subtree_payload_wire m p" and p: "subtree_payload_wf m p"
  shows "subtreeStrip (subtree_wire sf @ rest) = Ok (subtree_obj (sf_SubtreeID sf) (map sn_TxHash (sp_Nodes p)))"
proof -
  let ?hs = "map sn_TxHash (sp_Nodes p)"
  let ?ss = "[sf_SubtreeID sf, BE_PutUint64 (word_of_nat (length (sp_Nodes p)))] @ ?hs"
  have h: "\<forall>h \<in> set ?hs. length h = 32" using p by (auto simp: subtree_payload_wf_def node_wf_def)
  have root: "length (sf_SubtreeID sf) = 32" using wf by (simp add: subtree_wf_def)
  have en: "map (\<lambda>(i, node). let off = 40 + i * 32 in copyTo off (off + 32) (sn_TxHash node)) (enumerate 0 (sp_Nodes p)) =
      map (\<lambda>(i, h). copyTo (40 + i * 32) (40 + i * 32 + 32) h) (enumerate 0 ?hs)"
    by (simp add: enumerate_map_upt o_def Let_def case_prod_unfold enumerate_eq_zip zip_map2)
  have ce: "map (\<lambda>(i, h). copyTo (40 + i * 32) (40 + i * 32 + 32) h) (enumerate 0 ?hs) = (chunks 40 ?hs :: objfmt_err writer list)"
    using chunks_enumerate_copy [of ?hs 32 40 0, OF bspec [OF h]] by simp
  have ws: "[copyTo 0 32 (sf_SubtreeID sf), putBE64 32 40 (word_of_nat (length (sp_Nodes p)))] @
      map (\<lambda>(i, node). let off = 40 + i * 32 in copyTo off (off + 32) (sn_TxHash node)) (enumerate 0 (sp_Nodes p)) = (chunks 0 ?ss :: objfmt_err writer list)"
    unfolding en ce using root by (simp add: putBE64_def)
  have "length (concat ?hs) = length (sp_Nodes p) * 32"
    using concat_fixed_length [of "sp_Nodes p" sn_TxHash 32] h by simp
  then have "length (concat ?ss) = length (replicate (40 + length (sp_Nodes p) * 32) 0)" using root by simp
  from run_chunks_exact [OF this] have run: "run (chunks 0 ?ss) (replicate (40 + length (sp_Nodes p) * 32) 0) =
      (Ok (subtree_obj (sf_SubtreeID sf) ?hs) :: (objfmt_err, _) res)" by (simp add: subtree_obj_def)
  have "DecodeSubtreeDataPayload (sf_Payload sf) (sf_MsgType sf) = Ok p"
    using DecodeSubtreeDataPayload_wire [OF p, of "[]"] m pay by simp
  then show ?thesis
    unfolding subtreeStrip_def by (simp only: subtree_codec.decode_wire [OF wf, of rest] map_err.simps rbind.simps ws run)
qed

lemma subtree_wrap:
  assumes "SubtreeSize obj = Ok n" and "length obj < 2 ^ 32"
  shows "\<exists>m. MulticastBytes ClassSubtree obj = Ok m \<and> StripBytes ClassSubtree m = Ok (take n obj)"
proof -
  from SubtreeSize_obj [OF assms(1)] obtain root hs where o: "take n obj = subtree_obj root hs" "length root = 32"
    "\<forall>h \<in> set hs. length h = 32" "n = 40 + length hs * 32" "n \<le> length obj" by metis
  have len: "length (subtree_obj root hs) = n" using o(5) by (simp flip: o(1))
  have small: "length hs * 32 < 2 ^ 32" using o(4,5) assms(2) by simp
  note w = subtreeMulticast_obj [OF o(2,3) small, of obj, unfolded len, OF assms(1) o(1,5) assms(2)]
  from subtreeStrip_wire [OF w(2) _ _ w(3), of "[]"] show ?thesis
    using w(1) o(1) by (simp add: MulticastBytes_def StripBytes_def o_def)
qed

section \<open>Properties\<close>

text \<open>
  C23: the two directions are inverse. An object of a transaction, subtree or block lane (of less than
  \<open>2^32\<close> bytes) is wrapped into a frame, and stripping the frame gives the object back byte for byte,
  without what followed it in the buffer; when the delimiter rejects the object so does the wrap, with
  the same error. The other classes have no wrap, and no wrap or strip of a frame is defined for the
  delivery-only classes.
\<close>

theorem strip_multicast:
  "(c \<in> {ClassTx, ClassSubtree, ClassBlock} \<and> length obj < 2 ^ 32 \<longrightarrow>
     (case Size c obj of
        Ok n \<Rightarrow> \<exists>m. MulticastBytes c obj = Ok m \<and> StripBytes c m = Ok (take n obj)
      | Err e \<Rightarrow> MulticastBytes c obj = Err e
      | Panic \<Rightarrow> False)) \<and>
   (c \<notin> {ClassTx, ClassSubtree, ClassBlock} \<longrightarrow> MulticastBytes c obj = Err OErrClassNotRegistered) \<and>
   (c \<in> {ClassBEEFDelivery, ClassBlockHeader} \<longrightarrow> StripBytes c obj = Err OErrClassNotRegistered)"
proof (intro conjI impI)
  assume c: "c \<in> {ClassTx, ClassSubtree, ClassBlock} \<and> length obj < 2 ^ 32"
  show "case Size c obj of Ok n \<Rightarrow> \<exists>m. MulticastBytes c obj = Ok m \<and> StripBytes c m = Ok (take n obj)
      | Err e \<Rightarrow> MulticastBytes c obj = Err e | Panic \<Rightarrow> False"
  proof (cases "Size c obj")
    case (Ok n)
    then show ?thesis using c tx_wrap subtree_wrap block_wrap by (auto simp: Size_def)
  next
    case (Err e)
    then show ?thesis
      using c by (auto simp: Size_def MulticastBytes_def MulticastFrame_def subtreeMulticast_def blockMulticast_def)
  next
    case Panic
    then show ?thesis using c tx_delim.delim_total subtree_delim.delim_total block_delim.delim_total by (auto simp: Size_def)
  qed
qed (auto simp: MulticastBytes_def StripBytes_def split: obj_class.splits)

theorem strip_multicast_witness:
  "\<exists>m. MulticastBytes ClassTx (tx_wire True sample_tx @ [7]) = Ok m \<and> StripBytes ClassTx m = Ok (tx_wire True sample_tx)"
proof -
  have "Size ClassTx (tx_wire True sample_tx @ [7]) = Ok (length (tx_wire True sample_tx))"
    using TxSize_wire [OF sample_tx_wf, of "[7]"] by (simp add: Size_def)
  moreover have "length (tx_wire True sample_tx @ [7]) < 2 ^ 32" using sample_tx_wf by (simp add: tx_wf_def)
  ultimately show ?thesis using strip_multicast [of ClassTx "tx_wire True sample_tx @ [7]"] by simp
qed

end
