(* ===== verification/Go_Std.thy ===== *)
theory Go_Std
  imports Prelude "HOL-Library.AList" "HOL-Library.Char_ord" "HOL-Library.List_Lexorder" "HOL-Library.Product_Lexorder"
begin

text \<open>
  The parts of Go's run time and standard library that the stateful packages use: instants and
  durations of \<^verbatim>\<open>time\<close>, the addresses of \<^verbatim>\<open>net/netip\<close> with their order, and maps.

  An instant is its distance in nanoseconds from the Unix epoch and a duration a number of
  nanoseconds, both as \<^typ>\<open>int\<close>. \<^verbatim>\<open>Time.Sub\<close> saturates at the range of a 64-bit duration as in the
  source of the package. A Go map is an association list with distinct keys; where the order of an
  iteration over a map could show in a result it is a parameter of the model.
\<close>

section \<open>Time\<close>

type_synonym instant = int
type_synonym duration = int

abbreviation (input) Second :: duration where "Second \<equiv> 1000000000"
abbreviation (input) Millisecond :: duration where "Millisecond \<equiv> 1000000"
abbreviation (input) maxDuration :: duration where "maxDuration \<equiv> 9223372036854775807"
abbreviation (input) minDuration :: duration where "minDuration \<equiv> - 9223372036854775808"

definition time_Sub :: "instant \<Rightarrow> instant \<Rightarrow> duration" where
  "time_Sub t u = max minDuration (min maxDuration (t - u))"

definition time_Unix :: "int \<Rightarrow> instant" where
  "time_Unix sec = sec * Second"

text \<open>\<open>wrap64 x\<close> is the value of an \<^verbatim>\<open>int64\<close> computation with the mathematical result \<open>x\<close>.\<close>

definition wrap64 :: "int \<Rightarrow> int" where
  "wrap64 x = sint (word_of_int x :: u64)"

lemma wrap64_id: "minDuration \<le> x \<Longrightarrow> x \<le> maxDuration \<Longrightarrow> wrap64 x = x"
  by (simp add: wrap64_def sint_sbintrunc' signed_take_bit_int_eq_self)

lemma wrap64_over: "maxDuration < x \<Longrightarrow> x \<le> 2 * maxDuration + 1 \<Longrightarrow> wrap64 x = x - 18446744073709551616"
proof -
  assume x: "maxDuration < x" "x \<le> 2 * maxDuration + 1"
  have "(word_of_int x :: u64) = word_of_int (x - 18446744073709551616)" by simp
  then have "wrap64 x = wrap64 (x - 18446744073709551616)" by (simp only: wrap64_def)
  then show ?thesis using x wrap64_id [of "x - 18446744073709551616"] by simp
qed

lemma time_Sub_ge: "w \<le> maxDuration \<Longrightarrow> minDuration < w \<Longrightarrow> w \<le> time_Sub t u \<longleftrightarrow> w \<le> t - u"
  by (auto simp: time_Sub_def max_def min_def)

section \<open>Addresses (net/netip)\<close>

text \<open>
  \<^verbatim>\<open>netip.Addr\<close>: the zero value, an IPv4 address (four bytes), or an IPv6 address (sixteen bytes) with a
  zone. The order is that of \<^verbatim>\<open>Addr.Compare\<close>: first by bit length, then by value, then by zone.
\<close>

datatype netaddr = AddrZero | Addr4 bytes | Addr6 bytes string

primrec addr_key :: "netaddr \<Rightarrow> nat \<times> bytes \<times> string" where
  "addr_key AddrZero = (0, [], [])"
| "addr_key (Addr4 b) = (32, b, [])"
| "addr_key (Addr6 b z) = (128, b, z)"

lemma addr_key_inject [simp]: "addr_key a = addr_key b \<longleftrightarrow> a = b"
  by (cases a; cases b) simp_all

instantiation netaddr :: linorder
begin

definition less_eq_netaddr :: "netaddr \<Rightarrow> netaddr \<Rightarrow> bool" where
  "less_eq_netaddr a b \<longleftrightarrow> addr_key a \<le> addr_key b"

definition less_netaddr :: "netaddr \<Rightarrow> netaddr \<Rightarrow> bool" where
  "less_netaddr a b \<longleftrightarrow> addr_key a < addr_key b"

instance
  by standard (auto simp: less_eq_netaddr_def less_netaddr_def antisym order.strict_iff_order)

end

definition AddrFrom16 :: "bytes \<Rightarrow> netaddr" where
  "AddrFrom16 b = Addr6 b []"

primrec withoutZone :: "netaddr \<Rightarrow> netaddr" where
  "withoutZone AddrZero = AddrZero"
| "withoutZone (Addr4 b) = Addr4 b"
| "withoutZone (Addr6 b z) = Addr6 b []"

lemma withoutZone_idem [simp]: "withoutZone (withoutZone a) = withoutZone a"
  by (cases a) simp_all

lemma AddrFrom16_inject [simp]: "AddrFrom16 a = AddrFrom16 b \<longleftrightarrow> a = b"
  by (simp add: AddrFrom16_def)

section \<open>Sets and maps\<close>

text \<open>A Go set \<^verbatim>\<open>map[K]struct{}\<close>, as the list of its keys in the order of insertion.\<close>

definition set_add :: "'a \<Rightarrow> 'a list \<Rightarrow> 'a list" where
  "set_add x xs = (if x \<in> set xs then xs else xs @ [x])"

lemma set_set_add [simp]: "set (set_add x xs) = insert x (set xs)"
  by (auto simp: set_add_def)

lemma distinct_set_add [simp]: "distinct (set_add x xs) = distinct xs"
  by (simp add: set_add_def)

definition set_add_all :: "'a list \<Rightarrow> 'a list \<Rightarrow> 'a list" where
  "set_add_all ys xs = foldl (\<lambda>acc y. set_add y acc) xs ys"

lemma set_set_add_all [simp]: "set (set_add_all ys xs) = set xs \<union> set ys"
  by (induction ys arbitrary: xs) (auto simp: set_add_all_def)

lemma distinct_set_add_all [simp]: "distinct (set_add_all ys xs) = distinct xs"
  by (induction ys arbitrary: xs) (auto simp: set_add_all_def)

text \<open>Sorting the keys of a map: the result does not depend on the order of the iteration.\<close>

lemma sort_distinct_unique:
  fixes xs ys :: "'a::linorder list"
  assumes "distinct xs" and "distinct ys" and "set xs = set ys"
  shows "sort xs = sort ys"
  using assms by (metis sorted_list_of_set_sort_remdups distinct_remdups_id)

lemma strict_sorted_unique:
  fixes f :: "'a \<Rightarrow> 'b::linorder"
  assumes "sorted_wrt (<) (map f xs)" and "sorted_wrt (<) (map f ys)" and "set xs = set ys"
  shows "xs = ys"
proof -
  have "map f xs = map f ys" using strict_sorted_equal [OF assms(1,2)] assms(3) by simp
  moreover have "inj_on f (set xs \<union> set ys)" using assms by (simp add: strict_sorted_iff distinct_map)
  ultimately show ?thesis by (rule map_inj_on)
qed

lemma strict_sorted_sort_key:
  "distinct (map f xs) \<Longrightarrow> sorted_wrt (<) (map f (sort_key f xs))"
  by (simp add: strict_sorted_iff distinct_map)

lemma set_update_subset: "set (AList.update k v xs) \<subseteq> insert (k, v) (set xs)"
  by (induction xs) auto

end
