(* ===== verification/Objfmt_Reader.thy ===== *)
theory Objfmt_Reader
  imports Objfmt_Wrap Go_Std
begin

text \<open>
  The stream reader of \<^verbatim>\<open>objfmt/reader.go\<close>, which splits the byte stream of a single-class lane into whole
  objects. The underlying \<^verbatim>\<open>io.Reader\<close> is a parameter \<open>rd\<close>: called in a state with the size of the free
  space it yields bytes, a status and its next state. The hypothesis \<open>obeys\<close> states the documented
  contract of such a reader; the theorems hold for every reader that obeys it, however it cuts the
  stream into reads.
\<close>

section \<open>The reader\<close>

datatype read_status = ReadOk | ReadEOF | ReadErr

type_synonym 's io_reader = "'s \<Rightarrow> nat \<Rightarrow> bytes \<times> read_status \<times> 's"

record reader =
  r_c :: obj_class
  r_max :: int
  r_buf :: bytes
  r_start :: nat
  r_end :: nat

abbreviation (input) DefaultMaxObject :: int where "DefaultMaxObject \<equiv> 67108864"

definition NewReader :: "obj_class \<Rightarrow> reader" where
  "NewReader c = \<lparr>r_c = c, r_max = DefaultMaxObject, r_buf = [], r_start = 0, r_end = 0\<rparr>"

definition SetMaxObject :: "reader \<Rightarrow> int \<Rightarrow> reader" where
  "SetMaxObject rd n = rd\<lparr>r_max := n\<rparr>"

text \<open>
  Compact the pending window to the front; then grow the buffer if less than 4096 bytes are free. The sum \<^verbatim>\<open>rd.max+4096\<close> wraps as
  an \<^verbatim>\<open>int\<close> does, and \<^verbatim>\<open>make\<close> panics on a negative length and on one beyond the address space.
\<close>

abbreviation (input) maxAlloc :: int where "maxAlloc \<equiv> 2 ^ 48"

definition compact :: "reader \<Rightarrow> (objfmt_err, reader) res" where
  "compact rd =
     (if 0 < r_start rd then
        rbind (slice (r_buf rd) (r_start rd) (r_end rd)) (\<lambda>w.
        rbind (copyFrom 0 w (r_buf rd)) (\<lambda>buf.
        Ok (rd\<lparr>r_buf := buf, r_end := r_end rd - r_start rd, r_start := 0\<rparr>)))
      else Ok rd)"

definition growBuf :: "reader \<Rightarrow> (objfmt_err, reader) res" where
  "growBuf rd =
     (if int (length (r_buf rd)) - int (r_end rd) < 4096 then
        let grow = 2 * int (length (r_buf rd));
            grow = (if grow = 0 then 65536 else grow);
            grow = (if wrap64 (r_max rd + 4096) < grow then wrap64 (r_max rd + 4096) else grow) in
        if grow < 0 \<or> maxAlloc < grow then Panic else
        rbind (slice (r_buf rd) 0 (r_end rd)) (\<lambda>s.
        rbind (copyFrom 0 s (replicate (nat grow) 0)) (\<lambda>nb.
        Ok (rd\<lparr>r_buf := nb\<rparr>)))
      else Ok rd)"

text \<open>The part of an iteration before the read: is there an object in the window?\<close>

definition parseWindow :: "reader \<Rightarrow> (objfmt_err, bytes option) res \<times> reader" where
  "parseWindow rd =
     (if r_start rd < r_end rd then
        case slice (r_buf rd) (r_start rd) (r_end rd) :: (objfmt_err, bytes) res of
          Ok w \<Rightarrow>
            (case Size (r_c rd) w of
               Ok n \<Rightarrow> (rbind (slice (r_buf rd) (r_start rd) (r_start rd + n)) (\<lambda>obj. Ok (Some obj)), rd\<lparr>r_start := r_start rd + n\<rparr>)
             | Err e \<Rightarrow>
                 if e \<noteq> OErrShort then (Err e, rd)
                 else if r_max rd \<le> int (r_end rd - r_start rd) then (Err OErrObjectTooLarge, rd)
                 else (Ok None, rd)
             | Panic \<Rightarrow> (Panic, rd))
        | _ \<Rightarrow> (Panic, rd)
      else (Ok None, rd))"

text \<open>The read into the free space behind the window.\<close>

definition readMore :: "'s io_reader \<Rightarrow> reader \<Rightarrow> 's \<Rightarrow> (objfmt_err, read_status) res \<times> reader \<times> 's" where
  "readMore io rd src =
     (if length (r_buf rd) < r_end rd then (Panic, rd, src) else
      let (bs, st, src) = io src (length (r_buf rd) - r_end rd) in
      case copyFrom (r_end rd) bs (r_buf rd) :: (objfmt_err, bytes) res of
        Ok buf \<Rightarrow> (Ok st, rd\<lparr>r_buf := buf, r_end := r_end rd + length bs\<rparr>, src)
      | _ \<Rightarrow> (Panic, rd, src))"

text \<open>The part after the read: what an end of file means depends on what is pending.\<close>

definition afterEOF :: "reader \<Rightarrow> (objfmt_err, unit) res" where
  "afterEOF rd =
     (if r_end rd = r_start rd then Err OErrEOF else
      rbind (slice (r_buf rd) (r_start rd) (r_end rd)) (\<lambda>w.
      case Size (r_c rd) w of
        Ok _ \<Rightarrow> Ok ()
      | Err e \<Rightarrow> if e = OErrShort then Err OErrUnexpectedEOF else Err e
      | Panic \<Rightarrow> Panic))"

text \<open>One iteration: a result with the reader's state, or another round.\<close>

definition nextStep ::
  "'s io_reader \<Rightarrow> reader \<Rightarrow> 's \<Rightarrow> ((objfmt_err, bytes) res) option \<times> reader \<times> 's"
where
  "nextStep io rd src =
     (case parseWindow rd of
        (Ok (Some obj), rd) \<Rightarrow> (Some (Ok obj), rd, src)
      | (Err e, rd) \<Rightarrow> (Some (Err e), rd, src)
      | (Panic, rd) \<Rightarrow> (Some Panic, rd, src)
      | (Ok None, rd) \<Rightarrow>
          (case rbind (compact rd) growBuf of
             Ok rd \<Rightarrow>
               (case readMore io rd src of
                  (Ok ReadOk, rd, src) \<Rightarrow> (None, rd, src)
                | (Ok ReadErr, rd, src) \<Rightarrow> (Some (Err OErrRead), rd, src)
                | (Ok ReadEOF, rd, src) \<Rightarrow>
                    (case afterEOF rd of
                       Ok _ \<Rightarrow> (None, rd, src)
                     | Err e \<Rightarrow> (Some (Err e), rd, src)
                     | Panic \<Rightarrow> (Some Panic, rd, src))
                | (_, rd, src) \<Rightarrow> (Some Panic, rd, src))
           | _ \<Rightarrow> (Some Panic, rd, src)))"

text \<open>The loop; \<open>None\<close> is a loop that does not end.\<close>

partial_function (option) Next ::
  "'s io_reader \<Rightarrow> reader \<Rightarrow> 's \<Rightarrow> ((objfmt_err, bytes) res \<times> reader \<times> 's) option"
where
  "Next io rd src =
     (case nextStep io rd src of
        (Some r, rd, src) \<Rightarrow> Some (r, rd, src)
      | (None, rd, src) \<Rightarrow> Next io rd src)"

section \<open>The contract of the underlying reader\<close>

text \<open>
  \<open>obeys io pend idle\<close>: the bytes that \<open>io\<close> delivers from state \<open>s\<close> on are \<open>pend s\<close>. A read returns at most as many bytes as there is
  space for; it may return an error with or without bytes, after which the stream goes on where it stopped; it may return no
  bytes and no error, but not without end: \<open>idle s\<close> bounds how often it does so in a row; and it reports the end of the file
  only when nothing is left, with or after the last bytes. A reader that \<open>serves\<close> the stream also never reports an error.
\<close>

definition obeys :: "'s io_reader \<Rightarrow> ('s \<Rightarrow> bytes) \<Rightarrow> ('s \<Rightarrow> nat) \<Rightarrow> bool" where
  "obeys io pend idle \<longleftrightarrow> (\<forall>s n. 0 < n \<longrightarrow>
     (case io s n of (bs, st, s') \<Rightarrow>
        length bs \<le> n \<and> pend s = bs @ pend s' \<and>
        (st = ReadOk \<and> bs = [] \<longrightarrow> idle s' < idle s) \<and> (st = ReadEOF \<longrightarrow> pend s' = [])))"

definition fails :: "'s io_reader \<Rightarrow> bool" where
  "fails io \<longleftrightarrow> (\<exists>s n bs s'. io s n = (bs, ReadErr, s'))"

definition serves :: "'s io_reader \<Rightarrow> ('s \<Rightarrow> bytes) \<Rightarrow> bool" where
  "serves io pend \<longleftrightarrow> (\<exists>idle. obeys io pend idle) \<and> \<not> fails io"

lemma obeysD:
  assumes "obeys io pend idle" and "io s n = (bs, st, s')" and "0 < n"
  shows "length bs \<le> n" and "pend s = bs @ pend s'" and "st = ReadOk \<Longrightarrow> bs = [] \<Longrightarrow> idle s' < idle s" and "st = ReadEOF \<Longrightarrow> pend s' = []"
  using assms(1) [unfolded obeys_def, rule_format, OF assms(3), of s] assms(2) by simp_all

section \<open>The window\<close>

definition window :: "reader \<Rightarrow> bytes" where
  "window rd = seg (r_buf rd) (r_start rd) (r_end rd)"

text \<open>The bound on an object leaves room for the 4096 bytes that the buffer may have beyond it.\<close>

definition reader_inv :: "reader \<Rightarrow> bool" where
  "reader_inv rd \<longleftrightarrow> r_start rd \<le> r_end rd \<and> r_end rd \<le> length (r_buf rd) \<and> 0 \<le> r_max rd \<and>
     r_max rd + 4096 \<le> maxAlloc \<and> (\<nexists>v. r_c rd = ClassOther v)"

lemma window_slice: "reader_inv rd \<Longrightarrow> slice (r_buf rd) (r_start rd) (r_end rd) = (Ok (window rd) :: (objfmt_err, _) res)"
  by (simp add: reader_inv_def window_def seg_def)

lemma length_window: "reader_inv rd \<Longrightarrow> length (window rd) = r_end rd - r_start rd"
  by (simp add: reader_inv_def window_def)

lemma copyFrom_front: "length s \<le> length b \<Longrightarrow> copyFrom 0 s b = Ok (s @ drop (length s) b)"
  by (simp add: copyFrom_def copyTo_def Let_def)

text \<open>Neither compacting nor growing changes what is pending, and afterwards there is space to read into.\<close>

lemma compact_window:
  assumes "reader_inv rd"
  shows "\<exists>rd'. compact rd = Ok rd' \<and> reader_inv rd' \<and> window rd' = window rd \<and> r_start rd' = 0 \<and> r_end rd' = length (window rd) \<and>
    r_c rd' = r_c rd \<and> r_max rd' = r_max rd"
proof (cases "0 < r_start rd")
  case True
  let ?w = "window rd"
  let ?rd = "rd\<lparr>r_buf := ?w @ drop (length ?w) (r_buf rd), r_end := length ?w, r_start := 0\<rparr>"
  have l: "length ?w \<le> length (r_buf rd)" "length ?w = r_end rd - r_start rd"
    using assms length_window [OF assms] by (auto simp: reader_inv_def)
  have "compact rd = Ok ?rd"
    using True window_slice [OF assms] l by (simp add: compact_def copyFrom_front)
  moreover have "window ?rd = ?w"
    by (simp add: window_def [of "rd\<lparr>r_buf := _, r_end := _, r_start := _\<rparr>"] seg_def)
  moreover have "reader_inv ?rd" using assms l by (simp add: reader_inv_def)
  ultimately show ?thesis by (intro exI [of _ ?rd]) simp
next
  case False
  then show ?thesis using assms length_window [OF assms] by (simp add: compact_def)
qed

lemma growBuf_window:
  assumes "reader_inv rd" and "r_start rd = 0" and "r_end rd = 0 \<or> int (r_end rd) < r_max rd"
  shows "\<exists>rd'. growBuf rd = Ok rd' \<and> reader_inv rd' \<and> window rd' = window rd \<and> r_start rd' = 0 \<and> r_end rd' = r_end rd \<and>
    r_c rd' = r_c rd \<and> r_max rd' = r_max rd \<and> r_end rd' < length (r_buf rd')"
proof (cases "int (length (r_buf rd)) - int (r_end rd) < 4096")
  case True
  define g where "g = (let grow = 2 * int (length (r_buf rd)); grow = (if grow = 0 then 65536 else grow) in
    if r_max rd + 4096 < grow then r_max rd + 4096 else grow)"
  have wrap: "wrap64 (r_max rd + 4096) = r_max rd + 4096" using assms(1) by (intro wrap64_id) (simp_all add: reader_inv_def)
  have "g \<le> maxAlloc" using assms(1) by (simp add: g_def Let_def reader_inv_def)
  let ?w = "window rd"
  let ?rd = "rd\<lparr>r_buf := ?w @ drop (length ?w) (replicate (nat g) 0)\<rparr>"
  have l: "length ?w = r_end rd" "r_end rd \<le> length (r_buf rd)"
    using assms(1,2) length_window [OF assms(1)] by (simp_all add: reader_inv_def)
  have "r_buf rd \<noteq> [] \<Longrightarrow> r_end rd < 2 * length (r_buf rd)" using l(2) by (cases "r_buf rd") simp_all
  then have g: "int (r_end rd) < g" using assms l(2) by (cases "r_buf rd = []") (auto simp: g_def Let_def reader_inv_def)
  then have g': "r_end rd < nat g" "\<not> g < 0" by simp_all
  have "growBuf rd = (if g < 0 \<or> maxAlloc < g then Panic else
        rbind (slice (r_buf rd) 0 (r_end rd)) (\<lambda>s. rbind (copyFrom 0 s (replicate (nat g) 0)) (\<lambda>nb. Ok (rd\<lparr>r_buf := nb\<rparr>))))"
    using True wrap by (simp add: growBuf_def g_def Let_def)
  then have "growBuf rd = Ok ?rd"
    using window_slice [OF assms(1)] assms(2) l g' \<open>g \<le> maxAlloc\<close> by (simp add: copyFrom_front)
  moreover have "window ?rd = ?w"
    using l(1) assms(2) by (simp add: window_def [of "rd\<lparr>r_buf := _\<rparr>"] seg_def)
  moreover have "reader_inv ?rd" using assms(1,2) l g' by (simp add: reader_inv_def)
  ultimately show ?thesis using g' l assms(2) by (intro exI [of _ ?rd]) simp
next
  case False
  then show ?thesis using assms by (intro exI [of _ rd]) (simp add: growBuf_def)
qed

lemma readMore_window:
  assumes "reader_inv rd" and "r_end rd < length (r_buf rd)" and "obeys io pend idle"
  shows "\<exists>bs st rd' src'. readMore io rd src = (Ok st, rd', src') \<and> reader_inv rd' \<and> window rd' = window rd @ bs \<and>
    pend src = bs @ pend src' \<and> r_c rd' = r_c rd \<and> r_max rd' = r_max rd \<and>
    (st = ReadErr \<longrightarrow> fails io) \<and> (st = ReadOk \<and> bs = [] \<longrightarrow> idle src' < idle src) \<and> (st = ReadEOF \<longrightarrow> pend src' = [])"
proof -
  obtain bs st src' where io: "io src (length (r_buf rd) - r_end rd) = (bs, st, src')" by (metis prod_cases3)
  have pos: "0 < length (r_buf rd) - r_end rd" using assms(2) by simp
  note S = obeysD [OF assms(3) io pos]
  have err: "st = ReadErr \<longrightarrow> fails io" using io unfolding fails_def by blast
  let ?buf = "take (r_end rd) (r_buf rd) @ bs @ drop (r_end rd + length bs) (r_buf rd)"
  let ?rd = "rd\<lparr>r_buf := ?buf, r_end := r_end rd + length bs\<rparr>"
  have le: "r_start rd \<le> r_end rd" "r_end rd \<le> length (r_buf rd)" using assms(1) by (simp_all add: reader_inv_def)
  have "readMore io rd src = (Ok st, ?rd, src')"
    using io assms(2) S(1) by (simp add: readMore_def copyFrom_def copyTo_def Let_def)
  moreover have "window ?rd = window rd @ bs"
    using le by (simp add: window_def seg_def drop_take)
  moreover have "reader_inv ?rd" using assms(1) S(1) le by (simp add: reader_inv_def)
  ultimately show ?thesis using S(2-4) err by (intro exI [of _ bs] exI [of _ st] exI [of _ ?rd] exI [of _ src']) simp
qed

section \<open>One call of Next\<close>

lemma parse_object:
  assumes "reader_inv rd" and "Size (r_c rd) (window rd) = Ok n" and "window rd \<noteq> []" and "n \<le> length (window rd)"
  shows "\<exists>rd'. Next io rd src = Some (Ok (take n (window rd)), rd', src) \<and> reader_inv rd' \<and> window rd' = drop n (window rd) \<and>
    r_c rd' = r_c rd \<and> r_max rd' = r_max rd"
proof -
  let ?rd = "rd\<lparr>r_start := r_start rd + n\<rparr>"
  have "0 < length (window rd)" using assms(3) by simp
  then have n: "r_start rd < r_end rd" "r_start rd + n \<le> r_end rd" "r_end rd \<le> length (r_buf rd)"
    using assms(1,4) length_window [OF assms(1)] by (auto simp: reader_inv_def)
  have "slice (r_buf rd) (r_start rd) (r_start rd + n) = (Ok (take n (window rd)) :: (objfmt_err, _) res)"
    using n by (simp add: slice_def window_def seg_def min_def)
  then have "parseWindow rd = (Ok (Some (take n (window rd))), ?rd)"
    using n(1) assms(2) window_slice [OF assms(1)] by (simp add: parseWindow_def)
  then have "Next io rd src = Some (Ok (take n (window rd)), ?rd, src)"
    by (subst Next.simps) (simp add: nextStep_def)
  moreover have "window ?rd = drop n (window rd)"
    using n by (simp add: window_def seg_def drop_take add.commute)
  moreover have "reader_inv ?rd" using assms(1) n by (simp add: reader_inv_def)
  ultimately show ?thesis by (intro exI [of _ ?rd]) simp
qed

lemma reader_class: "reader_inv rd \<Longrightarrow> stream_delim (Size (r_c rd))"
  by (rule stream_delim_Size) (simp add: reader_inv_def)

lemma window_nil: "reader_inv rd \<Longrightarrow> window rd = [] \<longleftrightarrow> \<not> r_start rd < r_end rd"
  using length_window [of rd] by (metis length_0_conv diff_is_0_eq not_less)

text \<open>Without an object in the window, an iteration reads more of the stream.\<close>

lemma refill:
  assumes "reader_inv rd" and "obeys io pend idle"
    and "window rd = [] \<or> Size (r_c rd) (window rd) = Err OErrShort \<and> int (length (window rd)) < r_max rd"
  shows "\<exists>bs st rd' src'. nextStep io rd src =
      (case st of ReadEOF \<Rightarrow> (case afterEOF rd' of Ok _ \<Rightarrow> (None, rd', src') | Err e \<Rightarrow> (Some (Err e), rd', src') | Panic \<Rightarrow> (Some Panic, rd', src'))
       | ReadErr \<Rightarrow> (Some (Err OErrRead), rd', src') | ReadOk \<Rightarrow> (None, rd', src')) \<and>
    reader_inv rd' \<and> window rd' = window rd @ bs \<and> pend src = bs @ pend src' \<and> r_c rd' = r_c rd \<and> r_max rd' = r_max rd \<and>
    (st = ReadErr \<longrightarrow> fails io) \<and> (st = ReadOk \<and> bs = [] \<longrightarrow> idle src' < idle src) \<and> (st = ReadEOF \<longrightarrow> pend src' = [])"
proof -
  have p: "parseWindow rd = (Ok None, rd)"
    using assms(3) window_nil [OF assms(1)] window_slice [OF assms(1)] length_window [OF assms(1)]
    by (auto simp: parseWindow_def)
  obtain rd1 where c: "compact rd = Ok rd1" "reader_inv rd1" "window rd1 = window rd" "r_start rd1 = 0"
      "r_end rd1 = length (window rd)" "r_c rd1 = r_c rd" "r_max rd1 = r_max rd"
    using compact_window [OF assms(1)] by auto
  have "r_end rd1 = 0 \<or> int (r_end rd1) < r_max rd1" using assms(3) c(5,7) by auto
  from growBuf_window [OF c(2,4) this] obtain rd2 where g: "growBuf rd1 = Ok rd2" "reader_inv rd2" "window rd2 = window rd1"
      "r_c rd2 = r_c rd1" "r_max rd2 = r_max rd1" "r_end rd2 < length (r_buf rd2)" by auto
  obtain bs st rd3 src' where r: "readMore io rd2 src = (Ok st, rd3, src')"
      and q: "reader_inv rd3" "window rd3 = window rd2 @ bs" "pend src = bs @ pend src'" "r_c rd3 = r_c rd2" "r_max rd3 = r_max rd2"
      "st = ReadErr \<longrightarrow> fails io" "st = ReadOk \<and> bs = [] \<longrightarrow> idle src' < idle src" "st = ReadEOF \<longrightarrow> pend src' = []"
    using readMore_window [OF g(2,6) assms(2), of src] by blast
  have "nextStep io rd src =
      (case st of ReadEOF \<Rightarrow> (case afterEOF rd3 of Ok _ \<Rightarrow> (None, rd3, src') | Err e \<Rightarrow> (Some (Err e), rd3, src') | Panic \<Rightarrow> (Some Panic, rd3, src'))
       | ReadErr \<Rightarrow> (Some (Err OErrRead), rd3, src') | ReadOk \<Rightarrow> (None, rd3, src'))"
    using p c(1) g(1) r by (cases st) (simp_all add: nextStep_def split: res.splits)
  then show ?thesis using q c g by (intro exI [of _ bs] exI [of _ st] exI [of _ rd3] exI [of _ src']) simp
qed

lemma afterEOF_window:
  assumes "reader_inv rd"
  shows "afterEOF rd = (if window rd = [] then Err OErrEOF else
    case Size (r_c rd) (window rd) of Ok _ \<Rightarrow> Ok () | Err e \<Rightarrow> Err (if e = OErrShort then OErrUnexpectedEOF else e) | Panic \<Rightarrow> Panic)"
proof -
  have "r_end rd = r_start rd \<longleftrightarrow> window rd = []" using window_nil [OF assms] assms by (auto simp: reader_inv_def)
  then show ?thesis using window_slice [OF assms] by (simp add: afterEOF_def split: res.splits)
qed

text \<open>
  What a call may do with a stream: deliver its first object and keep the rest; report the end of the
  stream, a truncated or a malformed object; or give up on an object that is larger than the bound.
\<close>

definition next_ok :: "obj_class \<Rightarrow> int \<Rightarrow> bytes \<Rightarrow> (objfmt_err, bytes) res \<Rightarrow> bytes \<Rightarrow> bool" where
  "next_ok c mx stream r rest \<longleftrightarrow>
     (case Size c stream of
        Ok n \<Rightarrow> r = Ok (take n stream) \<and> rest = drop n stream \<or>
               mx < int n \<and> r = Err OErrObjectTooLarge \<and> rest = stream
      | Err e \<Rightarrow> rest = stream \<and>
          (r = Err (if e \<noteq> OErrShort then e else if stream = [] then OErrEOF else OErrUnexpectedEOF) \<or>
           mx \<le> int (length stream) \<and> stream \<noteq> [] \<and> r = Err OErrObjectTooLarge)
      | Panic \<Rightarrow> False)"

lemma give_up:
  assumes "reader_inv rd" and "window rd \<noteq> []" and "Size (r_c rd) (window rd) = Err e"
    and "e \<noteq> OErrShort \<or> r_max rd \<le> int (length (window rd))"
  shows "Next io rd src = Some (Err (if e \<noteq> OErrShort then e else OErrObjectTooLarge), rd, src)"
proof -
  have "parseWindow rd = (Err (if e \<noteq> OErrShort then e else OErrObjectTooLarge), rd)"
    using assms(2-4) window_nil [OF assms(1)] window_slice [OF assms(1)] length_window [OF assms(1)]
    by (auto simp: parseWindow_def)
  then show ?thesis by (subst Next.simps) (simp add: nextStep_def)
qed

lemma next_ok_object:
  assumes "stream_delim (Size c)" and "Size c w = Ok n"
  shows "next_ok c mx (w @ p) (Ok (take n w)) (drop n w @ p)"
  using stream_delim.delim_append [OF assms] stream_delim.delim_bounds [OF assms] by (simp add: next_ok_def)

lemma next_ok_give_up:
  assumes "stream_delim (Size c)" and "Size c w = Err e" and "w \<noteq> []" and "e \<noteq> OErrShort \<or> mx \<le> int (length w)"
  shows "next_ok c mx (w @ p) (Err (if e \<noteq> OErrShort then e else OErrObjectTooLarge)) (w @ p)"
proof (cases "e = OErrShort")
  case True
  have "mx < int n" if "Size c (w @ p) = Ok n" for n
  proof (rule ccontr)
    assume "\<not> mx < int n"
    then have "n \<le> length w" using assms(4) True by simp
    then have "Size c w = Ok n" using stream_delim.delim_exact [OF assms(1) that, of "drop n w"] by simp
    then show False using assms(2) by simp
  qed
  then show ?thesis
    using True assms(3,4) stream_delim.delim_total [OF assms(1)] by (auto simp: next_ok_def split: res.splits)
next
  case False
  then have "e = OErrMalformed" using stream_delim.delim_errors [OF assms(1,2)] by simp
  then show ?thesis using stream_delim.delim_malformed [OF assms(1), of w p] assms(2) by (simp add: next_ok_def)
qed

text \<open>After the end of the file: the pending bytes are all there is.\<close>

lemma Next_at_EOF:
  assumes "reader_inv rd"
  shows "case afterEOF rd of
      Ok _ \<Rightarrow> \<exists>r rd'. Next io rd src = Some (r, rd', src) \<and> reader_inv rd' \<and> r_c rd' = r_c rd \<and> r_max rd' = r_max rd \<and>
        next_ok (r_c rd) (r_max rd) (window rd) r (window rd')
    | Err e \<Rightarrow> next_ok (r_c rd) (r_max rd) (window rd) (Err e) (window rd)
    | Panic \<Rightarrow> False"
proof (cases "window rd = []")
  case True
  then show ?thesis
    using stream_delim.delim_nil [OF reader_class [OF assms]] by (simp add: afterEOF_window [OF assms] next_ok_def)
next
  case False
  note D = reader_class [OF assms]
  show ?thesis
  proof (cases "Size (r_c rd) (window rd)")
    case (Ok n)
    from parse_object [OF assms Ok False, of io src] stream_delim.delim_bounds [OF D Ok] next_ok_object [OF D Ok, of _ "[]"]
    show ?thesis using Ok False by (fastforce simp: afterEOF_window [OF assms])
  next
    case (Err e)
    then show ?thesis using False by (simp add: afterEOF_window [OF assms] next_ok_def)
  qed (simp add: stream_delim.delim_total [OF D])
qed

text \<open>A failed read ends the call with its error; what was read stays in the window, so the stream is as before.\<close>

lemma Next_obeys:
  assumes "obeys io pend idle"
  shows "reader_inv rd \<Longrightarrow> \<exists>r rd' src'. Next io rd src = Some (r, rd', src') \<and> reader_inv rd' \<and> r_c rd' = r_c rd \<and> r_max rd' = r_max rd \<and>
    (next_ok (r_c rd) (r_max rd) (window rd @ pend src) r (window rd' @ pend src') \<or>
     fails io \<and> r = Err OErrRead \<and> window rd' @ pend src' = window rd @ pend src)"
proof (induction "(rd, src)" arbitrary: rd src rule: wf_induct_rule [OF wf_measures [of "[\<lambda>(rd, src). length (pend src), \<lambda>(rd, src). idle src]"]])
  case (1 rd src)
  note prem = 1(2) and IH = 1(1) [rule_format]
  note D = reader_class [OF prem]
  consider (obj) n where "window rd \<noteq> []" "Size (r_c rd) (window rd) = Ok n"
    | (fail) e where "window rd \<noteq> []" "Size (r_c rd) (window rd) = Err e" "e \<noteq> OErrShort \<or> r_max rd \<le> int (length (window rd))"
    | (more) "window rd = [] \<or> Size (r_c rd) (window rd) = Err OErrShort \<and> int (length (window rd)) < r_max rd"
    using stream_delim.delim_total [OF D, of "window rd"] by (cases "Size (r_c rd) (window rd)") force+
  then show ?case
  proof cases
    case obj
    from parse_object [OF prem obj(2,1)] stream_delim.delim_bounds [OF D obj(2)] next_ok_object [OF D obj(2)]
    show ?thesis by fastforce
  next
    case fail
    from give_up [OF prem fail] next_ok_give_up [OF D fail(2,1,3)] prem show ?thesis by fastforce
  next
    case more
    from refill [OF prem assms more, of src] obtain bs st rd1 src1 where
      step: "nextStep io rd src =
      (case st of ReadEOF \<Rightarrow> (case afterEOF rd1 of Ok _ \<Rightarrow> (None, rd1, src1) | Err e \<Rightarrow> (Some (Err e), rd1, src1) | Panic \<Rightarrow> (Some Panic, rd1, src1))
       | ReadErr \<Rightarrow> (Some (Err OErrRead), rd1, src1) | ReadOk \<Rightarrow> (None, rd1, src1))"
      and inv1: "reader_inv rd1" and w1: "window rd1 = window rd @ bs" and p1: "pend src = bs @ pend src1"
      and c1: "r_c rd1 = r_c rd" "r_max rd1 = r_max rd"
      and st: "st = ReadErr \<longrightarrow> fails io" "st = ReadOk \<and> bs = [] \<longrightarrow> idle src1 < idle src" "st = ReadEOF \<longrightarrow> pend src1 = []" by blast
    have stream: "window rd @ pend src = window rd1 @ pend src1" using w1 p1 by simp
    show ?thesis
    proof (cases st)
      case ReadOk
      then have "((rd1, src1), (rd, src)) \<in> measures [\<lambda>(rd, src). length (pend src), \<lambda>(rd, src). idle src]"
        using st(2) p1 by (cases "bs = []") simp_all
      from IH [OF this inv1] step ReadOk show ?thesis by (subst Next.simps) (simp add: stream c1)
    next
      case ReadEOF
      from Next_at_EOF [OF inv1, of io src1] st(3) ReadEOF step inv1 show ?thesis
        by (subst Next.simps) (auto simp: stream c1 split: res.splits)
    next
      case ReadErr
      then show ?thesis using step inv1 c1 st(1) by (subst Next.simps) (simp add: stream)
    qed
  qed
qed

lemma Next_correct:
  assumes "serves io pend" and "reader_inv rd"
  shows "\<exists>r rd' src'. Next io rd src = Some (r, rd', src') \<and> reader_inv rd' \<and> r_c rd' = r_c rd \<and> r_max rd' = r_max rd \<and>
    next_ok (r_c rd) (r_max rd) (window rd @ pend src) r (window rd' @ pend src')"
proof -
  obtain idle where "obeys io pend idle" and ok: "\<not> fails io" using assms(1) by (auto simp: serves_def)
  from Next_obeys [OF this(1) assms(2), of src] ok show ?thesis by blast
qed

text \<open>A bound within 4096 of the largest \<^verbatim>\<open>int\<close> wraps when the buffer is first allocated, and the call panics.\<close>

lemma huge_bound_panics:
  assumes "9223372036854771712 \<le> mx" and "mx \<le> maxDuration"
  shows "\<exists>rd'. Next io (SetMaxObject (NewReader c) mx) src = Some (Panic, rd', src)"
proof -
  have "wrap64 (mx + 4096) = mx + 4096 - 18446744073709551616" using assms by (intro wrap64_over) simp_all
  then show ?thesis using assms(2)
    by (subst Next.simps) (simp add: nextStep_def parseWindow_def compact_def growBuf_def SetMaxObject_def NewReader_def)
qed

section \<open>Reading a stream\<close>

text \<open>A client that calls \<open>Next\<close> \<open>n\<close> times and expects an object each time.\<close>

primrec readN :: "'s io_reader \<Rightarrow> nat \<Rightarrow> reader \<Rightarrow> 's \<Rightarrow> (bytes list \<times> reader \<times> 's) option" where
  "readN io 0 rd src = Some ([], rd, src)"
| "readN io (Suc n) rd src =
     (case Next io rd src of
        Some (Ok obj, rd, src) \<Rightarrow> (case readN io n rd src of Some (objs, st) \<Rightarrow> Some (obj # objs, st) | None \<Rightarrow> None)
      | _ \<Rightarrow> None)"

lemma next_object:
  assumes "serves io pend" and "reader_inv rd" and "window rd @ pend src = obj @ rest"
    and "Size (r_c rd) obj = Ok (length obj)" and "int (length obj) \<le> r_max rd"
  shows "\<exists>rd' src'. Next io rd src = Some (Ok obj, rd', src') \<and> reader_inv rd' \<and> r_c rd' = r_c rd \<and> r_max rd' = r_max rd \<and>
    window rd' @ pend src' = rest"
proof -
  have "Size (r_c rd) (obj @ rest) = Ok (length obj)"
    by (rule stream_delim.delim_append [OF reader_class [OF assms(2)] assms(4)])
  with Next_correct [OF assms(1,2), of src] assms(3,5) show ?thesis by (auto simp: next_ok_def)
qed

lemma readN_objects:
  assumes "serves io pend"
  shows "reader_inv rd \<Longrightarrow> window rd @ pend src = concat objs @ rest \<Longrightarrow>
    \<forall>obj \<in> set objs. Size (r_c rd) obj = Ok (length obj) \<and> int (length obj) \<le> r_max rd \<Longrightarrow>
    \<exists>rd' src'. readN io (length objs) rd src = Some (objs, rd', src') \<and> reader_inv rd' \<and> r_c rd' = r_c rd \<and> r_max rd' = r_max rd \<and>
      window rd' @ pend src' = rest"
proof (induction objs arbitrary: rd src)
  case Nil
  then show ?case by simp
next
  case (Cons obj objs)
  have "Size (r_c rd) obj = Ok (length obj)" "int (length obj) \<le> r_max rd" "window rd @ pend src = obj @ (concat objs @ rest)"
    using Cons.prems by simp_all
  from next_object [OF assms Cons.prems(1) this(3,1,2)] obtain rd' src' where
    n: "Next io rd src = Some (Ok obj, rd', src')" "reader_inv rd'" "r_c rd' = r_c rd" "r_max rd' = r_max rd"
      "window rd' @ pend src' = concat objs @ rest" by blast
  from Cons.IH [OF n(2,5)] Cons.prems(3) n show ?case by auto
qed

lemma new_reader_inv: "(\<nexists>v. c = ClassOther v) \<Longrightarrow> 0 \<le> mx \<Longrightarrow> mx + 4096 \<le> maxAlloc \<Longrightarrow> reader_inv (SetMaxObject (NewReader c) mx)"
  by (simp add: reader_inv_def SetMaxObject_def NewReader_def)

lemma new_reader_simps:
  "r_c (SetMaxObject (NewReader c) mx) = c" "r_max (SetMaxObject (NewReader c) mx) = mx" "window (SetMaxObject (NewReader c) mx) = []"
  by (simp_all add: SetMaxObject_def NewReader_def window_def seg_def)

text \<open>
  C17: Every call of \<open>Next\<close> on a reader that satisfies the invariant of the window, with a bound that leaves 4096 bytes below the
  largest allocation, returns without a panic and keeps the invariant, for any underlying reader that obeys its contract. It
  returns the first object of the unread stream; the end of the stream, or a truncated or malformed object; or the error of a
  failed read, and then no byte is lost. This is decided by the unread stream alone if no read fails and the first object is within the bound; beyond
  the bound the object is either delivered or refused, depending on how the reads cut the stream, and a stream
  as long as the bound without a boundary is refused or reported as truncated. A bound within 4096 of the largest
  \<^verbatim>\<open>int\<close> makes the first call panic.
\<close>

theorem next_returns:
  assumes "obeys io pend idle" and "reader_inv rd" and "9223372036854771712 \<le> mx" and "mx \<le> maxDuration"
  shows "(\<exists>r rd' src'. Next io rd src = Some (r, rd', src') \<and> r \<noteq> Panic \<and> reader_inv rd' \<and> r_c rd' = r_c rd \<and> r_max rd' = r_max rd \<and>
     (next_ok (r_c rd) (r_max rd) (window rd @ pend src) r (window rd' @ pend src') \<or>
      fails io \<and> r = Err OErrRead \<and> window rd' @ pend src' = window rd @ pend src)) \<and>
    (\<exists>rd'. Next io (SetMaxObject (NewReader c) mx) src = Some (Panic, rd', src))"
proof -
  have "next_ok c mx s Panic q = False" for c mx s q by (simp add: next_ok_def split: res.splits)
  with Next_obeys [OF assms(1,2), of src] have "\<exists>r rd' src'. Next io rd src = Some (r, rd', src') \<and> r \<noteq> Panic \<and> reader_inv rd' \<and> r_c rd' = r_c rd \<and> r_max rd' = r_max rd \<and>
     (next_ok (r_c rd) (r_max rd) (window rd @ pend src) r (window rd' @ pend src') \<or>
      fails io \<and> r = Err OErrRead \<and> window rd' @ pend src' = window rd @ pend src)" by fastforce
  then show ?thesis using huge_bound_panics [OF assms(3,4), of io c src] by (rule conjI)
qed

text \<open>
  A stream that is a concatenation of objects of the lane's class, none larger than the bound, is
  returned object by object; after the last one the reader reports \<^verbatim>\<open>io.EOF\<close>, or \<^verbatim>\<open>io.ErrUnexpectedEOF\<close> if
  the stream ends within an object. This holds for every way the underlying reader cuts the stream.
\<close>

theorem reader_delivers:
  assumes "serves io pend" and "\<nexists>v. c = ClassOther v" and "0 \<le> mx" and "mx + 4096 \<le> maxAlloc"
    and "pend src = concat objs @ tail"
    and "\<forall>obj \<in> set objs. Size c obj = Ok (length obj) \<and> int (length obj) \<le> mx"
    and "Size c tail = Err OErrShort" and "tail = [] \<or> int (length tail) < mx"
  shows "\<exists>rd src' rd' src''. readN io (length objs) (SetMaxObject (NewReader c) mx) src = Some (objs, rd, src') \<and>
    Next io rd src' = Some (Err (if tail = [] then OErrEOF else OErrUnexpectedEOF), rd', src'')"
proof -
  let ?rd = "SetMaxObject (NewReader c) mx"
  have "window ?rd @ pend src = concat objs @ tail" "\<forall>obj \<in> set objs. Size (r_c ?rd) obj = Ok (length obj) \<and> int (length obj) \<le> r_max ?rd"
    using assms(5,6) by (simp_all add: new_reader_simps)
  from readN_objects [OF assms(1) new_reader_inv [OF assms(2,3,4)] this] obtain rd src' where
    r: "readN io (length objs) ?rd src = Some (objs, rd, src')" "reader_inv rd" "r_c rd = c" "r_max rd = mx" "window rd @ pend src' = tail"
    by (auto simp: new_reader_simps)
  from Next_correct [OF assms(1) r(2), of src'] r assms(7,8) show ?thesis by (auto simp: next_ok_def)
qed

text \<open>An underlying reader that delivers at most seven bytes at a time.\<close>

definition sevens :: "bytes io_reader" where
  "sevens s n = (take (min 7 n) s, if s = [] then ReadEOF else ReadOk, drop (min 7 n) s)"

lemma obeys_sevens: "obeys sevens (\<lambda>s. s) (\<lambda>_. 0)"
  by (auto simp: obeys_def sevens_def)

lemma serves_sevens: "serves sevens (\<lambda>s. s)"
  using obeys_sevens by (auto simp: serves_def fails_def sevens_def split: if_splits)

text \<open>One that fails once, after an empty read, and then goes on.\<close>

definition hiccup :: "(nat \<times> bytes) io_reader" where
  "hiccup s n = (case s of (0, bs) \<Rightarrow> (let (r, st, bs) = sevens bs n in (r, st, (0, bs))) | (Suc 0, bs) \<Rightarrow> ([], ReadErr, (0, bs)) | (k, bs) \<Rightarrow> ([], ReadOk, (k - 1, bs)))"

theorem next_returns_witness:
  "reader_inv (SetMaxObject (NewReader ClassBlockHeader) 100) \<and>
   (\<exists>r rd' src'. Next hiccup (SetMaxObject (NewReader ClassBlockHeader) 100) (2, replicate 83 5) = Some (r, rd', src') \<and> r \<noteq> Panic)"
proof -
  have "obeys hiccup snd fst" by (auto simp: obeys_def hiccup_def sevens_def split: nat.splits)
  moreover have "reader_inv (SetMaxObject (NewReader ClassBlockHeader) 100)" by (rule new_reader_inv) simp_all
  ultimately show ?thesis
    using next_returns [of hiccup snd fst "SetMaxObject (NewReader ClassBlockHeader) 100" "9223372036854775807" "(2, replicate 83 5)" ClassTx, THEN conjunct1] by fastforce
qed

theorem reader_delivers_witness:
  "\<exists>rd src' rd' src''. readN sevens 2 (SetMaxObject (NewReader ClassBlockHeader) 100) (replicate 80 1 @ replicate 80 2 @ [3, 3]) =
     Some ([replicate 80 1, replicate 80 2], rd, src') \<and> Next sevens rd src' = Some (Err OErrUnexpectedEOF, rd', src'')"
  using reader_delivers [OF serves_sevens, where c = ClassBlockHeader and mx = 100 and objs = "[replicate 80 1, replicate 80 2]" and tail = "[3, 3]" and
    src = "replicate 80 1 @ replicate 80 2 @ [3, 3]"]
  by (simp add: Size_def ObjBlockHeaderSize_def numeral_2_eq_2)

end
