(* ===== verification/Lane.thy ===== *)
theory Lane
  imports Objfmt_Reader
begin

text \<open>
  The object path from end to end: a proxy reads the objects of a lane (\<^verbatim>\<open>objfmt.Reader\<close>) and wraps each into a multicast datagram
  (\<^verbatim>\<open>MulticastBytes\<close>); a listener strips the datagrams (\<^verbatim>\<open>StripBytes\<close>) and writes the objects one after the other to a lane,
  which the next reader reads.
\<close>

definition delivers :: "('e, 'a) res \<Rightarrow> bool" where
  "delivers r = (case r of Ok _ \<Rightarrow> True | _ \<Rightarrow> False)"

text \<open>Read objects until the reader reports an error.\<close>

partial_function (option) pump :: "'s io_reader \<Rightarrow> reader \<Rightarrow> 's \<Rightarrow> (bytes list \<times> (objfmt_err, bytes) res) option" where
  "pump io rd src =
     Option.bind (Next io rd src) (\<lambda>(r, rd', src').
       if delivers r then
         Option.bind (pump io rd' src') (\<lambda>(objs, e). Some ((case r of Ok obj \<Rightarrow> obj # objs | _ \<Rightarrow> objs), e))
       else Some ([], r))"

definition lane_reader :: "obj_class \<Rightarrow> int \<Rightarrow> reader" where
  "lane_reader c mx = SetMaxObject (NewReader c) mx"

lemma pump_objects:
  assumes "serves io pend"
  shows "reader_inv rd \<Longrightarrow> window rd @ pend src = concat objs @ rest \<Longrightarrow>
    \<forall>obj \<in> set objs. Size (r_c rd) obj = Ok (length obj) \<and> int (length obj) \<le> r_max rd \<Longrightarrow>
    Size (r_c rd) rest = Err OErrShort \<Longrightarrow> rest = [] \<or> int (length rest) < r_max rd \<Longrightarrow>
    pump io rd src = Some (objs, Err (if rest = [] then OErrEOF else OErrUnexpectedEOF))"
proof (induction objs arbitrary: rd src)
  case Nil
  then obtain rd' src' where "Next io rd src = Some (Err (if rest = [] then OErrEOF else OErrUnexpectedEOF), rd', src')"
    using Next_correct [OF assms Nil.prems(1), of src] by (auto simp: next_ok_def)
  then show ?case by (simp add: pump.simps delivers_def)
next
  case (Cons obj objs)
  have "Size (r_c rd) obj = Ok (length obj)" "int (length obj) \<le> r_max rd" "window rd @ pend src = obj @ (concat objs @ rest)"
    using Cons.prems by simp_all
  from next_object [OF assms Cons.prems(1) this(3,1,2)] obtain rd' src' where
    n: "Next io rd src = Some (Ok obj, rd', src')" "reader_inv rd'" "r_c rd' = r_c rd" "r_max rd' = r_max rd"
      "window rd' @ pend src' = concat objs @ rest" by blast
  have "pump io rd' src' = Some (objs, Err (if rest = [] then OErrEOF else OErrUnexpectedEOF))"
    using Cons.IH [OF n(2,5)] Cons.prems(3-5) n(3,4) by simp
  then show ?case using n(1) by (subst pump.simps) (simp add: delivers_def)
qed

lemma Size_nil: "c \<in> {ClassTx, ClassSubtree, ClassBlock} \<Longrightarrow> Size c [] = Err OErrShort"
  by (auto simp: Size_def TxSize_def SubtreeSize_def BlockSize_def advance_def)

text \<open>Wrapping an object of a multicast class and stripping the datagram gives the object back.\<close>

lemma wrap_strip:
  assumes "c \<in> {ClassTx, ClassSubtree, ClassBlock}" and "Size c obj = Ok (length obj)" and "length obj < 2 ^ 32"
  shows "\<exists>m. MulticastBytes c obj = Ok m \<and> StripBytes c m = Ok obj"
  using assms tx_wrap [of obj "length obj"] subtree_wrap [of obj "length obj"] block_wrap [of obj "length obj"] by (auto simp: Size_def)

lemma rmap_inverse:
  "\<forall>x \<in> set xs. \<exists>y. f x = Ok y \<and> g y = Ok x \<Longrightarrow> \<exists>ys. rmap f xs = Ok ys \<and> rmap g ys = Ok xs"
proof (induction xs)
  case (Cons x xs)
  then obtain y ys where "f x = Ok y" "g y = Ok x" "rmap f xs = Ok ys" "rmap g ys = Ok xs" by auto
  then show ?case by (intro exI [of _ "y # ys"]) simp
qed simp

text \<open>
  C6: the object path. A lane of transactions, subtrees or blocks that carries objects of at most the bound, and possibly a truncated
  object at its end, is read to its end, whatever pieces the reads return; every object is wrapped into a datagram without
  an error, the datagrams strip to exactly the objects in order, and a lane that carries what was stripped
  is read by the next reader, whatever pieces its reads return, as the same objects and the end of the file.
\<close>

theorem lane_end_to_end:
  assumes "serves io pend" and "serves io' pend'" and "c \<in> {ClassTx, ClassSubtree, ClassBlock}" and "0 \<le> mx" and "mx < 2 ^ 32"
    and "pend src = concat objs @ rest" and "\<forall>obj \<in> set objs. Size c obj = Ok (length obj) \<and> int (length obj) \<le> mx"
    and "Size c rest = Err OErrShort" and "rest = [] \<or> int (length rest) < mx" and "pend' src' = concat objs"
  shows "pump io (lane_reader c mx) src = Some (objs, Err (if rest = [] then OErrEOF else OErrUnexpectedEOF)) \<and>
     (\<exists>ms. rmap (MulticastBytes c) objs = Ok ms \<and> rmap (StripBytes c) ms = Ok objs) \<and>
     pump io' (lane_reader c mx) src' = Some (objs, Err OErrEOF)"
proof -
  have c: "\<nexists>v. c = ClassOther v" using assms(3) by auto
  have room: "mx + 4096 \<le> maxAlloc" using assms(5) by simp
  note new = new_reader_simps [of c mx]
  have "pump io (lane_reader c mx) src = Some (objs, Err (if rest = [] then OErrEOF else OErrUnexpectedEOF))"
    unfolding lane_reader_def
    by (rule pump_objects [OF assms(1) new_reader_inv [OF c assms(4) room]]) (use assms in \<open>simp_all only: new append_Nil\<close>)
  moreover have "pump io' (lane_reader c mx) src' = Some (objs, Err OErrEOF)"
    unfolding lane_reader_def
    using pump_objects [OF assms(2) new_reader_inv [OF c assms(4) room], of src' objs "[]"] assms(7,10) Size_nil [OF assms(3)] by (simp add: new)
  moreover have "\<exists>m. MulticastBytes c obj = Ok m \<and> StripBytes c m = Ok obj" if "obj \<in> set objs" for obj
  proof (rule wrap_strip [OF assms(3)])
    show "Size c obj = Ok (length obj)" using assms(7) that by blast
    have "int (length obj) < 2 ^ 32" using assms(5,7) that by (meson le_less_trans)
    then show "length obj < 2 ^ 32" by simp
  qed
  ultimately show ?thesis using rmap_inverse [of objs "MulticastBytes c" "StripBytes c"] by simp
qed

theorem lane_end_to_end_witness:
  "\<exists>ms. rmap (MulticastBytes ClassTx) [tx_wire True sample_tx, tx_wire True sample_tx] = Ok ms \<and>
     rmap (StripBytes ClassTx) ms = Ok [tx_wire True sample_tx, tx_wire True sample_tx]"
proof -
  let ?o = "[tx_wire True sample_tx, tx_wire True sample_tx]"
  have "\<forall>obj \<in> set ?o. Size ClassTx obj = Ok (length obj) \<and> int (length obj) \<le> 2 ^ 32 - 1"
    using TxSize_wire [OF sample_tx_wf, of "[]"] sample_tx_wf by (simp add: Size_def tx_wf_def)
  then show ?thesis
    using Size_nil [of ClassTx] lane_end_to_end [OF serves_sevens serves_sevens, of ClassTx "2 ^ 32 - 1" "concat ?o" ?o "[]" "concat ?o"] by simp
qed

end
