(* ===== verification/Manifest_Registry.thy ===== *)
theory Manifest_Registry
  imports Shard_Manifest Go_Std
begin

unbundle bit_operations_syntax

text \<open>
  The registry of received manifests (\<^verbatim>\<open>manifest/registry.go\<close>): one entry per announcer, replaced by each
  new announcement, removed by a shutdown announcement or when its lifetime has passed. The clock is
  an argument of every operation that reads it. All operations hold the registry's mutex for their
  whole duration, so concurrent use is a sequence of the steps \<open>reg_step\<close>.
\<close>

section \<open>Entries\<close>

record reg_entry =
  en_SrcIPv6 :: netaddr
  en_InstanceID :: u32
  en_Flags :: u8
  en_ShardBits :: u8
  en_RoleHint :: u8
  en_Epoch :: u32
  en_TTL :: u16
  en_AnnounceInterval :: u16
  en_GenerationID :: bytes
  en_Sources :: "netaddr list"
  en_Groups :: "u16 list"
  en_Successor :: "successor_block option"
  en_Domains :: "domain_descriptor list"
  en_receivedAt :: instant
  en_expiresAt :: instant

definition Authoritative :: "reg_entry \<Rightarrow> bool" where
  "Authoritative e = has (en_Flags e) FlagAuthoritative"

definition Entry_SourceModeSSM :: "reg_entry \<Rightarrow> bool" where
  "Entry_SourceModeSSM e = has (en_Flags e) FlagSourceModeSSM"

definition PilotOnly :: "reg_entry \<Rightarrow> bool" where
  "PilotOnly e = has (en_Flags e) FlagPilotOnly"

type_synonym entry_key = "netaddr \<times> u32"

section \<open>What an entry keeps of a manifest\<close>

definition dedupSources :: "bytes list \<Rightarrow> netaddr list" where
  "dedupSources ins =
     (if ins = [] then []
      else sort (foldl (\<lambda>out b. let a = AddrFrom16 b in if a \<in> set out then out else out @ [a]) [] ins))"

definition bitmapByte :: "u32 \<Rightarrow> nat \<times> byte \<Rightarrow> u16 list" where
  "bitmapByte limit = (\<lambda>(i, b).
     if b = 0 then [] else
     concat (map (\<lambda>k.
       if b AND push_bit k 1 = 0 then [] else
       let idx = word_of_nat (i * 8 + k) :: u32 in
       if idx < limit then [ucast idx] else []) [0..<8]))"

definition expandGroups :: "shard_manifest \<Rightarrow> u16 list" where
  "expandGroups m =
     (if \<not> has (sm_Flags m) FlagGroupsValid then [] else
      let limit = push_bit (unat (sm_ShardBits m)) (1 :: u32) in
      if sm_Groups m \<noteq> [] then filter (\<lambda>g. ucast g < limit) (sm_Groups m)
      else if sm_Bitmap m = [] then []
      else concat (map (bitmapByte limit) (enumerate 0 (sm_Bitmap m))))"

section \<open>The registry\<close>

record registry =
  reg_DefaultTTL :: duration
  reg_entries :: "(entry_key \<times> reg_entry) list"

definition NewRegistry :: "duration \<Rightarrow> registry" where
  "NewRegistry defaultTTL = \<lparr>reg_DefaultTTL = defaultTTL, reg_entries = []\<rparr>"

definition entryOf :: "duration \<Rightarrow> instant \<Rightarrow> netaddr \<Rightarrow> shard_manifest \<Rightarrow> reg_entry" where
  "entryOf defaultTTL now src m =
     (let ttl = int (unat (sm_TTL m)) * Second;
          ttl = (if ttl = 0 then
                   if defaultTTL = 0 then 3 * int (unat (sm_AnnounceInterval m)) * Second else defaultTTL
                 else ttl);
          expiresAt = (if sm_Epoch m \<noteq> 0 then time_Unix (int (unat (sm_Epoch m))) + ttl else now + ttl) in
      \<lparr>en_SrcIPv6 = src, en_InstanceID = sm_InstanceID m, en_Flags = sm_Flags m, en_ShardBits = sm_ShardBits m,
       en_RoleHint = sm_RoleHint m, en_Epoch = sm_Epoch m, en_TTL = sm_TTL m,
       en_AnnounceInterval = sm_AnnounceInterval m, en_GenerationID = sm_GenerationID m,
       en_Sources = dedupSources (sm_Sources m), en_Groups = expandGroups m,
       en_Successor = sm_Successor m, en_Domains = sm_Domains m,
       en_receivedAt = now, en_expiresAt = expiresAt\<rparr>)"

definition keyOf :: "netaddr \<Rightarrow> shard_manifest \<Rightarrow> entry_key" where
  "keyOf src m = (withoutZone src, sm_InstanceID m)"

definition Upsert :: "instant \<Rightarrow> netaddr \<Rightarrow> shard_manifest \<Rightarrow> registry \<Rightarrow> reg_entry option \<times> registry" where
  "Upsert now src m r =
     (let k = keyOf src m in
      if has (sm_Flags m) FlagShutdown then (None, r\<lparr>reg_entries := AList.delete k (reg_entries r)\<rparr>)
      else let e = entryOf (reg_DefaultTTL r) now (fst k) m in
        (Some e, r\<lparr>reg_entries := AList.update k e (reg_entries r)\<rparr>))"

definition Evict :: "instant \<Rightarrow> registry \<Rightarrow> registry" where
  "Evict now r = r\<lparr>reg_entries := filter (\<lambda>(k, e). now < en_expiresAt e) (reg_entries r)\<rparr>"

definition entryKey :: "reg_entry \<Rightarrow> entry_key" where
  "entryKey e = (en_SrcIPv6 e, en_InstanceID e)"

definition Snapshot :: "registry \<Rightarrow> reg_entry list" where
  "Snapshot r = sort_key entryKey (map snd (reg_entries r))"

definition reg_Len :: "registry \<Rightarrow> nat" where
  "reg_Len r = length (reg_entries r)"

section \<open>Sources and groups\<close>

lemma dedup_fold:
  "foldl (\<lambda>out b. let a = AddrFrom16 b in if a \<in> set out then out else out @ [a]) acc ins =
   set_add_all (map AddrFrom16 ins) acc"
  by (induction ins arbitrary: acc) (simp_all add: set_add_all_def set_add_def Let_def)

lemma dedupSources_spec:
  "set (dedupSources ins) = AddrFrom16 ` set ins" "sorted (dedupSources ins)" "distinct (dedupSources ins)"
  by (auto simp: dedupSources_def dedup_fold)

lemma bit_test: "b AND push_bit k 1 = 0 \<longleftrightarrow> \<not> bit b k" if "k < 8" for b :: byte
proof
  assume "b AND push_bit k 1 = 0"
  then have "\<not> bit (b AND push_bit k 1) k" by simp
  then show "\<not> bit b k" using that by (auto simp: bit_and_iff bit_exp_iff)
next
  assume "\<not> bit b k"
  then show "b AND push_bit k 1 = 0"
    by (auto intro!: bit_word_eqI simp: bit_and_iff bit_exp_iff)
qed

lemma unat_limit: "unat (push_bit n (1 :: u32)) = (if n < 32 then 2 ^ n else 0)"
proof -
  have "push_bit n (1 :: u32) = word_of_nat (2 ^ n)" by (simp add: push_bit_eq_mult)
  then show ?thesis by (simp only: unsigned_of_nat take_bit_of_exp) simp
qed

lemma bitmapByte_set:
  assumes "i * 8 + 8 \<le> 2 ^ 32"
  shows "g \<in> set (bitmapByte limit (i, b)) \<longleftrightarrow>
    (\<exists>k < 8. bit b k \<and> i * 8 + k < unat limit \<and> g = word_of_nat (i * 8 + k))"
proof -
  have "unat (word_of_nat n :: u32) = n" if "n < 2 ^ 32" for n
    using that by (simp add: unat_of_nat)
  then have idx: "unat (word_of_nat (i * 8 + k) :: u32) = i * 8 + k" if "k < 8" for k
    using that assms by (metis add_less_cancel_left less_le_trans)
  have "ucast (word_of_nat n :: u32) = (word_of_nat n :: u16)" for n
    by (rule bit_word_eqI) (simp add: bit_simps)
  then have g: "ucast (word_of_nat (i * 8 + k) :: u32) = (word_of_nat (i * 8 + k) :: u16)" for k .
  have "g \<in> set (bitmapByte limit (i, b)) \<longleftrightarrow> b \<noteq> 0 \<and>
    (\<exists>k < 8. b AND push_bit k 1 \<noteq> 0 \<and> (word_of_nat (i * 8 + k) :: u32) < limit \<and> g = ucast (word_of_nat (i * 8 + k) :: u32))"
    unfolding bitmapByte_def Let_def by auto
  also have "\<dots> \<longleftrightarrow> (\<exists>k < 8. bit b k \<and> i * 8 + k < unat limit \<and> g = word_of_nat (i * 8 + k))"
    unfolding g word_less_nat_alt using idx bit_test [of _ b] by (metis bit_0_eq bot_apply bot_bool_def)
  finally show ?thesis .
qed

lemma expandGroups_list:
  assumes "has (sm_Flags m) FlagGroupsValid" and "sm_Groups m \<noteq> []" and "unat (sm_ShardBits m) < 32"
  shows "expandGroups m = filter (\<lambda>g. unat g < 2 ^ unat (sm_ShardBits m)) (sm_Groups m)"
  using assms by (simp add: expandGroups_def Let_def word_less_nat_alt unat_ucast_up unat_limit [simplified] cong: filter_cong)

lemma expandGroups_bitmap:
  assumes "has (sm_Flags m) FlagGroupsValid" and "sm_Groups m = []" and "unat (sm_ShardBits m) \<le> 16" and "length (sm_Bitmap m) < 2 ^ 29"
  shows "set (expandGroups m) =
    {g. unat g < 2 ^ unat (sm_ShardBits m) \<and> unat g div 8 < length (sm_Bitmap m) \<and> bit (sm_Bitmap m ! (unat g div 8)) (unat g mod 8)}"
proof (intro set_eqI iffI)
  let ?bm = "sm_Bitmap m" and ?n = "unat (sm_ShardBits m)"
  let ?limit = "push_bit ?n (1 :: u32)"
  have limit: "unat ?limit = 2 ^ ?n" "2 ^ ?n \<le> (65536 :: nat)"
    using assms(3) power_increasing [OF assms(3), of "2 :: nat"] unat_limit [of ?n] by simp_all
  have mem: "g \<in> set (expandGroups m) \<longleftrightarrow>
      (\<exists>i < length ?bm. \<exists>k < 8. bit (?bm ! i) k \<and> i * 8 + k < 2 ^ ?n \<and> g = word_of_nat (i * 8 + k))" for g
  proof -
    have "g \<in> set (expandGroups m) \<longleftrightarrow> (\<exists>i < length ?bm. g \<in> set (bitmapByte ?limit (i, ?bm ! i)))"
      using assms(1,2) by (auto simp: expandGroups_def Let_def in_set_enumerate_eq)
    also have "\<dots> \<longleftrightarrow> (\<exists>i < length ?bm. \<exists>k < 8. bit (?bm ! i) k \<and> i * 8 + k < 2 ^ ?n \<and> g = word_of_nat (i * 8 + k))"
      using assms(4) limit(1) by (intro ex_cong1 conj_cong refl) (subst bitmapByte_set; simp)
    finally show ?thesis .
  qed
  fix g :: u16
  show "g \<in> {g. unat g < 2 ^ ?n \<and> unat g div 8 < length ?bm \<and> bit (?bm ! (unat g div 8)) (unat g mod 8)}" if "g \<in> set (expandGroups m)"
  proof -
    from that obtain i k where ik: "i < length ?bm" "k < 8" "bit (?bm ! i) k" "i * 8 + k < 2 ^ ?n" "g = word_of_nat (i * 8 + k)"
      unfolding mem by auto
    then have "unat g = i * 8 + k" using limit(2) by (simp only: unat_of_nat) (simp add: take_bit_nat_eq_self)
    with ik show ?thesis by simp
  qed
  show "g \<in> set (expandGroups m)" if "g \<in> {g. unat g < 2 ^ ?n \<and> unat g div 8 < length ?bm \<and> bit (?bm ! (unat g div 8)) (unat g mod 8)}"
    unfolding mem using that
    by (intro exI [of _ "unat g div 8"] conjI exI [of _ "unat g mod 8"]) (simp_all add: mult.commute)
qed

text \<open>No group beyond the announced width survives, whatever the manifest says.\<close>

lemma expandGroups_bound: "g \<in> set (expandGroups m) \<Longrightarrow> unat g < 2 ^ unat (sm_ShardBits m)"
proof -
  let ?limit = "push_bit (unat (sm_ShardBits m)) (1 :: u32)"
  assume g: "g \<in> set (expandGroups m)"
  have lim: "unat ?limit \<le> 2 ^ unat (sm_ShardBits m)" using unat_limit [of "unat (sm_ShardBits m)"] by simp
  have "\<exists>idx :: u32. idx < ?limit \<and> unat g \<le> unat idx"
  proof (cases "sm_Groups m = []")
    case True
    then obtain x where "g \<in> set (bitmapByte ?limit x)" using g by (auto simp: expandGroups_def Let_def split: if_splits)
    then obtain idx :: u32 where "idx < ?limit" "g = ucast idx" by (auto simp: bitmapByte_def Let_def split: prod.splits if_splits)
    then show ?thesis by (intro exI [of _ idx]) (simp add: unsigned_ucast_eq)
  next
    case False
    then have "ucast g < ?limit" using g by (simp add: expandGroups_def Let_def split: if_splits)
    then show ?thesis by (intro exI [of _ "ucast g"]) (simp add: unat_ucast_up)
  qed
  then show ?thesis using lim by (auto simp: word_less_nat_alt simp del: push_bit_of_1)
qed

section \<open>Invariant and reachability\<close>

definition entry_ok :: "entry_key \<times> reg_entry \<Rightarrow> bool" where
  "entry_ok = (\<lambda>(k, e). entryKey e = k \<and> withoutZone (fst k) = fst k \<and> \<not> has (en_Flags e) FlagShutdown \<and>
     sorted (en_Sources e) \<and> distinct (en_Sources e) \<and> (\<forall>g \<in> set (en_Groups e). unat g < 2 ^ unat (en_ShardBits e)))"

definition reg_inv :: "registry \<Rightarrow> bool" where
  "reg_inv r \<longleftrightarrow> distinct (map fst (reg_entries r)) \<and> list_all entry_ok (reg_entries r)"

inductive reg_step :: "registry \<Rightarrow> registry \<Rightarrow> bool" where
  step_upsert: "reg_step r (snd (Upsert now src m r))"
| step_evict: "reg_step r (Evict now r)"

inductive_cases reg_stepE: "reg_step r r'"

inductive reg_reachable :: "registry \<Rightarrow> bool" where
  reach_new: "reg_reachable (NewRegistry ttl)"
| reach_step: "reg_reachable r \<Longrightarrow> reg_step r r' \<Longrightarrow> reg_reachable r'"

lemma entry_ok_entryOf:
  "\<not> has (sm_Flags m) FlagShutdown \<Longrightarrow> entry_ok (keyOf src m, entryOf ttl now (fst (keyOf src m)) m)"
  using dedupSources_spec [of "sm_Sources m"] expandGroups_bound [of _ m]
  by (simp add: entry_ok_def entryOf_def keyOf_def entryKey_def Let_def)

lemma Upsert_inv:
  assumes "reg_inv r"
  shows "reg_inv (snd (Upsert now src m r))"
proof (cases "has (sm_Flags m) FlagShutdown")
  case True
  have "set (AList.delete (keyOf src m) (reg_entries r)) \<subseteq> set (reg_entries r)"
    by (auto simp: AList.delete_eq)
  then show ?thesis
    using True assms by (auto simp: reg_inv_def Upsert_def Let_def list_all_iff distinct_delete)
next
  case False
  let ?e = "entryOf (reg_DefaultTTL r) now (fst (keyOf src m)) m"
  have "set (AList.update (keyOf src m) ?e (reg_entries r)) \<subseteq> insert (keyOf src m, ?e) (set (reg_entries r))"
    by (rule set_update_subset)
  then show ?thesis
    using False assms entry_ok_entryOf [OF False, of src "reg_DefaultTTL r" now]
    by (auto simp: reg_inv_def Upsert_def Let_def list_all_iff distinct_update)
qed

lemma Evict_inv: "reg_inv r \<Longrightarrow> reg_inv (Evict now r)"
  by (auto simp: reg_inv_def Evict_def list_all_iff distinct_map_filter)

lemma NewRegistry_inv: "reg_inv (NewRegistry ttl)"
  by (simp add: NewRegistry_def reg_inv_def)

lemma reachable_inv: "reg_reachable r \<Longrightarrow> reg_inv r"
  by (induction rule: reg_reachable.induct) (auto simp: NewRegistry_inv elim!: reg_stepE intro: Upsert_inv Evict_inv)

text \<open>The registry as a map from announcers to entries.\<close>

definition reg_view :: "registry \<Rightarrow> entry_key \<Rightarrow> reg_entry option" where
  "reg_view r = map_of (reg_entries r)"

lemma Upsert_view:
  "reg_inv r \<Longrightarrow> reg_view (snd (Upsert now src m r)) =
     (reg_view r)(keyOf src m :=
        if has (sm_Flags m) FlagShutdown then None else Some (entryOf (reg_DefaultTTL r) now (withoutZone src) m))"
  by (auto simp: reg_view_def Upsert_def Let_def keyOf_def delete_conv' update_conv')

lemma map_of_filter_value:
  "distinct (map fst xs) \<Longrightarrow> map_of (filter (\<lambda>(k, e). P e) xs) k =
     (case map_of xs k of Some e \<Rightarrow> if P e then Some e else None | None \<Rightarrow> None)"
proof (induction xs)
  case (Cons x xs)
  obtain k' e where x: "x = (k', e)" by (cases x)
  have "k' \<notin> fst ` set xs" using Cons.prems x by simp
  then have none: "map_of xs k' = None" by (simp add: map_of_eq_None_iff)
  show ?case using Cons none by (auto simp: x split: option.splits)
qed simp

lemma Evict_view:
  assumes "reg_inv r"
  shows "reg_view (Evict now r) k = (case reg_view r k of Some e \<Rightarrow> if now < en_expiresAt e then Some e else None | None \<Rightarrow> None)"
  unfolding reg_view_def using map_of_filter_value [of "reg_entries r" "\<lambda>e. now < en_expiresAt e" k] assms
  by (simp add: Evict_def reg_inv_def)

lemma Snapshot_set: "reg_inv r \<Longrightarrow> e \<in> set (Snapshot r) \<longleftrightarrow> reg_view r (entryKey e) = Some e"
  by (auto simp: Snapshot_def reg_view_def reg_inv_def list_all_iff entry_ok_def)
    (force dest: map_of_SomeD)

lemma Snapshot_sorted:
  assumes "reg_inv r"
  shows "sorted_wrt (<) (map entryKey (Snapshot r))"
proof -
  have "map entryKey (map snd (reg_entries r)) = map fst (reg_entries r)"
    using assms by (auto simp: reg_inv_def list_all_iff entry_ok_def)
  then have "distinct (map entryKey (map snd (reg_entries r)))" using assms by (simp add: reg_inv_def del: map_map)
  then show ?thesis unfolding Snapshot_def by (rule strict_sorted_sort_key)
qed

section \<open>The contract of the registry\<close>

text \<open>
  What the evaluator relies on: the store holds at most one entry per announcer, the last one
  received; an eviction removes what has expired and nothing else; a snapshot lists what is held.
\<close>

locale announcement_store =
  fixes view :: "'s \<Rightarrow> entry_key \<Rightarrow> reg_entry option"
    and ok :: "'s \<Rightarrow> bool"
    and evict :: "instant \<Rightarrow> 's \<Rightarrow> 's"
    and snap :: "'s \<Rightarrow> reg_entry list"
  assumes ok_evict: "ok s \<Longrightarrow> ok (evict now s)"
    and view_evict: "ok s \<Longrightarrow> view (evict now s) k = (case view s k of Some e \<Rightarrow> if now < en_expiresAt e then Some e else None | None \<Rightarrow> None)"
    and snap_view: "ok s \<Longrightarrow> e \<in> set (snap s) \<longleftrightarrow> view s (entryKey e) = Some e"
    and snap_sorted: "ok s \<Longrightarrow> sorted_wrt (<) (map entryKey (snap s))"
begin

lemma snap_distinct: "ok s \<Longrightarrow> distinct (map entryKey (snap s))"
  using snap_sorted strict_sorted_iff by blast

lemma snap_one_per_announcer:
  "ok s \<Longrightarrow> e \<in> set (snap s) \<Longrightarrow> e' \<in> set (snap s) \<Longrightarrow> entryKey e = entryKey e' \<Longrightarrow> e = e'"
  by (simp add: snap_view)

lemma snap_evict: "ok s \<Longrightarrow> e \<in> set (snap (evict now s)) \<longleftrightarrow> e \<in> set (snap s) \<and> now < en_expiresAt e"
  by (auto simp: snap_view ok_evict view_evict split: option.splits if_splits)

lemma snap_evict_filter: "ok s \<Longrightarrow> snap (evict now s) = filter (\<lambda>e. now < en_expiresAt e) (snap s)"
proof (rule strict_sorted_unique [where f = entryKey])
  assume s: "ok s"
  show "sorted_wrt (<) (map entryKey (snap (evict now s)))" by (rule snap_sorted [OF ok_evict [OF s]])
  show "sorted_wrt (<) (map entryKey (filter (\<lambda>e. now < en_expiresAt e) (snap s)))"
    using snap_sorted [OF s] by (simp add: sorted_wrt_map sorted_wrt_filter)
  show "set (snap (evict now s)) = set (filter (\<lambda>e. now < en_expiresAt e) (snap s))"
    using snap_evict [OF s] by auto
qed

end

interpretation store: announcement_store reg_view reg_inv Evict Snapshot
  by unfold_locales (auto simp: Evict_inv Evict_view Snapshot_set Snapshot_sorted split: option.split)

section \<open>Histories\<close>

text \<open>A history of announcements and evictions, and the entry an announcer should have after it.\<close>

datatype reg_op = OpUpsert instant netaddr shard_manifest | OpEvict instant

primrec apply_op :: "reg_op \<Rightarrow> registry \<Rightarrow> registry" where
  "apply_op (OpUpsert now src m) r = snd (Upsert now src m r)"
| "apply_op (OpEvict now) r = Evict now r"

definition run_ops :: "duration \<Rightarrow> reg_op list \<Rightarrow> registry" where
  "run_ops ttl h = foldl (\<lambda>r op. apply_op op r) (NewRegistry ttl) h"

primrec touches :: "entry_key \<Rightarrow> reg_op \<Rightarrow> bool" where
  "touches k (OpUpsert now src m) = (keyOf src m = k)"
| "touches k (OpEvict now) = False"

primrec expires :: "reg_entry \<Rightarrow> reg_op \<Rightarrow> bool" where
  "expires e (OpUpsert now src m) = False"
| "expires e (OpEvict now) = (en_expiresAt e \<le> now)"

definition latest :: "duration \<Rightarrow> reg_op list \<Rightarrow> entry_key \<Rightarrow> reg_entry \<Rightarrow> bool" where
  "latest ttl h k e \<longleftrightarrow> (\<exists>pre now src m post. h = pre @ OpUpsert now src m # post \<and> keyOf src m = k \<and>
     \<not> has (sm_Flags m) FlagShutdown \<and> e = entryOf ttl now (withoutZone src) m \<and>
     (\<forall>op \<in> set post. \<not> touches k op \<and> \<not> expires e op))"

lemma run_snoc: "run_ops ttl (h @ [op]) = apply_op op (run_ops ttl h)"
  by (simp add: run_ops_def)

lemma run_reachable: "reg_reachable (run_ops ttl h)"
proof (induction h rule: rev_induct)
  case (snoc op h)
  have "reg_step (run_ops ttl h) (apply_op op (run_ops ttl h))"
    by (cases op) (simp_all add: reg_step.intros)
  with snoc show ?case by (simp add: run_snoc reach_step)
qed (simp add: run_ops_def reach_new)

lemma run_ttl: "reg_DefaultTTL (run_ops ttl h) = ttl"
proof (induction h rule: rev_induct)
  case (snoc op h)
  then show ?case by (cases op) (simp_all add: run_snoc Upsert_def Evict_def Let_def)
qed (simp add: run_ops_def NewRegistry_def)

lemma latest_Nil: "\<not> latest ttl [] k e"
  by (simp add: latest_def)

lemma latest_snoc:
  "latest ttl (h @ [op]) k e \<longleftrightarrow>
     (\<exists>now src m. op = OpUpsert now src m \<and> keyOf src m = k \<and> \<not> has (sm_Flags m) FlagShutdown \<and> e = entryOf ttl now (withoutZone src) m) \<or>
     (latest ttl h k e \<and> \<not> touches k op \<and> \<not> expires e op)" (is "?l \<longleftrightarrow> ?new \<or> ?old")
proof
  assume ?l
  then obtain pre now src m post where
    h: "h @ [op] = pre @ OpUpsert now src m # post" and m: "keyOf src m = k" "\<not> has (sm_Flags m) FlagShutdown"
      "e = entryOf ttl now (withoutZone src) m" and post: "\<forall>op \<in> set post. \<not> touches k op \<and> \<not> expires e op"
    unfolding latest_def by blast
  show "?new \<or> ?old"
  proof (cases post rule: rev_cases)
    case Nil
    then show ?thesis using h m by simp
  next
    case (snoc post' op')
    then have "h = pre @ OpUpsert now src m # post'" "op' = op" using h by simp_all
    then have "latest ttl h k e" unfolding latest_def using m post snoc by (intro exI conjI) auto
    then show ?thesis using post snoc \<open>op' = op\<close> by simp
  qed
next
  assume "?new \<or> ?old"
  then show ?l
  proof
    assume ?new
    then show ?l unfolding latest_def by (metis append_Nil2 empty_iff list.set(1))
  next
    assume old: ?old
    then obtain pre now src m post where
      "h = pre @ OpUpsert now src m # post" "keyOf src m = k" "\<not> has (sm_Flags m) FlagShutdown"
      "e = entryOf ttl now (withoutZone src) m" "\<forall>op \<in> set post. \<not> touches k op \<and> \<not> expires e op"
      unfolding latest_def by blast
    then show ?l unfolding latest_def using old
      by (intro exI [of _ pre] exI [of _ now] exI [of _ src] exI [of _ m] exI [of _ "post @ [op]"]) auto
  qed
qed

lemma run_view: "reg_view (run_ops ttl h) k = Some e \<longleftrightarrow> latest ttl h k e"
proof (induction h arbitrary: e rule: rev_induct)
  case Nil
  then show ?case by (simp add: latest_Nil run_ops_def NewRegistry_def reg_view_def)
next
  case (snoc op h)
  have inv: "reg_inv (run_ops ttl h)" by (rule reachable_inv [OF run_reachable])
  show ?case
  proof (cases op)
    case (OpUpsert now src m)
    then show ?thesis using snoc by (auto simp: run_snoc latest_snoc Upsert_view [OF inv] run_ttl)
  next
    case (OpEvict now)
    then show ?thesis by (auto simp: run_snoc latest_snoc snoc [symmetric] Evict_view [OF inv] split: option.splits if_splits)
  qed
qed

section \<open>Properties\<close>

text \<open>
  In every registry that announcements and evictions can produce, a snapshot lists each held entry
  once, in strictly increasing order of announcer, so at most one entry per announcer counts. No entry
  carries the shutdown flag or a zone, its sources are sorted and distinct, and its groups lie within
  the announced shard width.
\<close>

theorem registry_invariant:
  assumes "reg_reachable r"
  shows "sorted_wrt (<) (map entryKey (Snapshot r)) \<and> length (Snapshot r) = reg_Len r \<and>
    list_all (\<lambda>e. \<not> has (en_Flags e) FlagShutdown \<and> withoutZone (en_SrcIPv6 e) = en_SrcIPv6 e \<and>
      sorted (en_Sources e) \<and> distinct (en_Sources e) \<and> list_all (\<lambda>g. unat g < 2 ^ unat (en_ShardBits e)) (en_Groups e)) (Snapshot r)"
proof -
  have inv: "reg_inv r" by (rule reachable_inv [OF assms])
  then have "\<forall>x \<in> set (reg_entries r). entry_ok x" by (simp add: reg_inv_def list_all_iff)
  then show ?thesis
    using Snapshot_sorted [OF inv] by (force simp: Snapshot_def reg_Len_def list_all_iff entry_ok_def entryKey_def)
qed

definition sample_manifest :: shard_manifest where
  "sample_manifest = \<lparr>sm_Flags = 0x23, sm_SrcIPv6 = replicate 16 0, sm_InstanceID = 7, sm_Epoch = 0, sm_TTL = 30,
     sm_AnnounceInterval = 10, sm_ShardBits = 4, sm_RoleHint = 0, sm_GenerationID = replicate 16 0, sm_Groups = [],
     sm_Bitmap = [0x05, 0x80], sm_Sources = [], sm_Successor = None, sm_Domains = []\<rparr>"

theorem registry_invariant_witness:
  "length (Snapshot (snd (Upsert 5 (Addr6 (replicate 16 1) ''eth0'') sample_manifest (NewRegistry 0)))) = 1"
  using registry_invariant [OF reach_step [OF reach_new [of 0] step_upsert [of _ 5 "Addr6 (replicate 16 1) ''eth0''" sample_manifest]]]
  by (simp add: reg_Len_def Upsert_def NewRegistry_def Let_def sample_manifest_def has_def)


text \<open>
  The groups an entry keeps. In the list form they are the announced indices below \<open>2^ShardBits\<close>, in
  their order; in the bitmap form the positions of the set bits below \<open>2^ShardBits\<close>. Without the
  GroupsValid flag there are none.
\<close>

theorem announced_groups:
  assumes "unat (sm_ShardBits m) \<le> 16" and "length (sm_Bitmap m) < 2 ^ 29"
  shows "(\<not> has (sm_Flags m) FlagGroupsValid \<longrightarrow> expandGroups m = []) \<and>
    (has (sm_Flags m) FlagGroupsValid \<and> sm_Groups m \<noteq> [] \<longrightarrow>
      expandGroups m = filter (\<lambda>g. unat g < 2 ^ unat (sm_ShardBits m)) (sm_Groups m)) \<and>
    (has (sm_Flags m) FlagGroupsValid \<and> sm_Groups m = [] \<longrightarrow>
      set (expandGroups m) = {g. unat g < 2 ^ unat (sm_ShardBits m) \<and> unat g div 8 < length (sm_Bitmap m) \<and>
        bit (sm_Bitmap m ! (unat g div 8)) (unat g mod 8)})"
proof -
  have "unat (sm_ShardBits m) < 32" using assms(1) by linarith
  then show ?thesis
    using expandGroups_list [of m] expandGroups_bitmap [OF _ _ assms] by (auto simp: expandGroups_def)
qed

theorem announced_groups_witness:
  "unat (sm_ShardBits sample_manifest) \<le> 16 \<and> length (sm_Bitmap sample_manifest) < 2 ^ 29 \<and> has (sm_Flags sample_manifest) FlagGroupsValid \<and>
   2 \<in> set (expandGroups sample_manifest) \<and> 1 \<notin> set (expandGroups sample_manifest)"
  using announced_groups [of sample_manifest] by (simp add: sample_manifest_def has_def bit_simps)

end
