(* ===== verification/Manifest_Evaluator.thy ===== *)
theory Manifest_Evaluator
  imports Manifest_Registry Shard
begin

unbundle bit_operations_syntax

text \<open>
  The evaluator of \<^verbatim>\<open>manifest/evaluator.go\<close> and \<^verbatim>\<open>manifest/domains.go\<close>: from a snapshot of the registry it
  derives the adopted configuration. Authoritative announcers vote; a value that reaches the quorum is
  adopted once it has been a candidate for the hysteresis time; pinned values are never overridden.

  Go iterates over maps in no particular order, and the loop that picks the best candidate returns
  the first one among those with the highest count. The model has the orders of these iterations as a
  parameter \<open>it\<close>, one per map (the maps of an object plane by its domain id, those of the transaction
  plane with id 0); \<open>legal_order\<close> says that they visit each element once.
\<close>

section \<open>Data\<close>

record successor_view =
  sv_GenerationID :: bytes
  sv_ShardBits :: u8
  sv_SourceModeSSM :: bool
  sv_TransitionEpoch :: u32
  sv_FirstObservedQuorumAt :: instant

record domain_adoption =
  da_ShardBits :: u8
  da_SourceModeSSM :: bool
  da_Successor :: "successor_view option"
  da_QuorumMet :: bool
  da_Divergent :: bool

record adopted =
  ad_ShardBits :: u8
  ad_SourceModeSSM :: bool
  ad_PilotGroups :: "u16 list"
  ad_SourceSet :: "netaddr list"
  ad_Successor :: "successor_view option"
  ad_PilotsKnown :: nat
  ad_QuorumMet :: "(string \<times> bool) list"
  ad_DivergenceFields :: "string list"
  ad_Domains :: "(u8 \<times> domain_adoption) list"

record pin =
  pin_ShardBits :: u8
  pin_HasShardBitsPin :: bool
  pin_SourceModeSSM :: bool
  pin_HasSourceModePin :: bool
  pin_DomainShardBits :: "(u8 \<times> u8) list"

record evaluator_config =
  cfg_Quorum :: int
  cfg_Hysteresis :: duration
  cfg_Pin :: pin

type_synonym field_key = "string \<times> u64"

record evaluator =
  ev_cfg :: evaluator_config
  ev_hysteresis :: "(field_key \<times> instant) list"
  ev_adopted :: adopted

definition zeroAdopted :: adopted where
  "zeroAdopted = \<lparr>ad_ShardBits = 0, ad_SourceModeSSM = False, ad_PilotGroups = [], ad_SourceSet = [], ad_Successor = None,
     ad_PilotsKnown = 0, ad_QuorumMet = [], ad_DivergenceFields = [], ad_Domains = []\<rparr>"

definition zeroDomain :: domain_adoption where
  "zeroDomain = \<lparr>da_ShardBits = 0, da_SourceModeSSM = False, da_Successor = None, da_QuorumMet = False, da_Divergent = False\<rparr>"

definition NewEvaluator :: "evaluator_config \<Rightarrow> evaluator" where
  "NewEvaluator cfg =
     \<lparr>ev_cfg = (if cfg_Quorum cfg \<le> 0 then cfg\<lparr>cfg_Quorum := 2\<rparr> else cfg),
      ev_hysteresis = [], ev_adopted = zeroAdopted\<rparr>"

section \<open>Tallies\<close>

record successor_key =
  sk_gen :: bytes
  sk_shardBits :: u8
  sk_transitionEpoch :: u32
  sk_ssm :: bool

record tally =
  t_count :: nat
  t_exemplar :: reg_entry

definition bump :: "'v \<Rightarrow> reg_entry \<Rightarrow> ('v \<times> tally) list \<Rightarrow> ('v \<times> tally) list" where
  "bump v e m =
     (case map_of m v of
        None \<Rightarrow> m @ [(v, \<lparr>t_count = 1, t_exemplar = e\<rparr>)]
      | Some t \<Rightarrow> AList.update v (t\<lparr>t_count := t_count t + 1\<rparr>) m)"

definition bumpUint8 :: "u8 \<Rightarrow> reg_entry \<Rightarrow> (u8 \<times> tally) list \<Rightarrow> (u8 \<times> tally) list" where
  "bumpUint8 = bump"

definition bumpBool :: "bool \<Rightarrow> reg_entry \<Rightarrow> (bool \<times> tally) list \<Rightarrow> (bool \<times> tally) list" where
  "bumpBool = bump"

definition bumpSuccessor :: "successor_key \<Rightarrow> reg_entry \<Rightarrow> (successor_key \<times> tally) list \<Rightarrow> (successor_key \<times> tally) list" where
  "bumpSuccessor = bump"

definition best_loop :: "('v \<times> tally) list \<Rightarrow> 'v \<times> nat \<Rightarrow> 'v \<times> nat" where
  "best_loop m st = foldl (\<lambda>(best, bestCount) (v, t). if bestCount < t_count t then (v, t_count t) else (best, bestCount)) st m"

definition best_of :: "'v \<Rightarrow> ('v \<times> tally) list \<Rightarrow> int \<Rightarrow> 'v option" where
  "best_of zero m quorum =
     (let (best, bestCount) = best_loop m (zero, 0) in
      if int bestCount < quorum then None else Some best)"

definition bestCandidate :: "(u8 \<times> tally) list \<Rightarrow> int \<Rightarrow> u8 option" where
  "bestCandidate = best_of 0"

definition bestCandidateBool :: "(bool \<times> tally) list \<Rightarrow> int \<Rightarrow> bool option" where
  "bestCandidateBool = best_of False"

definition bestSuccessor :: "(successor_key \<times> tally) list \<Rightarrow> int \<Rightarrow> successor_key option" where
  "bestSuccessor = best_of \<lparr>sk_gen = replicate 16 0, sk_shardBits = 0, sk_transitionEpoch = 0, sk_ssm = False\<rparr>"

definition hasMultipleCandidates :: "(u8 \<times> tally) list \<Rightarrow> bool" where
  "hasMultipleCandidates m \<longleftrightarrow> 1 < length m"

definition hasMultipleCandidatesBool :: "(bool \<times> tally) list \<Rightarrow> bool" where
  "hasMultipleCandidatesBool m \<longleftrightarrow> 1 < length m"

definition hasNonPinDisagreement :: "(u8 \<times> tally) list \<Rightarrow> u8 \<Rightarrow> bool" where
  "hasNonPinDisagreement m pv = list_ex (\<lambda>(v, t). v \<noteq> pv) m"

definition hasNonPinDisagreementBool :: "(bool \<times> tally) list \<Rightarrow> bool \<Rightarrow> bool" where
  "hasNonPinDisagreementBool m pv = list_ex (\<lambda>(v, t). v \<noteq> pv) m"

definition successorHash :: "successor_key \<Rightarrow> u64" where
  "successorHash sk =
     (let h = foldl (\<lambda>h b. h * 131 + ucast b) 0 (sk_gen sk);
          h = h * 131 + ucast (sk_shardBits sk);
          h = h * 131 + ucast (sk_transitionEpoch sk) in
      if sk_ssm sk then h * 131 + 1 else h)"

definition boolToUint64 :: "bool \<Rightarrow> u64" where
  "boolToUint64 b = (if b then 1 else 0)"

record iteration_order =
  it_bits :: "u8 \<Rightarrow> (u8 \<times> tally) list \<Rightarrow> (u8 \<times> tally) list"
  it_ssm :: "u8 \<Rightarrow> (bool \<times> tally) list \<Rightarrow> (bool \<times> tally) list"
  it_succ :: "u8 \<Rightarrow> (successor_key \<times> tally) list \<Rightarrow> (successor_key \<times> tally) list"
  it_ids :: "u8 list \<Rightarrow> u8 list"

definition legal_order :: "iteration_order \<Rightarrow> bool" where
  "legal_order it \<longleftrightarrow>
     (\<forall>i m. set (it_bits it i m) = set m) \<and> (\<forall>i m. set (it_ssm it i m) = set m) \<and>
     (\<forall>i m. set (it_succ it i m) = set m) \<and>
     (\<forall>ids. set (it_ids it ids) = set ids \<and> (distinct ids \<longrightarrow> distinct (it_ids it ids)))"

section \<open>Hysteresis\<close>

definition hysteresisElapsed :: "evaluator \<Rightarrow> field_key \<Rightarrow> instant \<Rightarrow> reg_entry \<Rightarrow> bool \<times> evaluator" where
  "hysteresisElapsed e k now exemplar =
     (case map_of (ev_hysteresis e) k of
        None \<Rightarrow> (cfg_Hysteresis (ev_cfg e) = 0 \<and> en_AnnounceInterval exemplar = 0,
                 e\<lparr>ev_hysteresis := AList.update k now (ev_hysteresis e)\<rparr>)
      | Some first \<Rightarrow>
          (let window = cfg_Hysteresis (ev_cfg e);
               window = (if window = 0 then 2 * int (unat (en_AnnounceInterval exemplar)) * Second else window) in
           (window \<le> time_Sub now first, e)))"

definition checkHysteresis :: "evaluator \<Rightarrow> field_key \<Rightarrow> instant \<Rightarrow> instant" where
  "checkHysteresis e k now = (case map_of (ev_hysteresis e) k of Some t \<Rightarrow> t | None \<Rightarrow> now)"

definition forgetField :: "string \<Rightarrow> evaluator \<Rightarrow> evaluator" where
  "forgetField field e = e\<lparr>ev_hysteresis := filter (\<lambda>(k, t). fst k \<noteq> field) (ev_hysteresis e)\<rparr>"

section \<open>Evaluate\<close>

record tallies =
  tl_shardBits :: "(u8 \<times> tally) list"
  tl_sourceMode :: "(bool \<times> tally) list"
  tl_successor :: "(successor_key \<times> tally) list"
  tl_pilotGroups :: "u16 list"
  tl_allSources :: "netaddr list"
  tl_pilotsKnown :: nat

definition zeroTallies :: tallies where
  "zeroTallies = \<lparr>tl_shardBits = [], tl_sourceMode = [], tl_successor = [], tl_pilotGroups = [], tl_allSources = [], tl_pilotsKnown = 0\<rparr>"

definition successorKeyOf :: "successor_block \<Rightarrow> successor_key" where
  "successorKeyOf s = \<lparr>sk_gen = sb_GenerationID s, sk_shardBits = sb_ShardBits s,
     sk_transitionEpoch = sb_TransitionEpoch s, sk_ssm = has (sb_Flags s) SuccessorFlagSourceModeSSM\<rparr>"

definition tallyEntry :: "tallies \<Rightarrow> reg_entry \<Rightarrow> tallies" where
  "tallyEntry ts en =
     (let ts = ts\<lparr>tl_allSources := set_add_all (en_Sources en) (tl_allSources ts)\<rparr> in
      if \<not> Authoritative en then ts else
      let ts = ts\<lparr>tl_pilotsKnown := tl_pilotsKnown ts + 1,
                 tl_shardBits := bumpUint8 (en_ShardBits en) en (tl_shardBits ts),
                 tl_sourceMode := bumpBool (Entry_SourceModeSSM en) en (tl_sourceMode ts)\<rparr>;
          ts = (if PilotOnly en then ts\<lparr>tl_pilotGroups := set_add_all (en_Groups en) (tl_pilotGroups ts)\<rparr> else ts) in
      case en_Successor en of
        None \<Rightarrow> ts
      | Some s \<Rightarrow> ts\<lparr>tl_successor := bumpSuccessor (successorKeyOf s) en (tl_successor ts)\<rparr>)"

definition tallySnapshot :: "reg_entry list \<Rightarrow> tallies" where
  "tallySnapshot snap = foldl tallyEntry zeroTallies snap"

definition diverges :: "string \<Rightarrow> bool \<Rightarrow> adopted \<Rightarrow> adopted" where
  "diverges field b out = (if b then out\<lparr>ad_DivergenceFields := ad_DivergenceFields out @ [field]\<rparr> else out)"

definition quorumMet :: "string \<Rightarrow> bool \<Rightarrow> adopted \<Rightarrow> adopted" where
  "quorumMet field b out = out\<lparr>ad_QuorumMet := AList.update field b (ad_QuorumMet out)\<rparr>"

text \<open>The exemplar of a candidate; a candidate that \<open>best_of\<close> returned for a positive quorum has one.\<close>

definition exemplar :: "('v \<times> tally) list \<Rightarrow> 'v \<Rightarrow> reg_entry" where
  "exemplar m v = t_exemplar (the (map_of m v))"

definition evaluateShardBits ::
  "iteration_order \<Rightarrow> instant \<Rightarrow> (u8 \<times> tally) list \<Rightarrow> evaluator \<times> adopted \<Rightarrow> bool \<times> evaluator \<times> adopted"
where
  "evaluateShardBits it now shardBitsT = (\<lambda>(e, out).
     let p = cfg_Pin (ev_cfg e) in
     if pin_HasShardBitsPin p then
       (False, e, diverges ''shard_bits'' (hasNonPinDisagreement shardBitsT (pin_ShardBits p))
         (quorumMet ''shard_bits'' True (out\<lparr>ad_ShardBits := pin_ShardBits p\<rparr>)))
     else case bestCandidate (it_bits it 0 shardBitsT) (cfg_Quorum (ev_cfg e)) of
       Some v \<Rightarrow>
         (let out = quorumMet ''shard_bits'' True out;
              key = (''shard_bits'', ucast v);
              (done, e, out) =
                (if 0 \<le> time_Sub now (checkHysteresis e key now) then
                   let (elapsed, e) = hysteresisElapsed e key now (exemplar shardBitsT v) in
                   if elapsed then (True, e\<lparr>ev_adopted := (ev_adopted e)\<lparr>ad_ShardBits := v\<rparr>\<rparr>, out\<lparr>ad_ShardBits := v\<rparr>)
                   else (False, e, out\<lparr>ad_ShardBits := ad_ShardBits (ev_adopted e)\<rparr>)
                 else (False, e, out\<lparr>ad_ShardBits := ad_ShardBits (ev_adopted e)\<rparr>)) in
          (done, e, diverges ''shard_bits'' (hasMultipleCandidates shardBitsT) out))
     | None \<Rightarrow>
         (False, e, diverges ''shard_bits'' (hasMultipleCandidates shardBitsT)
           (quorumMet ''shard_bits'' False (out\<lparr>ad_ShardBits := ad_ShardBits (ev_adopted e)\<rparr>))))"

definition evaluateSourceMode ::
  "iteration_order \<Rightarrow> instant \<Rightarrow> (bool \<times> tally) list \<Rightarrow> evaluator \<times> adopted \<Rightarrow> evaluator \<times> adopted"
where
  "evaluateSourceMode it now sourceModeT = (\<lambda>(e, out).
     let p = cfg_Pin (ev_cfg e) in
     if pin_HasSourceModePin p then
       (e, diverges ''source_mode'' (hasNonPinDisagreementBool sourceModeT (pin_SourceModeSSM p))
         (quorumMet ''source_mode'' True (out\<lparr>ad_SourceModeSSM := pin_SourceModeSSM p\<rparr>)))
     else case bestCandidateBool (it_ssm it 0 sourceModeT) (cfg_Quorum (ev_cfg e)) of
       Some v \<Rightarrow>
         (let out = quorumMet ''source_mode'' True out;
              (elapsed, e) = hysteresisElapsed e (''source_mode'', boolToUint64 v) now (exemplar sourceModeT v);
              (e, out) =
                (if elapsed then (e\<lparr>ev_adopted := (ev_adopted e)\<lparr>ad_SourceModeSSM := v\<rparr>\<rparr>, out\<lparr>ad_SourceModeSSM := v\<rparr>)
                 else (e, out\<lparr>ad_SourceModeSSM := ad_SourceModeSSM (ev_adopted e)\<rparr>)) in
          (e, diverges ''source_mode'' (hasMultipleCandidatesBool sourceModeT) out))
     | None \<Rightarrow>
         (e, quorumMet ''source_mode'' False (out\<lparr>ad_SourceModeSSM := ad_SourceModeSSM (ev_adopted e)\<rparr>)))"

definition viewOf :: "successor_key \<Rightarrow> instant \<Rightarrow> successor_view" where
  "viewOf sv now = \<lparr>sv_GenerationID = sk_gen sv, sv_ShardBits = sk_shardBits sv, sv_SourceModeSSM = sk_ssm sv,
     sv_TransitionEpoch = sk_transitionEpoch sv, sv_FirstObservedQuorumAt = now\<rparr>"

text \<open>A view is replaced only by one of another generation.\<close>

definition adoptSuccessor :: "successor_key \<Rightarrow> instant \<Rightarrow> successor_view option \<Rightarrow> successor_view option" where
  "adoptSuccessor sv now cur =
     (case cur of
        Some c \<Rightarrow> if sv_GenerationID c \<noteq> sk_gen sv then Some (viewOf sv now) else Some c
      | None \<Rightarrow> Some (viewOf sv now))"

definition evaluateSuccessor ::
  "iteration_order \<Rightarrow> instant \<Rightarrow> (successor_key \<times> tally) list \<Rightarrow> evaluator \<times> adopted \<Rightarrow> evaluator \<times> adopted"
where
  "evaluateSuccessor it now successorT = (\<lambda>(e, out).
     case bestSuccessor (it_succ it 0 successorT) (cfg_Quorum (ev_cfg e)) of
       Some sv \<Rightarrow>
         (if withinOneBit (ad_ShardBits out) (sk_shardBits sv) then
            let out = quorumMet ''successor'' True out;
                (elapsed, e) = hysteresisElapsed e (''successor'', successorHash sv) now (exemplar successorT sv) in
            if elapsed then
              let e = e\<lparr>ev_adopted := (ev_adopted e)\<lparr>ad_Successor := adoptSuccessor sv now (ad_Successor (ev_adopted e))\<rparr>\<rparr> in
              (e, out\<lparr>ad_Successor := ad_Successor (ev_adopted e)\<rparr>)
            else (e, out)
          else (e, out))
     | None \<Rightarrow>
         (forgetField ''successor'' (e\<lparr>ev_adopted := (ev_adopted e)\<lparr>ad_Successor := None\<rparr>\<rparr>),
          out\<lparr>ad_Successor := None\<rparr>))"

section \<open>Object planes (domains.go)\<close>

record dom_tally =
  dt_bits :: "(u8 \<times> tally) list"
  dt_ssm :: "(bool \<times> tally) list"
  dt_succ :: "(successor_key \<times> tally) list"

definition domainField :: "u8 \<Rightarrow> string \<Rightarrow> string" where
  "domainField i field = ''domain_'' @ decimal (unat i) @ ''_'' @ field"

definition tallyDomain :: "reg_entry \<Rightarrow> (u8 \<times> dom_tally) list \<Rightarrow> domain_descriptor \<Rightarrow> (u8 \<times> dom_tally) list" where
  "tallyDomain en ts d =
     (if dd_DomainID d = 0 then ts else
      let dt = (case map_of ts (dd_DomainID d) of Some dt \<Rightarrow> dt | None \<Rightarrow> \<lparr>dt_bits = [], dt_ssm = [], dt_succ = []\<rparr>);
          dt = dt\<lparr>dt_bits := bumpUint8 (dd_ShardBits d) en (dt_bits dt),
                  dt_ssm := bumpBool (has (dd_Flags d) DomainFlagSourceModeSSM) en (dt_ssm dt)\<rparr>;
          dt = (case dd_Successor d of
                  None \<Rightarrow> dt
                | Some s \<Rightarrow> dt\<lparr>dt_succ := bumpSuccessor (successorKeyOf s) en (dt_succ dt)\<rparr>) in
      AList.update (dd_DomainID d) dt ts)"

definition tallyDomains :: "reg_entry list \<Rightarrow> (u8 \<times> dom_tally) list" where
  "tallyDomains snap =
     foldl (\<lambda>ts en. if Authoritative en then foldl (tallyDomain en) ts (en_Domains en) else ts) [] snap"

definition domainIDs :: "evaluator \<Rightarrow> (u8 \<times> dom_tally) list \<Rightarrow> u8 list" where
  "domainIDs e ts =
     set_add_all (map fst (ad_Domains (ev_adopted e)))
       (set_add_all (filter (\<lambda>i. i \<noteq> 0) (map fst (pin_DomainShardBits (cfg_Pin (ev_cfg e)))))
         (set_add_all (map fst ts) []))"

definition evalDomainBits ::
  "iteration_order \<Rightarrow> instant \<Rightarrow> u8 \<Rightarrow> (u8 \<times> tally) list \<Rightarrow> evaluator \<times> domain_adoption \<Rightarrow> evaluator \<times> domain_adoption"
where
  "evalDomainBits it now i bits = (\<lambda>(e, da).
     let (e, da) =
       (case bestCandidate (it_bits it i bits) (cfg_Quorum (ev_cfg e)) of
          Some v \<Rightarrow>
            let da = da\<lparr>da_QuorumMet := True\<rparr>;
                (elapsed, e) = hysteresisElapsed e (domainField i ''shard_bits'', ucast v) now (exemplar bits v) in
            (e, if elapsed then da\<lparr>da_ShardBits := v\<rparr> else da)
        | None \<Rightarrow> (e, da\<lparr>da_QuorumMet := False\<rparr>)) in
     (e, da\<lparr>da_Divergent := hasMultipleCandidates bits\<rparr>))"

definition evalDomainMode ::
  "iteration_order \<Rightarrow> instant \<Rightarrow> u8 \<Rightarrow> (bool \<times> tally) list \<Rightarrow> evaluator \<times> domain_adoption \<Rightarrow> evaluator \<times> domain_adoption"
where
  "evalDomainMode it now i ssm = (\<lambda>(e, da).
     case bestCandidateBool (it_ssm it i ssm) (cfg_Quorum (ev_cfg e)) of
       Some v \<Rightarrow>
         let (elapsed, e) = hysteresisElapsed e (domainField i ''source_mode'', boolToUint64 v) now (exemplar ssm v) in
         (e, if elapsed then da\<lparr>da_SourceModeSSM := v\<rparr> else da)
     | None \<Rightarrow> (e, da))"

definition evalDomainSuccessor ::
  "iteration_order \<Rightarrow> instant \<Rightarrow> u8 \<Rightarrow> (successor_key \<times> tally) list \<Rightarrow> evaluator \<times> domain_adoption \<Rightarrow> evaluator \<times> domain_adoption"
where
  "evalDomainSuccessor it now i succ = (\<lambda>(e, da).
     case bestSuccessor (it_succ it i succ) (cfg_Quorum (ev_cfg e)) of
       Some sv \<Rightarrow>
         (if withinOneBit (da_ShardBits da) (sk_shardBits sv) then
            let (elapsed, e) = hysteresisElapsed e (domainField i ''successor'', successorHash sv) now (exemplar succ sv) in
            (e, if elapsed then da\<lparr>da_Successor := adoptSuccessor sv now (da_Successor da)\<rparr> else da)
          else (e, da))
     | None \<Rightarrow>
         if succ = [] then (forgetField (domainField i ''successor'') e, da\<lparr>da_Successor := None\<rparr>)
         else (e, da))"

definition adoptDomain ::
  "iteration_order \<Rightarrow> instant \<Rightarrow> (u8 \<times> dom_tally) list \<Rightarrow> u8 \<Rightarrow> evaluator \<Rightarrow> evaluator \<times> domain_adoption"
where
  "adoptDomain it now ts i e =
     (let da = (case map_of (ad_Domains (ev_adopted e)) i of Some da \<Rightarrow> da | None \<Rightarrow> zeroDomain) in
      case map_of (pin_DomainShardBits (cfg_Pin (ev_cfg e))) i of
        Some pv \<Rightarrow>
          (e, da\<lparr>da_ShardBits := pv, da_QuorumMet := True,
                da_Divergent := (case map_of ts i of Some dt \<Rightarrow> hasNonPinDisagreement (dt_bits dt) pv | None \<Rightarrow> False)\<rparr>)
      | None \<Rightarrow>
          (case map_of ts i of
             Some dt \<Rightarrow>
               evalDomainSuccessor it now i (dt_succ dt)
                 (evalDomainMode it now i (dt_ssm dt) (evalDomainBits it now i (dt_bits dt) (e, da)))
           | None \<Rightarrow> (e, da\<lparr>da_QuorumMet := False, da_Divergent := False\<rparr>)))"

definition evaluateDomain ::
  "iteration_order \<Rightarrow> instant \<Rightarrow> (u8 \<times> dom_tally) list \<Rightarrow> evaluator \<times> adopted \<Rightarrow> u8 \<Rightarrow> evaluator \<times> adopted"
where
  "evaluateDomain it now ts = (\<lambda>(e, out) i.
     let (e, da) = adoptDomain it now ts i e;
         bitsField = domainField i ''shard_bits'';
         out = quorumMet bitsField (da_QuorumMet da) (diverges bitsField (da_Divergent da) out) in
     (e\<lparr>ev_adopted := (ev_adopted e)\<lparr>ad_Domains := AList.update i da (ad_Domains (ev_adopted e))\<rparr>\<rparr>,
      out\<lparr>ad_Domains := AList.update i da (ad_Domains out)\<rparr>))"

definition evaluateDomains ::
  "iteration_order \<Rightarrow> instant \<Rightarrow> reg_entry list \<Rightarrow> evaluator \<times> adopted \<Rightarrow> evaluator \<times> adopted"
where
  "evaluateDomains it now snap = (\<lambda>(e, out).
     let ts = tallyDomains snap in
     foldl (evaluateDomain it now ts) (e, out) (it_ids it (domainIDs e ts)))"

section \<open>A pass\<close>

text \<open>The sets of addresses and of group indices have distinct elements, so that every sort gives the same list.\<close>

definition sortAddrs :: "netaddr list \<Rightarrow> netaddr list" where
  [simp]: "sortAddrs m = sort m"

definition sortUint16s :: "u16 list \<Rightarrow> u16 list" where
  [simp]: "sortUint16s m = sort m"

text \<open>
  When the shard width is adopted, the adopted view keeps a reference to the map \<^verbatim>\<open>out.QuorumMet\<close>; the
  rest of the pass writes to the same map, so the view ends up with its final contents.
\<close>

definition Evaluate :: "iteration_order \<Rightarrow> instant \<Rightarrow> reg_entry list \<Rightarrow> evaluator \<Rightarrow> adopted \<times> evaluator" where
  "Evaluate it now snap e =
     (let ts = tallySnapshot snap;
          out = zeroAdopted\<lparr>ad_PilotsKnown := tl_pilotsKnown ts, ad_SourceSet := sortAddrs (tl_allSources ts),
                  ad_PilotGroups := sortUint16s (tl_pilotGroups ts)\<rparr>;
          (shared, e, out) = evaluateShardBits it now (tl_shardBits ts) (e, out);
          (e, out) = evaluateSourceMode it now (tl_sourceMode ts) (e, out);
          (e, out) = evaluateSuccessor it now (tl_successor ts) (e, out);
          (e, out) = evaluateDomains it now snap (e, out);
          e = (if shared then e\<lparr>ev_adopted := (ev_adopted e)\<lparr>ad_QuorumMet := ad_QuorumMet out\<rparr>\<rparr> else e) in
      (out\<lparr>ad_DivergenceFields := sort (ad_DivergenceFields out)\<rparr>, e))"

end
