(* ===== verification/Evaluator_Spec.thy ===== *)
theory Evaluator_Spec
  imports Manifest_Evaluator
begin

text \<open>
  What the evaluator guarantees: what a tally counts, which candidate wins, when a value is adopted
  (\<open>adoption_history\<close>: only with a quorum, twice, a hysteresis window apart; \<open>adoption_live\<close>: then it is),
  and what pins and the ungated fields are.
\<close>

section \<open>Tallies count votes\<close>

definition votes :: "(reg_entry \<Rightarrow> 'v option) \<Rightarrow> reg_entry list \<Rightarrow> 'v \<Rightarrow> nat" where
  "votes f snap v = length (filter (\<lambda>en. Authoritative en \<and> f en = Some v) snap)"

definition vote_at :: "(reg_entry \<Rightarrow> 'v option) \<Rightarrow> reg_entry list \<Rightarrow> 'v \<Rightarrow> tally option \<Rightarrow> bool" where
  "vote_at f snap v r =
     (case r of
        None \<Rightarrow> votes f snap v = 0
      | Some t \<Rightarrow> t_count t = votes f snap v \<and> 0 < t_count t \<and>
          t_exemplar t \<in> set snap \<and> Authoritative (t_exemplar t) \<and> f (t_exemplar t) = Some v)"

definition tally_ok :: "(reg_entry \<Rightarrow> 'v option) \<Rightarrow> reg_entry list \<Rightarrow> ('v \<times> tally) list \<Rightarrow> bool" where
  "tally_ok f snap m \<longleftrightarrow> distinct (map fst m) \<and> (\<forall>v. vote_at f snap v (map_of m v))"

lemma votes_snoc:
  "votes f (snap @ [en]) v = votes f snap v + (if Authoritative en \<and> f en = Some v then 1 else 0)"
  by (simp add: votes_def)

lemma map_of_bump:
  "map_of (bump v e m) = (map_of m)(v \<mapsto> (case map_of m v of None \<Rightarrow> \<lparr>t_count = 1, t_exemplar = e\<rparr> | Some t \<Rightarrow> t\<lparr>t_count := t_count t + 1\<rparr>))"
  by (auto simp: bump_def update_conv' map_add_def split: option.split)

lemma distinct_bump: "distinct (map fst m) \<Longrightarrow> distinct (map fst (bump v e m))"
  by (auto simp: bump_def distinct_update map_of_eq_None_iff split: option.split)

lemma tally_ok_Nil: "tally_ok f [] []"
  by (simp add: tally_ok_def vote_at_def votes_def)

lemma tally_ok_bump:
  assumes "tally_ok f snap m" and "Authoritative en" and "f en = Some v"
  shows "tally_ok f (snap @ [en]) (bump v en m)"
proof -
  have "vote_at f (snap @ [en]) w (map_of (bump v en m) w)" for w
  proof -
    have at: "vote_at f snap w (map_of m w)" using assms(1) by (simp add: tally_ok_def)
    then show ?thesis
      using assms(2,3) unfolding map_of_bump by (cases "w = v"; cases "map_of m w") (simp_all add: vote_at_def votes_snoc)
  qed
  then show ?thesis using assms(1) by (simp add: tally_ok_def distinct_bump)
qed

lemma tally_ok_skip:
  assumes "tally_ok f snap m" and "\<not> Authoritative en \<or> f en = None"
  shows "tally_ok f (snap @ [en]) m"
proof -
  have v: "votes f (snap @ [en]) w = votes f snap w" for w using assms(2) by (auto simp: votes_snoc)
  have "vote_at f snap w r \<Longrightarrow> vote_at f (snap @ [en]) w r" for w r
    by (cases r) (simp_all add: vote_at_def v)
  then show ?thesis using assms(1) by (simp add: tally_ok_def)
qed

definition vote_bits :: "reg_entry \<Rightarrow> u8 option" where "vote_bits en = Some (en_ShardBits en)"
definition vote_mode :: "reg_entry \<Rightarrow> bool option" where "vote_mode en = Some (Entry_SourceModeSSM en)"
definition vote_successor :: "reg_entry \<Rightarrow> successor_key option" where "vote_successor en = map_option successorKeyOf (en_Successor en)"

lemma tallySnapshot_snoc: "tallySnapshot (snap @ [en]) = tallyEntry (tallySnapshot snap) en"
  by (simp add: tallySnapshot_def)

lemma tallyEntry_fields:
  "tl_shardBits (tallyEntry ts en) = (if Authoritative en then bump (en_ShardBits en) en (tl_shardBits ts) else tl_shardBits ts)"
  "tl_sourceMode (tallyEntry ts en) = (if Authoritative en then bump (Entry_SourceModeSSM en) en (tl_sourceMode ts) else tl_sourceMode ts)"
  "tl_successor (tallyEntry ts en) = (case en_Successor en of
     Some s \<Rightarrow> if Authoritative en then bump (successorKeyOf s) en (tl_successor ts) else tl_successor ts | None \<Rightarrow> tl_successor ts)"
  "tl_allSources (tallyEntry ts en) = set_add_all (en_Sources en) (tl_allSources ts)"
  "tl_pilotGroups (tallyEntry ts en) = (if Authoritative en \<and> PilotOnly en then set_add_all (en_Groups en) (tl_pilotGroups ts) else tl_pilotGroups ts)"
  "tl_pilotsKnown (tallyEntry ts en) = (if Authoritative en then tl_pilotsKnown ts + 1 else tl_pilotsKnown ts)"
  by (simp_all add: tallyEntry_def Let_def bumpUint8_def bumpBool_def bumpSuccessor_def split: option.split)

lemma tallyEntry_ok:
  "tally_ok vote_bits snap (tl_shardBits ts) \<Longrightarrow> tally_ok vote_bits (snap @ [en]) (tl_shardBits (tallyEntry ts en))"
  "tally_ok vote_mode snap (tl_sourceMode ts) \<Longrightarrow> tally_ok vote_mode (snap @ [en]) (tl_sourceMode (tallyEntry ts en))"
  "tally_ok vote_successor snap (tl_successor ts) \<Longrightarrow> tally_ok vote_successor (snap @ [en]) (tl_successor (tallyEntry ts en))"
proof -
  have [simp]: "vote_bits en = Some (en_ShardBits en)" "vote_mode en = Some (Entry_SourceModeSSM en)"
    "vote_successor en = map_option successorKeyOf (en_Successor en)"
    by (simp_all add: vote_bits_def vote_mode_def vote_successor_def)
  show "tally_ok vote_bits snap (tl_shardBits ts) \<Longrightarrow> tally_ok vote_bits (snap @ [en]) (tl_shardBits (tallyEntry ts en))"
    by (cases "Authoritative en") (simp_all add: tallyEntry_fields tally_ok_bump tally_ok_skip)
  show "tally_ok vote_mode snap (tl_sourceMode ts) \<Longrightarrow> tally_ok vote_mode (snap @ [en]) (tl_sourceMode (tallyEntry ts en))"
    by (cases "Authoritative en") (simp_all add: tallyEntry_fields tally_ok_bump tally_ok_skip)
  show "tally_ok vote_successor snap (tl_successor ts) \<Longrightarrow> tally_ok vote_successor (snap @ [en]) (tl_successor (tallyEntry ts en))"
    by (cases "Authoritative en"; cases "en_Successor en") (simp_all add: tallyEntry_fields tally_ok_bump tally_ok_skip)
qed

lemma tallySnapshot_ok:
  "tally_ok vote_bits snap (tl_shardBits (tallySnapshot snap)) \<and>
   tally_ok vote_mode snap (tl_sourceMode (tallySnapshot snap)) \<and>
   tally_ok vote_successor snap (tl_successor (tallySnapshot snap))"
proof (induction snap rule: rev_induct)
  case Nil
  show ?case by (simp add: tallySnapshot_def zeroTallies_def tally_ok_Nil)
next
  case (snoc en snap)
  then show ?case by (simp add: tallySnapshot_snoc tallyEntry_ok)
qed

section \<open>The best candidate\<close>

lemma best_loop_spec:
  "best_loop m (z, c0) = (b, c) \<Longrightarrow> c0 \<le> c \<and> (\<forall>(v, t) \<in> set m. t_count t \<le> c) \<and>
     (c = c0 \<and> b = z \<or> (\<exists>t. (b, t) \<in> set m \<and> t_count t = c))"
proof (induction m arbitrary: z c0)
  case Nil
  then show ?case by (simp add: best_loop_def)
next
  case (Cons x m)
  obtain v t where x: "x = (v, t)" by (cases x)
  have step: "best_loop (x # m) (z, c0) = best_loop m (if c0 < t_count t then (v, t_count t) else (z, c0))"
    by (simp add: best_loop_def x)
  show ?case
  proof (cases "c0 < t_count t")
    case True
    then have "best_loop m (v, t_count t) = (b, c)" using Cons.prems step by simp
    from Cons.IH [OF this] True show ?thesis unfolding x by force
  next
    case False
    then have "best_loop m (z, c0) = (b, c)" using Cons.prems step by simp
    from Cons.IH [OF this] False show ?thesis unfolding x by force
  qed
qed

lemma best_of_SomeD:
  assumes "best_of z m q = Some b" and "1 \<le> q"
  shows "\<exists>t. (b, t) \<in> set m \<and> q \<le> int (t_count t) \<and> (\<forall>(v, t') \<in> set m. t_count t' \<le> t_count t)"
proof -
  obtain b' c where l: "best_loop m (z, 0) = (b', c)" by (cases "best_loop m (z, 0)")
  with assms have "b' = b" "q \<le> int c" by (auto simp: best_of_def split: if_splits)
  with best_loop_spec [OF l] assms(2) show ?thesis by auto
qed

lemma best_of_NoneD:
  assumes "best_of z m q = None" and "(v, t) \<in> set m"
  shows "int (t_count t) < q"
proof -
  obtain b c where l: "best_loop m (z, 0) = (b, c)" by (cases "best_loop m (z, 0)")
  from best_loop_spec [OF l] assms(2) have "t_count t \<le> c" by auto
  moreover have "int c < q" using assms(1) l by (simp add: best_of_def split: if_splits)
  ultimately show ?thesis by simp
qed

lemma best_of_dominant:
  assumes "(v, t) \<in> set m" and "q \<le> int (t_count t)" and "1 \<le> q" and "\<forall>(v', t') \<in> set m. v' \<noteq> v \<longrightarrow> t_count t' < t_count t"
  shows "best_of z m q = Some v"
proof -
  obtain b c where l: "best_loop m (z, 0) = (b, c)" by (cases "best_loop m (z, 0)")
  from best_loop_spec [OF l] assms(1) have c: "t_count t \<le> c" by auto
  with assms(2,3) have "c \<noteq> 0" by linarith
  with best_loop_spec [OF l] obtain t' where t': "(b, t') \<in> set m" "t_count t' = c" by auto
  with assms(4) c have "b = v" by fastforce
  then show ?thesis using l c assms(2) by (simp add: best_of_def)
qed

section \<open>What a stage leaves alone\<close>

text \<open>
  The shard width of the transaction plane: the later stages of a pass neither change it, nor the
  adopted one, nor its hysteresis timers.
\<close>

definition bits_frame :: "evaluator \<Rightarrow> evaluator \<Rightarrow> bool" where
  "bits_frame e e' \<longleftrightarrow> ev_cfg e' = ev_cfg e \<and> ad_ShardBits (ev_adopted e') = ad_ShardBits (ev_adopted e) \<and>
     (\<forall>v. map_of (ev_hysteresis e') (''shard_bits'', v) = map_of (ev_hysteresis e) (''shard_bits'', v))"

definition stage_frame :: "evaluator \<times> adopted \<Rightarrow> evaluator \<times> adopted \<Rightarrow> bool" where
  "stage_frame s s' \<longleftrightarrow> bits_frame (fst s) (fst s') \<and> ad_ShardBits (snd s') = ad_ShardBits (snd s)"

lemma bits_frame_refl [simp]: "bits_frame e e"
  by (simp add: bits_frame_def)

lemma bits_frame_trans [trans]: "bits_frame e e' \<Longrightarrow> bits_frame e' e'' \<Longrightarrow> bits_frame e e''"
  by (simp add: bits_frame_def)

lemma bits_frame_adopt:
  "bits_frame e e' \<Longrightarrow> ad_ShardBits a = ad_ShardBits (ev_adopted e) \<Longrightarrow> bits_frame e (e'\<lparr>ev_adopted := a\<rparr>)"
  by (simp add: bits_frame_def)

lemma stage_frame_refl [simp]: "stage_frame s s"
  by (simp add: stage_frame_def)

lemma stage_frame_trans [trans]: "stage_frame s s' \<Longrightarrow> stage_frame s' s'' \<Longrightarrow> stage_frame s s''"
  by (auto simp: stage_frame_def intro: bits_frame_trans)

lemma hysteresis_frame:
  assumes "fst k \<noteq> ''shard_bits''"
  shows "bits_frame e (snd (hysteresisElapsed e k now ex))"
  using assms by (cases k) (auto simp: hysteresisElapsed_def bits_frame_def Let_def update_conv' split: option.split)

lemma hysteresis_adopted [simp]:
  "ev_adopted (snd (hysteresisElapsed e k now ex)) = ev_adopted e" "ev_cfg (snd (hysteresisElapsed e k now ex)) = ev_cfg e"
  by (auto simp: hysteresisElapsed_def Let_def split: option.split)

lemma map_of_forget: "map_of (filter (\<lambda>(k, t). fst k \<noteq> field) h) k = (if fst k \<noteq> field then map_of h k else None)"
  by (induction h) auto

lemma forget_frame: "field \<noteq> ''shard_bits'' \<Longrightarrow> bits_frame e (forgetField field e)"
  by (simp add: forgetField_def bits_frame_def map_of_forget)

lemma domainField_other [simp]: "domainField i f \<noteq> ''shard_bits''"
  by (simp add: domainField_def)

lemma adopted_frame [simp]:
  "bits_frame e (e\<lparr>ev_adopted := (ev_adopted e)\<lparr>ad_Successor := s\<rparr>\<rparr>)"
  "bits_frame e (e\<lparr>ev_adopted := (ev_adopted e)\<lparr>ad_SourceModeSSM := b\<rparr>\<rparr>)"
  "bits_frame e (e\<lparr>ev_adopted := (ev_adopted e)\<lparr>ad_Domains := d\<rparr>\<rparr>)"
  "bits_frame e (e\<lparr>ev_adopted := (ev_adopted e)\<lparr>ad_QuorumMet := q\<rparr>\<rparr>)"
  by (simp_all add: bits_frame_def)

lemma out_frame [simp]:
  "ad_ShardBits (diverges f b out) = ad_ShardBits out" "ad_ShardBits (quorumMet f b out) = ad_ShardBits out"
  by (simp_all add: diverges_def quorumMet_def)

lemma evaluateSourceMode_frame: "stage_frame s (evaluateSourceMode it now m s)"
proof -
  obtain e out where s: "s = (e, out)" by (cases s)
  have h: "bits_frame e (snd (hysteresisElapsed e (''source_mode'', v) now ex))" for v ex
    by (rule hysteresis_frame) simp
  show ?thesis
    by (auto simp: s evaluateSourceMode_def stage_frame_def Let_def case_prod_beta h split: option.split
        intro!: bits_frame_adopt)
qed

lemma evaluateSuccessor_frame: "stage_frame s (evaluateSuccessor it now m s)"
proof -
  obtain e out where s: "s = (e, out)" by (cases s)
  have h: "bits_frame e (snd (hysteresisElapsed e (''successor'', v) now ex))" for v ex
    by (rule hysteresis_frame) simp
  have f: "bits_frame e (forgetField ''successor'' (e\<lparr>ev_adopted := (ev_adopted e)\<lparr>ad_Successor := None\<rparr>\<rparr>))"
    by (rule bits_frame_trans [OF adopted_frame(1) forget_frame]) simp
  show ?thesis
    by (auto simp: s evaluateSuccessor_def stage_frame_def Let_def case_prod_beta h f split: option.split
        intro!: bits_frame_adopt)
qed

lemma evalDomain_frames:
  "bits_frame (fst s) (fst (evalDomainBits it now i bits s))"
  "bits_frame (fst s) (fst (evalDomainMode it now i ssm s))"
  "bits_frame (fst s) (fst (evalDomainSuccessor it now i succ s))"
proof -
  obtain e da where s: "s = (e, da)" by (cases s)
  have h: "bits_frame e (snd (hysteresisElapsed e (domainField i f, v) now ex))" for f v ex
    by (rule hysteresis_frame) simp
  have g: "bits_frame e (forgetField (domainField i f) e)" for f by (rule forget_frame) simp
  show "bits_frame (fst s) (fst (evalDomainBits it now i bits s))"
    by (auto simp: s evalDomainBits_def Let_def case_prod_beta h split: option.split)
  show "bits_frame (fst s) (fst (evalDomainMode it now i ssm s))"
    by (auto simp: s evalDomainMode_def Let_def case_prod_beta h split: option.split)
  show "bits_frame (fst s) (fst (evalDomainSuccessor it now i succ s))"
    by (auto simp: s evalDomainSuccessor_def Let_def case_prod_beta h g split: option.split)
qed

lemma adoptDomain_frame: "bits_frame e (fst (adoptDomain it now ts i e))"
proof -
  have "bits_frame e (fst (evalDomainSuccessor it now i su (evalDomainMode it now i ss (evalDomainBits it now i bi (e, d)))))" for su ss bi d
    using bits_frame_trans [OF bits_frame_trans [OF evalDomain_frames(1) evalDomain_frames(2)] evalDomain_frames(3), of "(e, d)"] by simp
  then show ?thesis by (simp add: adoptDomain_def Let_def split: option.split)
qed

lemma evaluateDomain_frame: "stage_frame s (evaluateDomain it now ts s i)"
proof -
  obtain e out where s: "s = (e, out)" by (cases s)
  obtain e' da where r: "adoptDomain it now ts i e = (e', da)" by (cases "adoptDomain it now ts i e")
  show ?thesis
    using adoptDomain_frame [of e it now ts i]
    by (simp add: s r evaluateDomain_def Let_def stage_frame_def bits_frame_def)
qed

lemma evaluateDomains_frame: "stage_frame s (evaluateDomains it now snap s)"
proof -
  have "stage_frame s' (foldl (evaluateDomain it now ts) s' ids)" for s' ts ids
  proof (induction ids arbitrary: s')
    case (Cons i ids)
    show ?case using stage_frame_trans [OF evaluateDomain_frame Cons.IH] by simp
  qed simp
  then show ?thesis by (cases s) (simp add: evaluateDomains_def Let_def)
qed

text \<open>A pass, as far as the shard width is concerned, is its first stage.\<close>

definition pass_start :: "reg_entry list \<Rightarrow> adopted" where
  "pass_start snap = zeroAdopted\<lparr>ad_PilotsKnown := tl_pilotsKnown (tallySnapshot snap),
     ad_SourceSet := sort (tl_allSources (tallySnapshot snap)), ad_PilotGroups := sort (tl_pilotGroups (tallySnapshot snap))\<rparr>"

text \<open>The stages of a pass.\<close>

lemma Evaluate_stages:
  assumes "Evaluate it now snap e = (out, e')"
  obtains shared e1 out1 e2 out2 e3 out3 e4 out4 where
    "evaluateShardBits it now (tl_shardBits (tallySnapshot snap)) (e, pass_start snap) = (shared, e1, out1)"
    "evaluateSourceMode it now (tl_sourceMode (tallySnapshot snap)) (e1, out1) = (e2, out2)"
    "evaluateSuccessor it now (tl_successor (tallySnapshot snap)) (e2, out2) = (e3, out3)"
    "evaluateDomains it now snap (e3, out3) = (e4, out4)"
    "e' = (if shared then e4\<lparr>ev_adopted := (ev_adopted e4)\<lparr>ad_QuorumMet := ad_QuorumMet out4\<rparr>\<rparr> else e4)"
    "out = out4\<lparr>ad_DivergenceFields := sort (ad_DivergenceFields out4)\<rparr>"
proof -
  obtain shared e1 out1 where 1: "evaluateShardBits it now (tl_shardBits (tallySnapshot snap)) (e, pass_start snap) = (shared, e1, out1)"
    by (metis prod_cases3)
  obtain e2 out2 where 2: "evaluateSourceMode it now (tl_sourceMode (tallySnapshot snap)) (e1, out1) = (e2, out2)" by fastforce
  obtain e3 out3 where 3: "evaluateSuccessor it now (tl_successor (tallySnapshot snap)) (e2, out2) = (e3, out3)" by fastforce
  obtain e4 out4 where 4: "evaluateDomains it now snap (e3, out3) = (e4, out4)" by fastforce
  have "e' = (if shared then e4\<lparr>ev_adopted := (ev_adopted e4)\<lparr>ad_QuorumMet := ad_QuorumMet out4\<rparr>\<rparr> else e4)"
    "out = out4\<lparr>ad_DivergenceFields := sort (ad_DivergenceFields out4)\<rparr>"
    using assms 1 2 3 4 by (simp_all add: Evaluate_def pass_start_def Let_def)
  with 1 2 3 4 show thesis by (rule that)
qed

lemma Evaluate_bits:
  assumes "evaluateShardBits it now (tl_shardBits (tallySnapshot snap)) (e, pass_start snap) = (shared, e1, out1)"
    and "Evaluate it now snap e = (out, e')"
  shows "bits_frame e1 e'" and "ad_ShardBits out = ad_ShardBits out1"
proof -
  obtain shared' e1' out1' e2 out2 e3 out3 e4 out4 where
    s1: "evaluateShardBits it now (tl_shardBits (tallySnapshot snap)) (e, pass_start snap) = (shared', e1', out1')"
    and s: "evaluateSourceMode it now (tl_sourceMode (tallySnapshot snap)) (e1', out1') = (e2, out2)"
    "evaluateSuccessor it now (tl_successor (tallySnapshot snap)) (e2, out2) = (e3, out3)"
    "evaluateDomains it now snap (e3, out3) = (e4, out4)"
    and r: "e' = (if shared' then e4\<lparr>ev_adopted := (ev_adopted e4)\<lparr>ad_QuorumMet := ad_QuorumMet out4\<rparr>\<rparr> else e4)"
    "out = out4\<lparr>ad_DivergenceFields := sort (ad_DivergenceFields out4)\<rparr>"
    by (rule Evaluate_stages [OF assms(2)])
  have eq: "shared' = shared" "e1' = e1" "out1' = out1" using s1 assms(1) by simp_all
  have "stage_frame (e1, out1) (e2, out2)" "stage_frame (e2, out2) (e3, out3)" "stage_frame (e3, out3) (e4, out4)"
    using evaluateSourceMode_frame [of "(e1, out1)"] evaluateSuccessor_frame [of "(e2, out2)"] evaluateDomains_frame [of "(e3, out3)"] s [unfolded eq]
    by metis+
  then have f: "stage_frame (e1, out1) (e4, out4)" by (blast intro: stage_frame_trans)
  with r eq show "bits_frame e1 e'" and "ad_ShardBits out = ad_ShardBits out1"
    by (auto simp: stage_frame_def intro: bits_frame_trans)
qed

section \<open>One pass and the shard width\<close>

definition window_of :: "evaluator_config \<Rightarrow> reg_entry \<Rightarrow> duration" where
  "window_of cfg ex = (if cfg_Hysteresis cfg = 0 then 2 * int (unat (en_AnnounceInterval ex)) * Second else cfg_Hysteresis cfg)"

definition bits_timer :: "evaluator \<Rightarrow> u8 \<Rightarrow> instant option" where
  "bits_timer e v = map_of (ev_hysteresis e) (''shard_bits'', ucast v)"

definition bits_elapsed :: "evaluator \<Rightarrow> instant \<Rightarrow> reg_entry \<Rightarrow> u8 \<Rightarrow> bool" where
  "bits_elapsed e now ex v =
     (case bits_timer e v of
        None \<Rightarrow> cfg_Hysteresis (ev_cfg e) = 0 \<and> en_AnnounceInterval ex = 0
      | Some first \<Rightarrow> 0 \<le> time_Sub now first \<and> window_of (ev_cfg e) ex \<le> time_Sub now first)"

lemma ucast_u8_u64 [simp]: "(ucast (v :: u8) :: u64) = ucast w \<longleftrightarrow> v = w"
  by (metis unat_ucast_up(4) unsigned_word_eqI)

text \<open>The first stage, without a pin.\<close>

lemma evaluateShardBits_None:
  assumes "\<not> pin_HasShardBitsPin (cfg_Pin (ev_cfg e))" and "bestCandidate (it_bits it 0 m) (cfg_Quorum (ev_cfg e)) = None"
    and "evaluateShardBits it now m (e, out0) = (shared, e', out)"
  shows "e' = e" and "ad_ShardBits out = ad_ShardBits (ev_adopted e)"
  using assms by (auto simp: evaluateShardBits_def Let_def)

lemma hysteresis_bits:
  assumes "hysteresisElapsed e (''shard_bits'', ucast v) now ex = (b, e1)" and "0 \<le> time_Sub now (checkHysteresis e (''shard_bits'', ucast v) now)"
  shows "b = bits_elapsed e now ex v" and "bits_timer e1 w = (if w = v \<and> bits_timer e v = None then Some now else bits_timer e w)"
  using assms
  by (auto simp: hysteresisElapsed_def checkHysteresis_def bits_elapsed_def bits_timer_def window_of_def Let_def update_conv' split: option.splits)

lemma time_Sub_self [simp]: "time_Sub t t = 0"
  by (simp add: time_Sub_def)

lemma evaluateShardBits_Some:
  assumes "\<not> pin_HasShardBitsPin (cfg_Pin (ev_cfg e))" and "bestCandidate (it_bits it 0 m) (cfg_Quorum (ev_cfg e)) = Some v"
    and "evaluateShardBits it now m (e, out0) = (shared, e', out)"
  shows "ev_cfg e' = ev_cfg e" and "ad_ShardBits out = ad_ShardBits (ev_adopted e')"
    and "ad_ShardBits (ev_adopted e') = (if bits_elapsed e now (exemplar m v) v then v else ad_ShardBits (ev_adopted e))"
    and "bits_timer e' w = (if w = v \<and> bits_timer e v = None then Some now else bits_timer e w)"
proof -
  let ?k = "(''shard_bits'', ucast v :: u64)"
  obtain b e1 where h: "hysteresisElapsed e ?k now (exemplar m v) = (b, e1)" by fastforce
  have fr: "ev_adopted e1 = ev_adopted e" "ev_cfg e1 = ev_cfg e" using hysteresis_adopted [of e ?k now "exemplar m v"] h by simp_all
  have all: "ev_cfg e' = ev_cfg e \<and> ad_ShardBits out = ad_ShardBits (ev_adopted e') \<and>
    ad_ShardBits (ev_adopted e') = (if bits_elapsed e now (exemplar m v) v then v else ad_ShardBits (ev_adopted e)) \<and>
    bits_timer e' w = (if w = v \<and> bits_timer e v = None then Some now else bits_timer e w)"
  proof (cases "0 \<le> time_Sub now (checkHysteresis e ?k now)")
    case True
    note hb = hysteresis_bits [OF h True]
    show ?thesis
    proof (cases b)
      case b: True
      then have "e' = e1\<lparr>ev_adopted := (ev_adopted e1)\<lparr>ad_ShardBits := v\<rparr>\<rparr>" "ad_ShardBits out = v"
        using assms True h by (auto simp: evaluateShardBits_def Let_def)
      then show ?thesis using fr hb b by (simp add: bits_timer_def)
    next
      case b: False
      then have "e' = e1" "ad_ShardBits out = ad_ShardBits (ev_adopted e1)"
        using assms True h by (auto simp: evaluateShardBits_def Let_def)
      then show ?thesis using fr hb b by simp
    qed
  next
    case False
    then have "\<not> bits_elapsed e now (exemplar m v) v" "bits_timer e v \<noteq> None"
      by (auto simp: bits_elapsed_def bits_timer_def checkHysteresis_def split: option.splits)
    moreover have "e' = e" "ad_ShardBits out = ad_ShardBits (ev_adopted e)"
      using assms False by (auto simp: evaluateShardBits_def Let_def)
    ultimately show ?thesis by simp
  qed
  then show "ev_cfg e' = ev_cfg e" and "ad_ShardBits out = ad_ShardBits (ev_adopted e')"
    and "ad_ShardBits (ev_adopted e') = (if bits_elapsed e now (exemplar m v) v then v else ad_ShardBits (ev_adopted e))"
    and "bits_timer e' w = (if w = v \<and> bits_timer e v = None then Some now else bits_timer e w)" by blast+
qed

text \<open>A winner has the quorum, and no value has more votes.\<close>

definition winner :: "int \<Rightarrow> reg_entry list \<Rightarrow> u8 \<Rightarrow> bool" where
  "winner q snap v \<longleftrightarrow> q \<le> int (votes vote_bits snap v) \<and> (\<forall>w. votes vote_bits snap w \<le> votes vote_bits snap v)"

lemma tally_mem:
  assumes "tally_ok f snap m" and "(v, t) \<in> set m"
  shows "t_count t = votes f snap v" "0 < votes f snap v" "exemplar m v = t_exemplar t" "t_exemplar t \<in> set snap"
    "Authoritative (t_exemplar t)" "f (t_exemplar t) = Some v"
proof -
  have m: "map_of m v = Some t" using assms by (simp add: tally_ok_def)
  moreover have "vote_at f snap v (map_of m v)" using assms(1) by (simp add: tally_ok_def)
  ultimately show "t_count t = votes f snap v" "0 < votes f snap v" "exemplar m v = t_exemplar t" "t_exemplar t \<in> set snap"
    "Authoritative (t_exemplar t)" "f (t_exemplar t) = Some v" by (simp_all add: vote_at_def exemplar_def)
qed

lemma tally_missing:
  assumes "tally_ok f snap m" and "\<forall>t. (v, t) \<notin> set m"
  shows "votes f snap v = 0"
proof -
  have "map_of m v = None" using assms(2) by (auto simp: map_of_eq_None_iff)
  moreover have "vote_at f snap v (map_of m v)" using assms(1) by (simp add: tally_ok_def)
  ultimately show ?thesis by (simp add: vote_at_def)
qed

lemma best_bits:
  assumes "legal_order it" and "1 \<le> q" and "m = tl_shardBits (tallySnapshot snap)"
  shows "bestCandidate (it_bits it 0 m) q = Some v \<Longrightarrow> winner q snap v"
    and "bestCandidate (it_bits it 0 m) q = Some v \<Longrightarrow>
      exemplar m v \<in> set snap \<and> Authoritative (exemplar m v) \<and> en_ShardBits (exemplar m v) = v"
    and "bestCandidate (it_bits it 0 m) q = None \<Longrightarrow> int (votes vote_bits snap v) < q"
    and "winner q snap v \<Longrightarrow> \<forall>w. winner q snap w \<longrightarrow> w = v \<Longrightarrow> bestCandidate (it_bits it 0 m) q = Some v"
proof -
  have ok: "tally_ok vote_bits snap m" using tallySnapshot_ok [of snap] assms(3) by simp
  have it: "set (it_bits it 0 m) = set m" using assms(1) by (simp add: legal_order_def)
  note mem = tally_mem [OF ok] and missing = tally_missing [OF ok]
  show "winner q snap v" if b: "bestCandidate (it_bits it 0 m) q = Some v"
  proof -
    obtain t where t: "(v, t) \<in> set m" "q \<le> int (t_count t)" "\<forall>(w, t') \<in> set m. t_count t' \<le> t_count t"
      using best_of_SomeD [OF b [unfolded bestCandidate_def] assms(2)] it by auto
    have "votes vote_bits snap w \<le> votes vote_bits snap v" for w
    proof (cases "\<exists>t'. (w, t') \<in> set m")
      case True
      then obtain t' where t': "(w, t') \<in> set m" by blast
      then show ?thesis using t(3) mem(1) [OF t'] mem(1) [OF t(1)] by auto
    qed (simp add: missing)
    then show ?thesis using t mem(1) by (simp add: winner_def)
  qed
  show "exemplar m v \<in> set snap \<and> Authoritative (exemplar m v) \<and> en_ShardBits (exemplar m v) = v" if b: "bestCandidate (it_bits it 0 m) q = Some v"
  proof -
    obtain t where t: "(v, t) \<in> set m"
      using best_of_SomeD [OF b [unfolded bestCandidate_def] assms(2)] it by auto
    show ?thesis using mem(3-6) [OF t] by (simp add: vote_bits_def)
  qed
  show "int (votes vote_bits snap v) < q" if b: "bestCandidate (it_bits it 0 m) q = None"
  proof (cases "\<exists>t. (v, t) \<in> set m")
    case True
    then obtain t where t: "(v, t) \<in> set m" by blast
    then show ?thesis using best_of_NoneD [OF b [unfolded bestCandidate_def], of v t] it mem(1) [OF t] by simp
  next
    case False
    then show ?thesis using missing [of v] assms(2) by simp
  qed
  show "bestCandidate (it_bits it 0 m) q = Some v" if w: "winner q snap v" and u: "\<forall>w. winner q snap w \<longrightarrow> w = v"
  proof -
    have "votes vote_bits snap v \<noteq> 0" using w assms(2) by (auto simp: winner_def)
    then have "\<not> (\<forall>t. (v, t) \<notin> set m)" by (rule contrapos_nn) (rule missing)
    then obtain t where t: "(v, t) \<in> set m" by blast
    have "votes vote_bits snap w' < votes vote_bits snap v" if "w' \<noteq> v" for w'
    proof (rule ccontr)
      assume "\<not> votes vote_bits snap w' < votes vote_bits snap v"
      then have "votes vote_bits snap w' = votes vote_bits snap v" using w by (simp add: winner_def le_antisym)
      then have "winner q snap w'" using w by (simp add: winner_def)
      then show False using u that by blast
    qed
    then have "\<forall>(v', t') \<in> set (it_bits it 0 m). v' \<noteq> v \<longrightarrow> t_count t' < t_count t"
      unfolding it using mem(1) [OF t] mem(1) by force
    moreover have "q \<le> int (t_count t)" "(v, t) \<in> set (it_bits it 0 m)" using t it w mem(1) [OF t] by (simp_all add: winner_def)
    ultimately show ?thesis unfolding bestCandidate_def using assms(2) by (intro best_of_dominant [of v t])
  qed
qed

lemma Evaluate_cfg: "Evaluate it now snap e = (out, e') \<Longrightarrow> ev_cfg e' = ev_cfg e"
proof -
  assume ev: "Evaluate it now snap e = (out, e')"
  obtain shared e1 out1 where s: "evaluateShardBits it now (tl_shardBits (tallySnapshot snap)) (e, pass_start snap) = (shared, e1, out1)"
    by (metis prod_cases3)
  have "ev_cfg e1 = ev_cfg e"
  proof (cases "pin_HasShardBitsPin (cfg_Pin (ev_cfg e))")
    case True
    then show ?thesis using s by (auto simp: evaluateShardBits_def Let_def)
  next
    case False
    then show ?thesis
      using evaluateShardBits_None(1) [OF False _ s] evaluateShardBits_Some(1) [OF False _ s]
      by (cases "bestCandidate (it_bits it 0 (tl_shardBits (tallySnapshot snap))) (cfg_Quorum (ev_cfg e))") simp_all
  qed
  with Evaluate_bits(1) [OF s ev] show "ev_cfg e' = ev_cfg e" by (simp add: bits_frame_def)
qed

lemma Evaluate_pinned:
  assumes "pin_HasShardBitsPin (cfg_Pin (ev_cfg e))" and "Evaluate it now snap e = (out, e')"
  shows "ad_ShardBits out = pin_ShardBits (cfg_Pin (ev_cfg e))"
proof -
  obtain shared e1 out1 where s: "evaluateShardBits it now (tl_shardBits (tallySnapshot snap)) (e, pass_start snap) = (shared, e1, out1)"
    by (metis prod_cases3)
  then have "ad_ShardBits out1 = pin_ShardBits (cfg_Pin (ev_cfg e))"
    using assms(1) by (auto simp: evaluateShardBits_def Let_def)
  then show ?thesis using Evaluate_bits(2) [OF s assms(2)] by simp
qed

text \<open>
  One pass, without a pin: either no value has the quorum and nothing changes, or there is a winner; its
  timer runs, from now if it did not yet, and it is adopted if the timer has elapsed.
\<close>

definition bits_outcome :: "int \<Rightarrow> reg_entry list \<Rightarrow> instant \<Rightarrow> evaluator \<Rightarrow> evaluator \<Rightarrow> bool" where
  "bits_outcome q snap now e e' \<longleftrightarrow>
     (\<forall>v. \<not> winner q snap v) \<and> ad_ShardBits (ev_adopted e') = ad_ShardBits (ev_adopted e) \<and> bits_timer e' = bits_timer e \<or>
     (\<exists>v ex. winner q snap v \<and> ex \<in> set snap \<and> Authoritative ex \<and> en_ShardBits ex = v \<and>
        ad_ShardBits (ev_adopted e') = (if bits_elapsed e now ex v then v else ad_ShardBits (ev_adopted e)) \<and>
        bits_timer e' = (if bits_timer e v = None then (bits_timer e)(v \<mapsto> now) else bits_timer e))"

lemma Evaluate_pass:
  assumes "legal_order it" and "1 \<le> cfg_Quorum (ev_cfg e)" and "\<not> pin_HasShardBitsPin (cfg_Pin (ev_cfg e))"
    and "Evaluate it now snap e = (out, e')"
  shows "ad_ShardBits out = ad_ShardBits (ev_adopted e')" and "bits_outcome (cfg_Quorum (ev_cfg e)) snap now e e'"
proof -
  define m where "m = tl_shardBits (tallySnapshot snap)"
  obtain shared e1 out1 where s: "evaluateShardBits it now m (e, pass_start snap) = (shared, e1, out1)"
    by (metis prod_cases3)
  note fr = Evaluate_bits [OF s [unfolded m_def] assms(4)]
  have t: "bits_timer e' = bits_timer e1" using fr(1) by (simp add: bits_frame_def bits_timer_def fun_eq_iff)
  have a: "ad_ShardBits (ev_adopted e') = ad_ShardBits (ev_adopted e1)" using fr(1) by (simp add: bits_frame_def)
  note bb = best_bits [OF assms(1,2) m_def]
  show "ad_ShardBits out = ad_ShardBits (ev_adopted e')"
    using evaluateShardBits_None [OF assms(3) _ s] evaluateShardBits_Some(2) [OF assms(3) _ s] fr(2) a
    by (cases "bestCandidate (it_bits it 0 m) (cfg_Quorum (ev_cfg e))") simp_all
  show "bits_outcome (cfg_Quorum (ev_cfg e)) snap now e e'"
  proof (cases "bestCandidate (it_bits it 0 m) (cfg_Quorum (ev_cfg e))")
    case None
    then have "\<not> winner (cfg_Quorum (ev_cfg e)) snap v" for v using bb(3) [OF None, of v] by (simp add: winner_def)
    then show ?thesis using evaluateShardBits_None(1) [OF assms(3) None s] a t by (simp add: bits_outcome_def)
  next
    case (Some v)
    note E = evaluateShardBits_Some(3,4) [OF assms(3) Some s]
    have "bits_timer e1 = (if bits_timer e v = None then (bits_timer e)(v \<mapsto> now) else bits_timer e)"
      using E(2) by (auto simp: fun_eq_iff)
    then show ?thesis
      unfolding bits_outcome_def using bb(1,2) [OF Some] E(1) a t by (intro disjI2 exI [of _ v] exI [of _ "exemplar m v"]) simp
  qed
qed

section \<open>Runs\<close>

text \<open>A run is a sequence of passes: the orders of its map iterations, the time and the snapshot.\<close>

type_synonym eval_pass = "iteration_order \<times> instant \<times> reg_entry list"

definition pass_time :: "eval_pass \<Rightarrow> instant" where "pass_time p = fst (snd p)"
definition pass_snap :: "eval_pass \<Rightarrow> reg_entry list" where "pass_snap p = snd (snd p)"

definition eval_pass :: "eval_pass \<Rightarrow> evaluator \<Rightarrow> adopted \<times> evaluator" where
  "eval_pass p e = Evaluate (fst p) (pass_time p) (pass_snap p) e"

definition run_passes :: "evaluator_config \<Rightarrow> eval_pass list \<Rightarrow> evaluator" where
  "run_passes cfg ps = foldl (\<lambda>e p. snd (eval_pass p e)) (NewEvaluator cfg) ps"

lemma run_passes_snoc: "run_passes cfg (ps @ [p]) = snd (eval_pass p (run_passes cfg ps))"
  by (simp add: run_passes_def)

lemma run_passes_cfg: "ev_cfg (run_passes cfg ps) = ev_cfg (NewEvaluator cfg)"
proof (induction ps rule: rev_induct)
  case (snoc p ps)
  have "Evaluate (fst p) (pass_time p) (pass_snap p) (run_passes cfg ps) = (fst (eval_pass p (run_passes cfg ps)), snd (eval_pass p (run_passes cfg ps)))"
    by (simp add: eval_pass_def)
  from Evaluate_cfg [OF this] snoc show ?case by (simp add: run_passes_snoc)
qed (simp add: run_passes_def)

lemma NewEvaluator_simps [simp]:
  "cfg_Pin (ev_cfg (NewEvaluator cfg)) = cfg_Pin cfg" "cfg_Hysteresis (ev_cfg (NewEvaluator cfg)) = cfg_Hysteresis cfg"
  "cfg_Quorum (ev_cfg (NewEvaluator cfg)) = (if cfg_Quorum cfg \<le> 0 then 2 else cfg_Quorum cfg)"
  by (simp_all add: NewEvaluator_def)

definition quorum_of :: "evaluator_config \<Rightarrow> int" where
  "quorum_of cfg = (if cfg_Quorum cfg \<le> 0 then 2 else cfg_Quorum cfg)"

lemma window_New [simp]: "window_of (ev_cfg (NewEvaluator cfg)) ex = window_of cfg ex"
  by (simp add: window_of_def)

lemma eval_pass_bits:
  assumes "legal_order (fst p)" and "\<not> pin_HasShardBitsPin (cfg_Pin cfg)"
  shows "ad_ShardBits (fst (eval_pass p (run_passes cfg ps))) = ad_ShardBits (ev_adopted (run_passes cfg (ps @ [p])))"
    and "bits_outcome (quorum_of cfg) (pass_snap p) (pass_time p) (run_passes cfg ps) (run_passes cfg (ps @ [p]))"
proof -
  let ?e = "run_passes cfg ps"
  have ev: "Evaluate (fst p) (pass_time p) (pass_snap p) ?e = (fst (eval_pass p ?e), run_passes cfg (ps @ [p]))"
    by (simp add: eval_pass_def run_passes_snoc)
  have q: "cfg_Quorum (ev_cfg ?e) = quorum_of cfg" "1 \<le> quorum_of cfg" by (simp_all add: run_passes_cfg quorum_of_def)
  have np: "\<not> pin_HasShardBitsPin (cfg_Pin (ev_cfg ?e))" using assms(2) by (simp add: run_passes_cfg)
  note P = Evaluate_pass [OF assms(1) q(2) [folded q(1)] np ev, unfolded q(1)]
  show "ad_ShardBits (fst (eval_pass p ?e)) = ad_ShardBits (ev_adopted (run_passes cfg (ps @ [p])))" by (rule P(1))
  show "bits_outcome (quorum_of cfg) (pass_snap p) (pass_time p) ?e (run_passes cfg (ps @ [p]))" by (rule P(2))
qed

text \<open>Where a timer and an adopted value come from.\<close>

definition timed_by :: "evaluator_config \<Rightarrow> eval_pass list \<Rightarrow> u8 \<Rightarrow> instant \<Rightarrow> bool" where
  "timed_by cfg ps v t \<longleftrightarrow> (\<exists>i < length ps. pass_time (ps ! i) = t \<and> winner (quorum_of cfg) (pass_snap (ps ! i)) v)"

definition adopted_by :: "evaluator_config \<Rightarrow> eval_pass list \<Rightarrow> u8 \<Rightarrow> bool" where
  "adopted_by cfg ps v \<longleftrightarrow> (\<exists>i j ex. i \<le> j \<and> j < length ps \<and>
     winner (quorum_of cfg) (pass_snap (ps ! i)) v \<and> winner (quorum_of cfg) (pass_snap (ps ! j)) v \<and>
     ex \<in> set (pass_snap (ps ! j)) \<and> Authoritative ex \<and> en_ShardBits ex = v \<and>
     window_of cfg ex \<le> time_Sub (pass_time (ps ! j)) (pass_time (ps ! i)))"

lemma timed_by_mono: "timed_by cfg ps v t \<Longrightarrow> timed_by cfg (ps @ [p]) v t"
  unfolding timed_by_def by (metis butlast_snoc length_append_singleton less_SucI nth_butlast)

lemma adopted_by_mono: "adopted_by cfg ps v \<Longrightarrow> adopted_by cfg (ps @ [p]) v"
proof -
  assume "adopted_by cfg ps v"
  then obtain i j ex where "i \<le> j" "j < length ps"
     "winner (quorum_of cfg) (pass_snap (ps ! i)) v" "winner (quorum_of cfg) (pass_snap (ps ! j)) v"
     "ex \<in> set (pass_snap (ps ! j))" "Authoritative ex" "en_ShardBits ex = v"
     "window_of cfg ex \<le> time_Sub (pass_time (ps ! j)) (pass_time (ps ! i))" unfolding adopted_by_def by blast
  then show ?thesis
    unfolding adopted_by_def by (intro exI [of _ i] exI [of _ j] exI [of _ ex]) (simp add: nth_append)
qed

lemma timed_by_now: "winner (quorum_of cfg) (pass_snap p) v \<Longrightarrow> timed_by cfg (ps @ [p]) v (pass_time p)"
  unfolding timed_by_def by (rule exI [of _ "length ps"]) simp

lemma adopted_by_now:
  assumes "winner (quorum_of cfg) (pass_snap p) v" and "ex \<in> set (pass_snap p)" and "Authoritative ex" and "en_ShardBits ex = v"
    and "timed_by cfg (ps @ [p]) v t" and "window_of cfg ex \<le> time_Sub (pass_time p) t"
  shows "adopted_by cfg (ps @ [p]) v"
proof -
  obtain i where "i < length (ps @ [p])" "pass_time ((ps @ [p]) ! i) = t" "winner (quorum_of cfg) (pass_snap ((ps @ [p]) ! i)) v"
    using assms(5) unfolding timed_by_def by blast
  then show ?thesis
    unfolding adopted_by_def using assms by (intro exI [of _ i] exI [of _ "length ps"] exI [of _ ex]) simp
qed

lemma run_history:
  assumes "\<not> pin_HasShardBitsPin (cfg_Pin cfg)"
  shows "\<forall>p \<in> set ps. legal_order (fst p) \<Longrightarrow>
    (\<forall>v t. bits_timer (run_passes cfg ps) v = Some t \<longrightarrow> timed_by cfg ps v t) \<and>
    (ad_ShardBits (ev_adopted (run_passes cfg ps)) = 0 \<or> adopted_by cfg ps (ad_ShardBits (ev_adopted (run_passes cfg ps))))"
proof (induction ps rule: rev_induct)
  case Nil
  show ?case by (simp add: run_passes_def NewEvaluator_def zeroAdopted_def bits_timer_def)
next
  case (snoc p ps)
  let ?e = "run_passes cfg ps" and ?e' = "run_passes cfg (ps @ [p])"
  have IH: "\<And>v t. bits_timer ?e v = Some t \<Longrightarrow> timed_by cfg ps v t"
    "ad_ShardBits (ev_adopted ?e) = 0 \<or> adopted_by cfg ps (ad_ShardBits (ev_adopted ?e))" using snoc by simp_all
  have "legal_order (fst p)" using snoc.prems by simp
  from eval_pass_bits(2) [OF this assms, of ps]
  consider (same) "ad_ShardBits (ev_adopted ?e') = ad_ShardBits (ev_adopted ?e)" "bits_timer ?e' = bits_timer ?e"
    | (win) v ex where "winner (quorum_of cfg) (pass_snap p) v" "ex \<in> set (pass_snap p)" "Authoritative ex" "en_ShardBits ex = v"
      "ad_ShardBits (ev_adopted ?e') = (if bits_elapsed ?e (pass_time p) ex v then v else ad_ShardBits (ev_adopted ?e))"
      "bits_timer ?e' = (if bits_timer ?e v = None then (bits_timer ?e)(v \<mapsto> pass_time p) else bits_timer ?e)"
    unfolding bits_outcome_def by blast
  then show ?case
  proof cases
    case same
    then show ?thesis using IH timed_by_mono adopted_by_mono by metis
  next
    case win
    have timers: "timed_by cfg (ps @ [p]) w t" if "bits_timer ?e' w = Some t" for w t
      using that IH(1) [of w t] win(6) timed_by_now [OF win(1)] timed_by_mono by (auto split: if_splits)
    have "adopted_by cfg (ps @ [p]) v" if el: "bits_elapsed ?e (pass_time p) ex v"
    proof (cases "bits_timer ?e v")
      case None
      then have "window_of cfg ex \<le> time_Sub (pass_time p) (pass_time p)"
        using el by (simp add: bits_elapsed_def run_passes_cfg window_of_def)
      then show ?thesis by (rule adopted_by_now [OF win(1-4) timed_by_now [OF win(1)]])
    next
      case (Some t)
      then have "window_of cfg ex \<le> time_Sub (pass_time p) t"
        using el by (simp add: bits_elapsed_def run_passes_cfg)
      then show ?thesis by (rule adopted_by_now [OF win(1-4) timed_by_mono [OF IH(1) [OF Some]]])
    qed
    then show ?thesis using timers IH(2) adopted_by_mono [of cfg ps _ p] win(5) by auto
  qed
qed

text \<open>A running timer is never reset, whatever the passes in between see.\<close>

lemma timer_kept:
  assumes "\<not> pin_HasShardBitsPin (cfg_Pin cfg)" and "bits_timer (run_passes cfg ps) v = Some t"
  shows "\<forall>p \<in> set qs. legal_order (fst p) \<Longrightarrow> bits_timer (run_passes cfg (ps @ qs)) v = Some t"
proof (induction qs rule: rev_induct)
  case Nil
  then show ?case using assms(2) by simp
next
  case (snoc q qs)
  then have "bits_timer (run_passes cfg (ps @ qs)) v = Some t" and "legal_order (fst q)" by simp_all
  with eval_pass_bits(2) [OF this(2) assms(1), of "ps @ qs"] show ?case
    by (auto simp: bits_outcome_def split: if_splits)
qed

lemma time_Sub_mono: "s \<le> t \<Longrightarrow> time_Sub u t \<le> time_Sub u s"
  by (simp add: time_Sub_def)

section \<open>Properties\<close>

text \<open>
  In every run of the evaluator, whatever the snapshots and map orders, a shard width is adopted
  only if authoritative announcers gave it the quorum, and no other value more votes, in two passes
  that are at least the hysteresis window apart (in a single pass only for a zero window).
\<close>

theorem adoption_history:
  assumes "\<not> pin_HasShardBitsPin (cfg_Pin cfg)" and "\<forall>p \<in> set ps. legal_order (fst p)"
    and "ad_ShardBits (ev_adopted (run_passes cfg ps)) = v" and "v \<noteq> 0"
  shows "\<exists>i j ex. i \<le> j \<and> j < length ps \<and>
     winner (quorum_of cfg) (pass_snap (ps ! i)) v \<and> winner (quorum_of cfg) (pass_snap (ps ! j)) v \<and>
     ex \<in> set (pass_snap (ps ! j)) \<and> Authoritative ex \<and> en_ShardBits ex = v \<and>
     window_of cfg ex \<le> time_Sub (pass_time (ps ! j)) (pass_time (ps ! i))"
  using run_history [OF assms(1,2)] assms(3,4) by (auto simp: adopted_by_def)

text \<open>
  Adoption is not missed. If a value is the only winner in a pass and again in a later pass, at
  least a hysteresis window later, then that later pass reports it as the shard width, whatever the
  passes in between saw.
\<close>

theorem adoption_live:
  assumes "\<not> pin_HasShardBitsPin (cfg_Pin cfg)" and "\<forall>p \<in> set ps. legal_order (fst p)"
    and "sorted (map pass_time ps)" and "i < j" and "j < length ps"
    and "\<forall>w. winner (quorum_of cfg) (pass_snap (ps ! i)) w \<longleftrightarrow> w = v"
    and "\<forall>w. winner (quorum_of cfg) (pass_snap (ps ! j)) w \<longleftrightarrow> w = v"
    and "\<forall>ex \<in> set (pass_snap (ps ! j)). window_of cfg ex \<le> time_Sub (pass_time (ps ! j)) (pass_time (ps ! i))"
  shows "ad_ShardBits (fst (eval_pass (ps ! j) (run_passes cfg (take j ps)))) = v"
proof -
  let ?run = "\<lambda>n. run_passes cfg (take n ps)"
  have step: "bits_outcome (quorum_of cfg) (pass_snap (ps ! n)) (pass_time (ps ! n)) (?run n) (?run (Suc n))" if "n < length ps" for n
    using eval_pass_bits(2) [OF _ assms(1), of "ps ! n" "take n ps"] assms(2) that by (simp add: take_Suc_conv_app_nth)
  have mono: "pass_time (ps ! a) \<le> pass_time (ps ! b)" if "a \<le> b" "b < length ps" for a b
    using sorted_nth_mono [OF assms(3), of a b] that by simp
  obtain t where t: "bits_timer (?run (Suc i)) v = Some t" "t \<le> pass_time (ps ! i)"
  proof (cases "bits_timer (?run i) v")
    case None
    then have "bits_timer (?run (Suc i)) v = Some (pass_time (ps ! i))"
      using step [of i] assms(4-6) by (auto simp: bits_outcome_def)
    then show thesis by (rule that) simp
  next
    case (Some t)
    have "timed_by cfg (take i ps) v t" using run_history [OF assms(1), of "take i ps"] assms(2) Some by (auto dest: in_set_takeD)
    then obtain k where "k < i" "pass_time (ps ! k) = t" using assms(4,5) by (auto simp: timed_by_def)
    then have "t \<le> pass_time (ps ! i)" using mono [of k i] assms(4,5) by simp
    moreover have "bits_timer (?run (Suc i)) v = Some t"
      using step [of i] assms(4,5) Some by (auto simp: bits_outcome_def split: if_splits)
    ultimately show thesis using that by simp
  qed
  have app: "take j ps = take (Suc i) ps @ drop (Suc i) (take j ps)"
    using append_take_drop_id [of "Suc i" "take j ps"] assms(4) by (simp add: min_absorb1)
  have "set (drop (Suc i) (take j ps)) \<subseteq> set ps" by (meson order_trans set_drop_subset set_take_subset)
  then have kept: "bits_timer (?run j) v = Some t"
    using timer_kept [OF assms(1) t(1), of "drop (Suc i) (take j ps)"] assms(2) unfolding app [symmetric] by blast
  have le: "time_Sub (pass_time (ps ! j)) (pass_time (ps ! i)) \<le> time_Sub (pass_time (ps ! j)) t" by (rule time_Sub_mono [OF t(2)])
  have "0 \<le> time_Sub (pass_time (ps ! j)) (pass_time (ps ! i))" using mono [of i j] assms(4,5) by (simp add: time_Sub_def)
  then have "bits_elapsed (?run j) (pass_time (ps ! j)) ex v" if "ex \<in> set (pass_snap (ps ! j))" for ex
    using assms(8) that kept le by (force simp: bits_elapsed_def run_passes_cfg)
  then have "ad_ShardBits (ev_adopted (?run (Suc j))) = v" using step [OF assms(5)] assms(7) by (auto simp: bits_outcome_def)
  then show ?thesis
    using eval_pass_bits(1) [OF _ assms(1), of "ps ! j" "take j ps"] assms(2,5) by (simp add: take_Suc_conv_app_nth)
qed

text \<open>A sample run: two pilots announce the width 4; the quorum is 2 and the hysteresis five seconds.\<close>

definition sample_order :: iteration_order where
  "sample_order = \<lparr>it_bits = (\<lambda>_ m. m), it_ssm = (\<lambda>_ m. m), it_succ = (\<lambda>_ m. m), it_ids = (\<lambda>ids. ids)\<rparr>"

definition sample_snap :: "reg_entry list" where
  "sample_snap = [entryOf 0 0 (Addr6 (replicate 16 1) []) sample_manifest, entryOf 0 0 (Addr6 (replicate 16 2) []) sample_manifest]"

definition sample_cfg :: evaluator_config where
  "sample_cfg = \<lparr>cfg_Quorum = 2, cfg_Hysteresis = 5 * Second, cfg_Pin = \<lparr>pin_ShardBits = 0, pin_HasShardBitsPin = False,
     pin_SourceModeSSM = False, pin_HasSourceModePin = False, pin_DomainShardBits = []\<rparr>\<rparr>"

lemma legal_sample_order: "legal_order sample_order"
  by (simp add: legal_order_def sample_order_def)

lemma votes_sample_snap: "votes vote_bits sample_snap w = (if w = 4 then 2 else 0)"
  by (simp add: votes_def vote_bits_def sample_snap_def sample_manifest_def entryOf_def Let_def Authoritative_def has_def)

lemma winner_sample_snap: "winner 2 sample_snap w \<longleftrightarrow> w = 4"
  by (auto simp: winner_def votes_sample_snap)

theorem adoption_live_witness:
  "ad_ShardBits (fst (eval_pass (sample_order, 5 * Second, sample_snap)
     (run_passes sample_cfg [(sample_order, 0, sample_snap), (sample_order, 3 * Second, [])]))) = 4"
  using adoption_live [where cfg = sample_cfg and v = 4 and i = 0 and j = 2 and
    ps = "[(sample_order, 0, sample_snap), (sample_order, 3 * Second, []), (sample_order, 5 * Second, sample_snap)]"]
  by (simp add: sample_cfg_def legal_sample_order pass_time_def pass_snap_def quorum_of_def winner_sample_snap window_of_def time_Sub_def
      numeral_2_eq_2)

definition sample_run :: "eval_pass list" where
  "sample_run = [(sample_order, 0, sample_snap), (sample_order, 5 * Second, sample_snap)]"

lemma sample_adopted: "ad_ShardBits (ev_adopted (run_passes sample_cfg sample_run)) = 4"
  by code_simp

theorem adoption_history_witness:
  "\<exists>i j ex. i \<le> j \<and> j < length sample_run \<and>
     winner (quorum_of sample_cfg) (pass_snap (sample_run ! i)) 4 \<and> winner (quorum_of sample_cfg) (pass_snap (sample_run ! j)) 4 \<and>
     ex \<in> set (pass_snap (sample_run ! j)) \<and> Authoritative ex \<and> en_ShardBits ex = 4 \<and>
     window_of sample_cfg ex \<le> time_Sub (pass_time (sample_run ! j)) (pass_time (sample_run ! i))"
  by (rule adoption_history [OF _ _ sample_adopted]) (simp_all add: sample_cfg_def sample_run_def legal_sample_order)

section \<open>Fields outside the vote\<close>

definition ungated :: "adopted \<Rightarrow> netaddr list \<times> u16 list \<times> nat" where
  "ungated out = (ad_SourceSet out, ad_PilotGroups out, ad_PilotsKnown out)"

lemma ungated_simps [simp]:
  "ungated (diverges f b out) = ungated out" "ungated (quorumMet f b out) = ungated out"
  "ungated (out\<lparr>ad_ShardBits := v\<rparr>) = ungated out" "ungated (out\<lparr>ad_SourceModeSSM := m\<rparr>) = ungated out"
  "ungated (out\<lparr>ad_Successor := s\<rparr>) = ungated out" "ungated (out\<lparr>ad_Domains := d\<rparr>) = ungated out"
  "ungated (out\<lparr>ad_DivergenceFields := fs\<rparr>) = ungated out"
  by (simp_all add: ungated_def diverges_def quorumMet_def)

lemma stages_ungated:
  "ungated (snd (snd (evaluateShardBits it now bits (e, out)))) = ungated out"
  "ungated (snd (evaluateSourceMode it now modes (e, out))) = ungated out"
  "ungated (snd (evaluateSuccessor it now succs (e, out))) = ungated out"
  by (simp_all add: evaluateShardBits_def evaluateSourceMode_def evaluateSuccessor_def Let_def split: option.split prod.split)

lemma evaluateDomains_ungated: "ungated (snd (evaluateDomains it now snap s)) = ungated (snd s)"
proof -
  have "ungated (snd (evaluateDomain it now ts s' i)) = ungated (snd s')" for ts s' i
    by (cases s') (simp add: evaluateDomain_def Let_def split: prod.split)
  then have "ungated (snd (foldl (evaluateDomain it now ts) s' ids)) = ungated (snd s')" for ts s' ids
    by (induction ids arbitrary: s') simp_all
  then show ?thesis by (cases s) (simp add: evaluateDomains_def Let_def)
qed

lemma Evaluate_ungated:
  assumes "Evaluate it now snap e = (out, e')"
  shows "ungated out = ungated (pass_start snap)"
proof -
  obtain shared e1 out1 e2 out2 e3 out3 e4 out4 where s:
    "evaluateShardBits it now (tl_shardBits (tallySnapshot snap)) (e, pass_start snap) = (shared, e1, out1)"
    "evaluateSourceMode it now (tl_sourceMode (tallySnapshot snap)) (e1, out1) = (e2, out2)"
    "evaluateSuccessor it now (tl_successor (tallySnapshot snap)) (e2, out2) = (e3, out3)"
    "evaluateDomains it now snap (e3, out3) = (e4, out4)"
    and out: "out = out4\<lparr>ad_DivergenceFields := sort (ad_DivergenceFields out4)\<rparr>"
    by (rule Evaluate_stages [OF assms])
  have "ungated out1 = ungated (pass_start snap)" using stages_ungated(1) [of it now "tl_shardBits (tallySnapshot snap)" e "pass_start snap"] s(1) by simp
  moreover have "ungated out2 = ungated out1" using stages_ungated(2) [of it now "tl_sourceMode (tallySnapshot snap)" e1 out1] s(2) by simp
  moreover have "ungated out3 = ungated out2" using stages_ungated(3) [of it now "tl_successor (tallySnapshot snap)" e2 out2] s(3) by simp
  moreover have "ungated out4 = ungated out3" using evaluateDomains_ungated [of it now snap "(e3, out3)"] s(4) by simp
  ultimately show ?thesis by (simp add: out)
qed

lemma tally_sources:
  "set (tl_allSources (tallySnapshot snap)) = (\<Union>en \<in> set snap. set (en_Sources en)) \<and> distinct (tl_allSources (tallySnapshot snap))"
proof (induction snap rule: rev_induct)
  case (snoc en snap)
  then show ?case by (simp add: tallySnapshot_snoc tallyEntry_fields Un_commute)
qed (simp add: tallySnapshot_def zeroTallies_def)

lemma tally_groups:
  "set (tl_pilotGroups (tallySnapshot snap)) = (\<Union>en \<in> set (filter (\<lambda>en. Authoritative en \<and> PilotOnly en) snap). set (en_Groups en)) \<and>
   distinct (tl_pilotGroups (tallySnapshot snap))"
proof (induction snap rule: rev_induct)
  case (snoc en snap)
  then show ?case by (simp add: tallySnapshot_snoc tallyEntry_fields Un_commute)
qed (simp add: tallySnapshot_def zeroTallies_def)

lemma tally_pilots: "tl_pilotsKnown (tallySnapshot snap) = length (filter Authoritative snap)"
proof (induction snap rule: rev_induct)
  case (snoc en snap)
  then show ?case by (simp add: tallySnapshot_snoc tallyEntry_fields)
qed (simp add: tallySnapshot_def zeroTallies_def)

text \<open>
  The fields outside the vote, and pins. The source set is the sorted union of all entries' sources,
  authoritative or not; the pilot groups are the sorted union of the groups of the authoritative
  pilot-only entries; the pilots known are the authoritative entries. A pinned shard width is reported
  whatever the announcers say, and divergence fields are reported in order.
\<close>

theorem evaluate_outputs:
  assumes "Evaluate it now snap e = (out, e')"
  shows "set (ad_SourceSet out) = (\<Union>en \<in> set snap. set (en_Sources en)) \<and> sorted (ad_SourceSet out) \<and> distinct (ad_SourceSet out) \<and>
    set (ad_PilotGroups out) = (\<Union>en \<in> set (filter (\<lambda>en. Authoritative en \<and> PilotOnly en) snap). set (en_Groups en)) \<and>
    sorted (ad_PilotGroups out) \<and> distinct (ad_PilotGroups out) \<and> ad_PilotsKnown out = length (filter Authoritative snap) \<and>
    (pin_HasShardBitsPin (cfg_Pin (ev_cfg e)) \<longrightarrow> ad_ShardBits out = pin_ShardBits (cfg_Pin (ev_cfg e))) \<and>
    sorted (ad_DivergenceFields out) \<and> ev_cfg e' = ev_cfg e"
proof -
  have u: "ad_SourceSet out = sort (tl_allSources (tallySnapshot snap))" "ad_PilotGroups out = sort (tl_pilotGroups (tallySnapshot snap))"
    "ad_PilotsKnown out = tl_pilotsKnown (tallySnapshot snap)"
    using Evaluate_ungated [OF assms] by (simp_all add: ungated_def pass_start_def)
  have d: "sorted (ad_DivergenceFields out)" by (rule Evaluate_stages [OF assms]) simp
  show ?thesis
    using tally_sources [of snap] tally_groups [of snap] tally_pilots [of snap] Evaluate_pinned [OF _ assms] Evaluate_cfg [OF assms] u d
    by simp
qed

theorem evaluate_outputs_witness:
  "ad_PilotsKnown (fst (Evaluate sample_order 0 sample_snap (NewEvaluator sample_cfg))) = 2 \<and>
   set (ad_PilotGroups (fst (Evaluate sample_order 0 sample_snap (NewEvaluator sample_cfg)))) = set (expandGroups sample_manifest)"
  using evaluate_outputs [of sample_order 0 sample_snap "NewEvaluator sample_cfg",
    OF prod.collapse [of "Evaluate sample_order 0 sample_snap (NewEvaluator sample_cfg)", symmetric]]
  by (simp add: sample_snap_def sample_manifest_def entryOf_def Let_def Authoritative_def PilotOnly_def has_def)

section \<open>Object planes\<close>

lemma forget_simps [simp]: "ev_adopted (forgetField f e) = ev_adopted e" "ev_cfg (forgetField f e) = ev_cfg e"
  by (simp_all add: forgetField_def)

lemma evalDomain_state:
  "ev_adopted (fst (evalDomainBits it now i bits s)) = ev_adopted (fst s) \<and> ev_cfg (fst (evalDomainBits it now i bits s)) = ev_cfg (fst s)"
  "ev_adopted (fst (evalDomainMode it now i ssm s)) = ev_adopted (fst s) \<and> ev_cfg (fst (evalDomainMode it now i ssm s)) = ev_cfg (fst s)"
  "ev_adopted (fst (evalDomainSuccessor it now i succ s)) = ev_adopted (fst s) \<and> ev_cfg (fst (evalDomainSuccessor it now i succ s)) = ev_cfg (fst s)"
  by (cases s; simp add: evalDomainBits_def evalDomainMode_def evalDomainSuccessor_def Let_def case_prod_beta split: option.split)+

lemma adoptDomain_state:
  "ev_adopted (fst (adoptDomain it now ts i e)) = ev_adopted e" "ev_cfg (fst (adoptDomain it now ts i e)) = ev_cfg e"
  by (simp_all add: adoptDomain_def Let_def evalDomain_state split: option.split)

definition domain_keys :: "adopted \<Rightarrow> u8 set" where
  "domain_keys a = fst ` set (ad_Domains a)"

definition pins_ok :: "evaluator_config \<Rightarrow> adopted \<Rightarrow> u8 \<Rightarrow> bool" where
  "pins_ok cfg out i \<longleftrightarrow> (\<forall>pv. map_of (pin_DomainShardBits (cfg_Pin cfg)) i = Some pv \<longrightarrow>
     (\<exists>da. map_of (ad_Domains out) i = Some da \<and> da_ShardBits da = pv \<and> da_QuorumMet da))"

lemma evaluateDomain_step:
  assumes "evaluateDomain it now ts (e, out) i = (e', out')"
  shows "ev_cfg e' = ev_cfg e" "domain_keys out' = insert i (domain_keys out)"
    "domain_keys (ev_adopted e') = insert i (domain_keys (ev_adopted e))"
    "pins_ok (ev_cfg e) out' i" "j \<noteq> i \<Longrightarrow> pins_ok (ev_cfg e) out j \<Longrightarrow> pins_ok (ev_cfg e) out' j"
proof -
  obtain e1 da where a: "adoptDomain it now ts i e = (e1, da)" by fastforce
  have s: "ev_adopted e1 = ev_adopted e" "ev_cfg e1 = ev_cfg e" using adoptDomain_state [of it now ts i e] a by simp_all
  have r: "ad_Domains out' = AList.update i da (ad_Domains out)" "ev_cfg e' = ev_cfg e"
    "ad_Domains (ev_adopted e') = AList.update i da (ad_Domains (ev_adopted e))"
    using assms a s by (auto simp: evaluateDomain_def Let_def diverges_def quorumMet_def split: if_splits)
  show "ev_cfg e' = ev_cfg e" "domain_keys out' = insert i (domain_keys out)"
    "domain_keys (ev_adopted e') = insert i (domain_keys (ev_adopted e))"
    using r by (simp_all add: domain_keys_def dom_update)
  have "map_of (pin_DomainShardBits (cfg_Pin (ev_cfg e))) i = Some pv \<Longrightarrow> da_ShardBits da = pv \<and> da_QuorumMet da" for pv
    using a by (auto simp: adoptDomain_def Let_def)
  then show "pins_ok (ev_cfg e) out' i" by (simp add: pins_ok_def r(1) update_conv')
  show "j \<noteq> i \<Longrightarrow> pins_ok (ev_cfg e) out j \<Longrightarrow> pins_ok (ev_cfg e) out' j" by (simp add: pins_ok_def r(1) update_conv')
qed

lemma evaluateDomain_fold:
  "foldl (evaluateDomain it now ts) (e, out) ids = (e', out') \<Longrightarrow> \<forall>i \<in> A. pins_ok (ev_cfg e) out i \<Longrightarrow>
   ev_cfg e' = ev_cfg e \<and> domain_keys out' = domain_keys out \<union> set ids \<and>
   domain_keys (ev_adopted e') = domain_keys (ev_adopted e) \<union> set ids \<and> (\<forall>i \<in> A \<union> set ids. pins_ok (ev_cfg e) out' i)"
proof (induction ids arbitrary: e out A)
  case (Cons i ids)
  obtain e1 out1 where s: "evaluateDomain it now ts (e, out) i = (e1, out1)" by fastforce
  note S = evaluateDomain_step [OF s]
  have "\<forall>j \<in> insert i A. pins_ok (ev_cfg e1) out1 j" using S(1,4,5) Cons.prems(2) by (metis insert_iff)
  moreover have "foldl (evaluateDomain it now ts) (e1, out1) ids = (e', out')" using Cons.prems(1) s by simp
  ultimately show ?case using Cons.IH [of e1 out1 "insert i A"] S(1-3) by auto
qed simp

lemma stages_domains:
  "ad_Domains (snd (snd (evaluateShardBits it now bits (e, out)))) = ad_Domains out"
  "ad_Domains (ev_adopted (fst (snd (evaluateShardBits it now bits (e, out))))) = ad_Domains (ev_adopted e)"
  "ad_Domains (snd (evaluateSourceMode it now modes (e, out))) = ad_Domains out"
  "ad_Domains (ev_adopted (fst (evaluateSourceMode it now modes (e, out)))) = ad_Domains (ev_adopted e)"
  "ad_Domains (snd (evaluateSuccessor it now succs (e, out))) = ad_Domains out"
  "ad_Domains (ev_adopted (fst (evaluateSuccessor it now succs (e, out)))) = ad_Domains (ev_adopted e)"
  by (simp_all add: evaluateShardBits_def evaluateSourceMode_def evaluateSuccessor_def Let_def case_prod_beta
      diverges_def quorumMet_def split: option.split)

lemma stages_cfg:
  "ev_cfg (fst (snd (evaluateShardBits it now bits (e, out)))) = ev_cfg e"
  "ev_cfg (fst (evaluateSourceMode it now modes (e, out))) = ev_cfg e"
  "ev_cfg (fst (evaluateSuccessor it now succs (e, out))) = ev_cfg e"
  by (simp_all add: evaluateShardBits_def evaluateSourceMode_def evaluateSuccessor_def Let_def case_prod_beta split: option.split)

text \<open>The planes that authoritative entries describe.\<close>

definition announced :: "reg_entry list \<Rightarrow> u8 set" where
  "announced snap = (\<Union>en \<in> set (filter Authoritative snap). dd_DomainID ` set (en_Domains en)) - {0}"

lemma tallyDomain_keys: "fst ` set (tallyDomain en ts d) = fst ` set ts \<union> ({dd_DomainID d} - {0})"
  by (auto simp: tallyDomain_def Let_def dom_update)

lemma tallyEntryDomains_keys: "fst ` set (foldl (tallyDomain en) ts ds) = fst ` set ts \<union> (dd_DomainID ` set ds - {0})"
  by (induction ds arbitrary: ts) (auto simp: tallyDomain_keys)

lemma tallyDomains_keys: "fst ` set (tallyDomains snap) = announced snap"
proof (induction snap rule: rev_induct)
  case (snoc en snap)
  have "tallyDomains (snap @ [en]) = (if Authoritative en then foldl (tallyDomain en) (tallyDomains snap) (en_Domains en) else tallyDomains snap)"
    by (simp add: tallyDomains_def)
  then show ?case using snoc by (auto simp: tallyEntryDomains_keys announced_def)
qed (simp add: tallyDomains_def announced_def)

lemma domainIDs_set:
  "set (domainIDs e (tallyDomains snap)) =
   announced snap \<union> (fst ` set (pin_DomainShardBits (cfg_Pin (ev_cfg e))) - {0}) \<union> domain_keys (ev_adopted e)"
  using tallyDomains_keys [of snap] by (auto simp: domainIDs_def domain_keys_def)

lemma Evaluate_domains:
  assumes "legal_order it" and "Evaluate it now snap e = (out, e')"
  defines "ids \<equiv> announced snap \<union> (fst ` set (pin_DomainShardBits (cfg_Pin (ev_cfg e))) - {0}) \<union> domain_keys (ev_adopted e)"
  shows "domain_keys out = ids" and "domain_keys (ev_adopted e') = ids" and "\<forall>i \<in> ids. pins_ok (ev_cfg e) out i"
proof -
  obtain shared e1 out1 e2 out2 e3 out3 e4 out4 where s:
    "evaluateShardBits it now (tl_shardBits (tallySnapshot snap)) (e, pass_start snap) = (shared, e1, out1)"
    "evaluateSourceMode it now (tl_sourceMode (tallySnapshot snap)) (e1, out1) = (e2, out2)"
    "evaluateSuccessor it now (tl_successor (tallySnapshot snap)) (e2, out2) = (e3, out3)"
    "evaluateDomains it now snap (e3, out3) = (e4, out4)"
    and r: "e' = (if shared then e4\<lparr>ev_adopted := (ev_adopted e4)\<lparr>ad_QuorumMet := ad_QuorumMet out4\<rparr>\<rparr> else e4)"
    "out = out4\<lparr>ad_DivergenceFields := sort (ad_DivergenceFields out4)\<rparr>"
    by (rule Evaluate_stages [OF assms(2)])
  note D1 = stages_domains(1,2) [of it now "tl_shardBits (tallySnapshot snap)" e "pass_start snap", unfolded s(1)]
    and D2 = stages_domains(3,4) [of it now "tl_sourceMode (tallySnapshot snap)" e1 out1, unfolded s(2)]
    and D3 = stages_domains(5,6) [of it now "tl_successor (tallySnapshot snap)" e2 out2, unfolded s(3)]
  note C = stages_cfg(1) [of it now "tl_shardBits (tallySnapshot snap)" e "pass_start snap", unfolded s(1)]
    stages_cfg(2) [of it now "tl_sourceMode (tallySnapshot snap)" e1 out1, unfolded s(2)]
    stages_cfg(3) [of it now "tl_successor (tallySnapshot snap)" e2 out2, unfolded s(3)]
  have k: "domain_keys out3 = {}" "domain_keys (ev_adopted e3) = domain_keys (ev_adopted e)" "ev_cfg e3 = ev_cfg e"
    using D1 D2 D3 C by (simp_all add: domain_keys_def pass_start_def zeroAdopted_def)
  have ids: "set (it_ids it (domainIDs e3 (tallyDomains snap))) = ids"
    using assms(1) domainIDs_set [of e3 snap] k by (simp add: legal_order_def ids_def)
  have "foldl (evaluateDomain it now (tallyDomains snap)) (e3, out3) (it_ids it (domainIDs e3 (tallyDomains snap))) = (e4, out4)"
    using s(4) by (simp add: evaluateDomains_def Let_def)
  from evaluateDomain_fold [OF this, of "{}"] ids k
  have "domain_keys out4 = ids" "domain_keys (ev_adopted e4) = domain_keys (ev_adopted e) \<union> ids" "\<forall>i \<in> ids. pins_ok (ev_cfg e) out4 i" by auto
  then show "domain_keys out = ids" and "domain_keys (ev_adopted e') = ids" and "\<forall>i \<in> ids. pins_ok (ev_cfg e) out i"
    using r by (auto simp: domain_keys_def pins_ok_def ids_def)
qed

lemma run_domains:
  "\<forall>p \<in> set ps. legal_order (fst p) \<Longrightarrow> domain_keys (ev_adopted (run_passes cfg ps)) =
     (if ps = [] then {} else (\<Union>p \<in> set ps. announced (pass_snap p)) \<union> (fst ` set (pin_DomainShardBits (cfg_Pin cfg)) - {0}))"
proof (induction ps rule: rev_induct)
  case Nil
  show ?case by (simp add: run_passes_def NewEvaluator_def zeroAdopted_def domain_keys_def)
next
  case (snoc p ps)
  have "Evaluate (fst p) (pass_time p) (pass_snap p) (run_passes cfg ps) = (fst (eval_pass p (run_passes cfg ps)), run_passes cfg (ps @ [p]))"
    by (simp add: eval_pass_def run_passes_snoc)
  from Evaluate_domains(2) [OF _ this] snoc show ?case by (auto simp: run_passes_cfg)
qed

text \<open>
  C24: The view of the object planes, in any run. A pass reports exactly the planes that an authoritative
  entry of this or an earlier snapshot described and those that are pinned, so a plane once described
  is retained; the transaction plane (domain 0) never appears; a pinned plane has the pinned width and
  counts as having its quorum.
\<close>

theorem domain_views:
  assumes "\<forall>q \<in> set ps. legal_order (fst q)" and "legal_order (fst p)"
    and out_def: "out = fst (eval_pass p (run_passes cfg ps))" and pinned_def: "pinned = pin_DomainShardBits (cfg_Pin cfg)"
  shows "domain_keys out = (\<Union>q \<in> set (ps @ [p]). announced (pass_snap q)) \<union> (fst ` set pinned - {0}) \<and> 0 \<notin> domain_keys out \<and>
    (i \<noteq> 0 \<and> map_of pinned i = Some pv \<longrightarrow> (\<exists>da. map_of (ad_Domains out) i = Some da \<and> da_ShardBits da = pv \<and> da_QuorumMet da))"
proof -
  have ev: "Evaluate (fst p) (pass_time p) (pass_snap p) (run_passes cfg ps) = (out, run_passes cfg (ps @ [p]))"
    by (simp add: out_def eval_pass_def run_passes_snoc)
  note E = Evaluate_domains [OF assms(2) ev]
  have keys: "domain_keys out = (\<Union>q \<in> set (ps @ [p]). announced (pass_snap q)) \<union> (fst ` set pinned - {0})"
    using E(1) run_domains [OF assms(1), of cfg] by (auto simp: run_passes_cfg pinned_def)
  have zero: "0 \<notin> announced s" for s by (simp add: announced_def)
  have "\<exists>da. map_of (ad_Domains out) i = Some da \<and> da_ShardBits da = pv \<and> da_QuorumMet da" if "i \<noteq> 0" "map_of pinned i = Some pv"
  proof -
    have "i \<in> fst ` set pinned" using that(2) by (metis map_of_eq_None_iff option.distinct(1))
    then have "i \<in> domain_keys out" using that(1) keys by simp
    then have "pins_ok (ev_cfg (run_passes cfg ps)) out i" using E(1,3) by simp
    then show ?thesis using that(2) by (simp add: pins_ok_def run_passes_cfg pinned_def)
  qed
  then show ?thesis using keys zero by auto
qed

lemma announced_sample: "announced sample_snap = {}"
  by (simp add: announced_def sample_snap_def entryOf_def Let_def sample_manifest_def)

definition sample_pinned :: evaluator_config where
  "sample_pinned = sample_cfg\<lparr>cfg_Pin := (cfg_Pin sample_cfg)\<lparr>pin_DomainShardBits := [(1, 6)]\<rparr>\<rparr>"

theorem domain_views_witness:
  "domain_keys (fst (eval_pass (sample_order, 0, sample_snap) (run_passes sample_pinned []))) = {1}"
  using domain_views [of "[]" "(sample_order, 0, sample_snap)" _ sample_pinned _ 1 6, OF _ _ refl refl]
  by (simp add: legal_sample_order pass_snap_def announced_sample) (simp add: sample_pinned_def)

section \<open>A view that outlives its announcement\<close>

text \<open>
  A successor view is kept as long as the winning tuple has the same generation. When the announcers
  move the transition epoch of a generation, the new tuple wins, passes the hysteresis, and the view
  still shows the old epoch.
\<close>

definition successor_snap :: "u32 \<Rightarrow> reg_entry list" where
  "successor_snap epoch = map (\<lambda>e. e\<lparr>en_Successor := Some \<lparr>sb_GenerationID = replicate 16 9, sb_ShardBits = 5, sb_Flags = 0,
     sb_TransitionEpoch = epoch\<rparr>\<rparr>) sample_snap"

theorem successor_epoch_stale:
  "map_option sv_TransitionEpoch (ad_Successor (fst (eval_pass (sample_order, 20 * Second, successor_snap 200)
     (run_passes sample_cfg [(sample_order, 0, successor_snap 100), (sample_order, 5 * Second, successor_snap 100),
       (sample_order, 10 * Second, successor_snap 100), (sample_order, 15 * Second, successor_snap 200)])))) = Some 100"
  by code_simp

end
