(* ===== verification/Control_Plane.thy ===== *)
theory Control_Plane
  imports Evaluator_Spec
begin

text \<open>
  The control plane of a node from end to end: datagrams are decoded (\<^verbatim>\<open>frame.DecodeShardManifest\<close>), manifests registered and expired
  (\<^verbatim>\<open>manifest.Registry\<close>), and snapshots evaluated (\<^verbatim>\<open>manifest.Evaluator\<close>). An event is a received datagram, an eviction or an
  evaluation pass; a node may see them in any order. What does not decode is dropped.
\<close>

datatype node_event = Received instant netaddr bytes | Expire instant | Pass iteration_order instant

record node =
  nd_registry :: registry
  nd_evaluator :: evaluator

primrec node_step :: "node_event \<Rightarrow> node \<Rightarrow> node" where
  "node_step (Received now src d) n =
     (case DecodeShardManifest d of Ok m \<Rightarrow> n\<lparr>nd_registry := snd (Upsert now src m (nd_registry n))\<rparr> | _ \<Rightarrow> n)"
| "node_step (Expire now) n = n\<lparr>nd_registry := Evict now (nd_registry n)\<rparr>"
| "node_step (Pass it now) n = n\<lparr>nd_evaluator := snd (Evaluate it now (Snapshot (nd_registry n)) (nd_evaluator n))\<rparr>"

definition run_node :: "evaluator_config \<Rightarrow> duration \<Rightarrow> node_event list \<Rightarrow> node" where
  "run_node cfg ttl evs = foldl (\<lambda>n ev. node_step ev n) \<lparr>nd_registry = NewRegistry ttl, nd_evaluator = NewEvaluator cfg\<rparr> evs"

section \<open>A run as a registry history and a sequence of passes\<close>

primrec op_of :: "node_event \<Rightarrow> reg_op list" where
  "op_of (Received now src d) = (case DecodeShardManifest d of Ok m \<Rightarrow> [OpUpsert now src m] | _ \<Rightarrow> [])"
| "op_of (Expire now) = [OpEvict now]"
| "op_of (Pass it now) = []"

definition ops_of :: "node_event list \<Rightarrow> reg_op list" where
  "ops_of evs = concat (map op_of evs)"

text \<open>The passes of a run, each with its position and the snapshot it sees.\<close>

definition pass_at :: "duration \<Rightarrow> node_event list \<Rightarrow> nat \<Rightarrow> (nat \<times> eval_pass) list" where
  "pass_at ttl evs i =
     (case evs ! i of Pass it now \<Rightarrow> [(i, it, now, Snapshot (run_ops ttl (ops_of (take i evs))))] | _ \<Rightarrow> [])"

definition passes :: "duration \<Rightarrow> node_event list \<Rightarrow> (nat \<times> eval_pass) list" where
  "passes ttl evs = concat (map (pass_at ttl evs) [0..<length evs])"

lemma pass_at_append: "i < length evs \<Longrightarrow> pass_at ttl (evs @ [ev]) i = pass_at ttl evs i"
  by (cases "evs ! i") (simp_all add: pass_at_def nth_append)

lemma passes_snoc: "passes ttl (evs @ [ev]) = passes ttl evs @ pass_at ttl (evs @ [ev]) (length evs)"
proof -
  have "map (pass_at ttl (evs @ [ev])) [0..<length evs] = map (pass_at ttl evs) [0..<length evs]"
    by (rule map_cong) (simp_all add: pass_at_append)
  then show ?thesis by (simp only: passes_def length_append_singleton upt_Suc_append map_append concat_append) simp
qed

lemma run_node_snoc: "run_node cfg ttl (evs @ [ev]) = node_step ev (run_node cfg ttl evs)"
  by (simp add: run_node_def)

lemma run_node_eq:
  "nd_registry (run_node cfg ttl evs) = run_ops ttl (ops_of evs) \<and> nd_evaluator (run_node cfg ttl evs) = run_passes cfg (map snd (passes ttl evs))"
proof (induction evs rule: rev_induct)
  case Nil
  show ?case by (simp add: run_node_def run_ops_def ops_of_def run_passes_def passes_def)
next
  case (snoc ev evs)
  then show ?case
    by (cases ev) (auto simp: run_node_snoc passes_snoc pass_at_def ops_of_def run_snoc run_passes_snoc eval_pass_def pass_time_def pass_snap_def split: res.split)
qed

lemma passes_positions:
  "sorted_wrt (<) (map fst (passes ttl evs)) \<and> (\<forall>p \<in> set (passes ttl evs). fst p < length evs \<and>
     (\<exists>it now. evs ! fst p = Pass it now \<and> snd p = (it, now, Snapshot (run_ops ttl (ops_of (take (fst p) evs))))))"
proof (induction evs rule: rev_induct)
  case (snoc ev evs)
  have old: "\<forall>p \<in> set (passes ttl evs). fst p < length evs \<and> (\<exists>it now. (evs @ [ev]) ! fst p = Pass it now \<and>
      snd p = (it, now, Snapshot (run_ops ttl (ops_of (take (fst p) (evs @ [ev]))))))"
    using snoc by (fastforce simp: nth_append)
  moreover have "\<forall>p \<in> set (pass_at ttl (evs @ [ev]) (length evs)). fst p = length evs \<and> (\<exists>it now. (evs @ [ev]) ! fst p = Pass it now \<and>
      snd p = (it, now, Snapshot (run_ops ttl (ops_of (take (fst p) (evs @ [ev]))))))"
    by (cases ev) (simp_all add: pass_at_def)
  moreover have "sorted_wrt (<) (map fst (pass_at ttl (evs @ [ev]) (length evs)))" by (cases ev) (simp_all add: pass_at_def)
  ultimately show ?case using snoc by (fastforce simp: passes_snoc sorted_wrt_append)
qed (simp add: passes_def)

lemma passes_nth:
  assumes "i \<le> j" and "j < length (passes ttl evs)"
  shows "fst (passes ttl evs ! i) \<le> fst (passes ttl evs ! j)"
  using assms passes_positions [of ttl evs] by (cases "i = j") (auto simp: sorted_wrt_iff_nth_less less_imp_le)

lemma passes_legal:
  assumes "\<forall>ev \<in> set evs. \<forall>it now. ev = Pass it now \<longrightarrow> legal_order it"
  shows "\<forall>p \<in> set (map snd (passes ttl evs)). legal_order (fst p)"
proof
  fix p assume "p \<in> set (map snd (passes ttl evs))"
  then obtain n it now where "n < length evs" "evs ! n = Pass it now" "fst p = it" using passes_positions [of ttl evs] by force
  then show "legal_order (fst p)" using assms nth_mem by metis
qed

section \<open>What a node has been told\<close>

text \<open>The last manifest that a history of events has from an announcer.\<close>

definition last_told :: "node_event list \<Rightarrow> entry_key \<Rightarrow> shard_manifest \<Rightarrow> bool" where
  "last_told h k m \<longleftrightarrow> (\<exists>pre now src d post. h = pre @ Received now src d # post \<and> DecodeShardManifest d = Ok m \<and> keyOf src m = k \<and>
     (\<forall>now' src' d' m'. Received now' src' d' \<in> set post \<and> DecodeShardManifest d' = Ok m' \<longrightarrow> keyOf src' m' \<noteq> k))"

text \<open>A width is backed by a quorum of announcers whose last manifest announces it with authority.\<close>

definition backed :: "int \<Rightarrow> node_event list \<Rightarrow> u8 \<Rightarrow> bool" where
  "backed q h v \<longleftrightarrow> (\<exists>K. finite K \<and> q \<le> int (card K) \<and> (\<forall>k \<in> K. \<exists>m. last_told h k m \<and>
     has (sm_Flags m) FlagAuthoritative \<and> \<not> has (sm_Flags m) FlagShutdown \<and> sm_ShardBits m = v))"

text \<open>A manifest that a node holds after a history: the last of its announcer, not a shutdown, that no eviction has removed.\<close>

definition held :: "duration \<Rightarrow> node_event list \<Rightarrow> entry_key \<Rightarrow> shard_manifest \<Rightarrow> bool" where
  "held ttl h k m \<longleftrightarrow> (\<exists>pre now src d post. h = pre @ Received now src d # post \<and> DecodeShardManifest d = Ok m \<and> keyOf src m = k \<and>
     \<not> has (sm_Flags m) FlagShutdown \<and>
     (\<forall>now' src' d' m'. Received now' src' d' \<in> set post \<and> DecodeShardManifest d' = Ok m' \<longrightarrow> keyOf src' m' \<noteq> k) \<and>
     (\<forall>t. Expire t \<in> set post \<longrightarrow> t < en_expiresAt (entryOf ttl now (withoutZone src) m)))"

lemma held_live: "held ttl h k m \<Longrightarrow> \<not> has (sm_Flags m) FlagShutdown"
  by (auto simp: held_def)

lemma ops_of_split:
  assumes "ops_of evs = pre @ op # post"
  obtains e1 ev e2 where "evs = e1 @ ev # e2" and "op_of ev = [op]" and "ops_of e2 = post"
  using assms
proof (induction evs arbitrary: pre thesis)
  case (Cons ev evs)
  have "op_of ev = [] \<or> (\<exists>x. op_of ev = [x])" by (cases ev) (simp_all split: res.split)
  then consider "op_of ev = []" "ops_of evs = pre @ op # post" | "op_of ev = [op]" "ops_of evs = post"
    | pre' where "ops_of evs = pre' @ op # post"
    using Cons.prems(2) by (cases pre) (auto simp: ops_of_def)
  then show ?case
  proof cases
    case 2
    then show ?thesis using Cons.prems(1) [of "[]" ev evs] by simp
  qed (metis Cons.IH Cons.prems(1) append_Cons)+
qed (simp add: ops_of_def)

lemma latest_told:
  assumes "latest ttl (ops_of h) k e"
  obtains m now src where "last_told h k m" and "held ttl h k m" and "e = entryOf ttl now (withoutZone src) m"
proof -
  obtain pre now src m post where h: "ops_of h = pre @ OpUpsert now src m # post" and m: "keyOf src m = k"
    "\<not> has (sm_Flags m) FlagShutdown" "e = entryOf ttl now (withoutZone src) m" and post: "\<forall>op \<in> set post. \<not> touches k op \<and> \<not> expires e op"
    using assms by (auto simp: latest_def)
  obtain e1 ev e2 where ev: "h = e1 @ ev # e2" "op_of ev = [OpUpsert now src m]" "ops_of e2 = post" by (rule ops_of_split [OF h])
  obtain d where d: "ev = Received now src d" "DecodeShardManifest d = Ok m" using ev(2) by (cases ev) (auto split: res.splits)
  have later: "keyOf src' m' \<noteq> k" if "Received now' src' d' \<in> set e2" "DecodeShardManifest d' = Ok m'" for now' src' d' m'
  proof -
    have "OpUpsert now' src' m' \<in> set post" using that ev(3) by (force simp: ops_of_def)
    then show ?thesis using post by fastforce
  qed
  then have told: "last_told h k m" unfolding last_told_def using ev(1) d m(1) by blast
  have "t < en_expiresAt e" if "Expire t \<in> set e2" for t
  proof -
    have "OpEvict t \<in> set post" using that ev(3) by (force simp: ops_of_def)
    then show ?thesis using post by fastforce
  qed
  then have "held ttl h k m" unfolding held_def using ev(1) d m later
    by (intro exI [of _ e1] exI [of _ now] exI [of _ src] exI [of _ d] exI [of _ e2]) blast
  with told show thesis using that m(3) by blast
qed

lemma winner_backed:
  assumes "winner q (Snapshot (run_ops ttl (ops_of h))) v"
  shows "backed q h v"
proof -
  let ?snap = "Snapshot (run_ops ttl (ops_of h))"
  define es where "es = filter (\<lambda>en. Authoritative en \<and> vote_bits en = Some v) ?snap"
  have inv: "reg_inv (run_ops ttl (ops_of h))" by (rule reachable_inv [OF run_reachable])
  have "distinct (map entryKey es)" using store.snap_distinct [OF inv] by (simp add: es_def distinct_map_filter)
  then have "card (entryKey ` set es) = length es" using distinct_card [of "map entryKey es"] by simp
  moreover have "q \<le> int (length es)" using assms by (simp add: winner_def votes_def es_def)
  moreover have "\<exists>m. last_told h (entryKey e) m \<and> has (sm_Flags m) FlagAuthoritative \<and> \<not> has (sm_Flags m) FlagShutdown \<and> sm_ShardBits m = v"
    if "e \<in> set es" for e
  proof -
    have e: "Authoritative e" "en_ShardBits e = v" "e \<in> set ?snap" using that by (auto simp: es_def vote_bits_def)
    then have "latest ttl (ops_of h) (entryKey e) e" using store.snap_view [OF inv] run_view by simp
    then obtain m now src where m: "last_told h (entryKey e) m" "held ttl h (entryKey e) m" "e = entryOf ttl now (withoutZone src) m"
      by (rule latest_told)
    then show ?thesis using e(1,2) held_live [OF m(2)] by (auto simp: Authoritative_def entryOf_def Let_def)
  qed
  ultimately show ?thesis unfolding backed_def by (intro exI [of _ "entryKey ` set es"]) auto
qed

lemma snapshot_told:
  assumes "e \<in> set (Snapshot (run_ops ttl (ops_of h)))"
  obtains k m where "last_told h k m" and "held ttl h k m" and "en_ShardBits e = sm_ShardBits m" and "en_AnnounceInterval e = sm_AnnounceInterval m"
proof -
  have inv: "reg_inv (run_ops ttl (ops_of h))" by (rule reachable_inv [OF run_reachable])
  have "latest ttl (ops_of h) (entryKey e) e" using assms store.snap_view [OF inv] run_view by simp
  then obtain m now src where "last_told h (entryKey e) m" "held ttl h (entryKey e) m" "e = entryOf ttl now (withoutZone src) m" by (rule latest_told)
  then show thesis using that by (auto simp: entryOf_def Let_def)
qed

section \<open>Property\<close>

text \<open>
  C4: a node adopts only what a quorum has put on the wire. In every run of a node, whatever datagrams arrive from
  wherever, in whatever order with evictions and passes, the adopted shard width (other than the initial zero) was backed in
  two evaluation passes, the hysteresis window apart: in each, at least a quorum of distinct announcers had that
  width, with authority and no shutdown, in the last manifest of theirs that was received and decoded.
\<close>

theorem adoption_from_wire:
  assumes "\<not> pin_HasShardBitsPin (cfg_Pin cfg)" and "\<forall>ev \<in> set evs. \<forall>it now. ev = Pass it now \<longrightarrow> legal_order it"
    and "ad_ShardBits (ev_adopted (nd_evaluator (run_node cfg ttl evs))) = v" and "v \<noteq> 0"
  shows "\<exists>a b it it' s t k m. a \<le> b \<and> b < length evs \<and> evs ! a = Pass it s \<and> evs ! b = Pass it' t \<and>
     backed (quorum_of cfg) (take a evs) v \<and> backed (quorum_of cfg) (take b evs) v \<and>
     last_told (take b evs) k m \<and> sm_ShardBits m = v \<and>
     (if cfg_Hysteresis cfg = 0 then 2 * int (unat (sm_AnnounceInterval m)) * Second else cfg_Hysteresis cfg) \<le> time_Sub t s"
proof -
  let ?ps = "passes ttl evs"
  have pos: "\<forall>p \<in> set ?ps. fst p < length evs \<and> (\<exists>it now. evs ! fst p = Pass it now \<and> snd p = (it, now, Snapshot (run_ops ttl (ops_of (take (fst p) evs)))))"
    using passes_positions by blast
  have legal: "\<forall>p \<in> set (map snd ?ps). legal_order (fst p)" by (rule passes_legal [OF assms(2)])
  have "adopted_by cfg (map snd ?ps) v"
    using run_history [OF assms(1) legal] assms(3,4) run_node_eq [of cfg ttl evs] by auto
  then obtain i j ex where ij: "i \<le> j" "j < length ?ps" and w: "winner (quorum_of cfg) (pass_snap (snd (?ps ! i))) v"
    "winner (quorum_of cfg) (pass_snap (snd (?ps ! j))) v" and ex: "ex \<in> set (pass_snap (snd (?ps ! j)))" "en_ShardBits ex = v"
    "window_of cfg ex \<le> time_Sub (pass_time (snd (?ps ! j))) (pass_time (snd (?ps ! i)))"
    by (auto simp: adopted_by_def)
  define a b where "a = fst (?ps ! i)" and "b = fst (?ps ! j)"
  obtain it s it' t where p: "evs ! a = Pass it s" "snd (?ps ! i) = (it, s, Snapshot (run_ops ttl (ops_of (take a evs))))"
    "evs ! b = Pass it' t" "snd (?ps ! j) = (it', t, Snapshot (run_ops ttl (ops_of (take b evs))))" "b < length evs"
    using pos ij unfolding a_def b_def by (meson le_less_trans nth_mem)
  have "a \<le> b" unfolding a_def b_def by (rule passes_nth [OF ij])
  obtain k m where m: "last_told (take b evs) k m" "en_ShardBits ex = sm_ShardBits m" "en_AnnounceInterval ex = sm_AnnounceInterval m"
  proof -
    have "ex \<in> set (Snapshot (run_ops ttl (ops_of (take b evs))))" using ex(1) p(4) by (simp add: pass_snap_def)
    then show thesis by (rule snapshot_told) (rule that)
  qed
  have "backed (quorum_of cfg) (take a evs) v" "backed (quorum_of cfg) (take b evs) v"
    using w p(2,4) winner_backed by (simp_all add: pass_snap_def)
  moreover have "(if cfg_Hysteresis cfg = 0 then 2 * int (unat (sm_AnnounceInterval m)) * Second else cfg_Hysteresis cfg) \<le> time_Sub t s"
    using ex(3) m(3) p(2,4) by (auto simp: window_of_def pass_time_def split: if_splits)
  ultimately show ?thesis using \<open>a \<le> b\<close> p(1,3,5) m(1,2) ex(2)
    by (intro exI [of _ a] exI [of _ b] exI [of _ it] exI [of _ it'] exI [of _ s] exI [of _ t] exI [of _ k] exI [of _ m] conjI) simp_all
qed

section \<open>Liveness\<close>

text \<open>A quorum of the manifests a node holds announces the width, and none announces another one with authority.\<close>

definition undisputed :: "evaluator_config \<Rightarrow> duration \<Rightarrow> node_event list \<Rightarrow> u8 \<Rightarrow> bool" where
  "undisputed cfg ttl h v \<longleftrightarrow>
     (\<exists>K. finite K \<and> quorum_of cfg \<le> int (card K) \<and>
        (\<forall>k \<in> K. \<exists>m. held ttl h k m \<and> has (sm_Flags m) FlagAuthoritative \<and> sm_ShardBits m = v)) \<and>
     (\<forall>k m. held ttl h k m \<and> has (sm_Flags m) FlagAuthoritative \<longrightarrow> sm_ShardBits m = v)"

lemma live_latest:
  assumes "held ttl h k m"
  obtains now src where "latest ttl (ops_of h) k (entryOf ttl now (withoutZone src) m)" and "keyOf src m = k"
proof -
  obtain pre now src d post where h: "h = pre @ Received now src d # post" "DecodeShardManifest d = Ok m" "keyOf src m = k"
    "\<not> has (sm_Flags m) FlagShutdown"
    and later: "\<And>now' src' d' m'. Received now' src' d' \<in> set post \<Longrightarrow> DecodeShardManifest d' = Ok m' \<Longrightarrow> keyOf src' m' \<noteq> k"
    and kept: "\<And>t. Expire t \<in> set post \<Longrightarrow> t < en_expiresAt (entryOf ttl now (withoutZone src) m)"
    using assms unfolding held_def by blast
  let ?e = "entryOf ttl now (withoutZone src) m"
  have "\<not> touches k op \<and> \<not> expires ?e op" if "op \<in> set (ops_of post)" for op
  proof -
    have "\<exists>ev \<in> set post. op \<in> set (op_of ev)" using that by (simp add: ops_of_def)
    then obtain ev where ev: "ev \<in> set post" "op \<in> set (op_of ev)" by blast
    show ?thesis
    proof (cases ev)
      case (Received now' src' d')
      then obtain m' where "DecodeShardManifest d' = Ok m'" "op = OpUpsert now' src' m'" using ev(2) by (cases "DecodeShardManifest d'") auto
      then show ?thesis using later [of now' src' d' m'] ev(1) Received by simp
    next
      case (Expire t)
      then show ?thesis using kept [of t] ev by simp
    next
      case (Pass it t)
      then show ?thesis using ev(2) by simp
    qed
  qed
  then have "latest ttl (ops_of h) k ?e" unfolding latest_def using h
    by (intro exI [of _ "ops_of pre"] exI [of _ now] exI [of _ src] exI [of _ m] exI [of _ "ops_of post"]) (simp add: ops_of_def)
  then show thesis using that h(3) by blast
qed

lemma entryOf_fields:
  "en_Flags (entryOf ttl now a m) = sm_Flags m" "en_ShardBits (entryOf ttl now a m) = sm_ShardBits m"
  "en_AnnounceInterval (entryOf ttl now a m) = sm_AnnounceInterval m" "entryKey (entryOf ttl now (withoutZone src) m) = keyOf src m"
  by (simp_all add: entryOf_def entryKey_def keyOf_def Let_def)

lemma in_snapshot: "e \<in> set (Snapshot (run_ops ttl h)) \<longleftrightarrow> latest ttl h (entryKey e) e"
  using store.snap_view [OF reachable_inv [OF run_reachable]] run_view by simp

lemma live_votes:
  assumes "finite K" and "\<forall>k \<in> K. \<exists>m. held ttl h k m \<and> has (sm_Flags m) FlagAuthoritative \<and> sm_ShardBits m = v"
  shows "card K \<le> votes vote_bits (Snapshot (run_ops ttl (ops_of h))) v"
proof -
  define es where "es = filter (\<lambda>en. Authoritative en \<and> vote_bits en = Some v) (Snapshot (run_ops ttl (ops_of h)))"
  have "k \<in> entryKey ` set es" if k_in: "k \<in> K" for k
  proof -
    obtain m where m: "held ttl h k m" "has (sm_Flags m) FlagAuthoritative" "sm_ShardBits m = v" using bspec [OF assms(2) k_in] by blast
    obtain now src where l: "latest ttl (ops_of h) k (entryOf ttl now (withoutZone src) m)" "keyOf src m = k" by (rule live_latest [OF m(1)])
    let ?e = "entryOf ttl now (withoutZone src) m"
    have k: "entryKey ?e = k" using l(2) by (simp only: entryOf_fields)
    have "?e \<in> set (Snapshot (run_ops ttl (ops_of h)))" unfolding in_snapshot k by (rule l(1))
    then have "?e \<in> set es" using m(2,3) by (simp add: es_def Authoritative_def vote_bits_def entryOf_fields)
    then show ?thesis using k by (rule rev_image_eqI [OF _ sym])
  qed
  then have "K \<subseteq> entryKey ` set es" by (rule subsetI)
  then have "card K \<le> card (entryKey ` set es)" by (rule card_mono [OF finite_imageI [OF finite_set]])
  also have "\<dots> \<le> card (set es)" by (rule card_image_le [OF finite_set])
  also have "\<dots> \<le> length es" by (rule card_length)
  finally show ?thesis by (simp add: votes_def es_def)
qed

lemma undisputed_votes:
  assumes "undisputed cfg ttl h v" and "u \<noteq> v"
  shows "votes vote_bits (Snapshot (run_ops ttl (ops_of h))) u = 0"
proof -
  have "\<not> (Authoritative e \<and> vote_bits e = Some u)" if e: "e \<in> set (Snapshot (run_ops ttl (ops_of h)))" for e
  proof
    assume vote: "Authoritative e \<and> vote_bits e = Some u"
    have "latest ttl (ops_of h) (entryKey e) e" using e by (simp add: in_snapshot)
    then obtain m now src where m: "last_told h (entryKey e) m" "held ttl h (entryKey e) m" "e = entryOf ttl now (withoutZone src) m"
      by (rule latest_told)
    have "has (sm_Flags m) FlagAuthoritative" "sm_ShardBits m = u" using vote by (simp_all add: m(3) Authoritative_def vote_bits_def entryOf_fields)
    then have "u = v" using conjunct2 [OF assms(1) [unfolded undisputed_def], rule_format, of "entryKey e" m] m(2) by simp
    then show False using assms(2) by simp
  qed
  then show ?thesis by (simp add: votes_def filter_empty_conv)
qed

lemma undisputed_winner:
  assumes "undisputed cfg ttl h v"
  shows "winner (quorum_of cfg) (Snapshot (run_ops ttl (ops_of h))) w \<longleftrightarrow> w = v"
proof -
  let ?n = "votes vote_bits (Snapshot (run_ops ttl (ops_of h)))"
  obtain K where "finite K" "quorum_of cfg \<le> int (card K)"
    "\<forall>k \<in> K. \<exists>m. held ttl h k m \<and> has (sm_Flags m) FlagAuthoritative \<and> sm_ShardBits m = v"
    using assms unfolding undisputed_def by blast
  then have v: "quorum_of cfg \<le> int (?n v)" using live_votes [of K ttl h v] by linarith
  have none: "?n u = 0" if "u \<noteq> v" for u by (rule undisputed_votes [OF assms that])
  have "?n u \<le> ?n v" for u using none [of u] by (cases "u = v") simp_all
  moreover have "1 \<le> quorum_of cfg" by (simp add: quorum_of_def)
  ultimately show ?thesis using v none [of w] by (cases "w = v") (simp_all add: winner_def)
qed

primrec pass_times :: "node_event list \<Rightarrow> instant list" where
  "pass_times [] = []"
| "pass_times (ev # evs) = (case ev of Pass it now \<Rightarrow> now # pass_times evs | _ \<Rightarrow> pass_times evs)"

lemma pass_times_append: "pass_times (xs @ ys) = pass_times xs @ pass_times ys"
  by (induction xs) (simp_all split: node_event.split)

lemma pass_times_eq: "map pass_time (map snd (passes ttl evs)) = pass_times evs"
proof (induction evs rule: rev_induct)
  case (snoc ev evs)
  then show ?case by (cases ev) (simp_all add: passes_snoc pass_at_def pass_times_append pass_time_def)
qed (simp add: passes_def)

lemma passes_mem: "(length h1, it, s, Snapshot (run_ops ttl (ops_of h1))) \<in> set (passes ttl (h1 @ Pass it s # h2))"
  unfolding passes_def by (auto intro!: bexI [of _ "length h1"] simp: pass_at_def)

text \<open>
  C5: a node follows an undisputed quorum. Take a run of a node without a pinned width, in which the clock of the passes does not go back, and
  two of its evaluation passes. When at both and at every pass between them a quorum of the manifests that the node holds announces
  a width with authority and none announces another, and the passes are at least the hysteresis window apart for every manifest held at
  the later one, then the later pass reports that width, whatever datagrams, evictions and passes there were
  before and in between, and in whatever order the passes walk their maps.
\<close>

theorem adoption_follows_wire:
  assumes "\<not> pin_HasShardBitsPin (cfg_Pin cfg)" and "h = first @ Pass it s # mid"
    and "\<forall>ev \<in> set (h @ [Pass it' t]). \<forall>o' now. ev = Pass o' now \<longrightarrow> legal_order o'" and "sorted (pass_times (h @ [Pass it' t]))"
    and "\<forall>n o' now. length first \<le> n \<and> n \<le> length h \<and> (h @ [Pass it' t]) ! n = Pass o' now \<longrightarrow> undisputed cfg ttl (take n h) v"
    and "\<forall>k m. held ttl h k m \<longrightarrow>
      (if cfg_Hysteresis cfg = 0 then 2 * int (unat (sm_AnnounceInterval m)) * Second else cfg_Hysteresis cfg) \<le> time_Sub t s"
  shows "ad_ShardBits (fst (Evaluate it' t (Snapshot (nd_registry (run_node cfg ttl h))) (nd_evaluator (run_node cfg ttl h)))) = v"
proof -
  let ?snap = "Snapshot (run_ops ttl (ops_of h))"
  have quorum: "undisputed cfg ttl first v" "undisputed cfg ttl h v"
    using assms(5) [rule_format, of "length first" it s] assms(5) [rule_format, of "length h" it' t] by (simp_all add: assms(2) nth_append)
  define qs where "qs = map snd (passes ttl h)"
  define ps where "ps = qs @ [(it', t, ?snap)]"
  have ps: "ps = map snd (passes ttl (h @ [Pass it' t]))" by (simp add: ps_def qs_def passes_snoc pass_at_def)
  have "(it, s, Snapshot (run_ops ttl (ops_of first))) \<in> set qs"
    unfolding qs_def assms(2) using imageI [OF passes_mem, of snd] by simp
  then obtain i where i: "i < length qs" "qs ! i = (it, s, Snapshot (run_ops ttl (ops_of first)))" by (auto simp: in_set_conv_nth)
  then have at_i: "ps ! i = (it, s, Snapshot (run_ops ttl (ops_of first)))" by (simp add: ps_def nth_append)
  have at_j: "ps ! length qs = (it', t, ?snap)" "take (length qs) ps = qs" "length qs < length ps" by (simp_all add: ps_def)
  have "ad_ShardBits (fst (eval_pass (ps ! length qs) (run_passes cfg (take (length qs) ps)))) = v"
  proof (rule adoption_live [OF assms(1) _ _ i(1) at_j(3)])
    show "\<forall>p \<in> set ps. legal_order (fst p)" unfolding ps by (rule passes_legal [OF assms(3)])
    show "sorted (map pass_time ps)" unfolding ps pass_times_eq by (rule assms(4))
    show "\<forall>w. winner (quorum_of cfg) (pass_snap (ps ! i)) w \<longleftrightarrow> w = v" using undisputed_winner [OF quorum(1)] by (simp add: at_i pass_snap_def)
    show "\<forall>w. winner (quorum_of cfg) (pass_snap (ps ! length qs)) w \<longleftrightarrow> w = v" using undisputed_winner [OF quorum(2)] by (simp add: at_j pass_snap_def)
    show "\<forall>ex \<in> set (pass_snap (ps ! length qs)). window_of cfg ex \<le> time_Sub (pass_time (ps ! length qs)) (pass_time (ps ! i))"
    proof
      fix ex assume "ex \<in> set (pass_snap (ps ! length qs))"
      then have "ex \<in> set ?snap" by (simp add: at_j pass_snap_def)
      then obtain k m where m: "last_told h k m" "held ttl h k m" "en_AnnounceInterval ex = sm_AnnounceInterval m" by (rule snapshot_told)
      from assms(6) [rule_format, OF m(2)] show "window_of cfg ex \<le> time_Sub (pass_time (ps ! length qs)) (pass_time (ps ! i))"
        by (simp only: at_i at_j window_of_def m(3) pass_time_def fst_conv snd_conv)
    qed
  qed
  then show ?thesis unfolding at_j(1,2) using run_node_eq [of cfg ttl h] by (simp add: eval_pass_def pass_time_def pass_snap_def qs_def)
qed

text \<open>Two announcers, received from the wire; a damaged datagram in between.\<close>

definition sample_events :: "node_event list" where
  "sample_events =
     [Received 0 (Addr6 (replicate 16 1) []) (manifest_wire sample_manifest), Received 0 (Addr6 (replicate 16 3) []) [1, 2, 3],
      Received 0 (Addr6 (replicate 16 2) []) (manifest_wire sample_manifest), Pass sample_order 0, Pass sample_order (5 * Second)]"

lemma sample_manifest_decodes: "DecodeShardManifest (manifest_wire sample_manifest) = Ok sample_manifest"
proof -
  have "encodeChecks sample_manifest = Ok ()"
    by (simp add: encodeChecks_def groupsChecks_def sourcesChecks_def successorChecks_def domainsChecks_def validateFlags_def has_def sample_manifest_def)
  moreover have "manifest_shape sample_manifest" by (simp add: manifest_shape_def sample_manifest_def)
  ultimately show ?thesis using manifest_codec.decode_wire [of sample_manifest "[]"] by (simp add: manifest_wf_def)
qed

definition sample_registry :: registry where
  "sample_registry = snd (Upsert 0 (Addr6 (replicate 16 2) []) sample_manifest (snd (Upsert 0 (Addr6 (replicate 16 1) []) sample_manifest (NewRegistry 0))))"

lemma sample_damaged: "DecodeShardManifest [1, 2, 3] = Err ErrShardManifestTooShort"
  by (simp add: DecodeShardManifest_def)

lemma sample_node:
  "nd_evaluator (run_node sample_cfg 0 sample_events) =
     snd (Evaluate sample_order (5 * Second) (Snapshot sample_registry) (snd (Evaluate sample_order 0 (Snapshot sample_registry) (NewEvaluator sample_cfg))))"
  by (simp add: run_node_def sample_events_def sample_manifest_decodes sample_damaged sample_registry_def)

lemma sample_node_adopts: "ad_ShardBits (ev_adopted (nd_evaluator (run_node sample_cfg 0 sample_events))) = 4"
  unfolding sample_node by code_simp

theorem adoption_from_wire_witness:
  "\<exists>a b it it' s t. a \<le> b \<and> b < length sample_events \<and> sample_events ! a = Pass it s \<and> sample_events ! b = Pass it' t \<and>
     backed 2 (take a sample_events) 4 \<and> backed 2 (take b sample_events) 4 \<and> 5 * Second \<le> time_Sub t s"
proof -
  have "\<forall>ev \<in> set sample_events. \<forall>it now. ev = Pass it now \<longrightarrow> legal_order it" by (simp add: sample_events_def legal_sample_order)
  from adoption_from_wire [OF _ this sample_node_adopts] show ?thesis by (auto simp: sample_cfg_def quorum_of_def) blast
qed

text \<open>The first three events of the sample, then its first pass: the two announcers agree.\<close>

lemma sample_held:
  assumes "held ttl (take n sample_events) k m"
  shows "m = sample_manifest"
proof -
  obtain now src d where "Received now src d \<in> set (take n sample_events)" and d: "DecodeShardManifest d = Ok m"
    using assms unfolding held_def by (metis in_set_conv_decomp)
  then have "Received now src d \<in> set sample_events" by (meson in_set_takeD)
  then have "d = manifest_wire sample_manifest \<or> d = [1, 2, 3]" by (auto simp: sample_events_def)
  then show ?thesis using d sample_manifest_decodes sample_damaged by auto
qed

lemma sample_live:
  "held 0 (take 3 sample_events @ ps) (Addr6 (replicate 16 1) [], 7) sample_manifest"
  "held 0 (take 3 sample_events @ ps) (Addr6 (replicate 16 2) [], 7) sample_manifest" if "\<forall>ev \<in> set ps. \<exists>it now. ev = Pass it now"
proof -
  let ?w = "manifest_wire sample_manifest"
  let ?a = "Received 0 (Addr6 (replicate 16 1) []) ?w" and ?b = "Received 0 (Addr6 (replicate 16 3) []) [1, 2, 3]" and ?c = "Received 0 (Addr6 (replicate 16 2) []) ?w"
  have evs: "take 3 sample_events = [?a, ?b, ?c]" by (simp add: sample_events_def)
  have pass: "Received now src d \<notin> set ps" "Expire u \<notin> set ps" for now src d u using that by auto
  have flag: "\<not> has (sm_Flags sample_manifest) FlagShutdown" "sm_InstanceID sample_manifest = 7" by (simp_all add: sample_manifest_def has_def)
  note facts = sample_manifest_decodes sample_damaged pass flag keyOf_def
  show "held 0 (take 3 sample_events @ ps) (Addr6 (replicate 16 1) [], 7) sample_manifest"
    unfolding held_def evs
    by (intro exI [of _ "[]"] exI [of _ 0] exI [of _ "Addr6 (replicate 16 1) []"] exI [of _ ?w] exI [of _ "[?b, ?c] @ ps"])
      (auto simp: facts replicate_eq_replicate)
  show "held 0 (take 3 sample_events @ ps) (Addr6 (replicate 16 2) [], 7) sample_manifest"
    unfolding held_def evs
    by (intro exI [of _ "[?a, ?b]"] exI [of _ 0] exI [of _ "Addr6 (replicate 16 2) []"] exI [of _ ?w] exI [of _ ps])
      (auto simp: facts)
qed

lemma sample_undisputed:
  assumes "take n sample_events = take 3 sample_events @ ps" and "\<forall>ev \<in> set ps. \<exists>it now. ev = Pass it now"
  shows "undisputed sample_cfg 0 (take n sample_events) 4"
  unfolding undisputed_def
proof (intro conjI exI [of _ "{(Addr6 (replicate 16 1) [], 7), (Addr6 (replicate 16 2) [], 7)}"] allI impI)
  let ?K = "{(Addr6 (replicate 16 1) [], 7), (Addr6 (replicate 16 2) [], 7)} :: entry_key set"
  show "finite ?K" by simp
  show "quorum_of sample_cfg \<le> int (card ?K)" by (simp add: quorum_of_def sample_cfg_def replicate_eq_replicate)
  have m: "has (sm_Flags sample_manifest) FlagAuthoritative" "sm_ShardBits sample_manifest = 4" by (simp_all add: sample_manifest_def has_def)
  show "\<forall>k \<in> ?K. \<exists>m. held 0 (take n sample_events) k m \<and> has (sm_Flags m) FlagAuthoritative \<and> sm_ShardBits m = 4"
    using sample_live [OF assms(2)] m unfolding assms(1) by blast
  show "sm_ShardBits m' = 4" if "held 0 (take n sample_events) k m' \<and> has (sm_Flags m') FlagAuthoritative" for k m'
    using sample_held that m(2) by blast
qed

theorem adoption_follows_wire_witness:
  "ad_ShardBits (fst (Evaluate sample_order (5 * Second) (Snapshot (nd_registry (run_node sample_cfg 0 (take 4 sample_events))))
     (nd_evaluator (run_node sample_cfg 0 (take 4 sample_events))))) = 4"
proof (rule adoption_follows_wire [where first = "take 3 sample_events" and it = sample_order and s = 0 and mid = "[]"])
  show h: "take 4 sample_events = take 3 sample_events @ Pass sample_order 0 # []" by (simp add: sample_events_def)
  have quorum: "undisputed sample_cfg 0 (take 3 sample_events) 4" "undisputed sample_cfg 0 (take 4 sample_events) 4"
    using sample_undisputed [of 3 "[]"] sample_undisputed [OF h] by simp_all
  have len: "length (take 3 sample_events) = 3" "length (take 4 sample_events) = 4" by (simp_all add: sample_events_def)
  show "\<forall>n o' now. length (take 3 sample_events) \<le> n \<and> n \<le> length (take 4 sample_events) \<and>
      (take 4 sample_events @ [Pass sample_order (5 * Second)]) ! n = Pass o' now \<longrightarrow> undisputed sample_cfg 0 (take n (take 4 sample_events)) 4"
    unfolding len
  proof (intro allI impI, elim conjE)
    fix n :: nat
    assume "3 \<le> n" "n \<le> 4"
    then have "n = 3 \<or> n = 4" by linarith
    then show "undisputed sample_cfg 0 (take n (take 4 sample_events)) 4" using quorum by auto
  qed
  show "sorted (pass_times (take 4 sample_events @ [Pass sample_order (5 * Second)]))" by (simp add: sample_events_def)
  show "\<forall>ev \<in> set (take 4 sample_events @ [Pass sample_order (5 * Second)]). \<forall>o' now. ev = Pass o' now \<longrightarrow> legal_order o'"
    by (simp add: sample_events_def legal_sample_order)
qed (simp_all add: sample_cfg_def time_Sub_def)

end
