(* ===== verification/Cache_Memory.thy ===== *)
theory Cache_Memory
  imports Go_Std
begin

unbundle bit_operations_syntax

text \<open>
  The in-process cache backend (\<^verbatim>\<open>cache/memory/memory.go\<close>). Every operation on a key holds the lock of the
  key's shard, so the behaviour of a shard under concurrent use is a sequence of the operations here;
  the clock \<^verbatim>\<open>monoNow\<close> is their argument \<open>now\<close>. Writes read it under the lock; \<^verbatim>\<open>Get\<close> reads it after it has released the lock,
  so its \<open>now\<close> may be later than that of operations which come after it on the shard. Values are non-nil slices: the
  source stores a nil value like an empty one, but \<^verbatim>\<open>Get\<close> returns it as nil, which is how a miss looks.

  A queue is passed by value together with its shard and written back by the caller: the source's
  helpers reach a queue through the pointer they are given and never through the shard. The capacity
  of a queue's array, which only decides when memory is released, is not modelled. Counters
  (\<open>s_writes\<close>, \<open>s_items\<close>, \<open>s_bytes\<close>) are integers; they stay far below \<open>2^63\<close>.
\<close>

section \<open>Data\<close>

abbreviation (input) shardCount :: nat where "shardCount \<equiv> 64"
abbreviation (input) writeExpireBudget :: nat where "writeExpireBudget \<equiv> 2"
abbreviation (input) expireBatch :: nat where "expireBatch \<equiv> 1024"
abbreviation (input) compactSlack :: int where "compactSlack \<equiv> 1024"
abbreviation (input) maxBudget :: nat where "maxBudget \<equiv> 9223372036854775807"

record cache_entry =
  ce_value :: bytes
  ce_deadline :: int

definition live :: "cache_entry \<Rightarrow> int \<Rightarrow> bool" where
  "live e now \<longleftrightarrow> ce_deadline e \<le> 0 \<or> now < ce_deadline e"

record cache_item =
  it_key :: bytes
  it_deadline :: int

record cache_queue =
  q_ttl :: duration
  q_items :: "cache_item list"
  q_head :: nat

record cache_shard =
  s_data :: "(bytes \<times> cache_entry) list"
  s_ttlQueues :: "cache_queue list"
  s_forever :: cache_queue
  s_writes :: int
  s_items :: int
  s_bytes :: int

record cache_options =
  opt_MaxKeys :: int
  opt_MaxBytes :: int
  opt_ExpireInterval :: duration

record cache_backend =
  b_shards :: "cache_shard list"
  b_perShard :: int
  b_perShardBytes :: int

definition emptyShard :: cache_shard where
  "emptyShard = \<lparr>s_data = [], s_ttlQueues = [], s_forever = \<lparr>q_ttl = 0, q_items = [], q_head = 0\<rparr>, s_writes = 0, s_items = 0, s_bytes = 0\<rparr>"

definition NewWithOptions :: "cache_options \<Rightarrow> cache_backend" where
  "NewWithOptions opts =
     \<lparr>b_shards = replicate shardCount emptyShard,
      b_perShard = (if 0 < opt_MaxKeys opts then max (opt_MaxKeys opts div int shardCount) 1 else 0),
      b_perShardBytes = (if 0 < opt_MaxBytes opts then max (opt_MaxBytes opts div int shardCount) 1 else 0)\<rparr>"

definition memory_New :: "int \<Rightarrow> cache_backend" where
  "memory_New maxKeys = NewWithOptions \<lparr>opt_MaxKeys = maxKeys, opt_MaxBytes = 0, opt_ExpireInterval = 0\<rparr>"

definition shardFor :: "bytes \<Rightarrow> nat" where
  "shardFor key = unat (foldl (\<lambda>h c. (h XOR ucast c) * 16777619) (2166136261 :: u32) key mod 64)"

section \<open>Queues\<close>

definition q_len :: "cache_queue \<Rightarrow> nat" where
  "q_len q = length (q_items q) - q_head q"

definition q_peek :: "cache_queue \<Rightarrow> cache_item" where
  "q_peek q = q_items q ! q_head q"

definition q_push :: "cache_item \<Rightarrow> cache_queue \<Rightarrow> cache_queue" where
  "q_push it q = q\<lparr>q_items := q_items q @ [it]\<rparr>"

definition q_compact :: "cache_queue \<Rightarrow> cache_queue" where
  "q_compact q = q\<lparr>q_items := drop (q_head q) (q_items q), q_head := 0\<rparr>"

definition q_pop :: "cache_queue \<Rightarrow> cache_item \<times> cache_queue" where
  "q_pop q =
     (let it = q_items q ! q_head q; q = q\<lparr>q_head := q_head q + 1\<rparr> in
      (it, if length (q_items q) \<le> 2 * q_head q then q_compact q else q))"

section \<open>Shards\<close>

definition current :: "cache_shard \<Rightarrow> cache_item \<Rightarrow> bool" where
  "current s it = (case map_of (s_data s) (it_key it) of Some e \<Rightarrow> ce_deadline e = it_deadline it | None \<Rightarrow> False)"

definition deleteKey :: "bytes \<Rightarrow> cache_shard \<Rightarrow> cache_shard" where
  "deleteKey k s =
     (case map_of (s_data s) k of
        Some e \<Rightarrow> s\<lparr>s_bytes := s_bytes s - int (length (ce_value e)), s_data := AList.delete k (s_data s)\<rparr>
      | None \<Rightarrow> s)"

definition s_pop :: "cache_queue \<Rightarrow> cache_shard \<Rightarrow> cache_queue \<times> cache_shard" where
  "s_pop q s =
     (let (it, q) = q_pop q; s = s\<lparr>s_items := s_items s - 1\<rparr> in
      (q, if current s it then deleteKey (it_key it) s else s))"

fun expireQueue :: "int \<Rightarrow> nat \<Rightarrow> cache_queue \<Rightarrow> cache_shard \<Rightarrow> nat \<times> cache_queue \<times> cache_shard" where
  "expireQueue now budget q s =
     (if 0 < budget \<and> 0 < q_len q \<and> it_deadline (q_peek q) \<le> now then
        let (q, s) = s_pop q s in expireQueue now (budget - 1) q s
      else (budget, q, s))"

declare expireQueue.simps [simp del]

primrec expireQueues :: "int \<Rightarrow> cache_queue list \<Rightarrow> nat \<Rightarrow> cache_shard \<Rightarrow> bool \<times> cache_queue list \<times> cache_shard" where
  "expireQueues now [] budget s = (False, [], s)"
| "expireQueues now (q # qs) budget s =
     (let (budget, q, s) = expireQueue now budget q s in
      if budget = 0 then (True, q # qs, s)
      else let (again, qs, s) = expireQueues now qs budget s in (again, q # qs, s))"

definition expire :: "int \<Rightarrow> nat \<Rightarrow> cache_shard \<Rightarrow> bool \<times> cache_shard" where
  "expire now budget s =
     (let (again, qs, s) = expireQueues now (s_ttlQueues s) budget s in (again, s\<lparr>s_ttlQueues := qs\<rparr>))"

lemma q_len_pop: "0 < q_len q \<Longrightarrow> q_len (snd (q_pop q)) < q_len q"
  by (auto simp: q_len_def q_pop_def q_compact_def Let_def)

function dropStale :: "cache_queue \<Rightarrow> cache_shard \<Rightarrow> cache_queue \<times> cache_shard" where
  "dropStale q s =
     (if 0 < q_len q \<and> \<not> current s (q_peek q) then dropStale (snd (q_pop q)) (s\<lparr>s_items := s_items s - 1\<rparr>)
      else (q, s))"
  by pat_completeness auto
termination by (relation "measure (\<lambda>(q, s). q_len q)") (auto simp: q_len_pop)

declare dropStale.simps [simp del]

text \<open>The loop of \<^verbatim>\<open>evict\<close>: \<open>i\<close> is the index of the next queue, \<open>first\<close> the index and head deadline of the best so far.\<close>

primrec scanQueues ::
  "cache_queue list \<Rightarrow> nat \<Rightarrow> (nat \<times> int) option \<Rightarrow> cache_shard \<Rightarrow> (nat \<times> int) option \<times> cache_queue list \<times> cache_shard"
where
  "scanQueues [] i first s = (first, [], s)"
| "scanQueues (q # qs) i first s =
     (let (q, s) = dropStale q s;
          better = (case first of None \<Rightarrow> True | Some (j, d) \<Rightarrow> it_deadline (q_peek q) < d);
          first = (if 0 < q_len q \<and> better then Some (i, it_deadline (q_peek q)) else first);
          (first, qs, s) = scanQueues qs (i + 1) first s in
      (first, q # qs, s))"

definition evict :: "cache_shard \<Rightarrow> bool \<times> cache_shard" where
  "evict s =
     (let (first, qs, s) = scanQueues (s_ttlQueues s) 0 None s; s = s\<lparr>s_ttlQueues := qs\<rparr> in
      case first of
        None \<Rightarrow>
          let (q, s) = dropStale (s_forever s) s; s = s\<lparr>s_forever := q\<rparr> in
          if q_len q = 0 then (False, s)
          else let (q, s) = s_pop q s in (True, s\<lparr>s_forever := q\<rparr>)
      | Some (i, d) \<Rightarrow>
          let (q, s) = s_pop (qs ! i) s in (True, s\<lparr>s_ttlQueues := qs[i := q]\<rparr>))"

section \<open>Eviction makes progress\<close>

lemma current_items [simp]: "current (s\<lparr>s_items := n\<rparr>) = current s" "current (s\<lparr>s_ttlQueues := qs\<rparr>) = current s"
  "current (s\<lparr>s_forever := q\<rparr>) = current s"
  by (simp_all add: current_def fun_eq_iff)

lemma dropStale_shard: "\<exists>n. snd (dropStale q s) = s\<lparr>s_items := n\<rparr>"
proof (induction q s rule: dropStale.induct)
  case (1 q s)
  show ?case
  proof (cases "0 < q_len q \<and> \<not> current s (q_peek q)")
    case True
    with 1 obtain n where "snd (dropStale (snd (q_pop q)) (s\<lparr>s_items := s_items s - 1\<rparr>)) = s\<lparr>s_items := s_items s - 1\<rparr>\<lparr>s_items := n\<rparr>" by blast
    then show ?thesis using True by (subst dropStale.simps) auto
  next
    case False
    have "s = s\<lparr>s_items := s_items s\<rparr>" by simp
    then show ?thesis using False by (subst dropStale.simps) (auto intro: exI [of _ "s_items s"])
  qed
qed

lemma dropStale_current: "0 < q_len (fst (dropStale q s)) \<Longrightarrow> current s (q_peek (fst (dropStale q s)))"
proof (induction q s rule: dropStale.induct)
  case (1 q s)
  then show ?case by (subst dropStale.simps, subst (asm) (2) dropStale.simps) (auto split: if_splits)
qed

definition scan_ok :: "cache_shard \<Rightarrow> cache_queue list \<Rightarrow> nat \<Rightarrow> nat \<Rightarrow> bool" where
  "scan_ok s qs i j \<longleftrightarrow> i \<le> j \<and> j < i + length qs \<and> 0 < q_len (qs ! (j - i)) \<and> current s (q_peek (qs ! (j - i)))"

lemma items_self: "\<exists>n. s = s\<lparr>s_items := n\<rparr>"
  by (rule exI [of _ "s_items s"]) simp

lemma scanQueues_shard:
  "scanQueues qs i first s = (r, qs', s') \<Longrightarrow> (\<exists>n. s' = s\<lparr>s_items := n\<rparr>) \<and> length qs' = length qs"
proof (induction qs arbitrary: i first s qs')
  case Nil
  then show ?case using items_self [of s'] by simp
next
  case (Cons q qs)
  obtain q1 s1 where d1: "dropStale q s = (q1, s1)" by fastforce
  then obtain n where "s1 = s\<lparr>s_items := n\<rparr>" using dropStale_shard [of q s] by auto
  with Cons d1 show ?case by (fastforce simp: Let_def split: prod.splits)
qed

lemma scanQueues_first:
  "scanQueues qs i first s = (Some (j, d), qs', s') \<Longrightarrow> first = Some (j, d) \<or> scan_ok s qs' i j"
proof (induction qs arbitrary: i first s qs' s')
  case Nil
  then show ?case by simp
next
  case (Cons q qs)
  obtain q1 s1 where d1: "dropStale q s = (q1, s1)" by fastforce
  obtain n where s1: "s1 = s\<lparr>s_items := n\<rparr>" using dropStale_shard [of q s] d1 by auto
  define first1 where "first1 = (if 0 < q_len q1 \<and> (case first of None \<Rightarrow> True | Some (j, d) \<Rightarrow> it_deadline (q_peek q1) < d)
    then Some (i, it_deadline (q_peek q1)) else first)"
  obtain first2 qs2 s2 where r: "scanQueues qs (i + 1) first1 s1 = (first2, qs2, s2)" by (metis prod_cases3)
  have eq: "first2 = Some (j, d)" "qs' = q1 # qs2"
    using Cons.prems d1 r by (simp_all add: first1_def Let_def)
  from Cons.IH [OF r [unfolded eq(1)]] s1 have f: "first1 = Some (j, d) \<or> scan_ok s qs2 (i + 1) j" by (simp add: scan_ok_def)
  have "scan_ok s (q1 # qs2) i i" if "0 < q_len q1" using that dropStale_current [of q s] d1 by (simp add: scan_ok_def)
  moreover have "scan_ok s qs2 (i + 1) j \<Longrightarrow> scan_ok s (q1 # qs2) i j" by (auto simp: scan_ok_def nth_Cons')
  ultimately show ?case using f eq by (auto simp: first1_def split: if_splits)
qed

lemma length_pop_current:
  "0 < q_len q \<Longrightarrow> current s (q_peek q) \<Longrightarrow> length (s_data (snd (s_pop q s))) < length (s_data s)"
  by (auto simp: s_pop_def q_pop_def q_peek_def Let_def current_def deleteKey_def AList.delete_eq split: option.splits
      intro!: length_filter_less dest: map_of_SomeD)

lemma evict_shrinks: "evict s = (True, s') \<Longrightarrow> length (s_data s') < length (s_data s)"
proof -
  assume e: "evict s = (True, s')"
  obtain first qs s1 where sc: "scanQueues (s_ttlQueues s) 0 None s = (first, qs, s1)" by (metis prod_cases3)
  obtain n where s1: "s1 = s\<lparr>s_items := n\<rparr>" using scanQueues_shard [OF sc] by blast
  let ?s1 = "s1\<lparr>s_ttlQueues := qs\<rparr>"
  show ?thesis
  proof (cases first)
    case None
    obtain q s2 where d: "dropStale (s_forever ?s1) ?s1 = (q, s2)" by fastforce
    obtain m where m: "s2 = ?s1\<lparr>s_items := m\<rparr>" using dropStale_shard [of "s_forever ?s1" ?s1] d by auto
    have l: "0 < q_len q" using e sc None d by (auto simp: evict_def Let_def split: if_splits)
    then have "current s2 (q_peek q)" using dropStale_current [of "s_forever ?s1" ?s1] d m by simp
    then show ?thesis
      using length_pop_current [of q "s2\<lparr>s_forever := q\<rparr>"] l e sc None d m s1
      by (auto simp: evict_def Let_def split: prod.splits)
  next
    case (Some jd)
    obtain j d where jd: "jd = (j, d)" by fastforce
    from scanQueues_first [OF sc [unfolded Some jd]] have "0 < q_len (qs ! j)" "current s (q_peek (qs ! j))"
      by (auto simp: scan_ok_def)
    then show ?thesis
      using length_pop_current [of "qs ! j" ?s1] e sc Some jd s1 by (auto simp: evict_def Let_def split: prod.splits)
  qed
qed

section \<open>Writing\<close>

function evictEntries :: "int \<Rightarrow> cache_shard \<Rightarrow> cache_shard" where
  "evictEntries limit s =
     (if limit \<le> int (length (s_data s)) then
        case evict s of (True, s') \<Rightarrow> evictEntries limit s' | (False, s') \<Rightarrow> s'
      else s)"
  by pat_completeness auto
termination by (relation "measure (\<lambda>(limit, s). length (s_data s))") (auto dest!: evict_shrinks [OF sym])

function evictBytes :: "int \<Rightarrow> cache_shard \<Rightarrow> cache_shard" where
  "evictBytes limit s =
     (if limit < s_bytes s then
        case evict s of (True, s') \<Rightarrow> evictBytes limit s' | (False, s') \<Rightarrow> s'
      else s)"
  by pat_completeness auto
termination by (relation "measure (\<lambda>(limit, s). length (s_data s))") (auto dest!: evict_shrinks [OF sym])

declare evictEntries.simps [simp del] evictBytes.simps [simp del]

definition makeRoom :: "int \<Rightarrow> int \<Rightarrow> cache_shard \<Rightarrow> cache_shard" where
  "makeRoom now limit s = evictEntries limit (snd (expire now maxBudget s))"

definition makeRoomBytes :: "int \<Rightarrow> int \<Rightarrow> cache_shard \<Rightarrow> cache_shard" where
  "makeRoomBytes now limit s = evictBytes limit (snd (expire now maxBudget s))"

definition keepCurrent :: "cache_shard \<Rightarrow> cache_queue \<Rightarrow> cache_queue" where
  "keepCurrent s q = q\<lparr>q_items := filter (current s) (drop (q_head q) (q_items q)), q_head := 0\<rparr>"

definition compactShard :: "cache_shard \<Rightarrow> cache_shard" where
  "compactShard s =
     (let f = keepCurrent s (s_forever s); qs = map (keepCurrent s) (s_ttlQueues s) in
      s\<lparr>s_forever := f, s_ttlQueues := qs,
        s_items := int (length (q_items f)) + (\<Sum>q\<leftarrow>qs. int (length (q_items q)))\<rparr>)"

text \<open>The index of the queue for a TTL; the queue is opened at the end if there is none.\<close>

primrec queueIndex :: "duration \<Rightarrow> cache_queue list \<Rightarrow> nat" where
  "queueIndex ttl [] = 0"
| "queueIndex ttl (q # qs) = (if q_ttl q = ttl then 0 else Suc (queueIndex ttl qs))"

definition queueFor :: "duration \<Rightarrow> cache_shard \<Rightarrow> nat \<times> cache_shard" where
  "queueFor ttl s =
     (let i = queueIndex ttl (s_ttlQueues s) in
      if i < length (s_ttlQueues s) then (i, s)
      else (i, s\<lparr>s_ttlQueues := s_ttlQueues s @ [\<lparr>q_ttl = ttl, q_items = [], q_head = 0\<rparr>]\<rparr>))"

text \<open>Room for the new value; the entry the write replaces is looked up again if entries were evicted for it.\<close>

definition putRoom :: "cache_backend \<Rightarrow> bytes \<Rightarrow> bytes \<Rightarrow> int \<Rightarrow> cache_shard \<Rightarrow> cache_shard \<times> cache_entry option" where
  "putRoom b key val now s =
     (let prev = map_of (s_data s) key;
          s = (if prev = None \<and> 0 < b_perShard b \<and> b_perShard b \<le> int (length (s_data s)) then makeRoom now (b_perShard b) s else s) in
      if 0 < b_perShardBytes b then
        let need = int (length val) - (case prev of Some e \<Rightarrow> int (length (ce_value e)) | None \<Rightarrow> 0) in
        if 0 < need \<and> b_perShardBytes b < s_bytes s + need then
          let s = makeRoomBytes now (b_perShardBytes b - int (length val)) s in (s, map_of (s_data s) key)
        else (s, prev)
      else (s, prev))"

definition maybeCompact :: "cache_shard \<Rightarrow> cache_shard" where
  "maybeCompact s = (if 2 * int (length (s_data s)) + compactSlack < s_items s then compactShard s else s)"

definition put :: "cache_backend \<Rightarrow> bytes \<Rightarrow> bytes \<Rightarrow> duration \<Rightarrow> int \<Rightarrow> cache_shard \<Rightarrow> cache_shard" where
  "put b key val ttl now s =
     (let (s, prev) = putRoom b key val now s;
          s = s\<lparr>s_bytes := s_bytes s - (case prev of Some e \<Rightarrow> int (length (ce_value e)) | None \<Rightarrow> 0) + int (length val)\<rparr> in
      if 0 < ttl \<and> now \<le> maxDuration - ttl then
        let (i, s) = queueFor ttl s;
            deadline = now + ttl;
            s = s\<lparr>s_data := AList.update key \<lparr>ce_value = val, ce_deadline = deadline\<rparr> (s_data s)\<rparr> in
        if map_option ce_deadline prev = Some deadline then s
        else
          let q = q_push \<lparr>it_key = key, it_deadline = deadline\<rparr> (s_ttlQueues s ! i);
              s = s\<lparr>s_items := s_items s + 1\<rparr>;
              (_, q, s) = expireQueue now writeExpireBudget q s in
          maybeCompact (s\<lparr>s_ttlQueues := (s_ttlQueues s)[i := q]\<rparr>)
      else
        let s = s\<lparr>s_writes := s_writes s + 1\<rparr>;
            deadline = - s_writes s;
            s = s\<lparr>s_data := AList.update key \<lparr>ce_value = val, ce_deadline = deadline\<rparr> (s_data s)\<rparr> in
        if map_option ce_deadline prev = Some deadline then s
        else
          maybeCompact (s\<lparr>s_forever := q_push \<lparr>it_key = key, it_deadline = deadline\<rparr> (s_forever s), s_items := s_items s + 1\<rparr>))"

section \<open>The backend\<close>

definition shard_Set :: "cache_backend \<Rightarrow> bytes \<Rightarrow> bytes \<Rightarrow> duration \<Rightarrow> int \<Rightarrow> cache_shard \<Rightarrow> cache_shard" where
  "shard_Set b key val ttl now s = put b key val ttl now s"

definition shard_SetNX :: "cache_backend \<Rightarrow> bytes \<Rightarrow> bytes \<Rightarrow> duration \<Rightarrow> int \<Rightarrow> cache_shard \<Rightarrow> bool \<times> cache_shard" where
  "shard_SetNX b key val ttl now s =
     (case map_of (s_data s) key of
        Some prev \<Rightarrow> if live prev now then (False, s) else (True, put b key val ttl now s)
      | None \<Rightarrow> (True, put b key val ttl now s))"

definition shard_Get :: "bytes \<Rightarrow> int \<Rightarrow> cache_shard \<Rightarrow> bytes option" where
  "shard_Get key now s =
     (case map_of (s_data s) key of Some e \<Rightarrow> if live e now then Some (ce_value e) else None | None \<Rightarrow> None)"

definition dropEmptyQueues :: "cache_shard \<Rightarrow> cache_shard" where
  "dropEmptyQueues s = s\<lparr>s_ttlQueues := filter (\<lambda>q. 0 < q_len q) (s_ttlQueues s)\<rparr>"

text \<open>One lock hold of the background expirer; \<open>True\<close> means that the shard is to be visited again.\<close>

definition expireHold :: "int \<Rightarrow> cache_shard \<Rightarrow> bool \<times> cache_shard" where
  "expireHold now s =
     (let (again, s) = expire now expireBatch s in (again, if again then s else dropEmptyQueues s))"

definition at_shard :: "bytes \<Rightarrow> (cache_shard \<Rightarrow> cache_shard) \<Rightarrow> cache_backend \<Rightarrow> cache_backend" where
  "at_shard key f b = b\<lparr>b_shards := (b_shards b)[shardFor key := f (b_shards b ! shardFor key)]\<rparr>"

definition cache_Set :: "bytes \<Rightarrow> bytes \<Rightarrow> duration \<Rightarrow> int \<Rightarrow> cache_backend \<Rightarrow> cache_backend" where
  "cache_Set key val ttl now b = at_shard key (shard_Set b key val ttl now) b"

definition cache_SetNX :: "bytes \<Rightarrow> bytes \<Rightarrow> duration \<Rightarrow> int \<Rightarrow> cache_backend \<Rightarrow> bool \<times> cache_backend" where
  "cache_SetNX key val ttl now b =
     (fst (shard_SetNX b key val ttl now (b_shards b ! shardFor key)), at_shard key (snd \<circ> shard_SetNX b key val ttl now) b)"

definition cache_Get :: "bytes \<Rightarrow> int \<Rightarrow> cache_backend \<Rightarrow> bytes option" where
  "cache_Get key now b = shard_Get key now (b_shards b ! shardFor key)"

definition cache_Del :: "bytes \<Rightarrow> cache_backend \<Rightarrow> cache_backend" where
  "cache_Del key b = at_shard key (deleteKey key) b"

definition cache_Len :: "cache_backend \<Rightarrow> nat" where
  "cache_Len b = (\<Sum>s\<leftarrow>b_shards b. length (s_data s))"

definition cache_expire :: "nat \<Rightarrow> int \<Rightarrow> cache_backend \<Rightarrow> cache_backend" where
  "cache_expire i now b = b\<lparr>b_shards := (b_shards b)[i := snd (expireHold now (b_shards b ! i))]\<rparr>"

text \<open>
  A pass of the background expirer with no other operation in between: each shard is held again until a hold
  does not use up its batch. \<open>clock n\<close> is the \<open>n\<close>-th reading of the clock. A hold that asks for another one
  has popped a whole batch, so the visits of a shard end.
\<close>

lemma expireQueue_len: "expireQueue now budget q s = (rest, q', s') \<Longrightarrow> q_len q' + budget = q_len q + rest"
proof (induction now budget q s rule: expireQueue.induct)
  case (1 now budget q s)
  show ?case
  proof (cases "0 < budget \<and> 0 < q_len q \<and> it_deadline (q_peek q) \<le> now")
    case True
    obtain q1 s1 where p: "s_pop q s = (q1, s1)" by fastforce
    then have "q_len q1 + 1 = q_len q" using True by (auto simp: s_pop_def q_pop_def q_compact_def q_len_def Let_def split: if_splits)
    then show ?thesis using 1 True p by (fastforce simp: expireQueue.simps [of now budget q])
  qed (use 1(2) in \<open>subst (asm) expireQueue.simps, auto\<close>)
qed

lemma expireQueues_len:
  "expireQueues now qs budget s = (True, qs', s') \<Longrightarrow> (\<Sum>q\<leftarrow>qs'. q_len q) + budget = (\<Sum>q\<leftarrow>qs. q_len q)"
  by (induction qs arbitrary: budget s qs' s') (fastforce simp: Let_def dest!: expireQueue_len split: prod.splits if_splits)+

lemma expireHold_len:
  "fst (expireHold now s) \<Longrightarrow> (\<Sum>q\<leftarrow>s_ttlQueues (snd (expireHold now s)). q_len q) < (\<Sum>q\<leftarrow>s_ttlQueues s. q_len q)"
  by (auto simp: expireHold_def expire_def Let_def dest!: expireQueues_len split: prod.splits)

function expireShard :: "(nat \<Rightarrow> int) \<Rightarrow> nat \<Rightarrow> cache_shard \<Rightarrow> nat \<times> cache_shard" where
  "expireShard clock n s =
     (if fst (expireHold (clock n) s) then expireShard clock (n + 1) (snd (expireHold (clock n) s))
      else (n + 1, snd (expireHold (clock n) s)))"
  by pat_completeness auto
termination by (relation "measure (\<lambda>(clock, n, s). \<Sum>q\<leftarrow>s_ttlQueues s. q_len q)") (auto intro: expireHold_len)

declare expireShard.simps [simp del]

primrec expireShards :: "(nat \<Rightarrow> int) \<Rightarrow> nat \<Rightarrow> cache_shard list \<Rightarrow> cache_shard list" where
  "expireShards clock n [] = []"
| "expireShards clock n (s # ss) = (let (n, s) = expireShard clock n s in s # expireShards clock n ss)"

definition cache_expireAll :: "(nat \<Rightarrow> int) \<Rightarrow> cache_backend \<Rightarrow> cache_backend" where
  "cache_expireAll clock b = b\<lparr>b_shards := expireShards clock 0 (b_shards b)\<rparr>"

end
