(* ===== verification/Cache_Spec.thy ===== *)
theory Cache_Spec
  imports Cache_Memory
begin

text \<open>
  Correctness of the in-process cache: the invariant that ties the expiry queues to the entries, its
  preservation by every operation, the capacity bounds, and that the cache implements a map with
  expiry, exactly when it is unbounded and up to evictions when it is bounded.
\<close>

section \<open>Queues as lists of items\<close>

definition qi :: "cache_queue \<Rightarrow> cache_item list" where
  "qi q = drop (q_head q) (q_items q)"

definition q_ok :: "cache_queue \<Rightarrow> bool" where
  "q_ok q \<longleftrightarrow> q_head q \<le> length (q_items q)"

lemma q_len_qi: "q_len q = length (qi q)"
  by (simp add: q_len_def qi_def)

lemma q_peek_qi: "qi q \<noteq> [] \<Longrightarrow> q_peek q = hd (qi q)"
  by (simp add: q_peek_def qi_def hd_drop_conv_nth)

lemma q_push_qi: "q_ok q \<Longrightarrow> qi (q_push it q) = qi q @ [it] \<and> q_ok (q_push it q) \<and> q_ttl (q_push it q) = q_ttl q"
  by (simp add: q_push_def qi_def q_ok_def)

lemma q_pop_qi:
  assumes "qi q = it # r"
  shows "fst (q_pop q) = it" "qi (snd (q_pop q)) = r" "q_ok (snd (q_pop q))" "q_ttl (snd (q_pop q)) = q_ttl q"
proof -
  have l: "q_head q < length (q_items q)" by (rule ccontr) (use assms in \<open>simp add: qi_def\<close>)
  then have "drop (q_head q) (q_items q) = q_items q ! q_head q # drop (Suc (q_head q)) (q_items q)" by (rule Cons_nth_drop_Suc [symmetric])
  with assms have r: "it = q_items q ! q_head q" "r = drop (Suc (q_head q)) (q_items q)" by (simp_all add: qi_def)
  show "fst (q_pop q) = it" "qi (snd (q_pop q)) = r" "q_ok (snd (q_pop q))" "q_ttl (snd (q_pop q)) = q_ttl q"
    using l by (simp_all add: q_pop_def Let_def q_compact_def qi_def q_ok_def r)
qed

section \<open>Entries and items\<close>

definition item_of :: "bytes \<times> cache_entry \<Rightarrow> cache_item" where
  "item_of ke = \<lparr>it_key = fst ke, it_deadline = ce_deadline (snd ke)\<rparr>"

text \<open>
  \<open>core s I\<close>: the keys are distinct, the byte counter is the sum of the value lengths, the item counter
  is the number of the items \<open>I\<close> in the queues, and every entry has its item among them.
\<close>

definition core :: "cache_shard \<Rightarrow> cache_item list \<Rightarrow> bool" where
  "core s I \<longleftrightarrow> distinct (map fst (s_data s)) \<and> s_bytes s = (\<Sum>ke\<leftarrow>s_data s. int (length (ce_value (snd ke)))) \<and>
     s_items s = int (length I) \<and> item_of ` set (s_data s) \<subseteq> set I"

lemma core_cong: "core s I \<Longrightarrow> length I = length J \<Longrightarrow> set I = set J \<Longrightarrow> core s J"
  by (simp add: core_def)

lemma core_fields [simp]:
  "core (s\<lparr>s_ttlQueues := qs\<rparr>) I = core s I" "core (s\<lparr>s_forever := q\<rparr>) I = core s I" "core (s\<lparr>s_writes := w\<rparr>) I = core s I"
  by (simp_all add: core_def)

lemma current_iff:
  "distinct (map fst (s_data s)) \<Longrightarrow> current s it \<longleftrightarrow> it \<in> item_of ` set (s_data s)"
proof -
  assume d: "distinct (map fst (s_data s))"
  have "current s it \<longleftrightarrow> (\<exists>e. map_of (s_data s) (it_key it) = Some e \<and> ce_deadline e = it_deadline it)"
    by (simp add: current_def split: option.split)
  also have "\<dots> \<longleftrightarrow> (\<exists>e. (it_key it, e) \<in> set (s_data s) \<and> ce_deadline e = it_deadline it)" using d by simp
  also have "\<dots> \<longleftrightarrow> it \<in> item_of ` set (s_data s)" by (cases it) (force simp: item_of_def)
  finally show ?thesis .
qed

text \<open>
  \<open>reduces P s s'\<close>: the entries of \<open>s'\<close> are those of \<open>s\<close> without some that satisfy \<open>P\<close>; the queues and
  the write counter are the same.
\<close>

definition reduces :: "(cache_entry \<Rightarrow> bool) \<Rightarrow> cache_shard \<Rightarrow> cache_shard \<Rightarrow> bool" where
  "reduces P s s' \<longleftrightarrow> s_writes s' = s_writes s \<and>
     (\<forall>k. map_of (s_data s') k = map_of (s_data s) k \<or> map_of (s_data s') k = None \<and> (\<exists>e. map_of (s_data s) k = Some e \<and> P e))"

lemma reduces_refl [simp]: "reduces P s s"
  by (simp add: reduces_def)

lemma reduces_trans: "reduces P s s' \<Longrightarrow> reduces P s' s'' \<Longrightarrow> reduces P s s''"
  unfolding reduces_def by metis

lemma reduces_mono: "reduces P s s' \<Longrightarrow> (\<And>e. P e \<Longrightarrow> Q e) \<Longrightarrow> reduces Q s s'"
  unfolding reduces_def by metis

lemma reduces_fields [simp]:
  "reduces P s (s'\<lparr>s_ttlQueues := qs\<rparr>) = reduces P s s'" "reduces P s (s'\<lparr>s_forever := q\<rparr>) = reduces P s s'"
  "reduces P s (s'\<lparr>s_items := n\<rparr>) = reduces P s s'" "reduces P (s\<lparr>s_ttlQueues := qs\<rparr>) s' = reduces P s s'"
  "reduces P (s\<lparr>s_forever := q\<rparr>) s' = reduces P s s'" "reduces P (s\<lparr>s_items := n\<rparr>) s' = reduces P s s'"
  by (simp_all add: reduces_def)

lemma sum_list_filter_key:
  assumes "distinct (map fst xs)" and "map_of xs k = Some e"
  shows "(\<Sum>ke\<leftarrow>AList.delete k xs. f ke) = (\<Sum>ke\<leftarrow>xs. f ke) - (f (k, e) :: int)"
  using assms
proof (induction xs)
  case (Cons x xs)
  obtain k' e' where x: "x = (k', e')" by fastforce
  show ?case
  proof (cases "k' = k")
    case True
    then have "AList.delete k xs = xs" using Cons.prems x by (auto simp: delete_id)
    then show ?thesis using True Cons.prems x by simp
  next
    case False
    then show ?thesis using Cons x by simp
  qed
qed simp

lemma deleteKey_fields [simp]:
  "s_ttlQueues (deleteKey k s) = s_ttlQueues s" "s_forever (deleteKey k s) = s_forever s" "s_writes (deleteKey k s) = s_writes s"
  "s_items (deleteKey k s) = s_items s" "s_data (deleteKey k s) = AList.delete k (s_data s)"
  by (auto simp: deleteKey_def delete_id map_of_eq_None_iff split: option.split)

lemma deleteKey_core:
  assumes "core s I"
  shows "core (deleteKey k s) I"
proof (cases "map_of (s_data s) k")
  case None
  then show ?thesis using assms by (simp add: deleteKey_def)
next
  case (Some e)
  have "set (AList.delete k (s_data s)) \<subseteq> set (s_data s)" by (auto simp: AList.delete_eq)
  then show ?thesis
    using assms Some sum_list_filter_key [of "s_data s" k e "\<lambda>ke. int (length (ce_value (snd ke)))"]
    by (auto simp: core_def deleteKey_def distinct_delete)
qed

lemma deleteKey_reduces: "map_of (s_data s) k = Some e \<Longrightarrow> P e \<Longrightarrow> reduces P s (deleteKey k s)"
  by (auto simp: reduces_def delete_conv')

section \<open>Popping and expiring\<close>

text \<open>Popping an item keeps the core for the remaining ones: only the popped item's own entry needed it.\<close>

lemma core_drop:
  assumes "core s (it # I)" and "\<not> current s it"
  shows "core (s\<lparr>s_items := s_items s - 1\<rparr>) I"
  using assms current_iff [of s it] by (auto simp: core_def)

lemma core_delete:
  assumes "core s (it # I)"
  shows "core (deleteKey (it_key it) (s\<lparr>s_items := s_items s - 1\<rparr>)) I"
proof -
  have "core (deleteKey (it_key it) s) (it # I)" by (rule deleteKey_core [OF assms])
  moreover have "it \<notin> item_of ` set (AList.delete (it_key it) (s_data s))" by (auto simp: AList.delete_eq item_of_def)
  ultimately have "core ((deleteKey (it_key it) s)\<lparr>s_items := s_items s - 1\<rparr>) I" by (auto simp: core_def)
  moreover have "deleteKey (it_key it) (s\<lparr>s_items := s_items s - 1\<rparr>) = (deleteKey (it_key it) s)\<lparr>s_items := s_items s - 1\<rparr>"
    by (simp add: deleteKey_def split: option.split)
  ultimately show ?thesis by simp
qed

lemma s_pop_spec:
  assumes "qi q = it # r" and "core s (it # I)" and "s_pop q s = (q', s')"
  shows "qi q' = r" "q_ok q'" "q_ttl q' = q_ttl q" "core s' I" "reduces (\<lambda>e. ce_deadline e = it_deadline it) s s'"
    "s_ttlQueues s' = s_ttlQueues s" "s_forever s' = s_forever s"
proof -
  note P = q_pop_qi [OF assms(1)]
  have r: "q' = snd (q_pop q)" "s' = (if current s it then deleteKey (it_key it) (s\<lparr>s_items := s_items s - 1\<rparr>) else s\<lparr>s_items := s_items s - 1\<rparr>)"
    using assms(3) P(1) by (auto simp: s_pop_def Let_def split: prod.splits)
  show "qi q' = r" "q_ok q'" "q_ttl q' = q_ttl q" using P r by simp_all
  show "core s' I" using core_drop [OF assms(2)] core_delete [OF assms(2)] r(2) by simp
  show "s_ttlQueues s' = s_ttlQueues s" "s_forever s' = s_forever s" using r(2) by simp_all
  show "reduces (\<lambda>e. ce_deadline e = it_deadline it) s s'"
  proof (cases "current s it")
    case True
    then obtain e where "map_of (s_data s) (it_key it) = Some e" "ce_deadline e = it_deadline it"
      by (auto simp: current_def split: option.splits)
    then show ?thesis using True r(2) deleteKey_reduces [of "s\<lparr>s_items := s_items s - 1\<rparr>"] by simp
  qed (simp add: r(2))
qed

definition same_queues :: "cache_shard \<Rightarrow> cache_shard \<Rightarrow> bool" where
  "same_queues s s' \<longleftrightarrow> s_ttlQueues s' = s_ttlQueues s \<and> s_forever s' = s_forever s"

definition pops :: "cache_queue \<Rightarrow> cache_queue \<Rightarrow> bool" where
  "pops q q' \<longleftrightarrow> (\<exists>n. qi q' = drop n (qi q)) \<and> q_ok q' \<and> q_ttl q' = q_ttl q"

lemma pops_refl: "q_ok q \<Longrightarrow> pops q q"
  unfolding pops_def by (auto intro: exI [of _ 0])

lemma pops_trans: "pops q q' \<Longrightarrow> pops q' q'' \<Longrightarrow> pops q q''"
  unfolding pops_def by (metis drop_drop)

definition done_at :: "int \<Rightarrow> cache_queue \<Rightarrow> bool" where
  "done_at now q \<longleftrightarrow> qi q = [] \<or> now < it_deadline (hd (qi q))"

lemma expireQueue_spec:
  "expireQueue now budget q s = (b, q', s') \<Longrightarrow> q_ok q \<Longrightarrow> core s (qi q @ J) \<Longrightarrow>
   core s' (qi q' @ J) \<and> pops q q' \<and> reduces (\<lambda>e. \<exists>it \<in> set (qi q). ce_deadline e = it_deadline it \<and> it_deadline it \<le> now) s s' \<and>
   same_queues s s' \<and> (b \<noteq> 0 \<longrightarrow> done_at now q') \<and> b \<le> budget"
proof (induction now budget q s arbitrary: b q' s' rule: expireQueue.induct)
  case (1 now budget q s)
  show ?case
  proof (cases "0 < budget \<and> 0 < q_len q \<and> it_deadline (q_peek q) \<le> now")
    case True
    then obtain it r where it: "qi q = it # r" by (cases "qi q") (auto simp: q_len_qi)
    then have peek: "q_peek q = it" by (simp add: q_peek_qi)
    obtain q1 s1 where p: "s_pop q s = (q1, s1)" by fastforce
    have rec: "expireQueue now (budget - 1) q1 s1 = (b, q', s')" using "1.prems"(1) True p by (subst (asm) expireQueue.simps) simp
    have c: "core s (it # r @ J)" using "1.prems"(3) it by simp
    note S = s_pop_spec [OF it c p]
    have IH: "core s' (qi q' @ J)" "pops q1 q'" "reduces (\<lambda>e. \<exists>it \<in> set (qi q1). ce_deadline e = it_deadline it \<and> it_deadline it \<le> now) s1 s'"
      "same_queues s1 s'" "b \<noteq> 0 \<longrightarrow> done_at now q'" "b \<le> budget - 1"
      using "1.IH" [OF True p [symmetric] refl rec S(2)] S(1,4) by auto
    have pq: "pops q q1" using S(1-3) it by (auto simp: pops_def intro: exI [of _ 1])
    have r1: "reduces (\<lambda>e. \<exists>it \<in> set (qi q). ce_deadline e = it_deadline it \<and> it_deadline it \<le> now) s s1"
      using S(5) by (rule reduces_mono) (use True it peek in auto)
    have r2: "reduces (\<lambda>e. \<exists>it \<in> set (qi q). ce_deadline e = it_deadline it \<and> it_deadline it \<le> now) s1 s'"
      using IH(3) by (rule reduces_mono) (use S(1) it in auto)
    have "same_queues s s'" using IH(4) S(6,7) by (simp add: same_queues_def)
    then show ?thesis using IH(1,5,6) pops_trans [OF pq IH(2)] reduces_trans [OF r1 r2] by simp
  next
    case False
    then have "b = budget" "q' = q" "s' = s" using "1.prems"(1) by (subst (asm) expireQueue.simps; auto)+
    then show ?thesis
      using "1.prems" False q_peek_qi [of q] by (cases "qi q = []") (auto simp: same_queues_def done_at_def q_len_qi pops_refl not_le)
  qed
qed

lemma core_move: "core s (A @ B @ C) \<longleftrightarrow> core s (B @ A @ C)"
  by (auto simp: core_def)

definition expired_in :: "int \<Rightarrow> cache_item list \<Rightarrow> cache_entry \<Rightarrow> bool" where
  "expired_in now I e \<longleftrightarrow> (\<exists>it \<in> set I. ce_deadline e = it_deadline it \<and> it_deadline it \<le> now)"

lemma expireQueues_spec:
  "expireQueues now qs budget s = (again, qs', s') \<Longrightarrow> \<forall>q \<in> set qs. q_ok q \<Longrightarrow> core s (concat (map qi qs) @ J) \<Longrightarrow>
   core s' (concat (map qi qs') @ J) \<and> list_all2 pops qs qs' \<and> reduces (expired_in now (concat (map qi qs))) s s' \<and> same_queues s s' \<and>
   (\<not> again \<longrightarrow> list_all (done_at now) qs')"
proof (induction qs arbitrary: budget s again qs' s' J)
  case Nil
  then show ?case by (simp add: same_queues_def)
next
  case (Cons q qs)
  obtain b q1 s1 where e: "expireQueue now budget q s = (b, q1, s1)" by (metis prod_cases3)
  have "core s (qi q @ (concat (map qi qs) @ J))" using Cons.prems(3) by simp
  from expireQueue_spec [OF e _ this] Cons.prems(2) have E: "core s1 (qi q1 @ (concat (map qi qs) @ J))" "pops q q1"
    "reduces (expired_in now (qi q)) s s1" "same_queues s s1" "b \<noteq> 0 \<longrightarrow> done_at now q1"
    by (simp_all add: expired_in_def [abs_def])
  have r1: "reduces (expired_in now (concat (map qi (q # qs)))) s s1"
    using E(3) by (rule reduces_mono) (auto simp: expired_in_def)
  show ?case
  proof (cases "b = 0")
    case True
    then have "again" "qs' = q1 # qs" "s' = s1" using Cons.prems(1) e by simp_all
    then show ?thesis using E r1 Cons.prems(2) pops_refl by (auto simp: list_all2_same)
  next
    case False
    obtain again2 qs2 s2 where r: "expireQueues now qs b s1 = (again2, qs2, s2)" by (metis prod_cases3)
    then have eq: "again = again2" "qs' = q1 # qs2" "s' = s2" using Cons.prems(1) e False by simp_all
    have "core s1 (concat (map qi qs) @ (qi q1 @ J))" using E(1) core_move by blast
    from Cons.IH [OF r _ this] Cons.prems(2) have I: "core s2 (concat (map qi qs2) @ qi q1 @ J)" "list_all2 pops qs qs2"
      "reduces (expired_in now (concat (map qi qs))) s1 s2" "same_queues s1 s2" "\<not> again2 \<longrightarrow> list_all (done_at now) qs2" by simp_all
    have "reduces (expired_in now (concat (map qi (q # qs)))) s1 s2"
      using I(3) by (rule reduces_mono) (auto simp: expired_in_def)
    moreover have "core s2 (concat (map qi (q1 # qs2)) @ J)" using I(1) core_move by simp
    ultimately show ?thesis
      using E(2,4,5) I(2,4,5) False reduces_trans [OF r1] by (simp add: eq same_queues_def)
  qed
qed

section \<open>The invariant of a shard\<close>

definition queue_ok :: "int \<Rightarrow> cache_queue \<Rightarrow> bool" where
  "queue_ok t q \<longleftrightarrow> q_ok q \<and> 0 < q_ttl q \<and> sorted (map it_deadline (qi q)) \<and>
     (\<forall>it \<in> set (qi q). 0 < it_deadline it \<and> it_deadline it \<le> t + q_ttl q)"

definition all_items :: "cache_shard \<Rightarrow> cache_item list" where
  "all_items s = concat (map qi (s_ttlQueues s)) @ qi (s_forever s)"

text \<open>
  \<open>shard_inv t s\<close>, where \<open>t\<close> is the last time an operation ran: the core for the items in all queues, each
  TTL queue sorted by deadline with deadlines up to \<open>t\<close> plus its TTL, and negative numbers in the queue
  of the entries that never expire.
\<close>

definition shard_inv :: "int \<Rightarrow> cache_shard \<Rightarrow> bool" where
  "shard_inv t s \<longleftrightarrow> core s (all_items s) \<and> list_all (queue_ok t) (s_ttlQueues s) \<and> q_ok (s_forever s) \<and>
     (\<forall>it \<in> set (qi (s_forever s)). it_deadline it < 0) \<and> 0 \<le> s_writes s \<and> 0 \<le> t"

lemma queue_ok_pops: "queue_ok t q \<Longrightarrow> pops q q' \<Longrightarrow> queue_ok t q'"
proof -
  assume q: "queue_ok t q" and p: "pops q q'"
  then obtain n where n: "qi q' = drop n (qi q)" by (auto simp: pops_def)
  have "sorted (map it_deadline (qi q'))" using q n by (simp add: queue_ok_def drop_map [symmetric] sorted_wrt_drop)
  moreover have "set (qi q') \<subseteq> set (qi q)" using n by (simp add: set_drop_subset)
  ultimately show ?thesis using q p by (auto simp: queue_ok_def pops_def)
qed

lemma queue_ok_mono: "queue_ok t q \<Longrightarrow> t \<le> t' \<Longrightarrow> queue_ok t' q"
  by (fastforce simp: queue_ok_def)

lemma shard_inv_mono: "shard_inv t s \<Longrightarrow> t \<le> t' \<Longrightarrow> shard_inv t' s"
  by (auto simp: shard_inv_def list_all_iff intro: queue_ok_mono)

lemma emptyShard_inv: "0 \<le> t \<Longrightarrow> shard_inv t emptyShard"
  by (simp add: shard_inv_def emptyShard_def core_def all_items_def qi_def q_ok_def)

lemma entry_deadline:
  assumes "shard_inv t s" and "(k, e) \<in> set (s_data s)"
  shows "ce_deadline e < 0 \<or> (\<exists>q \<in> set (s_ttlQueues s). \<lparr>it_key = k, it_deadline = ce_deadline e\<rparr> \<in> set (qi q))"
proof -
  have "item_of (k, e) \<in> set (all_items s)" using assms by (auto simp: shard_inv_def core_def)
  then show ?thesis using assms(1) by (auto simp: item_of_def all_items_def shard_inv_def)
qed

lemma entry_live: "shard_inv t s \<Longrightarrow> (k, e) \<in> set (s_data s) \<Longrightarrow> ce_deadline e \<noteq> 0"
  using entry_deadline [of t s k e] by (auto simp: shard_inv_def list_all_iff queue_ok_def) (metis cache_item.select_convs(2) less_irrefl)

lemma expire_spec:
  assumes "shard_inv t s" and "expire now budget s = (again, s')"
  shows "shard_inv t s'" "reduces (\<lambda>e. \<not> live e now) s s'" "\<not> again \<longrightarrow> list_all (done_at now) (s_ttlQueues s')" "s_forever s' = s_forever s"
proof -
  obtain qs s1 where e: "expireQueues now (s_ttlQueues s) budget s = (again, qs, s1)" "s' = s1\<lparr>s_ttlQueues := qs\<rparr>"
    using assms(2) by (auto simp: expire_def Let_def split: prod.splits)
  have ok: "\<forall>q \<in> set (s_ttlQueues s). q_ok q" using assms(1) by (simp add: shard_inv_def list_all_iff queue_ok_def)
  have c: "core s (concat (map qi (s_ttlQueues s)) @ qi (s_forever s))" using assms(1) by (simp add: shard_inv_def all_items_def)
  from expireQueues_spec [OF e(1) ok c] have S: "core s1 (concat (map qi qs) @ qi (s_forever s))" "list_all2 pops (s_ttlQueues s) qs"
    "reduces (expired_in now (concat (map qi (s_ttlQueues s)))) s s1" "same_queues s s1" "\<not> again \<longrightarrow> list_all (done_at now) qs" by simp_all
  have "list_all (queue_ok t) qs"
    using S(2) assms(1) unfolding shard_inv_def list_all_length by (metis list_all2_conv_all_nth queue_ok_pops)
  then show "shard_inv t s'" using S(1,3,4) assms(1) e(2) by (simp add: shard_inv_def all_items_def same_queues_def reduces_def)
  have "\<And>e. expired_in now (concat (map qi (s_ttlQueues s))) e \<Longrightarrow> \<not> live e now"
    using assms(1) by (fastforce simp: expired_in_def live_def shard_inv_def list_all_iff queue_ok_def)
  then show "reduces (\<lambda>e. \<not> live e now) s s'" using S(3) e(2) by (auto intro: reduces_mono)
  show "\<not> again \<longrightarrow> list_all (done_at now) (s_ttlQueues s')" "s_forever s' = s_forever s" using S(4,5) e(2) by (simp_all add: same_queues_def)
qed

section \<open>Evicting\<close>

lemma dropStale_spec:
  "dropStale q s = (q', s') \<Longrightarrow> q_ok q \<Longrightarrow> core s (qi q @ J) \<Longrightarrow>
   pops q q' \<and> core s' (qi q' @ J) \<and> (qi q' \<noteq> [] \<longrightarrow> current s (hd (qi q'))) \<and> set (filter (current s) (qi q)) \<subseteq> set (qi q')"
proof (induction q s arbitrary: q' s' rule: dropStale.induct)
  case (1 q s)
  show ?case
  proof (cases "0 < q_len q \<and> \<not> current s (q_peek q)")
    case True
    then obtain it r where it: "qi q = it # r" by (cases "qi q") (auto simp: q_len_qi)
    then have st: "\<not> current s it" using True by (simp add: q_peek_qi)
    note P = q_pop_qi [OF it]
    have rec: "dropStale (snd (q_pop q)) (s\<lparr>s_items := s_items s - 1\<rparr>) = (q', s')"
      using "1.prems"(1) True by (subst (asm) dropStale.simps) simp
    have "core (s\<lparr>s_items := s_items s - 1\<rparr>) (qi (snd (q_pop q)) @ J)"
      using core_drop [of s it "r @ J"] "1.prems"(3) it st P(2) by simp
    from "1.IH" [OF True rec P(3) this] have I: "pops (snd (q_pop q)) q'" "core s' (qi q' @ J)"
      "qi q' \<noteq> [] \<longrightarrow> current s (hd (qi q'))" "set (filter (current s) r) \<subseteq> set (qi q')" by (simp_all add: P(2))
    have "pops q (snd (q_pop q))" using P it by (auto simp: pops_def intro: exI [of _ 1])
    then show ?thesis using I pops_trans it st by auto
  next
    case False
    then have "q' = q" "s' = s" using "1.prems"(1) by (subst (asm) dropStale.simps; auto)+
    then show ?thesis using "1.prems" False q_peek_qi [of q] by (cases "qi q = []") (auto simp: pops_refl q_len_qi)
  qed
qed

text \<open>The head of a queue is the earliest deadline of its current items.\<close>

definition heads_ok :: "cache_shard \<Rightarrow> cache_queue \<Rightarrow> cache_queue \<Rightarrow> bool" where
  "heads_ok s q q' \<longleftrightarrow> pops q q' \<and> (qi q' \<noteq> [] \<longrightarrow> current s (hd (qi q'))) \<and> set (filter (current s) (qi q)) \<subseteq> set (qi q')"

lemma heads_ok_items: "heads_ok (s\<lparr>s_items := n\<rparr>) = heads_ok s"
  by (simp add: heads_ok_def fun_eq_iff)

definition best_head :: "(nat \<times> int) option \<Rightarrow> cache_queue list \<Rightarrow> bool" where
  "best_head r qs \<longleftrightarrow> (\<forall>q \<in> set qs. qi q \<noteq> [] \<longrightarrow> (\<exists>j d. r = Some (j, d) \<and> d \<le> it_deadline (hd (qi q))))"

lemma scanQueues_spec:
  "scanQueues qs i first s = (r, qs', s') \<Longrightarrow> \<forall>q \<in> set qs. q_ok q \<Longrightarrow> core s (concat (map qi qs) @ J) \<Longrightarrow>
   core s' (concat (map qi qs') @ J) \<and> list_all2 (heads_ok s) qs qs' \<and> best_head r qs' \<and>
   (\<forall>j d. first = Some (j, d) \<longrightarrow> (\<exists>j' d'. r = Some (j', d') \<and> d' \<le> d)) \<and>
   (\<forall>j d. r = Some (j, d) \<longrightarrow> first = Some (j, d) \<or>
      i \<le> j \<and> j < i + length qs' \<and> qi (qs' ! (j - i)) \<noteq> [] \<and> d = it_deadline (hd (qi (qs' ! (j - i)))))"
proof (induction qs arbitrary: i first s r qs' s' J)
  case Nil
  then show ?case by (auto simp: best_head_def)
next
  case (Cons q qs)
  obtain q1 s1 where d1: "dropStale q s = (q1, s1)" by fastforce
  define first1 where "first1 = (if 0 < q_len q1 \<and> (case first of None \<Rightarrow> True | Some (j, d) \<Rightarrow> it_deadline (q_peek q1) < d)
    then Some (i, it_deadline (q_peek q1)) else first)"
  obtain r2 qs2 s2 where sc: "scanQueues qs (i + 1) first1 s1 = (r2, qs2, s2)" by (metis prod_cases3)
  have eq: "r = r2" "qs' = q1 # qs2" "s' = s2" using Cons.prems(1) d1 sc by (simp_all add: first1_def Let_def)
  have "core s (qi q @ (concat (map qi qs) @ J))" using Cons.prems(3) by simp
  from dropStale_spec [OF d1 _ this] Cons.prems(2) have D: "heads_ok s q q1" "core s1 (qi q1 @ (concat (map qi qs) @ J))"
    by (simp_all add: heads_ok_def)
  obtain n where s1: "s1 = s\<lparr>s_items := n\<rparr>" using dropStale_shard [of q s] d1 by auto
  have "core s1 (concat (map qi qs) @ (qi q1 @ J))" using D(2) core_move by blast
  from Cons.IH [OF sc _ this] Cons.prems(2) have I: "core s2 (concat (map qi qs2) @ (qi q1 @ J))" "list_all2 (heads_ok s) qs qs2"
    "best_head r2 qs2" "\<forall>j d. first1 = Some (j, d) \<longrightarrow> (\<exists>j' d'. r2 = Some (j', d') \<and> d' \<le> d)"
    "\<forall>j d. r2 = Some (j, d) \<longrightarrow> first1 = Some (j, d) \<or>
      i + 1 \<le> j \<and> j < i + 1 + length qs2 \<and> qi (qs2 ! (j - (i + 1))) \<noteq> [] \<and> d = it_deadline (hd (qi (qs2 ! (j - (i + 1)))))"
    by (simp_all add: s1 heads_ok_items)
  have f1: "\<exists>j d. first1 = Some (j, d) \<and> d \<le> it_deadline (hd (qi q1))" if "qi q1 \<noteq> []"
    using that by (auto simp: first1_def q_len_qi q_peek_qi split: option.splits)
  have f2: "\<exists>j' d'. first1 = Some (j', d') \<and> d' \<le> d" if "first = Some (j, d)" for j d
    using that by (auto simp: first1_def)
  have f3: "first = Some (j, d) \<or> j = i \<and> qi q1 \<noteq> [] \<and> d = it_deadline (hd (qi q1))" if "first1 = Some (j, d)" for j d
    using that by (auto simp: first1_def q_len_qi q_peek_qi split: if_splits)
  have "best_head r2 (q1 # qs2)" using I(3,4) f1 by (fastforce simp: best_head_def)
  moreover have "core s2 (concat (map qi (q1 # qs2)) @ J)" using I(1) core_move by simp
  moreover have "\<exists>j' d'. r2 = Some (j', d') \<and> d' \<le> d" if "first = Some (j, d)" for j d
    using f2 [OF that] I(4) by fastforce
  moreover have "first = Some (j, d) \<or> i \<le> j \<and> j < i + length (q1 # qs2) \<and> qi ((q1 # qs2) ! (j - i)) \<noteq> [] \<and>
      d = it_deadline (hd (qi ((q1 # qs2) ! (j - i))))" if "r2 = Some (j, d)" for j d
  proof -
    have "first1 = Some (j, d) \<or> i + 1 \<le> j \<and> j < i + 1 + length qs2 \<and> qi (qs2 ! (j - (i + 1))) \<noteq> [] \<and> d = it_deadline (hd (qi (qs2 ! (j - (i + 1)))))"
      using I(5) that by blast
    then show ?thesis using f3 [of j d] by (auto simp: nth_Cons')
  qed
  ultimately show ?case using D(1) I(2) by (simp add: eq)
qed

lemma s_pop_current:
  assumes "qi q = it # r" and "current s it" and "s_pop q s = (q', s')"
  shows "s_data s' = AList.delete (it_key it) (s_data s)" "s_writes s' = s_writes s"
  using assms q_pop_qi(1) [OF assms(1)] by (auto simp: s_pop_def Let_def split: prod.splits)

lemma entry_positive_item:
  assumes "shard_inv t s" and "(k, e) \<in> set (s_data s)" and "0 < ce_deadline e"
  shows "\<exists>q \<in> set (s_ttlQueues s). item_of (k, e) \<in> set (filter (current s) (qi q))"
proof -
  have "current s (item_of (k, e))" using assms(1,2) current_iff [of s] by (auto simp: shard_inv_def core_def)
  then show ?thesis using entry_deadline [OF assms(1,2)] assms(3) by (auto simp: item_of_def)
qed

text \<open>\<open>earliest s e\<close>: no entry that expires does so before \<open>e\<close>; \<open>e\<close> is one that never expires only if all are.\<close>

definition earliest :: "cache_shard \<Rightarrow> cache_entry \<Rightarrow> bool" where
  "earliest s e \<longleftrightarrow> (\<forall>(k', e') \<in> set (s_data s). 0 < ce_deadline e' \<longrightarrow> 0 < ce_deadline e \<and> ce_deadline e \<le> ce_deadline e')"

lemma heads_min:
  assumes "shard_inv t s" and "list_all2 (heads_ok s) (s_ttlQueues s) qs" and "(k, e) \<in> set (s_data s)" and "0 < ce_deadline e"
  shows "\<exists>q \<in> set qs. qi q \<noteq> [] \<and> it_deadline (hd (qi q)) \<le> ce_deadline e"
proof -
  obtain q where q: "q \<in> set (s_ttlQueues s)" "item_of (k, e) \<in> set (filter (current s) (qi q))"
    using entry_positive_item [OF assms(1,3,4)] by blast
  then obtain i where i: "i < length (s_ttlQueues s)" "s_ttlQueues s ! i = q" by (auto simp: in_set_conv_nth)
  let ?q = "qs ! i"
  have h: "heads_ok s q ?q" "?q \<in> set qs" using assms(2) i by (auto simp: list_all2_conv_all_nth)
  have mem: "item_of (k, e) \<in> set (qi ?q)" using h(1) q(2) unfolding heads_ok_def by blast
  have "queue_ok t q" using assms(1) q(1) by (simp add: shard_inv_def list_all_iff)
  then have "sorted (map it_deadline (qi ?q))" using queue_ok_pops [of t q ?q] h(1) by (simp add: heads_ok_def queue_ok_def)
  then have "it_deadline (hd (qi ?q)) \<le> it_deadline (item_of (k, e))" using mem by (cases "qi ?q") auto
  then show ?thesis using mem h(2) by (intro bexI [of _ ?q]) (auto simp: item_of_def)
qed

lemma queues_ok_heads: "list_all (queue_ok t) qs \<Longrightarrow> list_all2 (heads_ok s) qs qs' \<Longrightarrow> list_all (queue_ok t) qs'"
  unfolding list_all_length by (metis heads_ok_def list_all2_conv_all_nth queue_ok_pops)

lemma concat_pop:
  assumes "j < length qs" and "qi (qs ! j) = it # r" and "qi q' = r"
  shows "length (concat (map qi qs)) = Suc (length (concat (map qi (qs[j := q']))))"
    "set (concat (map qi qs)) = insert it (set (concat (map qi (qs[j := q']))))"
proof -
  have "qs = take j qs @ qs ! j # drop (Suc j) qs" "qs[j := q'] = take j qs @ q' # drop (Suc j) qs"
    using assms(1) by (simp_all add: id_take_nth_drop upd_conv_take_nth_drop)
  then have "concat (map qi qs) = concat (map qi (take j qs)) @ it # r @ concat (map qi (drop (Suc j) qs))"
    "concat (map qi (qs[j := q'])) = concat (map qi (take j qs)) @ r @ concat (map qi (drop (Suc j) qs))"
    using assms(2,3) by (metis append_Cons concat.simps(2) concat_append list.simps(9) map_append)+
  then show "length (concat (map qi qs)) = Suc (length (concat (map qi (qs[j := q']))))"
    "set (concat (map qi qs)) = insert it (set (concat (map qi (qs[j := q']))))" by auto
qed

lemma evict_ttl:
  assumes "shard_inv t s" and "scanQueues (s_ttlQueues s) 0 None s = (Some (j, d), qs, s1)"
    and "s_pop (qs ! j) (s1\<lparr>s_ttlQueues := qs\<rparr>) = (q', s2)"
  shows "shard_inv t (s2\<lparr>s_ttlQueues := qs[j := q']\<rparr>)"
    "\<exists>k e. map_of (s_data s) k = Some e \<and> s_data s2 = AList.delete k (s_data s) \<and> earliest s e" "s_writes s2 = s_writes s"
proof -
  have ok: "\<forall>q \<in> set (s_ttlQueues s). q_ok q" and c: "core s (concat (map qi (s_ttlQueues s)) @ qi (s_forever s))"
    using assms(1) by (simp_all add: shard_inv_def all_items_def list_all_iff queue_ok_def)
  from scanQueues_spec [OF assms(2) ok c] have S: "core s1 (concat (map qi qs) @ qi (s_forever s))" "list_all2 (heads_ok s) (s_ttlQueues s) qs"
    "best_head (Some (j, d)) qs" "j < length qs" "qi (qs ! j) \<noteq> []" "d = it_deadline (hd (qi (qs ! j)))" by auto
  obtain n where s1: "s1 = s\<lparr>s_items := n\<rparr>" using scanQueues_shard [OF assms(2)] by blast
  obtain it r where it: "qi (qs ! j) = it # r" using S(5) by (cases "qi (qs ! j)") auto
  have h: "heads_ok s (s_ttlQueues s ! j) (qs ! j)" using S(2,4) by (auto simp: list_all2_conv_all_nth)
  then have cur: "current s it" using it by (simp add: heads_ok_def)
  have oks: "list_all (queue_ok t) qs" using queues_ok_heads [OF _ S(2)] assms(1) by (simp add: shard_inv_def)
  note cp = concat_pop [OF S(4) it q_pop_qi(2) [OF it]]
  have "core (s1\<lparr>s_ttlQueues := qs\<rparr>) (it # (concat (map qi (qs[j := snd (q_pop (qs ! j))])) @ qi (s_forever s)))"
    using core_cong [OF S(1)] cp by simp
  from s_pop_spec [OF it this assms(3)] have P: "qi q' = r" "q_ok q'" "q_ttl q' = q_ttl (qs ! j)"
    "core s2 (concat (map qi (qs[j := snd (q_pop (qs ! j))])) @ qi (s_forever s))" "s_forever s2 = s_forever s" by (simp_all add: s1)
  have "map qi (qs[j := snd (q_pop (qs ! j))]) = map qi (qs[j := q'])" using P(1) q_pop_qi(2) [OF it] by (simp add: map_update)
  then have core': "core s2 (concat (map qi (qs[j := q'])) @ qi (s_forever s2))" using P(4,5) by metis
  have pq: "pops (qs ! j) q'" using P it by (auto simp: pops_def intro: exI [of _ 1])
  have qj: "queue_ok t (qs ! j)" using oks S(4) by (simp add: list_all_length)
  have D: "s_data s2 = AList.delete (it_key it) (s_data s)" "s_writes s2 = s_writes s"
    using s_pop_current [OF it _ assms(3)] cur s1 by simp_all
  have "list_all (queue_ok t) (qs[j := q'])"
    using oks queue_ok_pops [OF qj pq] S(4) by (auto simp: list_all_length nth_list_update)
  then show "shard_inv t (s2\<lparr>s_ttlQueues := qs[j := q']\<rparr>)"
    using core' P(5) D(2) assms(1) by (simp add: shard_inv_def all_items_def)
  obtain e where e: "map_of (s_data s) (it_key it) = Some e" "ce_deadline e = it_deadline it"
    using cur by (auto simp: current_def split: option.splits)
  have pos: "0 < it_deadline it" using qj it by (simp add: queue_ok_def)
  have "ce_deadline e \<le> ce_deadline e'" if "(k', e') \<in> set (s_data s)" "0 < ce_deadline e'" for k' e'
    using heads_min [OF assms(1) S(2) that] S(3,6) it e(2) by (fastforce simp: best_head_def)
  then have "earliest s e" using pos e(2) by (auto simp: earliest_def)
  then show "\<exists>k e. map_of (s_data s) k = Some e \<and> s_data s2 = AList.delete k (s_data s) \<and> earliest s e" using e D(1) by blast
  show "s_writes s2 = s_writes s" by (rule D(2))
qed

lemma evict_forever:
  assumes "shard_inv t s" and "scanQueues (s_ttlQueues s) 0 None s = (None, qs, s1)"
    and "dropStale (s_forever s) (s1\<lparr>s_ttlQueues := qs\<rparr>) = (q, s2)"
  shows "qi q = [] \<Longrightarrow> shard_inv t (s2\<lparr>s_forever := q\<rparr>) \<and> s_data s2 = [] \<and> s_data s = []"
    and "qi q \<noteq> [] \<Longrightarrow> s_pop q (s2\<lparr>s_forever := q\<rparr>) = (q', s3) \<Longrightarrow> shard_inv t (s3\<lparr>s_forever := q'\<rparr>) \<and> s_writes s3 = s_writes s \<and>
      (\<exists>k e. map_of (s_data s) k = Some e \<and> s_data s3 = AList.delete k (s_data s) \<and> earliest s e)"
proof -
  have ok: "\<forall>q \<in> set (s_ttlQueues s). q_ok q" and c: "core s (concat (map qi (s_ttlQueues s)) @ qi (s_forever s))"
    using assms(1) by (simp_all add: shard_inv_def all_items_def list_all_iff queue_ok_def)
  from scanQueues_spec [OF assms(2) ok c] have S: "core s1 (concat (map qi qs) @ qi (s_forever s))" "list_all2 (heads_ok s) (s_ttlQueues s) qs"
    "best_head None qs" by auto
  obtain n where s1: "s1 = s\<lparr>s_items := n\<rparr>" using scanQueues_shard [OF assms(2)] by blast
  have emp: "\<forall>q \<in> set qs. qi q = []" using S(3) by (simp add: best_head_def)
  then have e0: "concat (map qi qs) = []" by simp
  have np: "ce_deadline e < 0" if "(k, e) \<in> set (s_data s)" for k e
    using heads_min [OF assms(1) S(2) that] entry_live [OF assms(1) that] emp by (meson linorder_neqE)
  have "core (s1\<lparr>s_ttlQueues := qs\<rparr>) (qi (s_forever s) @ [])" using S(1) e0 by simp
  moreover have "q_ok (s_forever s)" using assms(1) by (simp add: shard_inv_def)
  ultimately have D: "pops (s_forever s) q" "core s2 (qi q)" "qi q \<noteq> [] \<longrightarrow> current s (hd (qi q))"
    using dropStale_spec [OF assms(3), of "[]"] by (simp_all add: s1)
  obtain m where s2: "s2 = s1\<lparr>s_ttlQueues := qs\<rparr>\<lparr>s_items := m\<rparr>" using dropStale_shard [of "s_forever s" "s1\<lparr>s_ttlQueues := qs\<rparr>"] assms(3) by auto
  have data: "s_data s2 = s_data s" "s_writes s2 = s_writes s" "s_ttlQueues s2 = qs" using s1 s2 by simp_all
  have oks: "list_all (queue_ok t) qs" using queues_ok_heads [OF _ S(2)] assms(1) by (simp add: shard_inv_def)
  have neg: "\<forall>it \<in> set (qi q). it_deadline it < 0"
    using assms(1) D(1) in_set_dropD [of _ _ "qi (s_forever s)"] by (metis shard_inv_def pops_def)
  have ai: "all_items x = qi (s_forever x)" if "s_ttlQueues x = qs" for x
    unfolding all_items_def that e0 by simp
  show "shard_inv t (s2\<lparr>s_forever := q\<rparr>) \<and> s_data s2 = [] \<and> s_data s = []" if "qi q = []"
  proof -
    have "s_data s2 = []" using D(2) that by (simp add: core_def)
    then show ?thesis using D(1,2) that ai [of "s2\<lparr>s_forever := q\<rparr>"] oks neg data assms(1) by (simp add: shard_inv_def pops_def)
  qed
  show "shard_inv t (s3\<lparr>s_forever := q'\<rparr>) \<and> s_writes s3 = s_writes s \<and>
      (\<exists>k e. map_of (s_data s) k = Some e \<and> s_data s3 = AList.delete k (s_data s) \<and> earliest s e)"
    if ne: "qi q \<noteq> []" and p: "s_pop q (s2\<lparr>s_forever := q\<rparr>) = (q', s3)"
  proof -
    obtain it r where it: "qi q = it # r" using ne by (cases "qi q") auto
    have cur: "current s it" using D(3) it by simp
    have "core (s2\<lparr>s_forever := q\<rparr>) (it # r)" using D(2) it by simp
    from s_pop_spec [OF it this p] have P: "qi q' = r" "q_ok q'" "core s3 r" "s_ttlQueues s3 = qs" using data by simp_all
    have cur2: "current (s2\<lparr>s_forever := q\<rparr>) it" using cur s1 s2 by simp
    have W: "s_data s3 = AList.delete (it_key it) (s_data s)" "s_writes s3 = s_writes s"
      using s_pop_current [OF it cur2 p] data by simp_all
    obtain e where e: "map_of (s_data s) (it_key it) = Some e" using cur by (auto simp: current_def split: option.splits)
    have "earliest s e" using np by (force simp: earliest_def)
    then show ?thesis using P W e ai [of "s3\<lparr>s_forever := q'\<rparr>"] oks neg it assms(1) by (auto simp: shard_inv_def)
  qed
qed

lemma evict_spec:
  assumes "shard_inv t s" and "evict s = (ok, s')"
  shows "shard_inv t s'" "s_writes s' = s_writes s" "\<not> ok \<Longrightarrow> s_data s' = [] \<and> s_data s = []"
    "ok \<Longrightarrow> \<exists>k e. map_of (s_data s) k = Some e \<and> s_data s' = AList.delete k (s_data s) \<and> earliest s e"
proof -
  obtain first qs s1 where sc: "scanQueues (s_ttlQueues s) 0 None s = (first, qs, s1)" by (metis prod_cases3)
  obtain n where s1: "s1 = s\<lparr>s_items := n\<rparr>" using scanQueues_shard [OF sc] by blast
  have all: "shard_inv t s' \<and> s_writes s' = s_writes s \<and> (\<not> ok \<longrightarrow> s_data s' = [] \<and> s_data s = []) \<and>
    (ok \<longrightarrow> (\<exists>k e. map_of (s_data s) k = Some e \<and> s_data s' = AList.delete k (s_data s) \<and> earliest s e))"
  proof (cases first)
    case None
    obtain q s2 where d: "dropStale (s_forever s) (s1\<lparr>s_ttlQueues := qs\<rparr>) = (q, s2)" by fastforce
    note F = evict_forever [OF assms(1) sc [unfolded None] d]
    obtain m where s2: "s2 = s1\<lparr>s_ttlQueues := qs\<rparr>\<lparr>s_items := m\<rparr>" using dropStale_shard [of "s_forever s" "s1\<lparr>s_ttlQueues := qs\<rparr>"] d by auto
    show ?thesis
    proof (cases "qi q = []")
      case True
      then have "ok = False" "s' = s2\<lparr>s_forever := q\<rparr>" using assms(2) sc None d s1 by (auto simp: evict_def Let_def q_len_qi)
      then show ?thesis using F(1) [OF True] s1 s2 by simp
    next
      case False
      obtain q' s3 where p: "s_pop q (s2\<lparr>s_forever := q\<rparr>) = (q', s3)" by fastforce
      then have "ok = True" "s' = s3\<lparr>s_forever := q'\<rparr>" using assms(2) sc None d s1 False by (auto simp: evict_def Let_def q_len_qi)
      then show ?thesis using F(2) [OF False p] by simp
    qed
  next
    case (Some jd)
    obtain j d where jd: "jd = (j, d)" by fastforce
    obtain q' s2 where p: "s_pop (qs ! j) (s1\<lparr>s_ttlQueues := qs\<rparr>) = (q', s2)" by fastforce
    then have "ok = True" "s' = s2\<lparr>s_ttlQueues := qs[j := q']\<rparr>" using assms(2) sc Some jd by (auto simp: evict_def Let_def)
    then show ?thesis using evict_ttl [OF assms(1) sc [unfolded Some jd] p] by simp
  qed
  then show "shard_inv t s'" "s_writes s' = s_writes s" "\<not> ok \<Longrightarrow> s_data s' = [] \<and> s_data s = []"
    "ok \<Longrightarrow> \<exists>k e. map_of (s_data s) k = Some e \<and> s_data s' = AList.delete k (s_data s) \<and> earliest s e" by blast+
qed

section \<open>Making room\<close>

text \<open>An entry may be lost to an eviction or because it has expired, but never changed.\<close>

lemma reduces_delete:
  "map_of (s_data s) k = Some e \<Longrightarrow> s_data s' = AList.delete k (s_data s) \<Longrightarrow> s_writes s' = s_writes s \<Longrightarrow> reduces (\<lambda>_. True) s s'"
  by (auto simp: reduces_def delete_conv')

lemma evict_reduces: "shard_inv t s \<Longrightarrow> evict s = (ok, s') \<Longrightarrow> reduces (\<lambda>_. True) s s'"
proof -
  assume i: "shard_inv t s" and e: "evict s = (ok, s')"
  note E = evict_spec [OF i e]
  show ?thesis
  proof (cases ok)
    case True
    then show ?thesis using E(2,4) reduces_delete by blast
  next
    case False
    then show ?thesis using E(2,3) by (simp add: reduces_def)
  qed
qed

lemma evictEntries_spec:
  "shard_inv t s \<Longrightarrow> shard_inv t (evictEntries limit s) \<and> reduces (\<lambda>_. True) s (evictEntries limit s) \<and>
    (int (length (s_data (evictEntries limit s))) < limit \<or> s_data (evictEntries limit s) = [])"
proof (induction limit s rule: evictEntries.induct)
  case (1 limit s)
  show ?case
  proof (cases "limit \<le> int (length (s_data s))")
    case False
    then show ?thesis using "1.prems" by (subst (1 2 3 4) evictEntries.simps) simp
  next
    case True
    obtain ok s' where e: "evict s = (ok, s')" by fastforce
    note E = evict_spec [OF "1.prems" e] and R = evict_reduces [OF "1.prems" e]
    show ?thesis
    proof (cases ok)
      case ok: True
      then have eq: "evictEntries limit s = evictEntries limit s'" using True e by (subst evictEntries.simps) simp
      have "shard_inv t (evictEntries limit s') \<and> reduces (\<lambda>_. True) s' (evictEntries limit s') \<and>
        (int (length (s_data (evictEntries limit s'))) < limit \<or> s_data (evictEntries limit s') = [])"
        using "1.IH" [OF True e [symmetric]] ok E(1) by simp
      then show ?thesis unfolding eq using reduces_trans [OF R] by blast
    next
      case ok: False
      then have "evictEntries limit s = s'" using True e by (subst evictEntries.simps) simp
      then show ?thesis using E(1,3) ok R by simp
    qed
  qed
qed

lemma evictBytes_spec:
  "shard_inv t s \<Longrightarrow> shard_inv t (evictBytes limit s) \<and> reduces (\<lambda>_. True) s (evictBytes limit s) \<and>
    (s_bytes (evictBytes limit s) \<le> limit \<or> s_data (evictBytes limit s) = [])"
proof (induction limit s rule: evictBytes.induct)
  case (1 limit s)
  show ?case
  proof (cases "limit < s_bytes s")
    case False
    then show ?thesis using "1.prems" by (subst (1 2 3 4) evictBytes.simps) simp
  next
    case True
    obtain ok s' where e: "evict s = (ok, s')" by fastforce
    note E = evict_spec [OF "1.prems" e] and R = evict_reduces [OF "1.prems" e]
    show ?thesis
    proof (cases ok)
      case ok: True
      then have eq: "evictBytes limit s = evictBytes limit s'" using True e by (subst evictBytes.simps) simp
      have "shard_inv t (evictBytes limit s') \<and> reduces (\<lambda>_. True) s' (evictBytes limit s') \<and>
        (s_bytes (evictBytes limit s') \<le> limit \<or> s_data (evictBytes limit s') = [])"
        using "1.IH" [OF True e [symmetric]] ok E(1) by simp
      then show ?thesis unfolding eq using reduces_trans [OF R] by blast
    next
      case ok: False
      then have "evictBytes limit s = s'" using True e by (subst evictBytes.simps) simp
      then show ?thesis using E(1,3) ok R by simp
    qed
  qed
qed

lemma makeRoom_spec:
  assumes "shard_inv t s"
  shows "shard_inv t (makeRoom now limit s)" "reduces (\<lambda>_. True) s (makeRoom now limit s)"
    "int (length (s_data (makeRoom now limit s))) < limit \<or> s_data (makeRoom now limit s) = []"
proof -
  obtain again s1 where e: "expire now maxBudget s = (again, s1)" by fastforce
  note E = expire_spec(1,2) [OF assms e]
  have "reduces (\<lambda>_. True) s s1" using E(2) by (rule reduces_mono) simp
  then show "shard_inv t (makeRoom now limit s)" "reduces (\<lambda>_. True) s (makeRoom now limit s)"
    "int (length (s_data (makeRoom now limit s))) < limit \<or> s_data (makeRoom now limit s) = []"
    using evictEntries_spec [OF E(1), of limit] e by (auto simp: makeRoom_def intro: reduces_trans)
qed

lemma makeRoomBytes_spec:
  assumes "shard_inv t s"
  shows "shard_inv t (makeRoomBytes now limit s)" "reduces (\<lambda>_. True) s (makeRoomBytes now limit s)"
    "s_bytes (makeRoomBytes now limit s) \<le> limit \<or> s_data (makeRoomBytes now limit s) = []"
proof -
  obtain again s1 where e: "expire now maxBudget s = (again, s1)" by fastforce
  note E = expire_spec(1,2) [OF assms e]
  have "reduces (\<lambda>_. True) s s1" using E(2) by (rule reduces_mono) simp
  then show "shard_inv t (makeRoomBytes now limit s)" "reduces (\<lambda>_. True) s (makeRoomBytes now limit s)"
    "s_bytes (makeRoomBytes now limit s) \<le> limit \<or> s_data (makeRoomBytes now limit s) = []"
    using evictBytes_spec [OF E(1), of limit] e by (auto simp: makeRoomBytes_def intro: reduces_trans)
qed

section \<open>Capacity\<close>

definition val_len :: "bytes \<times> cache_entry \<Rightarrow> int" where
  "val_len ke = int (length (ce_value (snd ke)))"

lemma core_bytes: "core s I \<Longrightarrow> s_bytes s = (\<Sum>ke \<in> set (s_data s). val_len ke)"
  by (simp add: core_def val_len_def sum_list_distinct_conv_sum_set distinct_map)

lemma val_len_nonneg [simp]: "0 \<le> val_len ke"
  by (simp add: val_len_def)

text \<open>The bytes stay within the share of the shard, or they are those of a single value.\<close>

definition bytes_ok :: "int \<Rightarrow> cache_shard \<Rightarrow> bool" where
  "bytes_ok cap s \<longleftrightarrow> s_bytes s \<le> cap \<or> (\<exists>ke \<in> set (s_data s). s_bytes s = val_len ke)"

definition cap_ok :: "cache_backend \<Rightarrow> cache_shard \<Rightarrow> bool" where
  "cap_ok b s \<longleftrightarrow> (0 < b_perShard b \<longrightarrow> int (length (s_data s)) \<le> b_perShard b) \<and>
     (0 < b_perShardBytes b \<longrightarrow> bytes_ok (b_perShardBytes b) s)"

lemma reduces_subset:
  assumes "reduces P s s'" and "core s I" and "core s' I'"
  shows "set (s_data s') \<subseteq> set (s_data s)" "length (s_data s') \<le> length (s_data s)"
proof -
  have d: "distinct (map fst (s_data s))" "distinct (map fst (s_data s'))" using assms by (simp_all add: core_def)
  show sub: "set (s_data s') \<subseteq> set (s_data s)"
  proof
    fix x assume "x \<in> set (s_data s')"
    then have "map_of (s_data s') (fst x) = Some (snd x)" using d(2) by simp
    then have "map_of (s_data s) (fst x) = Some (snd x)" using assms(1) by (metis reduces_def option.distinct(1))
    then show "x \<in> set (s_data s)" using d(1) by simp
  qed
  then show "length (s_data s') \<le> length (s_data s)"
    using d by (metis card_mono distinct_card distinct_map List.finite_set)
qed

lemma bytes_ok_reduces:
  assumes "bytes_ok cap s" and "reduces P s s'" and "core s I" and "core s' I'" and "0 \<le> cap"
  shows "bytes_ok cap s'"
proof -
  note sub = reduces_subset(1) [OF assms(2-4)]
  note B = core_bytes [OF assms(3)] core_bytes [OF assms(4)]
  have le: "s_bytes s' \<le> s_bytes s" unfolding B by (rule sum_mono2) (use sub in auto)
  show ?thesis
  proof (cases "s_bytes s \<le> cap")
    case True
    then show ?thesis using le by (simp add: bytes_ok_def)
  next
    case False
    then obtain x where x: "x \<in> set (s_data s)" "s_bytes s = val_len x" using assms(1) by (auto simp: bytes_ok_def)
    show ?thesis
    proof (cases "x \<in> set (s_data s')")
      case True
      then have "val_len x \<le> s_bytes s'" unfolding B by (auto intro: member_le_sum)
      then show ?thesis using True le x(2) by (auto simp: bytes_ok_def)
    next
      case notin: False
      have "s_bytes s' \<le> (\<Sum>ke \<in> set (s_data s) - {x}. val_len ke)" unfolding B by (rule sum_mono2) (use sub notin in auto)
      also have "\<dots> = s_bytes s - val_len x" unfolding B using x(1) by (simp add: sum_diff1)
      finally show ?thesis using x(2) assms(5) by (simp add: bytes_ok_def)
    qed
  qed
qed

lemma cap_ok_reduces:
  assumes "cap_ok b s" and "reduces P s s'" and "core s I" and "core s' I'"
  shows "cap_ok b s'"
  using assms(1) bytes_ok_reduces [OF _ assms(2-4)] reduces_subset(2) [OF assms(2-4)] by (auto simp: cap_ok_def)

section \<open>Writing\<close>

definition prev_len :: "cache_entry option \<Rightarrow> int" where
  "prev_len r = (case r of Some e \<Rightarrow> int (length (ce_value e)) | None \<Rightarrow> 0)"

lemma shard_inv_core: "shard_inv t s \<Longrightarrow> core s (all_items s)"
  by (simp add: shard_inv_def)

lemma reduces_None: "reduces P s s' \<Longrightarrow> map_of (s_data s) k = None \<Longrightarrow> map_of (s_data s') k = None"
  unfolding reduces_def by metis

lemma putRoom_spec:
  assumes "shard_inv t s" and "cap_ok b s" and "putRoom b key val now s = (s1, prev)"
  shows "shard_inv t s1" "reduces (\<lambda>_. True) s s1" "prev = map_of (s_data s1) key" "cap_ok b s1"
    "0 < b_perShard b \<Longrightarrow> prev = None \<Longrightarrow> int (length (s_data s1)) < b_perShard b"
    "0 < b_perShardBytes b \<Longrightarrow> s_data s1 = [] \<or> s_bytes s1 - prev_len prev + int (length val) \<le> b_perShardBytes b \<or> int (length val) \<le> prev_len prev"
    "b_perShard b = 0 \<Longrightarrow> b_perShardBytes b = 0 \<Longrightarrow> s1 = s"
proof -
  define p0 where "p0 = map_of (s_data s) key"
  define s0 where "s0 = (if p0 = None \<and> 0 < b_perShard b \<and> b_perShard b \<le> int (length (s_data s)) then makeRoom now (b_perShard b) s else s)"
  have s0: "shard_inv t s0" "reduces (\<lambda>_. True) s s0" using makeRoom_spec(1,2) [OF assms(1)] assms(1) by (simp_all add: s0_def)
  have len0: "int (length (s_data s0)) < b_perShard b" if "0 < b_perShard b" "p0 = None"
    using that makeRoom_spec(3) [OF assms(1), of now "b_perShard b"] by (auto simp: s0_def)
  have p00: "p0 = map_of (s_data s0) key" using reduces_None [OF s0(2)] by (cases p0) (auto simp: p0_def s0_def)
  define need where "need = int (length val) - prev_len p0"
  define room where "room \<longleftrightarrow> 0 < b_perShardBytes b \<and> 0 < need \<and> b_perShardBytes b < s_bytes s0 + need"
  have r: "(s1, prev) = (if room then (makeRoomBytes now (b_perShardBytes b - int (length val)) s0,
      map_of (s_data (makeRoomBytes now (b_perShardBytes b - int (length val)) s0)) key) else (s0, p0))"
    using assms(3) unfolding putRoom_def Let_def p0_def [symmetric] s0_def [symmetric] prev_len_def [symmetric] need_def [symmetric]
    by (auto simp: room_def split: if_splits)
  note M = makeRoomBytes_spec [OF s0(1), of now "b_perShardBytes b - int (length val)"]
  show inv1: "shard_inv t s1" and red1: "reduces (\<lambda>_. True) s s1" and pr1: "prev = map_of (s_data s1) key"
    using r M(1,2) s0 p00 reduces_trans [OF s0(2)] by (auto simp: Let_def split: if_splits)
  show "cap_ok b s1" by (rule cap_ok_reduces [OF assms(2) red1 shard_inv_core [OF assms(1)] shard_inv_core [OF inv1]])
  have red01: "reduces (\<lambda>_. True) s0 s1" using r M(2) by (auto simp: Let_def split: if_splits)
  show "int (length (s_data s1)) < b_perShard b" if ps: "0 < b_perShard b" and pn: "prev = None"
  proof (cases "p0 = None")
    case True
    then show ?thesis
      using len0 [OF ps True] reduces_subset(2) [OF red01 shard_inv_core [OF s0(1)] shard_inv_core [OF inv1]] by simp
  next
    case False
    then obtain e where e: "map_of (s_data s0) key = Some e" using p00 by auto
    have "s0 = s" using False by (auto simp: s0_def)
    have "(key, e) \<in> set (s_data s0) - set (s_data s1)" using e pn pr1 by (auto dest: map_of_SomeD simp: map_of_eq_None_iff image_iff)
    then have "card (set (s_data s1)) < card (set (s_data s0))"
      using reduces_subset(1) [OF red01 shard_inv_core [OF s0(1)] shard_inv_core [OF inv1]] by (intro psubset_card_mono) auto
    then have "length (s_data s1) < length (s_data s)"
      using shard_inv_core [OF s0(1)] shard_inv_core [OF inv1] \<open>s0 = s\<close> by (simp add: core_def distinct_card distinct_map)
    then show ?thesis using assms(2) ps by (simp add: cap_ok_def)
  qed
  show "s_data s1 = [] \<or> s_bytes s1 - prev_len prev + int (length val) \<le> b_perShardBytes b \<or> int (length val) \<le> prev_len prev"
    if "0 < b_perShardBytes b"
  proof -
    have "0 \<le> prev_len prev" by (simp add: prev_len_def split: option.split)
    then show ?thesis using r M(3) that by (auto simp: Let_def room_def need_def split: if_splits)
  qed
  show "s1 = s" if "b_perShard b = 0" "b_perShardBytes b = 0" using r that by (simp add: room_def s0_def)
qed

lemma sum_list_update:
  assumes "distinct (map fst xs)"
  shows "(\<Sum>ke\<leftarrow>AList.update k v xs. f ke) = (\<Sum>ke\<leftarrow>xs. f ke) - (case map_of xs k of Some e \<Rightarrow> f (k, e) | None \<Rightarrow> 0) + (f (k, v) :: int)"
  using assms by (induction xs) (auto split: option.split)

text \<open>Storing a value: its item is new, or the item of the entry it replaces.\<close>

lemma store_core:
  assumes "core s I" and "\<lparr>it_key = key, it_deadline = d\<rparr> \<in> set J" and "set I \<subseteq> set J" and "n = int (length J)"
    and "by = s_bytes s - prev_len (map_of (s_data s) key) + int (length val)"
  shows "core (s\<lparr>s_bytes := by, s_data := AList.update key \<lparr>ce_value = val, ce_deadline = d\<rparr> (s_data s), s_items := n\<rparr>) J"
proof -
  have "set (AList.update key \<lparr>ce_value = val, ce_deadline = d\<rparr> (s_data s)) \<subseteq> insert (key, \<lparr>ce_value = val, ce_deadline = d\<rparr>) (set (s_data s))"
    by (rule set_update_subset)
  then have "item_of ` set (AList.update key \<lparr>ce_value = val, ce_deadline = d\<rparr> (s_data s)) \<subseteq>
      insert \<lparr>it_key = key, it_deadline = d\<rparr> (item_of ` set (s_data s))" by (force simp: item_of_def)
  also have "\<dots> \<subseteq> set J" using assms(1-3) unfolding core_def by blast
  finally have "item_of ` set (AList.update key \<lparr>ce_value = val, ce_deadline = d\<rparr> (s_data s)) \<subseteq> set J" .
  then show ?thesis
    using assms sum_list_update [of "s_data s" "\<lambda>ke. int (length (ce_value (snd ke)))" key "\<lparr>ce_value = val, ce_deadline = d\<rparr>"]
    by (auto simp: core_def distinct_update prev_len_def split: option.splits)
qed

lemma keepCurrent_qi: "qi (keepCurrent s q) = filter (current s) (qi q)" "q_ok (keepCurrent s q)" "q_ttl (keepCurrent s q) = q_ttl q"
    "q_items (keepCurrent s q) = filter (current s) (qi q)"
  by (simp_all add: keepCurrent_def qi_def q_ok_def)

lemma int_length_concat: "int (length (concat xss)) = (\<Sum>xs\<leftarrow>xss. int (length xs))"
  by (induction xss) auto

lemma compactShard_inv:
  assumes "shard_inv t s"
  shows "shard_inv t (compactShard s)"
proof -
  have "queue_ok t (keepCurrent s q)" if "queue_ok t q" for q
    using that sorted_filter [of it_deadline] by (auto simp: queue_ok_def keepCurrent_qi)
  then have "list_all (queue_ok t) (map (keepCurrent s) (s_ttlQueues s))" using assms by (simp add: shard_inv_def list_all_iff)
  moreover have all: "all_items (compactShard s) = filter (current s) (all_items s)"
    by (simp add: all_items_def compactShard_def Let_def keepCurrent_qi filter_concat comp_def)
  moreover have "core (compactShard s) (filter (current s) (all_items s))"
  proof -
    have "s_items (compactShard s) = int (length (all_items (compactShard s)))"
      by (simp add: all_items_def compactShard_def Let_def keepCurrent_qi int_length_concat comp_def)
    moreover have "item_of ` set (s_data s) \<subseteq> set (filter (current s) (all_items s))"
      using assms current_iff [of s] by (auto simp: shard_inv_def core_def)
    ultimately show ?thesis using assms all by (simp add: shard_inv_def core_def compactShard_def Let_def)
  qed
  ultimately show ?thesis using assms by (auto simp: shard_inv_def compactShard_def Let_def keepCurrent_qi)
qed

lemma maybeCompact_spec:
  "shard_inv t s \<Longrightarrow> shard_inv t (maybeCompact s)" "s_data (maybeCompact s) = s_data s" "s_bytes (maybeCompact s) = s_bytes s"
  "s_writes (maybeCompact s) = s_writes s"
  by (simp add: maybeCompact_def compactShard_inv) (simp_all add: maybeCompact_def compactShard_def Let_def)

lemma queueIndex_le: "queueIndex ttl qs \<le> length qs"
  by (induction qs) auto

lemma queueIndex_ttl: "queueIndex ttl qs < length qs \<Longrightarrow> q_ttl (qs ! queueIndex ttl qs) = ttl"
  by (induction qs) auto

lemma queueFor_spec:
  assumes "shard_inv t s" and "queueFor ttl s = (i, s')" and "0 < ttl"
  shows "shard_inv t s'" "i < length (s_ttlQueues s')" "q_ttl (s_ttlQueues s' ! i) = ttl" "s_data s' = s_data s" "all_items s' = all_items s"
    "s_forever s' = s_forever s" "s_writes s' = s_writes s" "s_bytes s' = s_bytes s" "s_items s' = s_items s"
proof -
  let ?new = "\<lparr>q_ttl = ttl, q_items = [], q_head = 0\<rparr>"
  consider (old) "i < length (s_ttlQueues s)" "i = queueIndex ttl (s_ttlQueues s)" "s' = s"
    | (new) "i = length (s_ttlQueues s)" "s' = s\<lparr>s_ttlQueues := s_ttlQueues s @ [?new]\<rparr>"
    using assms(2) queueIndex_le [of ttl "s_ttlQueues s"] by (fastforce simp: queueFor_def Let_def split: if_splits)
  then have all: "shard_inv t s' \<and> i < length (s_ttlQueues s') \<and> q_ttl (s_ttlQueues s' ! i) = ttl \<and> s_data s' = s_data s \<and> all_items s' = all_items s \<and>
    s_forever s' = s_forever s \<and> s_writes s' = s_writes s \<and> s_bytes s' = s_bytes s \<and> s_items s' = s_items s"
  proof cases
    case old
    then show ?thesis using assms(1) queueIndex_ttl by auto
  next
    case new
    have "queue_ok t ?new" using assms(3) by (simp add: queue_ok_def q_ok_def qi_def)
    then show ?thesis using new assms(1) by (simp add: shard_inv_def all_items_def qi_def)
  qed
  then show "shard_inv t s'" "i < length (s_ttlQueues s')" "q_ttl (s_ttlQueues s' ! i) = ttl" "s_data s' = s_data s" "all_items s' = all_items s"
    "s_forever s' = s_forever s" "s_writes s' = s_writes s" "s_bytes s' = s_bytes s" "s_items s' = s_items s" by blast+
qed

text \<open>The items of a shard, with those of one queue in front.\<close>

definition others :: "nat \<Rightarrow> cache_shard \<Rightarrow> cache_item list" where
  "others i s = concat (map qi (take i (s_ttlQueues s))) @ concat (map qi (drop (Suc i) (s_ttlQueues s))) @ qi (s_forever s)"

lemma core_front:
  assumes "i < length (s_ttlQueues s)"
  shows "core s' (all_items (s\<lparr>s_ttlQueues := (s_ttlQueues s)[i := q]\<rparr>)) \<longleftrightarrow> core s' (qi q @ others i s)"
  using assms by (auto simp: core_def all_items_def others_def upd_conv_take_nth_drop)

lemma all_items_front:
  assumes "i < length (s_ttlQueues s)"
  shows "set (all_items s) = set (qi (s_ttlQueues s ! i) @ others i s)" "length (all_items s) = length (qi (s_ttlQueues s ! i) @ others i s)"
proof -
  have "concat (map qi (s_ttlQueues s)) = concat (map qi (take i (s_ttlQueues s))) @ qi (s_ttlQueues s ! i) @ concat (map qi (drop (Suc i) (s_ttlQueues s)))"
    using assms by (metis concat.simps(2) concat_append id_take_nth_drop list.simps(9) map_append)
  then show "set (all_items s) = set (qi (s_ttlQueues s ! i) @ others i s)" "length (all_items s) = length (qi (s_ttlQueues s ! i) @ others i s)"
    by (auto simp: all_items_def others_def)
qed

text \<open>The deadline a write gives its entry.\<close>

definition deadline_of :: "duration \<Rightarrow> int \<Rightarrow> cache_shard \<Rightarrow> int" where
  "deadline_of ttl now s = (if 0 < ttl \<and> now \<le> maxDuration - ttl then now + ttl else - (s_writes s + 1))"

text \<open>
  \<open>stored key e s1 s'\<close>: \<open>s'\<close> holds \<open>e\<close> under \<open>key\<close> and for every other key what \<open>s1\<close> holds, except that expired
  entries may have gone.
\<close>

definition stored :: "int \<Rightarrow> bytes \<Rightarrow> cache_entry \<Rightarrow> cache_shard \<Rightarrow> cache_shard \<Rightarrow> bool" where
  "stored now key e s1 s' \<longleftrightarrow> map_of (s_data s') key = Some e \<and>
     (\<forall>k. k \<noteq> key \<longrightarrow> map_of (s_data s') k = map_of (s_data s1) k \<or>
        map_of (s_data s') k = None \<and> (\<exists>x. map_of (s_data s1) k = Some x \<and> \<not> live x now))"

lemma stored_reduces:
  assumes "reduces (\<lambda>e. \<not> live e now) s2 s'" and "s_data s2 = AList.update key e (s_data s1)" and "live e now"
  shows "stored now key e s1 s'"
proof -
  have r: "map_of (s_data s') k = map_of (s_data s2) k \<or> map_of (s_data s') k = None \<and> (\<exists>x. map_of (s_data s2) k = Some x \<and> \<not> live x now)" for k
    using assms(1) by (simp add: reduces_def)
  have m: "map_of (s_data s2) = (map_of (s_data s1))(key \<mapsto> e)" by (simp add: assms(2) update_conv')
  have "map_of (s_data s') key = Some e" using r [of key] assms(3) by (simp add: m)
  moreover have "map_of (s_data s') k = map_of (s_data s1) k \<or> map_of (s_data s') k = None \<and> (\<exists>x. map_of (s_data s1) k = Some x \<and> \<not> live x now)"
    if "k \<noteq> key" for k using r [of k] that by (simp add: m)
  ultimately show ?thesis by (simp add: stored_def)
qed

text \<open>A write that starts or extends a TTL queue.\<close>

lemma push_ttl:
  assumes "shard_inv now s" and "i < length (s_ttlQueues s)" and "q_ttl (s_ttlQueues s ! i) = ttl" and "0 < ttl"
    and "s2 = s\<lparr>s_bytes := by, s_data := AList.update key \<lparr>ce_value = val, ce_deadline = now + ttl\<rparr> (s_data s), s_items := s_items s + 1\<rparr>"
    and "by = s_bytes s - prev_len (map_of (s_data s) key) + int (length val)"
    and "expireQueue now budget (q_push \<lparr>it_key = key, it_deadline = now + ttl\<rparr> (s_ttlQueues s ! i)) s2 = (bud, q, s3)"
  shows "shard_inv now (s3\<lparr>s_ttlQueues := (s_ttlQueues s)[i := q]\<rparr>)" "reduces (\<lambda>e. \<not> live e now) s2 s3" "s_writes s3 = s_writes s"
    "s_ttlQueues s3 = s_ttlQueues s" "core s2 (qi (q_push \<lparr>it_key = key, it_deadline = now + ttl\<rparr> (s_ttlQueues s ! i)) @ others i s)"
proof -
  let ?it = "\<lparr>it_key = key, it_deadline = now + ttl\<rparr>" and ?q = "s_ttlQueues s ! i"
  have qok: "queue_ok now ?q" using assms(1,2) by (simp add: shard_inv_def list_all_length)
  have pu: "qi (q_push ?it ?q) = qi ?q @ [?it]" "q_ok (q_push ?it ?q)" "q_ttl (q_push ?it ?q) = ttl"
    using q_push_qi [of ?q ?it] qok assms(3) by (simp_all add: queue_ok_def)
  have n0: "0 \<le> now" using assms(1) by (simp add: shard_inv_def)
  have pok: "queue_ok now (q_push ?it ?q)"
    using qok pu assms(3,4) n0 by (auto simp: queue_ok_def sorted_append)
  note fr = all_items_front [OF assms(2)]
  show c2: "core s2 (qi (q_push ?it ?q) @ others i s)"
    unfolding assms(5)
    by (rule store_core [OF shard_inv_core [OF assms(1)] _ _ _ assms(6)])
      (use fr pu assms(1) in \<open>auto simp: shard_inv_def core_def\<close>)
  from expireQueue_spec [OF assms(7) pu(2) c2] have E: "core s3 (qi q @ others i s)" "pops (q_push ?it ?q) q"
    "reduces (expired_in now (qi (q_push ?it ?q))) s2 s3" "same_queues s2 s3" by (simp_all add: expired_in_def [abs_def])
  have "\<And>e. expired_in now (qi (q_push ?it ?q)) e \<Longrightarrow> \<not> live e now"
    using pok by (fastforce simp: expired_in_def live_def queue_ok_def)
  then show "reduces (\<lambda>e. \<not> live e now) s2 s3" using E(3) by (rule reduces_mono [rotated])
  show w: "s_writes s3 = s_writes s" "s_ttlQueues s3 = s_ttlQueues s" using E(3,4) assms(5) by (simp_all add: reduces_def same_queues_def)
  have f: "s_forever s3 = s_forever s" using E(4) assms(5) by (simp add: same_queues_def)
  have "core s3 (all_items (s\<lparr>s_ttlQueues := (s_ttlQueues s)[i := q]\<rparr>))" using core_front [OF assms(2)] E(1) by blast
  moreover have "all_items (s3\<lparr>s_ttlQueues := (s_ttlQueues s)[i := q]\<rparr>) = all_items (s\<lparr>s_ttlQueues := (s_ttlQueues s)[i := q]\<rparr>)"
    by (simp add: all_items_def f)
  moreover have "list_all (queue_ok now) ((s_ttlQueues s)[i := q])"
    using assms(1,2) queue_ok_pops [OF pok E(2)] by (auto simp: shard_inv_def list_all_length nth_list_update)
  ultimately show "shard_inv now (s3\<lparr>s_ttlQueues := (s_ttlQueues s)[i := q]\<rparr>)" using assms(1) f w(1) by (simp add: shard_inv_def)
qed

lemma store_same:
  assumes "shard_inv now s" and "map_option ce_deadline (map_of (s_data s) key) = Some d"
    and "by = s_bytes s - prev_len (map_of (s_data s) key) + int (length val)"
  shows "shard_inv now (s\<lparr>s_bytes := by, s_data := AList.update key \<lparr>ce_value = val, ce_deadline = d\<rparr> (s_data s)\<rparr>)" (is "shard_inv now ?s")
proof -
  obtain e where e: "(key, e) \<in> set (s_data s)" "ce_deadline e = d" using assms(2) by (auto dest: map_of_SomeD)
  have c: "core s (all_items s)" by (rule shard_inv_core [OF assms(1)])
  have "item_of (key, e) \<in> set (all_items s)" using c e(1) by (auto simp: core_def)
  then have "\<lparr>it_key = key, it_deadline = d\<rparr> \<in> set (all_items s)" using e(2) by (simp add: item_of_def)
  from store_core [OF c this subset_refl refl assms(3)] have "core (?s\<lparr>s_items := int (length (all_items s))\<rparr>) (all_items s)" by simp
  moreover have "s_items s = int (length (all_items s))" using c by (simp add: core_def)
  ultimately have "core ?s (all_items s)" by (simp add: core_def)
  then show ?thesis using assms(1) by (simp add: shard_inv_def all_items_def)
qed

lemma push_forever:
  assumes "shard_inv now s" and "by = s_bytes s - prev_len (map_of (s_data s) key) + int (length val)" and "w = s_writes s + 1"
  shows "shard_inv now (s\<lparr>s_bytes := by, s_writes := w, s_data := AList.update key \<lparr>ce_value = val, ce_deadline = - w\<rparr> (s_data s),
    s_forever := q_push \<lparr>it_key = key, it_deadline = - w\<rparr> (s_forever s), s_items := s_items s + 1\<rparr>)" (is "shard_inv now ?s")
proof -
  let ?it = "\<lparr>it_key = key, it_deadline = - w\<rparr>"
  have c: "core s (all_items s)" by (rule shard_inv_core [OF assms(1)])
  have n: "s_items s + 1 = int (length (?it # all_items s))" using c by (simp add: core_def)
  have pu: "qi (q_push ?it (s_forever s)) = qi (s_forever s) @ [?it]" "q_ok (q_push ?it (s_forever s))"
    using q_push_qi [of "s_forever s" ?it] assms(1) by (simp_all add: shard_inv_def)
  have "core (s\<lparr>s_bytes := by, s_data := AList.update key \<lparr>ce_value = val, ce_deadline = - w\<rparr> (s_data s), s_items := s_items s + 1\<rparr>) (?it # all_items s)"
    by (rule store_core [OF c _ _ n assms(2)]) auto
  then have "core ?s (?it # all_items s)" by (simp add: core_def)
  then have "core ?s (all_items ?s)" by (rule core_cong) (simp_all add: all_items_def pu)
  then show ?thesis using assms(1,3) pu by (auto simp: shard_inv_def)
qed

lemma length_store: "length (AList.update k v xs) = (if k \<in> fst ` set xs then length xs else Suc (length xs))"
  by (induction xs) auto

lemma cap_ok_store:
  assumes "core s I" and "cap_ok b s" and "prev = map_of (s_data s) key"
    and len: "0 < b_perShard b \<Longrightarrow> prev = None \<Longrightarrow> int (length (s_data s)) < b_perShard b"
    and room: "0 < b_perShardBytes b \<Longrightarrow> s_data s = [] \<or> s_bytes s - prev_len prev + int (length val) \<le> b_perShardBytes b \<or> int (length val) \<le> prev_len prev"
    and data: "s_data s2 = AList.update key e (s_data s)" "ce_value e = val" and bytes: "s_bytes s2 = s_bytes s - prev_len prev + int (length val)"
  shows "cap_ok b s2"
proof -
  have k: "key \<in> fst ` set (s_data s) \<longleftrightarrow> prev \<noteq> None" using assms(3) by (simp add: map_of_eq_None_iff)
  have "0 < b_perShard b \<Longrightarrow> int (length (s_data s2)) \<le> b_perShard b"
    using assms(2) len k by (auto simp: data(1) length_store cap_ok_def)
  moreover have "bytes_ok (b_perShardBytes b) s2" if pos: "0 < b_perShardBytes b"
  proof -
    have d: "distinct (map fst (s_data s))" using assms(1) by (simp add: core_def)
    have new: "(key, e) \<in> set (s_data s2)" using update_conv' [of key e "s_data s"] by (metis data(1) fun_upd_same map_of_SomeD)
    have keep: "x \<in> set (s_data s2)" if "x \<in> set (s_data s)" "fst x \<noteq> key" for x
      using that d by (metis data(1) fun_upd_apply map_of_SomeD map_of_is_SomeI prod.collapse update_conv')
    have vl: "val_len (key, e) = int (length val)" by (simp add: val_len_def data(2))
    consider "s_data s = []" | "s_bytes s2 \<le> b_perShardBytes b" | "int (length val) \<le> prev_len prev" "b_perShardBytes b < s_bytes s2" "s_data s \<noteq> []"
      using room [OF pos] bytes by force
    then show ?thesis
    proof cases
      case 1
      then have "s_bytes s2 = val_len (key, e)" using assms(1,3) bytes vl by (simp add: core_def prev_len_def)
      then show ?thesis using new by (auto simp: bytes_ok_def)
    next
      case 2
      then show ?thesis by (simp add: bytes_ok_def)
    next
      case 3
      then have "b_perShardBytes b < s_bytes s" using bytes by simp
      then obtain x where x: "x \<in> set (s_data s)" "s_bytes s = val_len x" using assms(2) pos by (auto simp: cap_ok_def bytes_ok_def)
      show ?thesis
      proof (cases "fst x = key")
        case True
        then have "prev = Some (snd x)" using x(1) d assms(3) by (metis map_of_is_SomeI prod.collapse)
        then have "s_bytes s2 = val_len (key, e)" using bytes x(2) vl by (simp add: prev_len_def val_len_def)
        then show ?thesis using new by (auto simp: bytes_ok_def)
      next
        case False
        have "prev_len prev = 0"
        proof (cases prev)
          case (Some e0)
          then have m: "(key, e0) \<in> set (s_data s)" "(key, e0) \<noteq> x" using assms(3) False by (auto dest: map_of_SomeD)
          have "val_len x + val_len (key, e0) = (\<Sum>ke \<in> {x, (key, e0)}. val_len ke)" using m(2) by simp
          also have "\<dots> \<le> s_bytes s" unfolding core_bytes [OF assms(1)] by (rule sum_mono2) (use x(1) m(1) in auto)
          finally show ?thesis using x(2) Some by (simp add: prev_len_def val_len_def)
        qed (simp add: prev_len_def)
        then have "s_bytes s2 = val_len x" using 3(1) bytes x(2) by simp
        then show ?thesis using keep [OF x(1) False] by (auto simp: bytes_ok_def)
      qed
    qed
  qed
  ultimately show ?thesis by (simp add: cap_ok_def)
qed

lemma cap_ok_data: "s_data s' = s_data s \<Longrightarrow> s_bytes s' = s_bytes s \<Longrightarrow> cap_ok b s' = cap_ok b s"
  by (simp add: cap_ok_def bytes_ok_def)

text \<open>What the rest of a write does once room has been made.\<close>

definition put_ok :: "cache_backend \<Rightarrow> int \<Rightarrow> bytes \<Rightarrow> cache_entry \<Rightarrow> cache_shard \<Rightarrow> cache_shard \<Rightarrow> bool" where
  "put_ok b now key e s1 s' \<longleftrightarrow> shard_inv now s' \<and> stored now key e s1 s' \<and> cap_ok b s'"

lemma put_okI:
  assumes "shard_inv now s'" and "s_data s2 = AList.update key e (s_data s1)" and "live e now" and "cap_ok b s2"
    and "core s2 I" and "reduces (\<lambda>e. \<not> live e now) s2 s'"
  shows "put_ok b now key e s1 s'"
  unfolding put_ok_def
  using assms(1) stored_reduces [OF assms(6,2,3)] cap_ok_reduces [OF assms(4,6,5) shard_inv_core [OF assms(1)]] by simp

lemma put_ok_compact: "put_ok b now key e s1 s' \<Longrightarrow> put_ok b now key e s1 (maybeCompact s')"
  using cap_ok_data [of "maybeCompact s'" s'] by (simp add: put_ok_def maybeCompact_spec stored_def)

lemma queueFor_bytes: "queueFor ttl (s\<lparr>s_bytes := x\<rparr>) = (fst (queueFor ttl s), (snd (queueFor ttl s))\<lparr>s_bytes := x\<rparr>)"
  by (simp add: queueFor_def Let_def)

lemma put_expires:
  assumes inv: "shard_inv now s1" and prev: "prev = map_of (s_data s1) key" and put: "putRoom b key val now s = (s1, prev)"
    and e: "e = \<lparr>ce_value = val, ce_deadline = now + ttl\<rparr>" and ttl: "0 < ttl" "now \<le> maxDuration - ttl"
    and cap: "\<And>s2. s_data s2 = AList.update key e (s_data s1) \<Longrightarrow> s_bytes s2 = s_bytes s1 - prev_len prev + int (length val) \<Longrightarrow> cap_ok b s2"
  shows "put_ok b now key e s1 (put b key val ttl now s)"
proof -
  define by' where "by' = s_bytes s1 - prev_len prev + int (length val)"
  obtain i s2 where q: "queueFor ttl s1 = (i, s2)" by fastforce
  note Q = queueFor_spec [OF inv q ttl(1)]
  have by2: "by' = s_bytes s2 - prev_len (map_of (s_data s2) key) + int (length val)" using Q(4,8) by (simp add: by'_def prev)
  define s3 where "s3 = s2\<lparr>s_bytes := by', s_data := AList.update key e (s_data s2)\<rparr>"
  have live: "live e now" using ttl(1) by (simp add: e live_def)
  have d3: "s_data s3 = AList.update key e (s_data s1)" "s_bytes s3 = by'" using Q(4) by (simp_all add: s3_def)
  have pu: "put b key val ttl now s = (if map_option ce_deadline prev = Some (now + ttl) then s3 else
      let (_, q, s) = expireQueue now writeExpireBudget (q_push \<lparr>it_key = key, it_deadline = now + ttl\<rparr> (s_ttlQueues s3 ! i)) (s3\<lparr>s_items := s_items s3 + 1\<rparr>) in
      maybeCompact (s\<lparr>s_ttlQueues := (s_ttlQueues s)[i := q]\<rparr>))"
    using put q ttl
    by (simp add: put_def Let_def queueFor_bytes by'_def prev_len_def s3_def e del: map_option_eq_Some split: prod.split)
  show ?thesis
  proof (cases "map_option ce_deadline prev = Some (now + ttl)")
    case True
    have "shard_inv now s3"
      using store_same [OF Q(1) _ by2, of "now + ttl"] True Q(4) by (simp add: s3_def e prev)
    then have "put_ok b now key e s1 s3"
      using put_okI [OF _ d3(1) live cap [OF d3 [unfolded by'_def]] shard_inv_core reduces_refl] by blast
    then show ?thesis using pu True by (simp del: map_option_eq_Some)
  next
    case False
    let ?s4 = "s3\<lparr>s_items := s_items s3 + 1\<rparr>"
    obtain bud qn s5 where x: "expireQueue now writeExpireBudget (q_push \<lparr>it_key = key, it_deadline = now + ttl\<rparr> (s_ttlQueues s2 ! i)) ?s4 = (bud, qn, s5)"
      by (metis prod_cases3)
    have s4: "?s4 = s2\<lparr>s_bytes := by', s_data := AList.update key \<lparr>ce_value = val, ce_deadline = now + ttl\<rparr> (s_data s2), s_items := s_items s2 + 1\<rparr>"
      by (simp add: s3_def e)
    note P = push_ttl [OF Q(1,2,3) ttl(1) s4 by2 x]
    have q3: "s_ttlQueues s3 = s_ttlQueues s2" by (simp add: s3_def)
    have "put_ok b now key e s1 (s5\<lparr>s_ttlQueues := (s_ttlQueues s2)[i := qn]\<rparr>)"
      using put_okI [OF P(1) _ live _ P(5), where ?s1.0 = s1 and b = b and key = key] d3 cap [of ?s4] P(2) by (simp add: by'_def)
    then have "put_ok b now key e s1 (maybeCompact (s5\<lparr>s_ttlQueues := (s_ttlQueues s2)[i := qn]\<rparr>))" by (rule put_ok_compact)
    then show ?thesis using pu False x P(4) q3 by (simp del: map_option_eq_Some)
  qed
qed

lemma put_keeps:
  assumes inv: "shard_inv now s1" and prev: "prev = map_of (s_data s1) key" and put: "putRoom b key val now s = (s1, prev)"
    and e: "e = \<lparr>ce_value = val, ce_deadline = - (s_writes s1 + 1)\<rparr>" and ttl: "\<not> (0 < ttl \<and> now \<le> maxDuration - ttl)"
    and cap: "\<And>s2. s_data s2 = AList.update key e (s_data s1) \<Longrightarrow> s_bytes s2 = s_bytes s1 - prev_len prev + int (length val) \<Longrightarrow> cap_ok b s2"
  shows "put_ok b now key e s1 (put b key val ttl now s)"
proof -
  define by' where "by' = s_bytes s1 - prev_len prev + int (length val)"
  define w where "w = s_writes s1 + 1"
  have by2: "by' = s_bytes s1 - prev_len (map_of (s_data s1) key) + int (length val)" by (simp add: by'_def prev)
  have w0: "0 < w" using inv by (simp add: w_def shard_inv_def)
  then have live: "live e now" by (simp add: e live_def w_def)
  define s3 where "s3 = s1\<lparr>s_bytes := by', s_writes := w, s_data := AList.update key e (s_data s1)\<rparr>"
  have noexp: "(0 < ttl \<and> now \<le> maxDuration - ttl) = False" using ttl by blast
  define s4 where "s4 = s3\<lparr>s_forever := q_push \<lparr>it_key = key, it_deadline = - w\<rparr> (s_forever s3), s_items := s_items s3 + 1\<rparr>"
  have pu: "put b key val ttl now s = (if map_option ce_deadline prev = Some (- w) then s3 else maybeCompact s4)"
    unfolding put_def put prod.case Let_def noexp if_False
    by (simp add: by'_def prev_len_def s3_def s4_def w_def e del: map_option_eq_Some)
  show ?thesis
  proof (cases "map_option ce_deadline prev = Some (- w)")
    case True
    have "shard_inv now (s1\<lparr>s_bytes := by', s_data := AList.update key e (s_data s1)\<rparr>)"
      using store_same [OF inv _ by2, of "- w"] True by (simp add: prev e w_def)
    then have "shard_inv now s3" using w0 by (simp add: s3_def shard_inv_def all_items_def core_def)
    then have "put_ok b now key e s1 s3"
      using put_okI [OF _ _ live cap shard_inv_core reduces_refl, of s3] by (simp add: s3_def by'_def)
    then show ?thesis using pu True by (simp del: map_option_eq_Some)
  next
    case False
    have "shard_inv now s4" using push_forever [OF inv by2 w_def] by (simp add: s4_def s3_def e w_def)
    then have "put_ok b now key e s1 s4"
      using put_okI [OF _ _ live cap shard_inv_core reduces_refl, of s4] by (simp add: s4_def s3_def by'_def)
    then show ?thesis using pu False put_ok_compact by (simp del: map_option_eq_Some)
  qed
qed

lemma put_spec:
  assumes "shard_inv t s" and "t \<le> now" and "cap_ok b s"
  shows "\<exists>s1. reduces (\<lambda>_. True) s s1 \<and> (b_perShard b = 0 \<and> b_perShardBytes b = 0 \<longrightarrow> s1 = s) \<and>
    put_ok b now key \<lparr>ce_value = val, ce_deadline = deadline_of ttl now s\<rparr> s1 (put b key val ttl now s)"
proof -
  obtain s1 prev where r: "putRoom b key val now s = (s1, prev)" by fastforce
  note R = putRoom_spec [OF shard_inv_mono [OF assms(1,2)] assms(3) r]
  have w: "s_writes s1 = s_writes s" using R(2) by (simp add: reduces_def)
  let ?e = "\<lparr>ce_value = val, ce_deadline = deadline_of ttl now s\<rparr>"
  have cap: "cap_ok b s2" if "s_data s2 = AList.update key ?e (s_data s1)" "s_bytes s2 = s_bytes s1 - prev_len prev + int (length val)" for s2
    by (rule cap_ok_store [OF shard_inv_core [OF R(1)] R(4,3,5,6) that(1) _ that(2)]) simp_all
  have "put_ok b now key ?e s1 (put b key val ttl now s)"
  proof (cases "0 < ttl \<and> now \<le> maxDuration - ttl")
    case True
    then show ?thesis using put_expires [OF R(1,3) r refl _ _ cap] by (simp add: deadline_of_def)
  next
    case False
    then have "deadline_of ttl now s = - (s_writes s1 + 1)" by (auto simp: deadline_of_def w)
    then show ?thesis using put_keeps [OF R(1,3) r refl False] cap by simp
  qed
  then show ?thesis using R(2,7) by blast
qed

section \<open>What a reader sees\<close>

lemma live_mono: "live e now' \<Longrightarrow> now \<le> now' \<Longrightarrow> live e now"
  by (auto simp: live_def)

lemma Get_without_expired:
  assumes "map_of (s_data s') k = map_of (s_data s) k \<or> map_of (s_data s') k = None \<and> (\<exists>x. map_of (s_data s) k = Some x \<and> \<not> live x now)"
    and "now \<le> now'"
  shows "shard_Get k now' s' = shard_Get k now' s"
  using assms(1)
proof
  assume "map_of (s_data s') k = None \<and> (\<exists>x. map_of (s_data s) k = Some x \<and> \<not> live x now)"
  then show ?thesis using live_mono [OF _ assms(2)] by (auto simp: shard_Get_def)
qed (simp add: shard_Get_def)

lemma seen_put:
  assumes "shard_inv t s" and "t \<le> now" and "cap_ok b s" and "now \<le> now'"
  shows "k \<noteq> key \<Longrightarrow> shard_Get k now' (put b key val ttl now s) \<in> {shard_Get k now' s, None}"
    and "k \<noteq> key \<Longrightarrow> b_perShard b = 0 \<Longrightarrow> b_perShardBytes b = 0 \<Longrightarrow> shard_Get k now' (put b key val ttl now s) = shard_Get k now' s"
    and "0 < ttl \<and> now \<le> maxDuration - ttl \<longrightarrow> now' < now + ttl \<Longrightarrow> shard_Get key now' (put b key val ttl now s) = Some val"
    and "0 < ttl \<and> now \<le> maxDuration - ttl \<Longrightarrow> now + ttl \<le> now' \<Longrightarrow> shard_Get key now' (put b key val ttl now s) = None"
proof -
  let ?s = "put b key val ttl now s"
  obtain s1 where r: "reduces (\<lambda>_. True) s s1" "b_perShard b = 0 \<and> b_perShardBytes b = 0 \<longrightarrow> s1 = s"
    and p: "put_ok b now key \<lparr>ce_value = val, ce_deadline = deadline_of ttl now s\<rparr> s1 ?s"
    using put_spec [OF assms(1-3)] by blast
  have st: "stored now key \<lparr>ce_value = val, ce_deadline = deadline_of ttl now s\<rparr> s1 ?s" using p by (simp add: put_ok_def)
  have s1: "shard_Get k now' ?s = shard_Get k now' s1" if "k \<noteq> key"
  proof -
    have "map_of (s_data ?s) k = map_of (s_data s1) k \<or> map_of (s_data ?s) k = None \<and> (\<exists>x. map_of (s_data s1) k = Some x \<and> \<not> live x now)"
      using st that by (simp add: stored_def)
    then show ?thesis using assms(4) by (rule Get_without_expired)
  qed
  have "map_of (s_data s1) k = map_of (s_data s) k \<or> map_of (s_data s1) k = None" using r(1) by (auto simp: reduces_def)
  then have "shard_Get k now' s1 \<in> {shard_Get k now' s, None}" by (auto simp: shard_Get_def)
  then show "k \<noteq> key \<Longrightarrow> shard_Get k now' ?s \<in> {shard_Get k now' s, None}" using s1 by simp
  show "k \<noteq> key \<Longrightarrow> b_perShard b = 0 \<Longrightarrow> b_perShardBytes b = 0 \<Longrightarrow> shard_Get k now' ?s = shard_Get k now' s" using s1 r(2) by simp
  have g: "shard_Get key now' ?s = (if live \<lparr>ce_value = val, ce_deadline = deadline_of ttl now s\<rparr> now' then Some val else None)"
    using st by (simp add: stored_def shard_Get_def)
  have pos: "0 \<le> now" "0 \<le> s_writes s" using assms(1,2) by (simp_all add: shard_inv_def)
  show "shard_Get key now' ?s = Some val" if "0 < ttl \<and> now \<le> maxDuration - ttl \<longrightarrow> now' < now + ttl"
    using that pos unfolding g by (auto simp: live_def deadline_of_def)
  show "shard_Get key now' ?s = None" if "0 < ttl \<and> now \<le> maxDuration - ttl" "now + ttl \<le> now'"
    using that pos unfolding g by (auto simp: live_def deadline_of_def)
qed

lemma expireHold_spec:
  assumes "shard_inv t s" and "t \<le> now" and "cap_ok b s"
  shows "shard_inv now (snd (expireHold now s))" "cap_ok b (snd (expireHold now s))"
    "now \<le> now' \<Longrightarrow> shard_Get k now' (snd (expireHold now s)) = shard_Get k now' s"
proof -
  obtain again s1 where e: "expire now expireBatch s = (again, s1)" by fastforce
  note E = expire_spec [OF shard_inv_mono [OF assms(1,2)] e]
  let ?s = "snd (expireHold now s)"
  have s: "?s = (if again then s1 else dropEmptyQueues s1)" by (simp add: expireHold_def e)
  have "concat (map qi (filter (\<lambda>q. 0 < q_len q) qs)) = concat (map qi qs)" for qs
    by (induction qs) (auto simp: q_len_qi)
  then have "shard_inv now (dropEmptyQueues s1)" using E(1) by (auto simp: shard_inv_def dropEmptyQueues_def all_items_def list_all_iff)
  then show inv: "shard_inv now ?s" using E(1) s by simp
  have red: "reduces (\<lambda>e. \<not> live e now) s ?s" using E(2) s by (simp add: dropEmptyQueues_def)
  show "cap_ok b ?s" by (rule cap_ok_reduces [OF assms(3) red shard_inv_core [OF assms(1)] shard_inv_core [OF inv]])
  show "shard_Get k now' ?s = shard_Get k now' s" if "now \<le> now'"
  proof -
    have "map_of (s_data ?s) k = map_of (s_data s) k \<or> map_of (s_data ?s) k = None \<and> (\<exists>x. map_of (s_data s) k = Some x \<and> \<not> live x now)"
      using red by (simp add: reduces_def)
    then show ?thesis using that by (rule Get_without_expired)
  qed
qed

lemma deleteKey_spec:
  assumes "shard_inv t s" and "cap_ok b s"
  shows "shard_inv t (deleteKey key s)" "cap_ok b (deleteKey key s)" "shard_Get key now (deleteKey key s) = None"
    "k \<noteq> key \<Longrightarrow> shard_Get k now (deleteKey key s) = shard_Get k now s"
proof -
  have all: "all_items (deleteKey key s) = all_items s" by (simp add: all_items_def)
  have c: "core (deleteKey key s) (all_items s)" by (rule deleteKey_core [OF shard_inv_core [OF assms(1)]])
  then show "shard_inv t (deleteKey key s)" using assms(1) by (simp add: shard_inv_def all)
  have "reduces (\<lambda>_. True) s (deleteKey key s)"
    using deleteKey_reduces [of s key] by (cases "map_of (s_data s) key") (auto simp: deleteKey_def)
  then show "cap_ok b (deleteKey key s)" by (rule cap_ok_reduces [OF assms(2) _ shard_inv_core [OF assms(1)] c])
  show "shard_Get key now (deleteKey key s) = None" "k \<noteq> key \<Longrightarrow> shard_Get k now (deleteKey key s) = shard_Get k now s"
    by (simp_all add: shard_Get_def delete_conv')
qed

section \<open>The backend\<close>

definition cache_inv :: "int \<Rightarrow> cache_backend \<Rightarrow> bool" where
  "cache_inv t b \<longleftrightarrow> length (b_shards b) = shardCount \<and> (\<forall>s \<in> set (b_shards b). shard_inv t s \<and> cap_ok b s)"

lemma shardFor_less: "shardFor key < 64"
proof -
  have "unat (w mod 64) < 64" for w :: u32 by (simp add: unat_mod)
  then show ?thesis unfolding shardFor_def by blast
qed

lemma cap_ok_params: "b_perShard b' = b_perShard b \<Longrightarrow> b_perShardBytes b' = b_perShardBytes b \<Longrightarrow> cap_ok b' s = cap_ok b s"
  by (simp add: cap_ok_def)

lemma cache_inv_nth: "cache_inv t b \<Longrightarrow> i < 64 \<Longrightarrow> shard_inv t (b_shards b ! i) \<and> cap_ok b (b_shards b ! i)"
  by (simp add: cache_inv_def)

lemma cache_inv_update:
  assumes "cache_inv t b" and "t \<le> t'" and "i < 64" and "shard_inv t' s" and "cap_ok b s"
  shows "cache_inv t' (b\<lparr>b_shards := (b_shards b)[i := s]\<rparr>)"
proof -
  have "set ((b_shards b)[i := s]) \<subseteq> insert s (set (b_shards b))" by (rule set_update_subset_insert)
  then show ?thesis using assms by (auto simp: cache_inv_def cap_ok_params [of "b\<lparr>b_shards := _\<rparr>" b] intro: shard_inv_mono)
qed

lemma New_inv: "0 \<le> t \<Longrightarrow> cache_inv t (NewWithOptions opts)"
  by (simp add: cache_inv_def NewWithOptions_def emptyShard_inv cap_ok_def bytes_ok_def) (simp add: emptyShard_def)

lemma Set_inv: "cache_inv t b \<Longrightarrow> t \<le> now \<Longrightarrow> cache_inv now (cache_Set key val ttl now b)"
  using cache_inv_nth [OF _ shardFor_less, of t b key] put_spec [of t "b_shards b ! shardFor key" now b key val ttl]
  by (auto simp: cache_Set_def at_shard_def shard_Set_def put_ok_def intro!: cache_inv_update [OF _ _ shardFor_less])

lemma SetNX_shard:
  "shard_SetNX b key val ttl now s = (if shard_Get key now s = None then (True, put b key val ttl now s) else (False, s))"
  by (simp add: shard_SetNX_def shard_Get_def split: option.split)

lemma SetNX_result:
  "cache_SetNX key val ttl now b = (if cache_Get key now b = None then (True, cache_Set key val ttl now b) else (False, b))"
  by (simp add: cache_SetNX_def cache_Get_def cache_Set_def at_shard_def shard_Set_def SetNX_shard)

lemma Del_inv: "cache_inv t b \<Longrightarrow> cache_inv t (cache_Del key b)"
  using cache_inv_nth [OF _ shardFor_less, of t b key] deleteKey_spec(1,2) [of t "b_shards b ! shardFor key" b key]
  by (auto simp: cache_Del_def at_shard_def intro!: cache_inv_update [OF _ _ shardFor_less])

lemma expire_inv: "cache_inv t b \<Longrightarrow> t \<le> now \<Longrightarrow> i < 64 \<Longrightarrow> cache_inv now (cache_expire i now b)"
  using cache_inv_nth [of t b i] expireHold_spec(1,2) [of t "b_shards b ! i" now b]
  by (auto simp: cache_expire_def intro!: cache_inv_update)

text \<open>The behaviours of the backend: operations and lock holds of the expirer, in any order, as the clock advances.\<close>

inductive cache_reachable :: "cache_options \<Rightarrow> int \<Rightarrow> cache_backend \<Rightarrow> bool" for opts where
  cr_new: "0 \<le> t \<Longrightarrow> cache_reachable opts t (NewWithOptions opts)"
| cr_set: "cache_reachable opts t b \<Longrightarrow> t \<le> now \<Longrightarrow> cache_reachable opts now (cache_Set key val ttl now b)"
| cr_setnx: "cache_reachable opts t b \<Longrightarrow> t \<le> now \<Longrightarrow> cache_reachable opts now (snd (cache_SetNX key val ttl now b))"
| cr_del: "cache_reachable opts t b \<Longrightarrow> cache_reachable opts t (cache_Del key b)"
| cr_expire: "cache_reachable opts t b \<Longrightarrow> t \<le> now \<Longrightarrow> i < 64 \<Longrightarrow> cache_reachable opts now (cache_expire i now b)"

lemma cache_inv_mono: "cache_inv t b \<Longrightarrow> t \<le> t' \<Longrightarrow> cache_inv t' b"
  by (auto simp: cache_inv_def intro: shard_inv_mono)

lemma reachable_cache_inv: "cache_reachable opts t b \<Longrightarrow> cache_inv t b"
  by (induction rule: cache_reachable.induct)
    (auto simp: New_inv Set_inv Del_inv expire_inv SetNX_result intro: cache_inv_mono)

lemma backend_params:
  "cache_reachable opts t b \<Longrightarrow> b_perShard b = b_perShard (NewWithOptions opts) \<and> b_perShardBytes b = b_perShardBytes (NewWithOptions opts)"
  by (induction rule: cache_reachable.induct)
    (auto simp: cache_Set_def cache_SetNX_def cache_Del_def cache_expire_def at_shard_def)

lemma Get_Set:
  assumes "cache_inv t b" and "t \<le> now" and "now \<le> now'"
  shows "0 < ttl \<and> now \<le> maxDuration - ttl \<longrightarrow> now' < now + ttl \<Longrightarrow> cache_Get key now' (cache_Set key val ttl now b) = Some val"
    and "0 < ttl \<and> now \<le> maxDuration - ttl \<Longrightarrow> now + ttl \<le> now' \<Longrightarrow> cache_Get key now' (cache_Set key val ttl now b) = None"
    and "k \<noteq> key \<Longrightarrow> cache_Get k now' (cache_Set key val ttl now b) \<in> {cache_Get k now' b, None}"
    and "k \<noteq> key \<Longrightarrow> b_perShard b = 0 \<Longrightarrow> b_perShardBytes b = 0 \<Longrightarrow> cache_Get k now' (cache_Set key val ttl now b) = cache_Get k now' b"
proof -
  have s: "shard_inv t (b_shards b ! shardFor key)" "cap_ok b (b_shards b ! shardFor key)" using cache_inv_nth [OF assms(1) shardFor_less] by simp_all
  note P = seen_put [OF s(1) assms(2) s(2) assms(3)]
  have sh: "b_shards (cache_Set key val ttl now b) ! shardFor key = put b key val ttl now (b_shards b ! shardFor key)"
    "shardFor k \<noteq> shardFor key \<Longrightarrow> b_shards (cache_Set key val ttl now b) ! shardFor k = b_shards b ! shardFor k"
    using assms(1) shardFor_less [of key] by (simp_all add: cache_Set_def at_shard_def shard_Set_def cache_inv_def)
  show "0 < ttl \<and> now \<le> maxDuration - ttl \<longrightarrow> now' < now + ttl \<Longrightarrow> cache_Get key now' (cache_Set key val ttl now b) = Some val"
    "0 < ttl \<and> now \<le> maxDuration - ttl \<Longrightarrow> now + ttl \<le> now' \<Longrightarrow> cache_Get key now' (cache_Set key val ttl now b) = None"
    using P(3,4) sh(1) by (simp_all add: cache_Get_def)
  show "k \<noteq> key \<Longrightarrow> cache_Get k now' (cache_Set key val ttl now b) \<in> {cache_Get k now' b, None}"
    using P(1) sh by (cases "shardFor k = shardFor key") (simp_all add: cache_Get_def)
  show "k \<noteq> key \<Longrightarrow> b_perShard b = 0 \<Longrightarrow> b_perShardBytes b = 0 \<Longrightarrow> cache_Get k now' (cache_Set key val ttl now b) = cache_Get k now' b"
    using P(2) sh by (cases "shardFor k = shardFor key") (simp_all add: cache_Get_def)
qed

lemma Get_Del:
  assumes "cache_inv t b"
  shows "cache_Get k now (cache_Del key b) = (if k = key then None else cache_Get k now b)"
proof -
  have s: "shard_inv t (b_shards b ! shardFor key)" "cap_ok b (b_shards b ! shardFor key)" using cache_inv_nth [OF assms shardFor_less] by simp_all
  have sh: "b_shards (cache_Del key b) ! shardFor key = deleteKey key (b_shards b ! shardFor key)"
    "shardFor k \<noteq> shardFor key \<Longrightarrow> b_shards (cache_Del key b) ! shardFor k = b_shards b ! shardFor k"
    using assms shardFor_less [of key] by (simp_all add: cache_Del_def at_shard_def cache_inv_def)
  show ?thesis
    using deleteKey_spec(3,4) [OF s] sh by (cases "shardFor k = shardFor key") (auto simp: cache_Get_def)
qed

lemma Get_expire:
  assumes "cache_inv t b" and "t \<le> now" and "now \<le> now'" and "i < 64"
  shows "cache_Get k now' (cache_expire i now b) = cache_Get k now' b"
proof -
  have s: "shard_inv t (b_shards b ! i)" "cap_ok b (b_shards b ! i)" using cache_inv_nth [OF assms(1,4)] by simp_all
  have "b_shards (cache_expire i now b) ! shardFor k = (if shardFor k = i then snd (expireHold now (b_shards b ! i)) else b_shards b ! shardFor k)"
    using assms(1,4) by (simp add: cache_expire_def cache_inv_def)
  then show ?thesis using expireHold_spec(3) [OF s(1) assms(2) s(2) assms(3)] by (simp add: cache_Get_def)
qed

lemma Len_bound: "cache_inv t b \<Longrightarrow> 0 < b_perShard b \<Longrightarrow> int (cache_Len b) \<le> 64 * b_perShard b"
proof -
  assume i: "cache_inv t b" "0 < b_perShard b"
  then have "\<forall>s \<in> set (b_shards b). int (length (s_data s)) \<le> b_perShard b" by (simp add: cache_inv_def cap_ok_def)
  moreover have "\<forall>s \<in> set ss. int (length (s_data s)) \<le> m \<Longrightarrow> int (\<Sum>s\<leftarrow>ss. length (s_data s)) \<le> int (length ss) * m" for ss m
    by (induction ss) (auto simp: algebra_simps)
  ultimately show ?thesis using i(1) by (fastforce simp: cache_Len_def cache_inv_def)
qed

lemma expired_gone:
  assumes "shard_inv t s" and "list_all (done_at now) (s_ttlQueues s)" and "(k, e) \<in> set (s_data s)"
  shows "live e now"
proof (cases "ce_deadline e < 0")
  case False
  then obtain q where q: "q \<in> set (s_ttlQueues s)" "\<lparr>it_key = k, it_deadline = ce_deadline e\<rparr> \<in> set (qi q)"
    using entry_deadline [OF assms(1,3)] by blast
  obtain it its where Q: "qi q = it # its" using q(2) by (cases "qi q") auto
  have "sorted (map it_deadline (qi q))" "done_at now q" using assms(1,2) q(1) by (simp_all add: shard_inv_def list_all_iff queue_ok_def)
  then have "now < ce_deadline e" using q(2) Q by (auto simp: done_at_def)
  then show ?thesis by (simp add: live_def)
qed (simp add: live_def)

lemma expireHold_complete:
  assumes "shard_inv t s" and "\<not> fst (expireHold now s)" and "(k, e) \<in> set (s_data (snd (expireHold now s)))"
  shows "live e now"
proof -
  obtain again s1 where e: "expire now expireBatch s = (again, s1)" by fastforce
  note E = expire_spec [OF assms(1) e]
  show ?thesis using assms(2,3) E expired_gone [OF E(1), of now k e] by (simp add: expireHold_def e dropEmptyQueues_def)
qed

lemma expireShard_spec:
  "shard_inv t s \<Longrightarrow> cap_ok b s \<Longrightarrow> mono clock \<Longrightarrow> t \<le> clock n \<Longrightarrow> \<forall>i. clock i \<le> now' \<Longrightarrow> expireShard clock n s = (m, s') \<Longrightarrow>
   n \<le> m \<and> (\<forall>(k, e) \<in> set (s_data s'). live e (clock n)) \<and> shard_Get k now' s' = shard_Get k now' s \<and> cap_ok b s' \<and> shard_inv now' s'"
proof (induction clock n s arbitrary: t rule: expireShard.induct)
  case (1 clock n s)
  let ?s = "snd (expireHold (clock n) s)"
  note H = expireHold_spec [OF 1(2,5,3)]
  have get: "shard_Get k now' ?s = shard_Get k now' s" using H(3) 1(6) by simp
  show ?case
  proof (cases "fst (expireHold (clock n) s)")
    case True
    have le: "clock n \<le> clock (n + 1)" by (rule monoD [OF 1(4)]) simp
    have "expireShard clock (n + 1) ?s = (m, s')" using 1(7) True by (subst (asm) expireShard.simps) simp
    from 1(1) [OF True H(1,2) 1(4) le 1(6) this] have IH: "n + 1 \<le> m" "\<forall>(k, e) \<in> set (s_data s'). live e (clock (n + 1))"
      "shard_Get k now' s' = shard_Get k now' ?s" "cap_ok b s'" "shard_inv now' s'" by simp_all
    then show ?thesis using get live_mono [OF _ le] by fastforce
  next
    case False
    then have r: "m = n + 1" "s' = ?s" using 1(7) by (subst (asm) expireShard.simps, simp)+
    show ?thesis using r get H(1,2) expireHold_complete [OF 1(2) False] shard_inv_mono 1(6) by fastforce
  qed
qed

lemma expireShards_spec:
  "mono clock \<Longrightarrow> t \<le> clock n \<Longrightarrow> \<forall>i. clock i \<le> now' \<Longrightarrow> \<forall>s \<in> set ss. shard_inv t s \<and> cap_ok b s \<Longrightarrow>
   list_all2 (\<lambda>s s'. (\<forall>(k, e) \<in> set (s_data s'). live e (clock n)) \<and> (\<forall>k. shard_Get k now' s' = shard_Get k now' s) \<and> cap_ok b s' \<and> shard_inv now' s')
     ss (expireShards clock n ss)"
proof (induction ss arbitrary: n)
  case (Cons s ss)
  obtain m s' where e: "expireShard clock n s = (m, s')" by fastforce
  have s: "shard_inv t s" "cap_ok b s" using Cons.prems by simp_all
  note S = expireShard_spec [OF s Cons.prems(1-3) e]
  have le: "clock n \<le> clock m" using S Cons.prems(1) by (simp add: monoD)
  have "t \<le> clock m" using Cons.prems(2) le by simp
  from Cons.IH [OF Cons.prems(1) this Cons.prems(3)] Cons.prems(4)
  have "list_all2 (\<lambda>s s'. (\<forall>(k, e) \<in> set (s_data s'). live e (clock n)) \<and> (\<forall>k. shard_Get k now' s' = shard_Get k now' s) \<and> cap_ok b s' \<and> shard_inv now' s')
     ss (expireShards clock m ss)"
    by (fastforce elim!: list_all2_mono dest: live_mono [OF _ le])
  then show ?case using S e by simp
qed simp

lemma expireAll_spec:
  assumes "cache_inv t b" and "mono clock" and "t \<le> clock 0" and "\<forall>i. clock i \<le> now'"
  shows "cache_inv now' (cache_expireAll clock b)"
    and "s \<in> set (b_shards (cache_expireAll clock b)) \<Longrightarrow> (k, e) \<in> set (s_data s) \<Longrightarrow> live e (clock 0)"
    and "cache_Get k now' (cache_expireAll clock b) = cache_Get k now' b"
proof -
  let ?P = "\<lambda>s s'. (\<forall>(k, e) \<in> set (s_data s'). live e (clock 0)) \<and> (\<forall>k. shard_Get k now' s' = shard_Get k now' s) \<and> cap_ok b s' \<and> shard_inv now' s'"
  have "list_all2 ?P (b_shards b) (expireShards clock 0 (b_shards b))"
    by (rule expireShards_spec [OF assms(2-4)]) (use assms(1) in \<open>simp add: cache_inv_def\<close>)
  then have P: "length (expireShards clock 0 (b_shards b)) = 64" "\<And>i. i < 64 \<Longrightarrow> ?P (b_shards b ! i) (expireShards clock 0 (b_shards b) ! i)"
    using assms(1) by (auto simp: list_all2_conv_all_nth cache_inv_def)
  then show "cache_inv now' (cache_expireAll clock b)"
    by (auto simp: cache_inv_def cache_expireAll_def in_set_conv_nth cap_ok_params [of "b\<lparr>b_shards := _\<rparr>" b])
  show "s \<in> set (b_shards (cache_expireAll clock b)) \<Longrightarrow> (k, e) \<in> set (s_data s) \<Longrightarrow> live e (clock 0)"
    using P by (fastforce simp: cache_expireAll_def in_set_conv_nth)
  show "cache_Get k now' (cache_expireAll clock b) = cache_Get k now' b" using P(2) [OF shardFor_less] by (simp add: cache_Get_def cache_expireAll_def)
qed

section \<open>The contract of a backend\<close>

text \<open>
  What \<^verbatim>\<open>cache.Backend\<close> promises of \<^verbatim>\<open>SetNX\<close> (\<^verbatim>\<open>cache/cache.go\<close>): it creates the key if and only if no live
  value is stored under it, and a created value is there until its lifetime has passed.
\<close>

locale ttl_backend =
  fixes ok :: "int \<Rightarrow> 'b \<Rightarrow> bool"
    and set_nx :: "bytes \<Rightarrow> bytes \<Rightarrow> duration \<Rightarrow> int \<Rightarrow> 'b \<Rightarrow> bool \<times> 'b"
    and get :: "bytes \<Rightarrow> int \<Rightarrow> 'b \<Rightarrow> bytes option"
  assumes setnx_ok: "ok t b \<Longrightarrow> t \<le> now \<Longrightarrow> ok now (snd (set_nx k v ttl now b))"
    and setnx_iff: "ok t b \<Longrightarrow> t \<le> now \<Longrightarrow> fst (set_nx k v ttl now b) \<longleftrightarrow> get k now b = None"
    and setnx_lost: "ok t b \<Longrightarrow> t \<le> now \<Longrightarrow> \<not> fst (set_nx k v ttl now b) \<Longrightarrow> snd (set_nx k v ttl now b) = b"
    and setnx_held: "ok t b \<Longrightarrow> t \<le> now \<Longrightarrow> fst (set_nx k v ttl now b) \<Longrightarrow> now \<le> now' \<Longrightarrow> 0 < ttl \<Longrightarrow> now' < now + ttl \<Longrightarrow>
      get k now' (snd (set_nx k v ttl now b)) = Some v"
begin

text \<open>Of two claims of a key within the lifetime of the first, at most one wins.\<close>

lemma claim_exclusive:
  assumes "ok t b" and "t \<le> now" and "now \<le> now'" and "0 < ttl" and "now' < now + ttl" and "fst (set_nx k v ttl now b)"
  shows "\<not> fst (set_nx k v' ttl' now' (snd (set_nx k v ttl now b)))"
  using setnx_iff [OF setnx_ok [OF assms(1,2)] assms(3)] setnx_held [OF assms(1,2,6,3,4,5)] by simp

end

interpretation memory: ttl_backend cache_inv cache_SetNX cache_Get
proof unfold_locales
  fix t b now and k v :: bytes and ttl :: duration
  assume i: "cache_inv t b" "t \<le> now"
  show "cache_inv now (snd (cache_SetNX k v ttl now b))" using Set_inv [OF i] cache_inv_mono [OF i] by (simp add: SetNX_result)
  show "fst (cache_SetNX k v ttl now b) \<longleftrightarrow> cache_Get k now b = None" by (simp add: SetNX_result)
  show "snd (cache_SetNX k v ttl now b) = b" if "\<not> fst (cache_SetNX k v ttl now b)" using that by (cases "cache_Get k now b") (simp_all add: SetNX_result)
  fix now'
  assume "fst (cache_SetNX k v ttl now b)" "now \<le> now'" "0 < ttl" "now' < now + ttl"
  then show "cache_Get k now' (snd (cache_SetNX k v ttl now b)) = Some v" using Get_Set(1) [OF i, of now' ttl k v] by (simp add: SetNX_result split: if_splits)
qed

text \<open>
  A backend that never drops a key early: a write of one key and a step of background expiry leave every other read as
  it was. The in-memory cache keeps this contract when no limit is configured.
\<close>

locale durable_backend = ttl_backend +
  fixes sweep :: "nat \<Rightarrow> int \<Rightarrow> 'a \<Rightarrow> 'a"
  assumes ok_mono: "ok t b \<Longrightarrow> t \<le> t' \<Longrightarrow> ok t' b"
    and setnx_keeps: "ok t b \<Longrightarrow> t \<le> now \<Longrightarrow> now \<le> now' \<Longrightarrow> k \<noteq> key \<Longrightarrow> get k now' (snd (set_nx key v ttl now b)) = get k now' b"
    and sweep_ok: "ok t b \<Longrightarrow> t \<le> now \<Longrightarrow> ok now (sweep i now b)"
    and sweep_keeps: "ok t b \<Longrightarrow> t \<le> now \<Longrightarrow> now \<le> now' \<Longrightarrow> get k now' (sweep i now b) = get k now' b"
begin

text \<open>A held key stays held when other claims and sweeps happen: no second claim succeeds before its time.\<close>

definition held_until :: "bytes \<Rightarrow> int \<Rightarrow> int \<Rightarrow> 'a \<Rightarrow> bool" where
  "held_until k T t b \<longleftrightarrow> ok t b \<and> (\<forall>t'. t \<le> t' \<and> t' < T \<longrightarrow> get k t' b \<noteq> None)"

lemma held_setnx:
  assumes "held_until k T t b" and "t \<le> now"
  shows "held_until k T now (snd (set_nx key v ttl now b))"
proof -
  have ok: "ok t b" and h: "\<And>t'. t \<le> t' \<Longrightarrow> t' < T \<Longrightarrow> get k t' b \<noteq> None" using assms(1) by (auto simp: held_until_def)
  have "get k t' (snd (set_nx key v ttl now b)) \<noteq> None" if "now \<le> t'" "t' < T" for t'
  proof (cases "key = k")
    case True
    have "get k now b \<noteq> None" using h [of now] assms(2) that by simp
    then have "snd (set_nx key v ttl now b) = b" using setnx_lost [OF ok assms(2), of key v ttl] setnx_iff [OF ok assms(2), of key v ttl] True by simp
    then show ?thesis using h [of t'] assms(2) that by simp
  next
    case False
    then show ?thesis using setnx_keeps [OF ok assms(2) that(1), of k key] h [of t'] assms(2) that by simp
  qed
  then show ?thesis using setnx_ok [OF ok assms(2)] by (simp add: held_until_def)
qed

lemma held_sweep: "held_until k T t b \<Longrightarrow> t \<le> now \<Longrightarrow> held_until k T now (sweep i now b)"
  using sweep_ok sweep_keeps by (auto simp: held_until_def)

lemma held_later: "held_until k T t b \<Longrightarrow> t \<le> t' \<Longrightarrow> held_until k T t' b"
  using ok_mono by (auto simp: held_until_def)

lemma held_claim:
  assumes "ok t b" and "t \<le> now" and "0 < ttl" and "fst (set_nx k v ttl now b)"
  shows "held_until k (now + ttl) now (snd (set_nx k v ttl now b))"
  using setnx_ok [OF assms(1,2)] setnx_held [OF assms(1,2,4)] assms(3) by (auto simp: held_until_def)

lemma held_excludes: "held_until k T t b \<Longrightarrow> t \<le> now \<Longrightarrow> now < T \<Longrightarrow> \<not> fst (set_nx k v ttl now b)"
  using setnx_iff by (auto simp: held_until_def)

end

interpretation durable: durable_backend "\<lambda>t b. cache_inv t b \<and> b_perShard b = 0 \<and> b_perShardBytes b = 0" cache_SetNX cache_Get
  "\<lambda>i now. cache_expire (i mod 64) now"
proof unfold_locales
  fix t b now now' and k key v :: bytes and ttl :: duration and i :: nat
  assume i: "cache_inv t b \<and> b_perShard b = 0 \<and> b_perShardBytes b = 0" "t \<le> now"
  have p: "b_perShard (snd (cache_SetNX key v ttl now b)) = b_perShard b" "b_perShardBytes (snd (cache_SetNX key v ttl now b)) = b_perShardBytes b" for key
    by (simp_all add: cache_SetNX_def at_shard_def)
  show "cache_inv now (snd (cache_SetNX k v ttl now b)) \<and> b_perShard (snd (cache_SetNX k v ttl now b)) = 0 \<and> b_perShardBytes (snd (cache_SetNX k v ttl now b)) = 0"
    using memory.setnx_ok [of t b now] i p by simp
  show "fst (cache_SetNX k v ttl now b) = (cache_Get k now b = None)" using memory.setnx_iff i by blast
  show "\<not> fst (cache_SetNX k v ttl now b) \<Longrightarrow> snd (cache_SetNX k v ttl now b) = b" using memory.setnx_lost i by blast
  show "fst (cache_SetNX k v ttl now b) \<Longrightarrow> now \<le> now' \<Longrightarrow> 0 < ttl \<Longrightarrow> now' < now + ttl \<Longrightarrow> cache_Get k now' (snd (cache_SetNX k v ttl now b)) = Some v"
    using memory.setnx_held i by blast
  show "cache_inv now b \<and> b_perShard b = 0 \<and> b_perShardBytes b = 0" using cache_inv_mono i by blast
  show "now \<le> now' \<Longrightarrow> k \<noteq> key \<Longrightarrow> cache_Get k now' (snd (cache_SetNX key v ttl now b)) = cache_Get k now' b"
    using Get_Set(4) [of t b now now' k key v ttl] i by (simp add: SetNX_result)
  show "cache_inv now (cache_expire (i mod 64) now b) \<and> b_perShard (cache_expire (i mod 64) now b) = 0 \<and> b_perShardBytes (cache_expire (i mod 64) now b) = 0"
    using expire_inv [of t b now "i mod 64"] i by (simp add: cache_expire_def)
  show "now \<le> now' \<Longrightarrow> cache_Get k now' (cache_expire (i mod 64) now b) = cache_Get k now' b" using Get_expire [of t b now now' "i mod 64"] i by simp
qed

section \<open>Properties\<close>

text \<open>
  C27: the bookkeeping of the in-memory cache is exact and its limits hold, after any sequence of writes,
  deletes and expiry passes: in every shard no key is stored twice, the byte counter is the sum of the lengths
  of the stored values, and the item counter is the number of queued items. With a key limit no shard holds more
  than its share, so the whole backend holds at most the limit (or 64 if the limit is smaller). With a byte limit
  a shard stays within its share, with one exception that the package documents: a single value larger than the share is stored all the same.
  Then that value accounts for all bytes of the shard, and every other value beside it is empty.
\<close>

theorem cache_bounded:
  assumes "cache_reachable opts t b" and "i < 64"
  shows "length (b_shards b) = 64 \<and> distinct (map fst (s_data (b_shards b ! i))) \<and>
     s_bytes (b_shards b ! i) = (\<Sum>ke\<leftarrow>s_data (b_shards b ! i). int (length (ce_value (snd ke)))) \<and>
     s_items (b_shards b ! i) = (\<Sum>q\<leftarrow>s_ttlQueues (b_shards b ! i) @ [s_forever (b_shards b ! i)]. int (q_len q)) \<and>
     (0 < opt_MaxKeys opts \<longrightarrow> int (length (s_data (b_shards b ! i))) \<le> max (opt_MaxKeys opts div 64) 1 \<and>
        int (cache_Len b) \<le> max (opt_MaxKeys opts) 64) \<and>
     (0 < opt_MaxBytes opts \<longrightarrow> s_bytes (b_shards b ! i) \<le> max (opt_MaxBytes opts div 64) 1 \<or>
        (\<exists>ke \<in> set (s_data (b_shards b ! i)). s_bytes (b_shards b ! i) = int (length (ce_value (snd ke)))))"
proof -
  note inv = reachable_cache_inv [OF assms(1)]
  let ?s = "b_shards b ! i"
  have s: "shard_inv t ?s" "cap_ok b ?s" using cache_inv_nth [OF inv assms(2)] by simp_all
  have P: "b_perShard b = (if 0 < opt_MaxKeys opts then max (opt_MaxKeys opts div 64) 1 else 0)"
    "b_perShardBytes b = (if 0 < opt_MaxBytes opts then max (opt_MaxBytes opts div 64) 1 else 0)"
    using backend_params [OF assms(1)] by (simp_all add: NewWithOptions_def)
  have "int (cache_Len b) \<le> max (opt_MaxKeys opts) 64" if "0 < opt_MaxKeys opts"
  proof -
    have "64 * max (opt_MaxKeys opts div 64) 1 \<le> max (opt_MaxKeys opts) 64" by linarith
    moreover have "0 < b_perShard b" using P(1) that by simp
    ultimately show ?thesis using Len_bound [OF inv] P(1) that by (metis order_trans)
  qed
  moreover have "s_items ?s = (\<Sum>q\<leftarrow>s_ttlQueues ?s @ [s_forever ?s]. int (q_len q))"
    using s(1) by (simp add: shard_inv_def core_def all_items_def int_length_concat q_len_qi comp_def)
  moreover have "distinct (map fst (s_data ?s))" "s_bytes ?s = (\<Sum>ke\<leftarrow>s_data ?s. int (length (ce_value (snd ke))))" "length (b_shards b) = 64"
    using s(1) inv by (simp_all add: shard_inv_def core_def cache_inv_def)
  moreover have "0 < opt_MaxKeys opts \<longrightarrow> int (length (s_data ?s)) \<le> max (opt_MaxKeys opts div 64) 1"
    "0 < opt_MaxBytes opts \<longrightarrow> s_bytes ?s \<le> max (opt_MaxBytes opts div 64) 1 \<or> (\<exists>ke \<in> set (s_data ?s). s_bytes ?s = int (length (ce_value (snd ke))))"
    using s(2) P by (auto simp: cap_ok_def bytes_ok_def val_len_def)
  ultimately show ?thesis by blast
qed

theorem cache_bounded_witness:
  "int (cache_Len (cache_Set [1] [2, 3] 10 5 (NewWithOptions \<lparr>opt_MaxKeys = 100, opt_MaxBytes = 0, opt_ExpireInterval = 0\<rparr>))) \<le> 100"
proof -
  have "cache_reachable \<lparr>opt_MaxKeys = 100, opt_MaxBytes = 0, opt_ExpireInterval = 0\<rparr> 5
    (cache_Set [1] [2, 3] 10 5 (NewWithOptions \<lparr>opt_MaxKeys = 100, opt_MaxBytes = 0, opt_ExpireInterval = 0\<rparr>))"
    by (rule cr_set [OF cr_new order_refl]) simp
  from cache_bounded [OF this, of 0] show ?thesis by simp
qed

text \<open>
  C26: the in-memory cache behaves as a map with lifetimes. After \<^verbatim>\<open>Set\<close> a read of the key gives the value until the
  lifetime has passed and nothing afterwards (with no positive lifetime, or one past the end of time, it is kept); another key
  reads as before, or as absent when it was evicted, which happens only when a limit is set. \<^verbatim>\<open>SetNX\<close> writes and reports
  success if and only if the key reads as absent, and otherwise changes nothing. \<^verbatim>\<open>Del\<close> removes the key and no other, and the
  background expirer is invisible to every reader.
\<close>

theorem cache_semantics:
  assumes "cache_reachable opts t b" and "t \<le> now" and "now \<le> now'"
  shows "(cache_Get key now' (cache_Set key val ttl now b) =
        (if 0 < ttl \<and> now \<le> maxDuration - ttl \<and> now + ttl \<le> now' then None else Some val)) \<and>
     (k \<noteq> key \<longrightarrow> cache_Get k now' (cache_Set key val ttl now b) \<in> {cache_Get k now' b, None}) \<and>
     (k \<noteq> key \<and> opt_MaxKeys opts \<le> 0 \<and> opt_MaxBytes opts \<le> 0 \<longrightarrow>
        cache_Get k now' (cache_Set key val ttl now b) = cache_Get k now' b) \<and>
     cache_SetNX key val ttl now b =
       (if cache_Get key now b = None then (True, cache_Set key val ttl now b) else (False, b)) \<and>
     cache_Get k now (cache_Del key b) = (if k = key then None else cache_Get k now b) \<and>
     cache_Get k now' (cache_expire (shardFor key) now b) = cache_Get k now' b"
proof -
  note inv = reachable_cache_inv [OF assms(1)]
  have "cache_Get key now' (cache_Set key val ttl now b) =
        (if 0 < ttl \<and> now \<le> maxDuration - ttl \<and> now + ttl \<le> now' then None else Some val)"
    using Get_Set(1,2) [OF inv assms(2,3), of ttl key val] by (cases "now + ttl \<le> now'") simp_all
  moreover have "k \<noteq> key \<and> opt_MaxKeys opts \<le> 0 \<and> opt_MaxBytes opts \<le> 0 \<longrightarrow>
        cache_Get k now' (cache_Set key val ttl now b) = cache_Get k now' b"
    using Get_Set(4) [OF inv assms(2,3)] backend_params [OF assms(1)] by (simp add: NewWithOptions_def)
  ultimately show ?thesis
    using Get_Set(3) [OF inv assms(2,3)] Get_Del [OF inv] Get_expire [OF inv assms(2,3) shardFor_less] by (simp add: SetNX_result)
qed

theorem cache_semantics_witness:
  "cache_Get [1] 14 (cache_Set [1] [2, 3] 10 5 (memory_New 0)) = Some [2, 3] \<and>
   cache_Get [1] 15 (cache_Set [1] [2, 3] 10 5 (memory_New 0)) = None"
  using cache_semantics [OF cr_new, where t = 5 and now = 5 and now' = 14 and opts = "\<lparr>opt_MaxKeys = 0, opt_MaxBytes = 0, opt_ExpireInterval = 0\<rparr>" and key = "[1]" and val = "[2, 3]" and ttl = 10]
    cache_semantics [OF cr_new, where t = 5 and now = 5 and now' = 15 and opts = "\<lparr>opt_MaxKeys = 0, opt_MaxBytes = 0, opt_ExpireInterval = 0\<rparr>" and key = "[1]" and val = "[2, 3]" and ttl = 10]
  by (simp add: memory_New_def)

text \<open>
  C28: what the cache removes. An eviction fails only on an empty shard; otherwise it removes exactly one entry, one
  that expires no later than every other, an entry without a lifetime only when no entry has one. A pass of the
  background expirer ends, whatever the clock does, leaves no entry that had expired when it began, and changes
  nothing that a later reader sees.
\<close>

theorem cache_removes:
  assumes "cache_reachable opts t b" and "i < 64" and "mono clock" and "t \<le> clock 0" and "\<forall>n. clock n \<le> now"
  shows "(fst (evict (b_shards b ! i)) \<longleftrightarrow> s_data (b_shards b ! i) \<noteq> []) \<and>
     (fst (evict (b_shards b ! i)) \<longrightarrow> (\<exists>k e. map_of (s_data (b_shards b ! i)) k = Some e \<and>
        s_data (snd (evict (b_shards b ! i))) = AList.delete k (s_data (b_shards b ! i)) \<and>
        (\<forall>(k', e') \<in> set (s_data (b_shards b ! i)). 0 < ce_deadline e' \<longrightarrow> 0 < ce_deadline e \<and> ce_deadline e \<le> ce_deadline e'))) \<and>
     (\<forall>s \<in> set (b_shards (cache_expireAll clock b)). \<forall>(k, e) \<in> set (s_data s). live e (clock 0)) \<and>
     (\<forall>k. cache_Get k now (cache_expireAll clock b) = cache_Get k now b)"
proof -
  let ?s = "b_shards b ! i"
  note inv = reachable_cache_inv [OF assms(1)]
  have s: "shard_inv t ?s" using cache_inv_nth [OF inv assms(2)] by simp
  obtain ok s' where e: "evict ?s = (ok, s')" by fastforce
  note E = evict_spec [OF s e]
  have "fst (evict ?s) \<longleftrightarrow> s_data ?s \<noteq> []"
    "fst (evict ?s) \<longrightarrow> (\<exists>k e. map_of (s_data ?s) k = Some e \<and> s_data (snd (evict ?s)) = AList.delete k (s_data ?s) \<and> earliest ?s e)"
    using E(3,4) e by (cases ok; auto)+
  then show ?thesis using expireAll_spec(2,3) [OF inv assms(3-5)] unfolding earliest_def by blast
qed

theorem cache_removes_witness:
  "fst (evict (b_shards (cache_Set [1] [2, 3] 10 5 (memory_New 100)) ! shardFor [1])) \<and>
   cache_Get [1] 14 (cache_expireAll (\<lambda>_. 14) (cache_Set [1] [2, 3] 10 5 (memory_New 100))) = Some [2, 3]"
proof -
  have new: "cache_reachable \<lparr>opt_MaxKeys = 100, opt_MaxBytes = 0, opt_ExpireInterval = 0\<rparr> 5 (memory_New 100)"
    unfolding memory_New_def by (rule cr_new) simp
  have get: "cache_Get [1] 14 (cache_Set [1] [2, 3] 10 5 (memory_New 100)) = Some [2, 3]"
    using Get_Set(1) [OF reachable_cache_inv [OF new]] by simp
  then have "s_data (b_shards (cache_Set [1] [2, 3] 10 5 (memory_New 100)) ! shardFor [1]) \<noteq> []"
    by (auto simp: cache_Get_def shard_Get_def)
  then show ?thesis using get cache_removes [OF cr_set [OF new order_refl] shardFor_less, of "\<lambda>_. 14" 14] by (simp add: monoI)
qed

end
