(* ===== verification/Txid_Local.thy ===== *)
theory Txid_Local
  imports Go_Std "HOL-Library.Signed_Division"
begin

text \<open>
  The in-process tier of the TxID claim store (\<^verbatim>\<open>txidset/local.go\<close>): 64 stripes, each a ring of keys with a
  map from key to expiry. A stripe is locked during an update, so its behaviour is a sequence of
  \<open>seenAndAdd\<close> operations. The clock is read before the lock is taken: the times of a sequence are
  arbitrary and need not increase.

  The history of a set is the list of the keys and times it was asked for. The lemmas show that a set only
  reports a key that its history holds and that has not expired, that it never forgets a new key before its
  stripe has seen as many other keys as it has room for, and that it stays within its capacity.
\<close>

section \<open>Operations\<close>

abbreviation (input) localShards :: nat where "localShards \<equiv> 64"

record local_shard =
  ls_capacity :: nat
  ls_ttl :: duration
  ls_entries :: "(bytes \<times> int) list"
  ls_ring :: "bytes list"
  ls_head :: nat
  ls_count :: nat

record local_set =
  l_disabled :: bool
  l_shards :: "local_shard list"

definition newLocalSet :: "int \<Rightarrow> duration \<Rightarrow> ('e, local_set) res" where
  "newLocalSet capacity ttl =
     (if capacity \<le> 0 then Ok \<lparr>l_disabled = True, l_shards = []\<rparr>
      else
        let perShard = wrap64 (capacity + int localShards - 1) sdiv int localShards in
        rbind (makeslice 32 (word_of_int perShard)) (\<lambda>_.
        Ok \<lparr>l_disabled = False,
            l_shards = replicate localShards
              \<lparr>ls_capacity = nat perShard, ls_ttl = ttl, ls_entries = [],
               ls_ring = replicate (nat perShard) (replicate 32 0), ls_head = 0, ls_count = 0\<rparr>\<rparr>))"

definition expiryOf :: "duration \<Rightarrow> instant \<Rightarrow> int" where
  "expiryOf ttl now = (if 0 < ttl then wrap64 (now + ttl) else 0)"

definition seenAndAdd :: "bytes \<Rightarrow> instant \<Rightarrow> local_shard \<Rightarrow> bool \<times> local_shard" where
  "seenAndAdd key now s =
     (let expiry = expiryOf (ls_ttl s) now in
      if (case map_of (ls_entries s) key of Some exp \<Rightarrow> ls_ttl s \<le> 0 \<or> now \<le> exp | None \<Rightarrow> False) then
        (True, s\<lparr>ls_entries := AList.update key expiry (ls_entries s)\<rparr>)
      else
        let s = (if ls_count s = ls_capacity s
                 then s\<lparr>ls_entries := AList.delete (ls_ring s ! ls_head s) (ls_entries s)\<rparr>
                 else s\<lparr>ls_count := ls_count s + 1\<rparr>) in
        (False, s\<lparr>ls_ring := (ls_ring s)[ls_head s := key], ls_head := (ls_head s + 1) mod ls_capacity s,
                 ls_entries := AList.update key expiry (ls_entries s)\<rparr>))"

definition localIndex :: "bytes \<Rightarrow> nat" where
  "localIndex key = unat (LE_Uint64 (take 8 key) mod 64)"

definition SeenAndAdd :: "bytes \<Rightarrow> instant \<Rightarrow> local_set \<Rightarrow> bool \<times> local_set" where
  "SeenAndAdd key now l =
     (if l_disabled l then (False, l)
      else
        let (seen, s) = seenAndAdd key now (l_shards l ! localIndex key) in
        (seen, l\<lparr>l_shards := (l_shards l)[localIndex key := s]\<rparr>))"

section \<open>A stripe\<close>

text \<open>The filled part of the ring holds every key of the map; the ring and its cursor stay in bounds.\<close>

definition stripe_ok :: "local_shard \<Rightarrow> bool" where
  "stripe_ok s \<longleftrightarrow> 0 < ls_capacity s \<and> length (ls_ring s) = ls_capacity s \<and> ls_head s < ls_capacity s \<and>
     ls_count s \<le> ls_capacity s \<and> (ls_count s < ls_capacity s \<longrightarrow> ls_head s = ls_count s) \<and>
     distinct (map fst (ls_entries s)) \<and> fst ` set (ls_entries s) \<subseteq> set (take (ls_count s) (ls_ring s))"

lemma seenAndAdd_params [simp]:
  "ls_capacity (snd (seenAndAdd k t s)) = ls_capacity s" "ls_ttl (snd (seenAndAdd k t s)) = ls_ttl s"
  by (simp_all add: seenAndAdd_def Let_def split: option.split)

definition fresh_hit :: "bytes \<Rightarrow> instant \<Rightarrow> local_shard \<Rightarrow> bool" where
  "fresh_hit key now s \<longleftrightarrow> (\<exists>exp. map_of (ls_entries s) key = Some exp \<and> (ls_ttl s \<le> 0 \<or> now \<le> exp))"

lemma seenAndAdd_hit:
  "fresh_hit key now s \<Longrightarrow> seenAndAdd key now s = (True, s\<lparr>ls_entries := AList.update key (expiryOf (ls_ttl s) now) (ls_entries s)\<rparr>)"
  by (auto simp: fresh_hit_def seenAndAdd_def Let_def)

lemma seenAndAdd_miss:
  assumes "\<not> fresh_hit key now s"
  shows "seenAndAdd key now s = (False, s\<lparr>
     ls_count := (if ls_count s = ls_capacity s then ls_count s else ls_count s + 1),
     ls_ring := (ls_ring s)[ls_head s := key], ls_head := (ls_head s + 1) mod ls_capacity s,
     ls_entries := AList.update key (expiryOf (ls_ttl s) now)
       (if ls_count s = ls_capacity s then AList.delete (ls_ring s ! ls_head s) (ls_entries s) else ls_entries s)\<rparr>)"
proof -
  have "(case map_of (ls_entries s) key of Some exp \<Rightarrow> ls_ttl s \<le> 0 \<or> now \<le> exp | None \<Rightarrow> False) = False"
    using assms by (auto simp: fresh_hit_def split: option.split)
  then show ?thesis unfolding seenAndAdd_def by (auto simp: Let_def)
qed

lemma seen_iff: "fst (seenAndAdd key now s) \<longleftrightarrow> fresh_hit key now s"
  by (cases "fresh_hit key now s") (simp_all add: seenAndAdd_hit seenAndAdd_miss)

text \<open>The filled part after an insertion.\<close>

lemma filled_insert:
  assumes "stripe_ok s" and "\<not> fresh_hit key now s"
  shows "set (take (ls_count (snd (seenAndAdd key now s))) (ls_ring (snd (seenAndAdd key now s)))) \<subseteq> insert key (set (take (ls_count s) (ls_ring s)))"
    and "key \<in> set (take (ls_count (snd (seenAndAdd key now s))) (ls_ring (snd (seenAndAdd key now s))))"
proof -
  have s: "length (ls_ring s) = ls_capacity s" "ls_head s < ls_capacity s" "ls_count s \<le> ls_capacity s"
    "ls_count s < ls_capacity s \<longrightarrow> ls_head s = ls_count s" using assms(1) by (simp_all add: stripe_ok_def)
  show "set (take (ls_count (snd (seenAndAdd key now s))) (ls_ring (snd (seenAndAdd key now s)))) \<subseteq> insert key (set (take (ls_count s) (ls_ring s)))"
    using s by (auto simp: seenAndAdd_miss [OF assms(2)] take_Suc_conv_app_nth dest!: set_update_subset_insert [THEN subsetD] in_set_takeD)
  show "key \<in> set (take (ls_count (snd (seenAndAdd key now s))) (ls_ring (snd (seenAndAdd key now s))))"
    using s by (auto simp: seenAndAdd_miss [OF assms(2)] take_Suc_conv_app_nth set_update_memI)
qed

lemma seenAndAdd_ok:
  assumes "stripe_ok s"
  shows "stripe_ok (snd (seenAndAdd key now s))"
proof (cases "fresh_hit key now s")
  case True
  then have "key \<in> fst ` set (ls_entries s)" by (force simp: fresh_hit_def dest: map_of_SomeD)
  then show ?thesis using assms True by (auto simp: stripe_ok_def seenAndAdd_hit distinct_update dom_update [unfolded dom_map_of_conv_image_fst])
next
  case False
  let ?s = "snd (seenAndAdd key now s)"
  have s: "0 < ls_capacity s" "length (ls_ring s) = ls_capacity s" "ls_head s < ls_capacity s" "ls_count s \<le> ls_capacity s"
    "ls_count s < ls_capacity s \<longrightarrow> ls_head s = ls_count s" "distinct (map fst (ls_entries s))"
    "fst ` set (ls_entries s) \<subseteq> set (take (ls_count s) (ls_ring s))" using assms by (simp_all add: stripe_ok_def)
  have "k \<in> set (take (ls_count ?s) (ls_ring ?s))" if "k \<in> fst ` set (ls_entries ?s)" for k
  proof (cases "k = key")
    case True
    then show ?thesis using filled_insert(2) [OF assms False] by simp
  next
    case other: False
    have k: "k \<in> set (take (ls_count s) (ls_ring s))" "ls_count s = ls_capacity s \<Longrightarrow> k \<noteq> ls_ring s ! ls_head s"
      using that other s(7) by (auto simp: seenAndAdd_miss [OF False] dom_update [unfolded dom_map_of_conv_image_fst] AList.delete_eq split: if_splits)
    then obtain q where q: "q < ls_count s" "q < ls_capacity s" "ls_ring s ! q = k" using s(2) by (auto simp: in_set_conv_nth)
    have "q \<noteq> ls_head s" using q k(2) s(4,5) by (cases "ls_count s = ls_capacity s") auto
    then have "ls_ring ?s ! q = k" "q < ls_count ?s" "q < length (ls_ring ?s)" using q s(2) by (simp_all add: seenAndAdd_miss [OF False])
    then show ?thesis by (auto simp: in_set_conv_nth intro!: exI [of _ q])
  qed
  moreover have "ls_count ?s < ls_capacity ?s \<longrightarrow> ls_head ?s = ls_count ?s" "ls_count ?s \<le> ls_capacity ?s" "ls_head ?s < ls_capacity ?s"
    using s by (auto simp: seenAndAdd_miss [OF False])
  moreover have "distinct (map fst (ls_entries ?s))" using s(6) by (simp add: seenAndAdd_miss [OF False] distinct_update distinct_delete)
  moreover have "length (ls_ring ?s) = ls_capacity ?s" using s(2) by (simp add: seenAndAdd_miss [OF False])
  ultimately show ?thesis using s(1) unfolding stripe_ok_def by auto
qed

lemma stripe_bound: "stripe_ok s \<Longrightarrow> length (ls_entries s) \<le> ls_capacity s"
proof -
  assume s: "stripe_ok s"
  have "length (ls_entries s) = card (fst ` set (ls_entries s))"
    using s distinct_card [of "map fst (ls_entries s)"] by (simp add: stripe_ok_def)
  also have "\<dots> \<le> card (set (take (ls_count s) (ls_ring s)))" using s by (simp add: stripe_ok_def card_mono)
  also have "\<dots> \<le> length (take (ls_count s) (ls_ring s))" by (rule card_length)
  finally show ?thesis using s by (simp add: stripe_ok_def)
qed

text \<open>
  \<open>recorded hist s\<close>: every entry carries the expiry of the last request of its key, and the ring holds only
  requested keys.
\<close>

definition recorded :: "(bytes \<times> instant) list \<Rightarrow> local_shard \<Rightarrow> bool" where
  "recorded hist s \<longleftrightarrow> (\<forall>k e. map_of (ls_entries s) k = Some e \<longrightarrow> (\<exists>t. map_of (rev hist) k = Some t \<and> e = expiryOf (ls_ttl s) t)) \<and>
     set (take (ls_count s) (ls_ring s)) \<subseteq> fst ` set hist"

lemma recorded_step:
  assumes "stripe_ok s" and "recorded hist s"
  shows "recorded (hist @ [(key, now)]) (snd (seenAndAdd key now s))"
proof (cases "fresh_hit key now s")
  case True
  then show ?thesis using assms(2) by (auto simp: recorded_def seenAndAdd_hit update_conv')
next
  case False
  have "map_of (ls_entries (snd (seenAndAdd key now s))) k = Some e \<Longrightarrow>
      (\<exists>t. map_of (rev (hist @ [(key, now)])) k = Some t \<and> e = expiryOf (ls_ttl s) t)" for k e
    using assms(2) by (auto simp: recorded_def seenAndAdd_miss [OF False] update_conv' delete_conv' split: if_splits)
  then show ?thesis using filled_insert(1) [OF assms(1) False] assms(2) by (fastforce simp: recorded_def)
qed

lemma recorded_other: "recorded hist s \<Longrightarrow> map_of (ls_entries s) k = None \<Longrightarrow> recorded (hist @ [(k, t)]) s"
  by (force simp: recorded_def)

text \<open>
  \<open>kept key E p n s\<close>: the key was inserted at position \<open>p\<close> of the ring and is nowhere else in it, \<open>n\<close> keys have been
  inserted since, and its entry expires at \<open>E\<close> or later.
\<close>

definition kept :: "bytes \<Rightarrow> int \<Rightarrow> nat \<Rightarrow> nat \<Rightarrow> local_shard \<Rightarrow> bool" where
  "kept key E p n s \<longleftrightarrow> p < ls_count s \<and> ls_ring s ! p = key \<and> (\<forall>q < ls_count s. q \<noteq> p \<longrightarrow> ls_ring s ! q \<noteq> key) \<and>
     n < ls_capacity s \<and> ls_head s = (p + 1 + n) mod ls_capacity s \<and>
     (\<exists>e. map_of (ls_entries s) key = Some e \<and> (0 < ls_ttl s \<longrightarrow> E \<le> e))"

lemma kept_start:
  assumes "stripe_ok s" and "key \<notin> set (take (ls_count s) (ls_ring s))" and "0 < ls_ttl s \<longrightarrow> E \<le> expiryOf (ls_ttl s) now"
  shows "kept key E (ls_head s) 0 (snd (seenAndAdd key now s))" and "\<not> fst (seenAndAdd key now s)"
proof -
  have s: "0 < ls_capacity s" "length (ls_ring s) = ls_capacity s" "ls_head s < ls_capacity s" "ls_count s \<le> ls_capacity s"
    "ls_count s < ls_capacity s \<longrightarrow> ls_head s = ls_count s" "fst ` set (ls_entries s) \<subseteq> set (take (ls_count s) (ls_ring s))"
    using assms(1) by (simp_all add: stripe_ok_def)
  have miss: "\<not> fresh_hit key now s" using assms(2) s(6) by (force simp: fresh_hit_def dest: map_of_SomeD)
  then show "\<not> fst (seenAndAdd key now s)" by (simp add: seen_iff)
  have absent: "ls_ring s ! q \<noteq> key" if "q < ls_count s" for q
    using assms(2) that s(2,4) by (metis in_set_conv_nth length_take min.absorb2 nth_take)
  then show "kept key E (ls_head s) 0 (snd (seenAndAdd key now s))"
    using s assms(3) unfolding kept_def by (auto simp: seenAndAdd_miss [OF miss] update_conv' nth_list_update less_Suc_eq)
qed

lemma kept_step:
  assumes "stripe_ok s" and "kept key E p n s" and "k \<noteq> key" and "n + 1 < ls_capacity s"
  shows "\<exists>m \<le> n + 1. kept key E p m (snd (seenAndAdd k t s))"
proof (cases "fresh_hit k t s")
  case True
  then have "kept key E p n (snd (seenAndAdd k t s))" using assms(2,3) by (simp add: kept_def seenAndAdd_hit update_conv')
  then show ?thesis by (intro exI [of _ n]) simp
next
  case False
  have s: "0 < ls_capacity s" "length (ls_ring s) = ls_capacity s" "ls_head s < ls_capacity s" "ls_count s \<le> ls_capacity s"
    "ls_count s < ls_capacity s \<longrightarrow> ls_head s = ls_count s" using assms(1) by (simp_all add: stripe_ok_def)
  have h: "p < ls_count s" "ls_ring s ! p = key" "\<forall>q < ls_count s. q \<noteq> p \<longrightarrow> ls_ring s ! q \<noteq> key" "ls_head s = (p + 1 + n) mod ls_capacity s"
    "\<exists>e. map_of (ls_entries s) key = Some e \<and> (0 < ls_ttl s \<longrightarrow> E \<le> e)" using assms(2) by (simp_all add: kept_def)
  have p: "p < ls_capacity s" using h(1) s(4) by simp
  have ne: "ls_head s \<noteq> p"
  proof
    assume "ls_head s = p"
    then have "(p + (1 + n)) mod ls_capacity s = p mod ls_capacity s" using h(4) p by (simp add: add.assoc)
    then have "ls_capacity s dvd 1 + n" by (metis add_diff_cancel_left' le_add1 mod_eq_dvd_iff_nat)
    then show False using assms(4) by (auto dest: dvd_imp_le)
  qed
  have "ls_head (snd (seenAndAdd k t s)) = (p + 1 + (n + 1)) mod ls_capacity s"
    using h(4) by (simp add: seenAndAdd_miss [OF False] mod_Suc_eq)
  moreover have "ls_count s = ls_capacity s \<Longrightarrow> ls_ring s ! ls_head s \<noteq> key" using h(3) ne s(3) by simp
  ultimately have "kept key E p (n + 1) (snd (seenAndAdd k t s))"
    using h(1-3,5) s ne assms(3,4) p unfolding kept_def
    by (auto simp: seenAndAdd_miss [OF False] update_conv' delete_conv' nth_list_update less_Suc_eq)
  then show ?thesis by blast
qed

lemma kept_again:
  assumes "kept key E p n s" and "0 < ls_ttl s \<longrightarrow> t \<le> E"
  shows "kept key (expiryOf (ls_ttl s) t) p n (snd (seenAndAdd key t s))" and "fst (seenAndAdd key t s)"
proof -
  have hit: "fresh_hit key t s" using assms by (force simp: kept_def fresh_hit_def)
  then show "fst (seenAndAdd key t s)" by (simp add: seen_iff)
  show "kept key (expiryOf (ls_ttl s) t) p n (snd (seenAndAdd key t s))" using assms by (simp add: kept_def seenAndAdd_hit [OF hit] update_conv')
qed

section \<open>The set\<close>

primrec seen_run :: "(bytes \<times> instant) list \<Rightarrow> local_set \<Rightarrow> local_set" where
  "seen_run [] l = l"
| "seen_run (op # ops) l = seen_run ops (snd (SeenAndAdd (fst op) (snd op) l))"

lemma seen_run_append: "seen_run (xs @ ys) l = seen_run ys (seen_run xs l)"
  by (induction xs arbitrary: l) simp_all

lemma localIndex_less: "localIndex key < 64"
  by (simp add: localIndex_def unat_mod)

definition at_stripe :: "nat \<Rightarrow> (bytes \<times> instant) list \<Rightarrow> (bytes \<times> instant) list" where
  "at_stripe i hist = filter (\<lambda>op. localIndex (fst op) = i) hist"

lemma map_of_at_stripe: "map_of (rev (at_stripe (localIndex k) hist)) k = map_of (rev hist) k"
proof -
  have "map_of (filter (\<lambda>op. localIndex (fst op) = localIndex k) xs) k = map_of xs k" for xs :: "(bytes \<times> instant) list"
    by (induction xs) auto
  then show ?thesis by (simp add: at_stripe_def rev_filter)
qed

text \<open>The state of a set of stripes of capacity \<open>c\<close> after the history \<open>hist\<close>.\<close>

definition set_ok :: "nat \<Rightarrow> duration \<Rightarrow> (bytes \<times> instant) list \<Rightarrow> local_set \<Rightarrow> bool" where
  "set_ok c ttl hist l \<longleftrightarrow> \<not> l_disabled l \<and> length (l_shards l) = 64 \<and>
     (\<forall>i < 64. stripe_ok (l_shards l ! i) \<and> recorded (at_stripe i hist) (l_shards l ! i) \<and>
        ls_capacity (l_shards l ! i) = c \<and> ls_ttl (l_shards l ! i) = ttl)"

lemma SeenAndAdd_stripe:
  assumes "\<not> l_disabled l" and "length (l_shards l) = 64"
  shows "fst (SeenAndAdd k t l) = fst (seenAndAdd k t (l_shards l ! localIndex k))"
    and "l_shards (snd (SeenAndAdd k t l)) = (l_shards l)[localIndex k := snd (seenAndAdd k t (l_shards l ! localIndex k))]"
    and "l_disabled (snd (SeenAndAdd k t l)) = l_disabled l"
  using assms by (simp_all add: SeenAndAdd_def split: prod.split)

lemma set_ok_step:
  assumes "set_ok c ttl hist l"
  shows "set_ok c ttl (hist @ [(k, t)]) (snd (SeenAndAdd k t l))"
proof -
  have l: "\<not> l_disabled l" "length (l_shards l) = 64" using assms by (simp_all add: set_ok_def)
  note S = SeenAndAdd_stripe [OF l, of k t]
  have "at_stripe i (hist @ [(k, t)]) = (if i = localIndex k then at_stripe i hist @ [(k, t)] else at_stripe i hist)" for i
    by (auto simp: at_stripe_def)
  then show ?thesis
    using assms l S localIndex_less [of k] by (auto simp: set_ok_def nth_list_update seenAndAdd_ok recorded_step)
qed

lemma set_ok_run: "set_ok c ttl hist l \<Longrightarrow> set_ok c ttl (hist @ ops) (seen_run ops l)"
proof (induction ops arbitrary: hist l)
  case (Cons op ops)
  then show ?case using Cons.IH [OF set_ok_step [OF Cons.prems, of "fst op" "snd op"]] by simp
qed simp

lemma makeslice_negative: "minDuration \<le> n \<Longrightarrow> n < 0 \<Longrightarrow> makeslice 32 (word_of_int n) = Panic"
proof -
  assume n: "minDuration \<le> n" "n < 0"
  have "n mod 18446744073709551616 = n + 18446744073709551616" using mod_pos_pos_trivial [of "n + 18446744073709551616" 18446744073709551616] n by simp
  then have "uint (word_of_int n :: u64) = n + 18446744073709551616" by (simp add: uint_word_of_int)
  then have "int (unat (word_of_int n :: u64)) = n + 18446744073709551616" by simp
  then have "9223372036854775808 \<le> unat (word_of_int n :: u64)" using n by linarith
  then show ?thesis by (simp add: makeslice_def)
qed

lemma new_set_ok:
  assumes "newLocalSet capacity ttl = (Ok l :: ('e, local_set) res)" and "0 < capacity" and "capacity \<le> maxDuration"
  shows "set_ok (nat ((capacity + 63) div 64)) ttl [] l"
proof -
  define n where "n = wrap64 (capacity + int localShards - 1) sdiv int localShards"
  have new: "makeslice 32 (word_of_int n) \<noteq> (Panic :: ('e, unit) res)" "l = \<lparr>l_disabled = False, l_shards = replicate 64
      \<lparr>ls_capacity = nat n, ls_ttl = ttl, ls_entries = [], ls_ring = replicate (nat n) (replicate 32 0), ls_head = 0, ls_count = 0\<rparr>\<rparr>"
    using assms(1,2) unfolding newLocalSet_def Let_def n_def [symmetric] by (auto simp: makeslice_def split: if_splits)
  define x where "x = capacity + int localShards - 1"
  have x: "0 < x" "x = capacity + 63" using assms(2) by (simp_all add: x_def)
  have n: "n = wrap64 x sdiv 64" by (simp add: n_def x_def)
  have "x \<le> maxDuration"
  proof (rule ccontr)
    assume over: "\<not> x \<le> maxDuration"
    then have "n = - ((18446744073709551616 - x) div 64)"
      using n wrap64_over [of x] x(2) assms(3) by (simp add: signed_divide_int_def)
    then have "minDuration \<le> n" "n < 0" using over x(2) assms(3) by linarith+
    then show False by (rule notE [OF new(1) makeslice_negative])
  qed
  then have "n = x div 64" "0 < x div 64" using x assms(2) n wrap64_id [of x] by (simp_all add: signed_divide_int_def)
  then show ?thesis using new(2) x(2) by (simp add: set_ok_def stripe_ok_def recorded_def at_stripe_def)
qed

text \<open>
  The window of a new key. \<open>refreshed ttl k u ops t\<close>: counted from a request of the key at \<open>u\<close>, each request of it among \<open>ops\<close> comes within the lifetime that the one
  before it has started, and \<open>t\<close> within that of the last, all in the range of the clock.
\<close>

primrec refreshed :: "duration \<Rightarrow> bytes \<Rightarrow> instant \<Rightarrow> (bytes \<times> instant) list \<Rightarrow> instant \<Rightarrow> bool" where
  "refreshed ttl k u [] t \<longleftrightarrow> minDuration \<le> u \<and> u + ttl \<le> maxDuration \<and> t \<le> u + ttl"
| "refreshed ttl k u (op # ops) t \<longleftrightarrow>
     (if fst op = k then minDuration \<le> u \<and> u + ttl \<le> maxDuration \<and> snd op \<le> u + ttl \<and> refreshed ttl k (snd op) ops t else refreshed ttl k u ops t)"

lemma expiryOf_id: "minDuration \<le> u \<Longrightarrow> u + ttl \<le> maxDuration \<Longrightarrow> 0 < ttl \<Longrightarrow> expiryOf ttl u = u + ttl"
  by (simp add: expiryOf_def wrap64_id)

lemma kept_run:
  assumes "set_ok c ttl hist l" and "kept k (expiryOf ttl u) p n (l_shards l ! localIndex k)"
    and "n + length (filter (\<lambda>op. localIndex (fst op) = localIndex k \<and> fst op \<noteq> k) ops) < c" and "0 < ttl \<longrightarrow> refreshed ttl k u ops t"
  shows "\<exists>E m. kept k E p m (l_shards (seen_run ops l) ! localIndex k) \<and> (0 < ttl \<longrightarrow> t \<le> E)"
  using assms
proof (induction ops arbitrary: hist l n u)
  case Nil
  then show ?case by (fastforce simp: expiryOf_id)
next
  case (Cons op ops)
  obtain k' v where op: "op = (k', v)" by fastforce
  let ?s = "l_shards l ! localIndex k" and ?l = "snd (SeenAndAdd k' v l)"
  have l: "\<not> l_disabled l" "length (l_shards l) = 64" "stripe_ok ?s" "ls_capacity ?s = c" "ls_ttl ?s = ttl"
    using Cons.prems(1) localIndex_less [of k] by (simp_all add: set_ok_def)
  have ok: "set_ok c ttl (hist @ [(k', v)]) ?l" by (rule set_ok_step [OF Cons.prems(1)])
  have sh: "l_shards ?l ! localIndex k = (if localIndex k' = localIndex k then snd (seenAndAdd k' v ?s) else ?s)"
    using SeenAndAdd_stripe(2) [OF l(1,2)] l(2) localIndex_less [of k] by simp
  consider (other) "localIndex k' = localIndex k" "k' \<noteq> k" | (same) "k' = k" | (elsewhere) "localIndex k' \<noteq> localIndex k" "k' \<noteq> k" by blast
  then show ?case
  proof cases
    case other
    obtain m where m: "m \<le> n + 1" "kept k (expiryOf ttl u) p m (snd (seenAndAdd k' v ?s))"
      using kept_step [OF l(3) Cons.prems(2), of k' v] other Cons.prems(3) l(4) op by auto
    show ?thesis using Cons.IH [OF ok, of u m] sh m other Cons.prems(3,4) op by simp
  next
    case same
    have "0 < ttl \<longrightarrow> v \<le> expiryOf ttl u" using Cons.prems(4) op same by (auto simp: expiryOf_id)
    then have "kept k (expiryOf ttl v) p n (snd (seenAndAdd k v ?s))" using kept_again(1) [OF Cons.prems(2), of v] l(5) by simp
    then show ?thesis using Cons.IH [OF ok, of v n] sh same Cons.prems(3,4) op by simp
  next
    case elsewhere
    then show ?thesis using Cons.IH [OF ok, of u n] sh Cons.prems(2-4) op by simp
  qed
qed

lemma set_seen:
  assumes "set_ok c ttl hist l"
  shows "fst (SeenAndAdd k t l) \<longleftrightarrow> fresh_hit k t (l_shards l ! localIndex k)"
  using assms SeenAndAdd_stripe(1) [of l k t] by (simp add: set_ok_def seen_iff)

lemma set_sound:
  assumes "set_ok c ttl hist l" and "fst (SeenAndAdd k t l)"
  shows "\<exists>u. map_of (rev hist) k = Some u \<and> (0 < ttl \<longrightarrow> t \<le> wrap64 (u + ttl))"
proof -
  have l: "ls_ttl (l_shards l ! localIndex k) = ttl" "recorded (at_stripe (localIndex k) hist) (l_shards l ! localIndex k)"
    using assms(1) localIndex_less [of k] by (simp_all add: set_ok_def)
  obtain e where e: "map_of (ls_entries (l_shards l ! localIndex k)) k = Some e" "ttl \<le> 0 \<or> t \<le> e"
    using assms(2) l(1) unfolding set_seen [OF assms(1)] fresh_hit_def by blast
  then obtain u where "map_of (rev (at_stripe (localIndex k) hist)) k = Some u" "e = expiryOf ttl u"
    using l unfolding recorded_def by blast
  then show ?thesis using e(2) by (auto simp: map_of_at_stripe expiryOf_def)
qed

lemma set_window:
  assumes "set_ok c ttl pre l" and "k \<notin> fst ` set pre"
    and "length (filter (\<lambda>op. localIndex (fst op) = localIndex k \<and> fst op \<noteq> k) mid) < c" and "0 < ttl \<longrightarrow> refreshed ttl k u mid t"
  shows "fst (SeenAndAdd k t (seen_run ((k, u) # mid) l))"
proof -
  let ?after = "snd (SeenAndAdd k u l)" and ?s = "l_shards l ! localIndex k" and ?final = "seen_run ((k, u) # mid) l"
  have s: "stripe_ok ?s" "ls_ttl ?s = ttl" "recorded (at_stripe (localIndex k) pre) ?s" "\<not> l_disabled l" "length (l_shards l) = 64"
    using assms(1) localIndex_less [of k] by (simp_all add: set_ok_def)
  have new_key: "k \<notin> set (take (ls_count ?s) (ls_ring ?s))" using s(3) assms(2) by (auto simp: recorded_def at_stripe_def)
  have "kept k (expiryOf ttl u) (ls_head ?s) 0 (snd (seenAndAdd k u ?s))"
    by (rule kept_start(1) [OF s(1) new_key]) (simp add: s(2))
  then have h: "kept k (expiryOf ttl u) (ls_head ?s) 0 (l_shards ?after ! localIndex k)"
    using SeenAndAdd_stripe(2) [OF s(4,5), of k u] s(5) localIndex_less [of k] by simp
  obtain E m where m: "kept k E (ls_head ?s) m (l_shards ?final ! localIndex k)" "0 < ttl \<longrightarrow> t \<le> E"
    using kept_run [OF set_ok_step [OF assms(1)] h _ assms(4)] assms(3) by auto
  have ok: "set_ok c ttl (pre @ (k, u) # mid) ?final" by (rule set_ok_run [OF assms(1)])
  then have "ls_ttl (l_shards ?final ! localIndex k) = ttl" using localIndex_less [of k] by (simp add: set_ok_def)
  then show ?thesis unfolding set_seen [OF ok] using m by (fastforce simp: kept_def fresh_hit_def)
qed

section \<open>Properties\<close>

text \<open>
  C38: the in-process set of transaction ids, after any history of requests. A key is reported as seen only if it was requested
  before and the lifetime counted from its last request is not over. A key requested for the first time is
  reported as seen by every request from then on, as long as each comes within the lifetime that the request of the key before it has started, and
  until its stripe has been asked for as many other keys as
  the stripe has room for. (Nothing is promised to a key that is inserted again after its lifetime: it may be forgotten sooner.) No stripe holds more than its share of the capacity, rounded up.
\<close>

theorem local_set_dedup:
  assumes "newLocalSet capacity ttl = (Ok l :: ('e, local_set) res)" and "0 < capacity" and "capacity \<le> maxDuration"
  shows "(fst (SeenAndAdd k t (seen_run hist l)) \<longrightarrow> (\<exists>u. map_of (rev hist) k = Some u \<and> (0 < ttl \<longrightarrow> t \<le> wrap64 (u + ttl)))) \<and>
     (k \<notin> fst ` set pre \<and> hist = pre @ (k, u) # mid \<and>
      length (filter (\<lambda>op. localIndex (fst op) = localIndex k \<and> fst op \<noteq> k) mid) < nat ((capacity + 63) div 64) \<and>
      (0 < ttl \<longrightarrow> refreshed ttl k u mid t) \<longrightarrow>
      fst (SeenAndAdd k t (seen_run hist l))) \<and>
     (\<forall>s \<in> set (l_shards (seen_run hist l)). int (length (ls_entries s)) \<le> (capacity + 63) div 64)"
proof -
  let ?c = "nat ((capacity + 63) div 64)"
  note new = new_set_ok [OF assms]
  have ok: "set_ok ?c ttl hist (seen_run hist l)" for hist using set_ok_run [OF new, of hist] by simp
  show ?thesis
  proof (intro conjI impI ballI)
    show "\<exists>u. map_of (rev hist) k = Some u \<and> (0 < ttl \<longrightarrow> t \<le> wrap64 (u + ttl))" if "fst (SeenAndAdd k t (seen_run hist l))"
      by (rule set_sound [OF ok that])
    show "fst (SeenAndAdd k t (seen_run hist l))"
      if "k \<notin> fst ` set pre \<and> hist = pre @ (k, u) # mid \<and>
        length (filter (\<lambda>op. localIndex (fst op) = localIndex k \<and> fst op \<noteq> k) mid) < ?c \<and>
        (0 < ttl \<longrightarrow> refreshed ttl k u mid t)"
      using set_window [OF ok [of pre], of k mid u t] that by (simp add: seen_run_append)
    fix s assume "s \<in> set (l_shards (seen_run hist l))"
    then have "stripe_ok s" "ls_capacity s = ?c" using ok [of hist] by (auto simp: set_ok_def in_set_conv_nth)
    then show "int (length (ls_entries s)) \<le> (capacity + 63) div 64" using stripe_bound [of s] assms(2) by simp
  qed
qed

text \<open>Two keys of one stripe, a lifetime of 10 and room for two keys.\<close>

theorem local_set_dedup_witness:
  "(case newLocalSet 128 10 :: (unit, local_set) res of
      Ok l \<Rightarrow> fst (SeenAndAdd (replicate 32 1) 24 (seen_run [(replicate 32 1, 5), (replicate 32 65, 7), (replicate 32 1, 15)] l))
    | _ \<Rightarrow> False)"
proof -
  obtain l where l: "newLocalSet 128 10 = (Ok l :: (unit, local_set) res)"
    by (simp add: newLocalSet_def makeslice_def wrap64_id)
  define k k' :: bytes where "k = replicate 32 1" and "k' = replicate 32 65"
  have "k' \<noteq> k" by (simp add: k_def k'_def replicate_eq_replicate)
  moreover from this have "length (filter (\<lambda>op. localIndex (fst op) = localIndex k \<and> fst op \<noteq> k) [(k', 7 :: int), (k, 15)]) \<le> 1" by simp
  ultimately have "fst (SeenAndAdd k 24 (seen_run [(k, 5), (k', 7), (k, 15)] l))"
    using local_set_dedup [OF l, of k 24 "[(k, 5), (k', 7), (k, 15)]" "[]" 5 "[(k', 7), (k, 15)]"] by simp
  then show ?thesis using l by (simp add: k_def k'_def)
qed

text \<open>
  A key that is requested again after its lifetime takes a second place in the ring while its first place stays. When the
  first place is reused the key is forgotten, although it is live and only one other key came after it.
\<close>

lemma local_set_early_eviction:
  "let s = \<lparr>ls_capacity = 2, ls_ttl = 10, ls_entries = [], ls_ring = replicate 2 [], ls_head = 0, ls_count = 0\<rparr>;
       s = snd (seenAndAdd [1] 0 s); s = snd (seenAndAdd [1] 20 s); s = snd (seenAndAdd [65] 21 s)
   in \<not> fst (seenAndAdd [1] 22 s)"
  by code_simp

end
