(* ===== verification/Go_Strings.thy ===== *)
theory Go_Strings
  imports Go_Std "HOL-Library.Sublist"
begin

text \<open>
  The functions of \<^verbatim>\<open>strings\<close> and \<^verbatim>\<open>strconv\<close> that the configuration, logging and inventory packages use. A Go string is its list of bytes, as
  characters. White space is that of \<^verbatim>\<open>unicode.IsSpace\<close>, in its UTF-8 encoding; since no encoding is a proper part of another,
  stripping encodings from either end is stripping runes. Comparison with a lower-case ASCII word accounts for the runes
  outside ASCII that the case mappings of the library take to an ASCII letter.
\<close>

section \<open>White space\<close>

definition spaces :: "string list" where
  "spaces = map (map char_of)
     ([[9], [10], [11], [12], [13], [32], [0xC2, 0x85], [0xC2, 0xA0], [0xE1, 0x9A, 0x80]] @
      map (\<lambda>i. [0xE2, 0x80, i]) [0x80..<0x8B] @
      [[0xE2, 0x80, 0xA8], [0xE2, 0x80, 0xA9], [0xE2, 0x80, 0xAF], [0xE2, 0x81, 0x9F], [0xE3, 0x80, 0x80 :: nat]])"

definition strip_one :: "string list \<Rightarrow> string \<Rightarrow> string option" where
  "strip_one ps s = map_option (\<lambda>p. drop (length p) s) (find (\<lambda>p. p \<noteq> [] \<and> prefix p s) ps)"

lemma strip_one_shorter: "strip_one ps s = Some s' \<Longrightarrow> length s' < length s"
  by (auto simp: strip_one_def find_Some_iff prefix_def)

lemma strip_one_None: "strip_one ps s = None \<longleftrightarrow> (\<forall>p \<in> set ps. p \<noteq> [] \<longrightarrow> \<not> prefix p s)"
  by (auto simp: strip_one_def find_None_iff)

lemma strip_one_suffix: "strip_one ps s = Some s' \<Longrightarrow> suffix s' s"
  by (auto simp: strip_one_def suffix_drop)

function trimFront :: "string list \<Rightarrow> string \<Rightarrow> string" where
  "trimFront ps s = (case strip_one ps s of None \<Rightarrow> s | Some s' \<Rightarrow> trimFront ps s')"
  by pat_completeness auto

termination by (relation "measure (\<lambda>(ps, s). length s)") (auto dest: strip_one_shorter)

declare trimFront.simps [simp del]

definition trimBack :: "string \<Rightarrow> string" where
  "trimBack s = rev (trimFront (map rev spaces) (rev s))"

definition TrimSpace :: "string \<Rightarrow> string" where
  "TrimSpace s = trimBack (trimFront spaces s)"

lemma trimFront_done: "strip_one ps (trimFront ps s) = None"
  by (induction ps s rule: trimFront.induct) (subst trimFront.simps, auto split: option.split)

lemma trimFront_id: "strip_one ps s = None \<Longrightarrow> trimFront ps s = s"
  by (simp add: trimFront.simps)

lemma trimFront_suffix: "suffix (trimFront ps s) s"
proof (induction ps s rule: trimFront.induct)
  case (1 ps s)
  then show ?case by (subst trimFront.simps) (auto split: option.split dest: strip_one_suffix suffix_order.trans)
qed

lemma trimBack_prefix: "prefix (trimBack s) s"
  using trimFront_suffix [of "map rev spaces" "rev s"] by (simp add: trimBack_def suffix_to_prefix)

lemma strip_one_prefix: "strip_one ps s = None \<Longrightarrow> prefix t s \<Longrightarrow> strip_one ps t = None"
  by (auto simp: strip_one_None dest: prefix_order.trans)

lemma TrimSpace_idem [simp]: "TrimSpace (TrimSpace s) = TrimSpace s"
proof -
  have "strip_one spaces (TrimSpace s) = None"
    unfolding TrimSpace_def by (rule strip_one_prefix [OF trimFront_done trimBack_prefix])
  then have "TrimSpace (TrimSpace s) = trimBack (TrimSpace s)" by (simp add: TrimSpace_def [of "TrimSpace s"] trimFront_id)
  also have "\<dots> = TrimSpace s" by (simp add: TrimSpace_def trimBack_def trimFront_id [OF trimFront_done])
  finally show ?thesis .
qed

lemma set_TrimSpace: "set (TrimSpace s) \<subseteq> set s"
  using set_mono_prefix [OF trimBack_prefix] set_mono_suffix [OF trimFront_suffix] unfolding TrimSpace_def by (meson order_trans)

text \<open>Words of printable ASCII characters have no white space.\<close>

definition printable :: "char \<Rightarrow> bool" where
  "printable c \<longleftrightarrow> 33 \<le> (of_char c :: nat) \<and> (of_char c :: nat) \<le> 126"

lemma spaces_unprintable: "\<forall>p \<in> set spaces. \<forall>c \<in> set p. \<not> printable c"
  by (auto simp: spaces_def printable_def)

lemma TrimSpace_word: "list_all printable s \<Longrightarrow> TrimSpace s = s"
proof -
  assume s: "list_all printable s"
  have none: "strip_one ps t = None" if "\<forall>p \<in> set ps. \<forall>c \<in> set p. \<not> printable c" "\<forall>c \<in> set t. printable c" for ps t
    unfolding strip_one_None using that by (metis hd_in_set set_mono_prefix subsetD)
  have "strip_one spaces s = None" "strip_one (map rev spaces) (rev s) = None"
    using s spaces_unprintable by (auto intro!: none simp: list_all_iff)
  then show ?thesis by (simp add: TrimSpace_def trimBack_def trimFront_id)
qed

section \<open>Splitting and joining\<close>

fun splitByte :: "char \<Rightarrow> string \<Rightarrow> string list" where
  "splitByte c [] = [[]]"
| "splitByte c (x # s) = (if x = c then [] # splitByte c s else (x # hd (splitByte c s)) # tl (splitByte c s))"

fun join :: "char \<Rightarrow> string list \<Rightarrow> string" where
  "join c [] = []"
| "join c [s] = s"
| "join c (s # t # ss) = s @ c # join c (t # ss)"

lemma splitByte_ne [simp]: "splitByte c s \<noteq> []"
  by (induction s) simp_all

lemma splitByte_free: "p \<in> set (splitByte c s) \<Longrightarrow> c \<notin> set p"
proof (induction s arbitrary: p)
  case (Cons x s)
  then show ?case by (cases "splitByte c s") (auto split: if_splits)
qed simp

lemma splitByte_single: "c \<notin> set s \<Longrightarrow> splitByte c s = [s]"
  by (induction s) auto

lemma splitByte_append: "c \<notin> set s \<Longrightarrow> splitByte c (s @ c # t) = s # splitByte c t"
  by (induction s) auto

lemma splitByte_join: "ss \<noteq> [] \<Longrightarrow> \<forall>s \<in> set ss. c \<notin> set s \<Longrightarrow> splitByte c (join c ss) = ss"
  by (induction c ss rule: join.induct) (simp_all add: splitByte_single splitByte_append)

section \<open>Case\<close>

definition asciiLower :: "char \<Rightarrow> char" where
  "asciiLower x = (let n = of_char x :: nat in if 65 \<le> n \<and> n \<le> 90 then char_of (n + 32) else x)"

text \<open>
  \<^verbatim>\<open>strings.ToLower(s) == w\<close> and \<^verbatim>\<open>strings.EqualFold(s, w)\<close> for a lower-case ASCII word \<open>w\<close>: \<open>alts\<close> has the runes outside ASCII, in UTF-8, that
  map to a letter.
\<close>

fun matchWord :: "(char \<times> string) list \<Rightarrow> string \<Rightarrow> string \<Rightarrow> bool" where
  "matchWord alts [] [] = True"
| "matchWord alts (x # s) (c # w) =
     (if asciiLower x = c then matchWord alts s w
      else case map_of alts c of
        Some r \<Rightarrow> prefix r (x # s) \<and> matchWord alts (drop (length r - 1) s) w
      | None \<Rightarrow> False)"
| "matchWord alts _ _ = False"

definition kelvin :: string where "kelvin = map char_of [0xE2, 0x84, 0xAA :: nat]"
definition dottedI :: string where "dottedI = map char_of [0xC4, 0xB0 :: nat]"
definition longS :: string where "longS = map char_of [0xC5, 0xBF :: nat]"

definition lowerEq :: "string \<Rightarrow> string \<Rightarrow> bool" where
  "lowerEq = matchWord [(CHR ''k'', kelvin), (CHR ''i'', dottedI)]"

definition EqualFold :: "string \<Rightarrow> string \<Rightarrow> bool" where
  "EqualFold = matchWord [(CHR ''k'', kelvin), (CHR ''s'', longS)]"

section \<open>Numbers (strconv)\<close>

text \<open>\<^verbatim>\<open>strconv.Atoi\<close>: an optional sign and decimal digits, in the range of \<^verbatim>\<open>int\<close>.\<close>

definition isDigit :: "char \<Rightarrow> bool" where
  "isDigit c \<longleftrightarrow> c \<in> set ''0123456789''"

definition digitsValue :: "string \<Rightarrow> int" where
  "digitsValue s = foldl (\<lambda>n c. 10 * n + (of_char c - 48)) 0 s"

definition strconv_Atoi :: "string \<Rightarrow> int option" where
  "strconv_Atoi s =
     (let neg = (s \<noteq> [] \<and> hd s = CHR ''-'');
          ds = (if s \<noteq> [] \<and> (hd s = CHR ''-'' \<or> hd s = CHR ''+'') then tl s else s);
          n = (if neg then - digitsValue ds else digitsValue ds) in
      if ds = [] \<or> \<not> list_all isDigit ds \<or> n < minDuration \<or> maxDuration < n then None else Some n)"

end
