(* ===== verification/Go_Duration.thy ===== *)
theory Go_Duration
  imports Go_Strings Shard
begin

text \<open>
  \<^verbatim>\<open>time.ParseDuration\<close>, following the standard library: a sign and a sequence of decimal numbers with units, in unsigned 64-bit arithmetic,
  with fractions of a unit computed in \<^verbatim>\<open>float64\<close>. A positive \<^verbatim>\<open>float64\<close> is a pair of a significand of at most 53 bits and an exponent.
  Exponents are not bounded: the arithmetic can leave the range of the type only below, or with a scale beyond \<open>10\<^sup>3\<^sup>0\<^sup>8\<close>, and then the
  fraction is below a nanosecond and truncated to zero either way.
\<close>

section \<open>Arithmetic of float64\<close>

type_synonym float64 = "int \<times> int"

function bitlen :: "int \<Rightarrow> int" where
  "bitlen n = (if n \<le> 0 then 0 else 1 + bitlen (n div 2))"
  by pat_completeness auto

termination by (relation "measure nat") auto

declare bitlen.simps [simp del]

text \<open>The quotient \<open>n / d\<close> in units of \<open>2\<^sup>e\<close>, truncated or rounded to the nearest, ties to even.\<close>

definition unitsOf :: "int \<Rightarrow> int \<Rightarrow> int \<Rightarrow> int \<times> int" where
  "unitsOf n d e = (if 0 \<le> e then (n, d * 2 ^ nat e) else (n * 2 ^ nat (- e), d))"

definition nearestEven :: "int \<Rightarrow> int \<Rightarrow> int" where
  "nearestEven n d =
     (let q = n div d; r = n mod d in if 2 * r < d then q else if d < 2 * r then q + 1 else q + q mod 2)"

definition round53 :: "int \<Rightarrow> int \<Rightarrow> float64" where
  "round53 n d =
     (if n = 0 then (0, 0)
      else let e = bitlen n - bitlen d - 53;
               e = (if 2 ^ 53 \<le> (case unitsOf n d e of (n', d') \<Rightarrow> n' div d') then e + 1 else e)
           in (case unitsOf n d e of (n', d') \<Rightarrow> nearestEven n' d', e))"

definition f64_of :: "int \<Rightarrow> float64" where
  "f64_of n = round53 n 1"

definition f64_mul :: "float64 \<Rightarrow> float64 \<Rightarrow> float64" where
  "f64_mul x y = (case round53 (fst x * fst y) 1 of (m, e) \<Rightarrow> (m, e + snd x + snd y))"

definition f64_div :: "float64 \<Rightarrow> float64 \<Rightarrow> float64" where
  "f64_div x y = (case round53 (fst x) (fst y) of (m, e) \<Rightarrow> (m, e + snd x - snd y))"

definition f64_trunc :: "float64 \<Rightarrow> int" where
  "f64_trunc x = (if 0 \<le> snd x then fst x * 2 ^ nat (snd x) else fst x div 2 ^ nat (- snd x))"

section \<open>Parsing\<close>

abbreviation (input) digitOf :: "char \<Rightarrow> int" where "digitOf c \<equiv> of_char c - 48"

fun leadingInt :: "int \<Rightarrow> string \<Rightarrow> (int \<times> string) option" where
  "leadingInt x [] = Some (x, [])"
| "leadingInt x (c # s) =
     (if \<not> isDigit c then Some (x, c # s)
      else if 2 ^ 63 div 10 < x then None
      else let x = x * 10 + digitOf c in if 2 ^ 63 < x then None else leadingInt x s)"

fun leadingFraction :: "int \<Rightarrow> float64 \<Rightarrow> bool \<Rightarrow> string \<Rightarrow> int \<times> float64 \<times> string" where
  "leadingFraction x scale overflow [] = (x, scale, [])"
| "leadingFraction x scale overflow (c # s) =
     (if \<not> isDigit c then (x, scale, c # s)
      else if overflow then leadingFraction x scale True s
      else if (2 ^ 63 - 1) div 10 < x then leadingFraction x scale True s
      else let y = x * 10 + digitOf c in
           if 2 ^ 63 < y then leadingFraction x scale True s
           else leadingFraction y (f64_mul scale (f64_of 10)) False s)"

definition microSign :: string where "microSign = map char_of [0xC2, 0xB5 :: nat]"
definition greekMu :: string where "greekMu = map char_of [0xCE, 0xBC :: nat]"

definition unitMap :: "(string \<times> int) list" where
  "unitMap =
     [(''ns'', 1), (''us'', 1000), (microSign @ ''s'', 1000), (greekMu @ ''s'', 1000), (''ms'', 1000000), (''s'', 1000000000),
      (''m'', 60000000000), (''h'', 3600000000000)]"

abbreviation (input) numberStart :: "char \<Rightarrow> bool" where "numberStart c \<equiv> c = CHR ''.'' \<or> isDigit c"

text \<open>One number with its unit, in nanoseconds, and the rest of the text.\<close>

definition optFraction :: "string \<Rightarrow> int \<times> float64 \<times> string \<times> bool" where
  "optFraction s =
     (if s \<noteq> [] \<and> hd s = CHR ''.'' then
        let (f, scale, r) = leadingFraction 0 (f64_of 1) False (tl s) in (f, scale, r, length (tl s) \<noteq> length r)
      else (0, f64_of 1, s, False))"

definition parseOne :: "string \<Rightarrow> (int \<times> string) option" where
  "parseOne s =
     (if \<not> numberStart (hd s) then None
      else case leadingInt 0 s of
        None \<Rightarrow> None
      | Some (v, s1) \<Rightarrow>
          let pre = (length s \<noteq> length s1); (f, scale, s2, post) = optFraction s1 in
          if \<not> pre \<and> \<not> post then None
          else
            let u = takeWhile (\<lambda>c. \<not> numberStart c) s2; s3 = dropWhile (\<lambda>c. \<not> numberStart c) s2 in
            if u = [] then None
            else (case map_of unitMap u of
                None \<Rightarrow> None
              | Some unit \<Rightarrow>
                  if 2 ^ 63 div unit < v then None
                  else let v = v * unit in
                    if f > 0 then
                      let v = (v + f64_trunc (f64_mul (f64_of f) (f64_div (f64_of unit) scale))) mod 2 ^ 64 in
                      if 2 ^ 63 < v then None else Some (v, s3)
                    else Some (v, s3)))"

lemma leadingInt_len: "leadingInt x s = Some (v, r) \<Longrightarrow> length r \<le> length s"
  by (induction s arbitrary: x) (fastforce simp: Let_def split: if_splits)+

lemma leadingFraction_len: "leadingFraction x scale ov s = (f, sc, r) \<Longrightarrow> length r \<le> length s"
proof (induction s arbitrary: x scale ov)
  case (Cons c s)
  then show ?case unfolding leadingFraction.simps Let_def by (auto dest!: Cons.IH split: if_splits)
qed simp

lemma optFraction_len: "optFraction s = (f, sc, r, post) \<Longrightarrow> length r \<le> length s"
  by (auto simp: optFraction_def dest!: leadingFraction_len split: if_splits prod.splits)

lemma parseOne_len:
  assumes "parseOne s = Some (v, r)"
  shows "length r < length s"
proof -
  obtain w s1 f sc s2 post where s1: "leadingInt 0 s = Some (w, s1)" and s2: "optFraction s1 = (f, sc, s2, post)"
    and u: "takeWhile (\<lambda>c. \<not> numberStart c) s2 \<noteq> []" and r: "r = dropWhile (\<lambda>c. \<not> numberStart c) s2"
    using assms unfolding parseOne_def Let_def by (auto split: if_splits option.splits prod.splits)
  have "length r < length s2" using u unfolding r
    by (metis append_self_conv2 length_append length_greater_0_conv less_add_same_cancel2 takeWhile_dropWhile_id)
  then show ?thesis using leadingInt_len [OF s1] optFraction_len [OF s2] by simp
qed

function parseAll :: "int \<Rightarrow> string \<Rightarrow> int option" where
  "parseAll d s =
     (if s = [] then Some d
      else case parseOne s of
        None \<Rightarrow> None
      | Some (v, s') \<Rightarrow> let d = (d + v) mod 2 ^ 64 in if 2 ^ 63 < d then None else parseAll d s')"
  by pat_completeness auto

termination by (relation "measure (\<lambda>(d, s). length s)") (auto dest: parseOne_len)

declare parseAll.simps [simp del]

definition ParseDuration :: "string \<Rightarrow> duration option" where
  "ParseDuration s =
     (let neg = (s \<noteq> [] \<and> hd s = CHR ''-'');
          s = (if s \<noteq> [] \<and> (hd s = CHR ''-'' \<or> hd s = CHR ''+'') then tl s else s)
      in if s = ''0'' then Some 0
         else if s = [] then None
         else case parseAll 0 s of
           None \<Rightarrow> None
         | Some d \<Rightarrow> if neg then Some (wrap64 (- wrap64 d)) else if 2 ^ 63 - 1 < d then None else Some d)"

section \<open>Properties\<close>

text \<open>The range is that of \<^verbatim>\<open>time.Duration\<close>.\<close>

lemma parseAll_range: "parseAll d s = Some n \<Longrightarrow> 0 \<le> d \<Longrightarrow> d \<le> 2 ^ 63 \<Longrightarrow> 0 \<le> n \<and> n \<le> 2 ^ 63"
proof (induction d s rule: parseAll.induct)
  case (1 d s)
  show ?case
  proof (cases "s = []")
    case True
    then show ?thesis using 1(2-4) by (simp add: parseAll.simps)
  next
    case False
    then obtain v r where p: "parseOne s = Some (v, r)" and le: "\<not> 2 ^ 63 < (d + v) mod 2 ^ 64" and n: "parseAll ((d + v) mod 2 ^ 64) r = Some n"
      using 1(2) by (subst (asm) parseAll.simps) (auto simp: Let_def split: option.splits if_splits)
    show ?thesis using 1(1) [OF False p refl refl le n] le by simp
  qed
qed

lemma wrap64_range: "minDuration \<le> wrap64 x" "wrap64 x \<le> maxDuration"
  using sint_ge [of "word_of_int x :: u64"] sint_lt [of "word_of_int x :: u64"] unfolding wrap64_def by simp_all

lemma ParseDuration_range: "ParseDuration s = Some d \<Longrightarrow> minDuration \<le> d \<and> d \<le> maxDuration"
  using wrap64_range by (auto simp: ParseDuration_def Let_def dest!: parseAll_range split: if_splits option.splits)

text \<open>A whole number of a unit is read exactly.\<close>

abbreviation (input) readDigits :: "int \<Rightarrow> string \<Rightarrow> int" where
  "readDigits \<equiv> foldl (\<lambda>n c. 10 * n + digitOf c)"

lemma isDigit_range: "isDigit c \<Longrightarrow> 0 \<le> digitOf c \<and> digitOf c \<le> 9"
  by (auto simp: isDigit_def)

lemma readDigits_grow: "list_all isDigit ds \<Longrightarrow> 0 \<le> y \<Longrightarrow> y \<le> readDigits y ds"
proof (induction ds arbitrary: y)
  case (Cons c ds)
  have "0 \<le> digitOf c" using Cons.prems(1) isDigit_range [of c] by simp
  then show ?case using Cons.IH [of "10 * y + digitOf c"] Cons.prems by simp
qed simp

lemma leadingInt_digits:
  assumes "list_all isDigit ds" and "s = [] \<or> \<not> isDigit (hd s)" and "0 \<le> x" and "readDigits x ds \<le> 2 ^ 63"
  shows "leadingInt x (ds @ s) = Some (readDigits x ds, s)"
  using assms
proof (induction ds arbitrary: x)
  case Nil
  then show ?case by (cases s) auto
next
  case (Cons c ds)
  have c: "0 \<le> digitOf c" "isDigit c" "list_all isDigit ds" using Cons.prems(1) isDigit_range [of c] by simp_all
  have le: "10 * x + digitOf c \<le> 2 ^ 63" using readDigits_grow [OF c(3), of "10 * x + digitOf c"] Cons.prems(3,4) c by simp
  then have x: "\<not> 2 ^ 63 div 10 < x" using c(1) by simp
  have "leadingInt (x * 10 + digitOf c) (ds @ s) = Some (readDigits x (c # ds), s)"
    using Cons.IH [of "10 * x + digitOf c"] Cons.prems c by (simp add: mult.commute [of x 10])
  moreover have "\<not> 2 ^ 63 < x * 10 + digitOf c" using le by (simp add: mult.commute [of x 10])
  ultimately show ?case using x c(2) unfolding append_Cons leadingInt.simps Let_def by argo
qed

lemma hexdigit_decimal: "d < 10 \<Longrightarrow> isDigit (hexdigit d) \<and> (of_char (hexdigit d) :: int) - 48 = int d"
proof -
  assume "d < 10"
  then have "d \<in> {0, 1, 2, 3, 4, 5, 6, 7, 8, 9}" by auto
  then show ?thesis by (auto simp: hexdigit_def isDigit_def)
qed

lemma decimal_digits: "list_all isDigit (decimal n) \<and> digitsValue (decimal n) = int n \<and> decimal n \<noteq> []"
proof (induction n rule: decimal.induct)
  case (1 n)
  show ?case
  proof (cases "n < 10")
    case True
    then show ?thesis using hexdigit_decimal [of n] by (subst (1 2 3) decimal.simps) (simp add: digitsValue_def)
  next
    case False
    have "n mod 10 < 10" "10 * int (n div 10) + int (n mod 10) = int n" by (simp_all add: zdiv_int zmod_int)
    from hexdigit_decimal [OF this(1)] this(2) 1 [OF False] False show ?thesis
      by (subst (1 2 3) decimal.simps) (simp add: digitsValue_def)
  qed
qed

text \<open>
  Reading durations. What is read fits in 64 bits; a decimal number of a unit is read exactly if it fits, as a positive and as a
  negative duration.
\<close>

lemma parseOne_decimal:
  assumes "map_of unitMap u = Some k" and "u \<noteq> []" and "list_all (\<lambda>c. \<not> numberStart c) u" and "0 < k" and "int n * k \<le> 2 ^ 63"
  shows "parseOne (decimal n @ u) = Some (int n * k, [])"
proof -
  note d = decimal_digits [of n]
  have "int n \<le> int n * k" using assms(4) by (simp add: mult_le_cancel_left1)
  then have n: "int n \<le> 2 ^ 63" using assms(5) by linarith
  have i: "leadingInt 0 (decimal n @ u) = Some (int n, u)"
    using leadingInt_digits [of "decimal n" u 0] d assms(2,3) n by (cases u) (simp_all add: digitsValue_def)
  have "hd (decimal n @ u) = hd (decimal n)" "isDigit (hd (decimal n))" using d by (auto simp: list_all_iff)
  moreover have "optFraction u = (0, f64_of 1, u, False)" using assms(2,3) by (cases u) (auto simp: optFraction_def)
  moreover have "takeWhile (\<lambda>c. c \<noteq> CHR ''.'' \<and> \<not> isDigit c) u = u" "dropWhile (\<lambda>c. c \<noteq> CHR ''.'' \<and> \<not> isDigit c) u = []"
    using assms(3) by (simp_all add: takeWhile_eq_all_conv dropWhile_eq_Nil_conv list_all_iff)
  moreover have "int n * k div k \<le> 2 ^ 63 div k" using assms(4,5) by (rule zdiv_mono1 [rotated])
  ultimately show ?thesis using i d assms(1,2,4) by (simp add: parseOne_def Let_def not_less [symmetric] del: takeWhile_eq_all_conv dropWhile_eq_Nil_conv)
qed

lemma unitMap_units:
  assumes "map_of unitMap u = Some k"
  shows "u \<noteq> [] \<and> list_all (\<lambda>c. \<not> numberStart c) u \<and> 0 < k"
proof -
  have "list_all (\<lambda>(u, k). u \<noteq> [] \<and> list_all (\<lambda>c. \<not> numberStart c) u \<and> 0 < k) unitMap" by code_simp
  then show ?thesis using map_of_SomeD [OF assms] by (auto simp: list_all_iff)
qed

lemma ParseDuration_decimal:
  assumes "map_of unitMap u = Some k"
  shows "int n * k \<le> maxDuration \<Longrightarrow> ParseDuration (decimal n @ u) = Some (int n * k)"
    and "int n * k \<le> maxDuration + 1 \<Longrightarrow> ParseDuration (CHR ''-'' # decimal n @ u) = Some (- (int n * k))"
proof -
  note d = decimal_digits [of n] and u = unitMap_units [OF assms]
  have all: "parseAll 0 (decimal n @ u) = Some (int n * k)" if le: "int n * k \<le> maxDuration + 1"
  proof -
    have "0 \<le> int n * k" using u by simp
    moreover have "parseOne (decimal n @ u) = Some (int n * k, [])" using parseOne_decimal [OF assms] u le by simp
    ultimately show ?thesis using d le by (subst parseAll.simps) (simp add: parseAll.simps [of _ "[]"] Let_def)
  qed
  have hd: "isDigit (hd (decimal n @ u))" using d by (auto simp: list_all_iff)
  then have sign: "hd (decimal n @ u) \<noteq> CHR ''-''" "hd (decimal n @ u) \<noteq> CHR ''+''" by (auto simp: isDigit_def)
  have zero: "decimal n @ u \<noteq> ''0''"
  proof
    assume "decimal n @ u = ''0''"
    then have "last u = CHR ''0''" using u by (metis last_appendR last.simps)
    then show False using u by (auto simp: list_all_iff isDigit_def dest: last_in_set)
  qed
  show "ParseDuration (decimal n @ u) = Some (int n * k)" if "int n * k \<le> maxDuration"
    using all sign zero d that by (simp add: ParseDuration_def Let_def)
  show "ParseDuration (CHR ''-'' # decimal n @ u) = Some (- (int n * k))" if le: "int n * k \<le> maxDuration + 1"
  proof -
    have "0 \<le> int n * k" using u by simp
    then consider "int n * k \<le> maxDuration" "minDuration \<le> - (int n * k)" | "int n * k = - minDuration" using le by linarith
    then have "wrap64 (- wrap64 (int n * k)) = - (int n * k)"
      using wrap64_id [of "int n * k"] wrap64_id [of "- (int n * k)"] wrap64_over [of "- minDuration"] \<open>0 \<le> int n * k\<close>
      by cases simp_all
    then show ?thesis using all [OF le] zero d by (simp add: ParseDuration_def Let_def)
  qed
qed

end
