(* ===== verification/Cache_Open.thy ===== *)
theory Cache_Open
  imports Cache_Memory Go_Duration "HOL-Library.Signed_Division"
begin

text \<open>
  The choice of a cache backend (\<^verbatim>\<open>cache/open.go\<close>) and the two networked backends, \<^verbatim>\<open>cache/redis/redis.go\<close> and
  \<^verbatim>\<open>cache/aerospike/\<close>. The client libraries of the two servers are parameters: the pings of a connecting redis
  client and the clock are sequences of outcomes, and an Aerospike client is a record of its operations on a
  state. What the operations of a server do is a hypothesis of the property that needs it.
\<close>

section \<open>Redis: connecting\<close>

record redis_options =
  ro_Addr :: string
  ro_DialTimeout :: duration
  ro_OpTimeout :: duration

record redis_backend =
  rb_options :: redis_options
  rb_opTimeout :: duration

datatype cache_err =
    RedisAddrRequired | RedisPing string string
  | AeroHostRequired | AeroNamespaceRequired | AeroHost string | AeroConnect string
  | UnknownBackend string

text \<open>
  The loop of \<^verbatim>\<open>pingWithRetry\<close>: \<open>clock n\<close> is the \<open>n\<close>-th reading of the clock and \<open>ping n\<close> the error of the \<open>n\<close>-th ping,
  if it fails. The loop would not end with a clock that stands still and a server that never answers.
\<close>

partial_function (option) pingLoop :: "(nat \<Rightarrow> instant) \<Rightarrow> (nat \<Rightarrow> string option) \<Rightarrow> instant \<Rightarrow> nat \<Rightarrow> string option \<Rightarrow> string option option" where
  "pingLoop clock ping deadline n lastErr =
     (if clock n < deadline then
        (case ping n of None \<Rightarrow> Some None | Some e \<Rightarrow> pingLoop clock ping deadline (n + 1) (Some e))
      else Some lastErr)"

definition pingWithRetry :: "(nat \<Rightarrow> instant) \<Rightarrow> (nat \<Rightarrow> string option) \<Rightarrow> duration \<Rightarrow> string option option" where
  "pingWithRetry clock ping limit = pingLoop clock ping (clock 0 + limit) 1 None"

definition redis_New :: "(nat \<Rightarrow> instant) \<Rightarrow> (redis_options \<Rightarrow> nat \<Rightarrow> string option) \<Rightarrow> redis_options \<Rightarrow> (cache_err, redis_backend) res option" where
  "redis_New clock ping opts =
     (if ro_Addr opts = [] then Some (Err RedisAddrRequired)
      else
        let opts = (if ro_DialTimeout opts \<le> 0 then opts\<lparr>ro_DialTimeout := 200 * Millisecond\<rparr> else opts);
            opts = (if ro_OpTimeout opts \<le> 0 then opts\<lparr>ro_OpTimeout := 50 * Millisecond\<rparr> else opts) in
        map_option (\<lambda>r. case r of Some e \<Rightarrow> Err (RedisPing (ro_Addr opts) e)
                       | None \<Rightarrow> Ok \<lparr>rb_options = opts, rb_opTimeout = ro_OpTimeout opts\<rparr>)
          (pingWithRetry clock (ping opts) (10 * Second)))"

section \<open>Redis: operations\<close>

text \<open>The operations of a client on the state of its server; a read of a missing key is the error \<^verbatim>\<open>goredis.Nil\<close>.\<close>

datatype redis_error = RedisNil | RedisOther string

record 'c redis_client =
  rc_SetNX :: "bytes \<Rightarrow> bytes \<Rightarrow> duration \<Rightarrow> 'c \<Rightarrow> (redis_error, bool) res \<times> 'c"
  rc_Set :: "bytes \<Rightarrow> bytes \<Rightarrow> duration \<Rightarrow> 'c \<Rightarrow> redis_error option \<times> 'c"
  rc_Get :: "bytes \<Rightarrow> 'c \<Rightarrow> (redis_error, bytes) res"
  rc_Del :: "bytes \<Rightarrow> 'c \<Rightarrow> redis_error option \<times> 'c"
  rc_Ping :: "duration \<Rightarrow> 'c \<Rightarrow> redis_error option"

definition redis_SetNX :: "'c redis_client \<Rightarrow> bytes \<Rightarrow> bytes \<Rightarrow> duration \<Rightarrow> 'c \<Rightarrow> (redis_error, bool) res \<times> 'c" where
  "redis_SetNX cl key val ttl c = rc_SetNX cl key val ttl c"

definition redis_Set :: "'c redis_client \<Rightarrow> bytes \<Rightarrow> bytes \<Rightarrow> duration \<Rightarrow> 'c \<Rightarrow> redis_error option \<times> 'c" where
  "redis_Set cl key val ttl c = rc_Set cl key val ttl c"

definition redis_Get :: "'c redis_client \<Rightarrow> bytes \<Rightarrow> 'c \<Rightarrow> (redis_error, bytes option) res" where
  "redis_Get cl key c =
     (case rc_Get cl key c of
        Err e \<Rightarrow> if e = RedisNil then Ok None else Err e
      | Panic \<Rightarrow> Panic
      | Ok v \<Rightarrow> Ok (Some v))"

definition redis_Del :: "'c redis_client \<Rightarrow> bytes \<Rightarrow> 'c \<Rightarrow> redis_error option \<times> 'c" where
  "redis_Del cl key c = rc_Del cl key c"

definition redis_Healthy :: "'c redis_client \<Rightarrow> redis_backend \<Rightarrow> 'c \<Rightarrow> bool" where
  "redis_Healthy cl b c = (rc_Ping cl (rb_opTimeout b) c = None)"

definition redis_Close :: "('c \<Rightarrow> redis_error option \<times> 'c) \<Rightarrow> 'c \<Rightarrow> redis_error option \<times> 'c" where
  "redis_Close clientClose c = clientClose c"

section \<open>Aerospike: addresses\<close>

text \<open>\<^verbatim>\<open>strings.LastIndexByte\<close> and \<^verbatim>\<open>IndexByte\<close>, and \<^verbatim>\<open>net.SplitHostPort\<close> (without the texts of its errors).\<close>

primrec indexByte :: "string \<Rightarrow> char \<Rightarrow> nat option" where
  "indexByte [] c = None"
| "indexByte (x # xs) c = (if x = c then Some 0 else map_option Suc (indexByte xs c))"

definition lastIndexByte :: "string \<Rightarrow> char \<Rightarrow> nat option" where
  "lastIndexByte s c = map_option (\<lambda>i. length s - 1 - i) (indexByte (rev s) c)"

definition net_SplitHostPort :: "string \<Rightarrow> (string \<times> string) option" where
  "net_SplitHostPort hostport =
     (case lastIndexByte hostport CHR '':'' of
        None \<Rightarrow> None
      | Some i \<Rightarrow>
          if hostport ! 0 = CHR ''['' then
            (case indexByte hostport CHR '']'' of
               None \<Rightarrow> None
             | Some e \<Rightarrow>
                 if e + 1 \<noteq> i then None
                 else if CHR ''['' \<in> set (drop 1 hostport) \<or> CHR '']'' \<in> set (drop (e + 1) hostport) then None
                 else Some (take (e - 1) (drop 1 hostport), drop (i + 1) hostport))
          else if CHR '':'' \<in> set (take i hostport) then None
          else if CHR ''['' \<in> set hostport \<or> CHR '']'' \<in> set hostport then None
          else Some (take i hostport, drop (i + 1) hostport))"

abbreviation (input) defaultPort :: int where "defaultPort \<equiv> 3000"

definition splitHostPort :: "string \<Rightarrow> (string \<times> int) option" where
  "splitHostPort hp =
     (case net_SplitHostPort hp of
        None \<Rightarrow> Some (hp, defaultPort)
      | Some (host, portStr) \<Rightarrow> map_option (Pair host) (strconv_Atoi portStr))"

definition parseHost :: "string \<Rightarrow> (cache_err, string \<times> int) res" where
  "parseHost hp = (case splitHostPort hp of None \<Rightarrow> Err (AeroHost hp) | Some h \<Rightarrow> Ok h)"

section \<open>Aerospike: operations\<close>

abbreviation (input) binName :: string where "binName \<equiv> ''v''"
abbreviation (input) aeroNeverExpire :: u32 where "aeroNeverExpire \<equiv> 0xFFFFFFFF"

definition expiration :: "duration \<Rightarrow> u32" where
  "expiration ttl =
     (if ttl \<le> 0 then aeroNeverExpire
      else let secs = wrap64 (ttl + Second - 1) sdiv Second in word_of_int (if secs < 1 then 1 else secs))"

datatype exists_action = UPDATE | CREATE_ONLY
datatype aero_error = KEY_EXISTS_ERROR | KEY_NOT_FOUND_ERROR | AeroOther string
datatype bin_value = BinBytes bytes | BinOther

record write_policy =
  wp_Generation :: u32
  wp_Expiration :: u32
  wp_TotalTimeout :: duration
  wp_RecordExistsAction :: exists_action

record ('k, 'c) aero_client =
  ac_NewKey :: "string \<Rightarrow> string \<Rightarrow> bytes \<Rightarrow> (string, 'k) res"
  ac_Put :: "write_policy \<Rightarrow> 'k \<Rightarrow> (string \<times> bin_value) list \<Rightarrow> 'c \<Rightarrow> aero_error option \<times> 'c"
  ac_Get :: "duration \<Rightarrow> 'k \<Rightarrow> string \<Rightarrow> 'c \<Rightarrow> (aero_error, (string \<times> bin_value) list option) res"
  ac_Delete :: "write_policy \<Rightarrow> 'k \<Rightarrow> 'c \<Rightarrow> aero_error option \<times> 'c"

record aero_backend =
  ab_namespace :: string
  ab_set :: string
  ab_opTimeout :: duration

record aero_options =
  ao_Hosts :: "string list"
  ao_Namespace :: string
  ao_Set :: string
  ao_DialTimeout :: duration
  ao_OpTimeout :: duration

definition aero_New :: "(duration \<Rightarrow> (string \<times> int) list \<Rightarrow> (string, 'c) res) \<Rightarrow> aero_options \<Rightarrow> (cache_err, aero_backend \<times> 'c) res" where
  "aero_New connect opts =
     (if ao_Hosts opts = [] then Err AeroHostRequired
      else if ao_Namespace opts = [] then Err AeroNamespaceRequired
      else
        let dialTimeout = (if ao_DialTimeout opts \<le> 0 then 200 * Millisecond else ao_DialTimeout opts);
            opTimeout = (if ao_OpTimeout opts \<le> 0 then 50 * Millisecond else ao_OpTimeout opts) in
        rbind (rmap parseHost (ao_Hosts opts)) (\<lambda>hosts.
        rbind (map_err AeroConnect (connect dialTimeout hosts)) (\<lambda>client.
        Ok (\<lparr>ab_namespace = ao_Namespace opts, ab_set = ao_Set opts, ab_opTimeout = opTimeout\<rparr>, client))))"

definition writePolicy :: "aero_backend \<Rightarrow> duration \<Rightarrow> bool \<Rightarrow> write_policy" where
  "writePolicy b ttl createOnly =
     \<lparr>wp_Generation = 0, wp_Expiration = expiration ttl, wp_TotalTimeout = ab_opTimeout b,
      wp_RecordExistsAction = (if createOnly then CREATE_ONLY else UPDATE)\<rparr>"

datatype aero_op_err = AeroKey string | AeroOp string aero_error

definition aero_key :: "('k, 'c) aero_client \<Rightarrow> aero_backend \<Rightarrow> bytes \<Rightarrow> (aero_op_err, 'k) res" where
  "aero_key cl b key = map_err AeroKey (ac_NewKey cl (ab_namespace b) (ab_set b) key)"

definition aero_SetNX :: "('k, 'c) aero_client \<Rightarrow> aero_backend \<Rightarrow> bytes \<Rightarrow> bytes \<Rightarrow> duration \<Rightarrow> 'c \<Rightarrow> (aero_op_err, bool) res \<times> 'c" where
  "aero_SetNX cl b key val ttl c =
     (case aero_key cl b key of
        Ok k \<Rightarrow>
          let (aerr, c') = ac_Put cl (writePolicy b ttl True) k [(binName, BinBytes val)] c in
          (case aerr of None \<Rightarrow> Ok True | Some e \<Rightarrow> if e = KEY_EXISTS_ERROR then Ok False else Err (AeroOp ''setnx'' e), c')
      | Err e \<Rightarrow> (Err e, c) | Panic \<Rightarrow> (Panic, c))"

definition aero_Set :: "('k, 'c) aero_client \<Rightarrow> aero_backend \<Rightarrow> bytes \<Rightarrow> bytes \<Rightarrow> duration \<Rightarrow> 'c \<Rightarrow> (aero_op_err, unit) res \<times> 'c" where
  "aero_Set cl b key val ttl c =
     (case aero_key cl b key of
        Ok k \<Rightarrow>
          let (aerr, c') = ac_Put cl (writePolicy b ttl False) k [(binName, BinBytes val)] c in
          (case aerr of None \<Rightarrow> Ok () | Some e \<Rightarrow> Err (AeroOp ''set'' e), c')
      | Err e \<Rightarrow> (Err e, c) | Panic \<Rightarrow> (Panic, c))"

definition aero_Get :: "('k, 'c) aero_client \<Rightarrow> aero_backend \<Rightarrow> bytes \<Rightarrow> 'c \<Rightarrow> (aero_op_err, bytes option) res" where
  "aero_Get cl b key c =
     rbind (aero_key cl b key) (\<lambda>k.
     case ac_Get cl (ab_opTimeout b) k binName c of
       Err e \<Rightarrow> if e = KEY_NOT_FOUND_ERROR then Ok None else Err (AeroOp ''get'' e)
     | Panic \<Rightarrow> Panic
     | Ok None \<Rightarrow> Ok None
     | Ok (Some bins) \<Rightarrow> (case map_of bins binName of Some (BinBytes v) \<Rightarrow> Ok (Some v) | _ \<Rightarrow> Ok None))"

definition aero_Del :: "('k, 'c) aero_client \<Rightarrow> aero_backend \<Rightarrow> bytes \<Rightarrow> 'c \<Rightarrow> (aero_op_err, unit) res \<times> 'c" where
  "aero_Del cl b key c =
     (case aero_key cl b key of
        Ok k \<Rightarrow>
          let (aerr, c') = ac_Delete cl \<lparr>wp_Generation = 0, wp_Expiration = 0, wp_TotalTimeout = ab_opTimeout b, wp_RecordExistsAction = UPDATE\<rparr> k c in
          (case aerr of None \<Rightarrow> Ok () | Some e \<Rightarrow> Err (AeroOp ''del'' e), c')
      | Err e \<Rightarrow> (Err e, c) | Panic \<Rightarrow> (Panic, c))"

definition aero_Healthy :: "('c \<Rightarrow> bool) \<Rightarrow> 'c \<Rightarrow> bool" where
  "aero_Healthy isConnected c = isConnected c"

definition aero_Close :: "('c \<Rightarrow> 'c) \<Rightarrow> 'c \<Rightarrow> (aero_op_err, unit) res \<times> 'c" where
  "aero_Close clientClose c = (Ok (), clientClose c)"

section \<open>Choosing a backend\<close>

record cache_config =
  cc_Backend :: string
  cc_MemoryMaxKeys :: int
  cc_MemoryMaxBytes :: int
  cc_RedisAddr :: string
  cc_AeroHosts :: "string list"
  cc_AeroNamespace :: string
  cc_AeroSet :: string
  cc_DialTimeout :: duration
  cc_OpTimeout :: duration

datatype 'c backend_handle = MemoryBackend cache_backend | RedisBackend redis_backend | AeroBackend aero_backend 'c

text \<open>
  On an error only the error is modelled. (Beside it, the source returns the nil pointer of \<^verbatim>\<open>redis.New\<close> or \<^verbatim>\<open>aerospike.New\<close> as a \<^verbatim>\<open>Backend\<close>,
  which as an interface value is not nil.)
\<close>

definition cache_Open ::
  "(nat \<Rightarrow> instant) \<Rightarrow> (redis_options \<Rightarrow> nat \<Rightarrow> string option) \<Rightarrow> (duration \<Rightarrow> (string \<times> int) list \<Rightarrow> (string, 'c) res) \<Rightarrow>
   cache_config \<Rightarrow> (cache_err, 'c backend_handle option) res option" where
  "cache_Open clock ping connect cfg =
     (if cc_Backend cfg = ''none'' \<or> cc_Backend cfg = [] then Some (Ok None)
      else if cc_Backend cfg = ''memory'' then
        Some (Ok (Some (MemoryBackend (NewWithOptions
          \<lparr>opt_MaxKeys = cc_MemoryMaxKeys cfg, opt_MaxBytes = cc_MemoryMaxBytes cfg, opt_ExpireInterval = 0\<rparr>))))
      else if cc_Backend cfg = ''redis'' then
        map_option (\<lambda>r. rbind r (\<lambda>b. Ok (Some (RedisBackend b))))
          (redis_New clock ping \<lparr>ro_Addr = cc_RedisAddr cfg, ro_DialTimeout = cc_DialTimeout cfg, ro_OpTimeout = cc_OpTimeout cfg\<rparr>)
      else if cc_Backend cfg = ''aerospike'' then
        Some (rbind (aero_New connect
          \<lparr>ao_Hosts = cc_AeroHosts cfg, ao_Namespace = cc_AeroNamespace cfg, ao_Set = cc_AeroSet cfg,
           ao_DialTimeout = cc_DialTimeout cfg, ao_OpTimeout = cc_OpTimeout cfg\<rparr>)
          (\<lambda>(b, c). Ok (Some (AeroBackend b c))))
      else Some (Err (UnknownBackend (cc_Backend cfg))))"

section \<open>Connecting\<close>

lemma pingLoop_ends:
  assumes "deadline \<le> clock m" and "n \<le> m"
  shows "\<exists>r. pingLoop clock ping deadline n e = Some r"
  using assms(2)
proof (induction "m - n" arbitrary: n e)
  case 0
  then show ?case using assms(1) by (subst pingLoop.simps) simp
next
  case (Suc x)
  show ?case
  proof (cases "clock n < deadline")
    case True
    have "n + 1 \<le> m" "x = m - (n + 1)" using Suc by simp_all
    then show ?thesis using Suc(1) True by (subst pingLoop.simps) (simp split: option.split)
  qed (subst pingLoop.simps, simp)
qed

text \<open>A connection attempt that reports no error has had an answer, unless it was already late.\<close>

lemma pingLoop_success:
  "pingLoop clock ping deadline n e = Some r \<Longrightarrow> r = None \<Longrightarrow> e = None \<and> deadline \<le> clock n \<or> (\<exists>m \<ge> n. clock m < deadline \<and> ping m = None)"
proof (induction rule: pingLoop.raw_induct [rotated, consumes 1, case_names step])
  case (step f clock ping deadline n e r)
  show ?case
  proof (cases "clock n < deadline \<and> ping n \<noteq> None")
    case True
    then obtain err where err: "ping n = Some err" by blast
    then have "f clock ping deadline (n + 1) (Some err) = Some r" using step(2) True by simp
    from step(1) [OF this step(3)] obtain m where "n + 1 \<le> m" "clock m < deadline" "ping m = None" by auto
    then show ?thesis by (intro disjI2 exI [of _ m]) simp
  next
    case False
    then show ?thesis using step(2,3) by (auto split: if_splits option.splits)
  qed
qed

lemma pingWithRetry_returns:
  assumes "clock 0 + limit \<le> clock m" and "1 \<le> m"
  shows "\<exists>r. pingWithRetry clock ping limit = Some r"
  using pingLoop_ends [of "clock 0 + limit" clock m 1] assms by (simp add: pingWithRetry_def)

lemma redis_New_ok:
  assumes "redis_New clock ping opts = Some (Ok b)" and "clock 1 < clock 0 + 10 * Second"
  shows "ro_Addr opts \<noteq> [] \<and> (\<exists>n. ping (rb_options b) n = None) \<and> 0 < ro_DialTimeout (rb_options b) \<and>
    0 < ro_OpTimeout (rb_options b) \<and> rb_opTimeout b = ro_OpTimeout (rb_options b)"
proof -
  define o1 where "o1 = (if ro_DialTimeout opts \<le> 0 then opts\<lparr>ro_DialTimeout := 200 * Millisecond\<rparr> else opts)"
  define o2 where "o2 = (if ro_OpTimeout o1 \<le> 0 then o1\<lparr>ro_OpTimeout := 50 * Millisecond\<rparr> else o1)"
  have a: "ro_Addr opts \<noteq> []" using assms(1) by (auto simp: redis_New_def)
  then obtain r where r: "pingWithRetry clock (ping o2) (10 * Second) = Some r"
    "(case r of Some e \<Rightarrow> Err (RedisPing (ro_Addr o2) e) | None \<Rightarrow> Ok \<lparr>rb_options = o2, rb_opTimeout = ro_OpTimeout o2\<rparr>) = Ok b"
    using assms(1) unfolding redis_New_def Let_def o1_def [symmetric] o2_def [symmetric] by auto
  then have b: "r = None" "b = \<lparr>rb_options = o2, rb_opTimeout = ro_OpTimeout o2\<rparr>" by (auto split: option.splits)
  have "\<exists>n. ping o2 n = None" using pingLoop_success [of clock "ping o2" _ 1 None] r(1) b(1) assms(2) by (fastforce simp: pingWithRetry_def)
  moreover have "0 < ro_DialTimeout o2" "0 < ro_OpTimeout o2" by (simp_all add: o2_def o1_def)
  ultimately show ?thesis using a b by simp
qed

lemma aero_New_ok:
  assumes "aero_New connect opts = Ok (b, c)"
  shows "ao_Hosts opts \<noteq> [] \<and> ao_Namespace opts \<noteq> [] \<and> ab_namespace b = ao_Namespace opts \<and> ab_set b = ao_Set opts \<and> 0 < ab_opTimeout b \<and>
    (\<exists>d hosts. 0 < d \<and> rmap parseHost (ao_Hosts opts) = Ok hosts \<and> connect d hosts = Ok c)"
proof -
  define d where "d = (if ao_DialTimeout opts \<le> 0 then 200 * Millisecond else ao_DialTimeout opts)"
  have "0 < d" by (simp add: d_def)
  moreover obtain hosts where "rmap parseHost (ao_Hosts opts) = Ok hosts" "connect d hosts = Ok c"
    using assms by (auto simp: aero_New_def Let_def d_def [symmetric] rbind_Ok_iff split: if_splits)
  ultimately show ?thesis using assms by (auto simp: aero_New_def Let_def rbind_Ok_iff split: if_splits)
qed

section \<open>Lifetimes and addresses\<close>

lemma expiration_ceiling:
  assumes "0 < ttl" and "ttl \<le> 4294967294 * Second"
  shows "ttl \<le> int (unat (expiration ttl)) * Second \<and> int (unat (expiration ttl)) * Second < ttl + Second"
proof -
  have "wrap64 (ttl + Second - 1) = ttl + Second - 1" using assms by (intro wrap64_id) simp_all
  then have e: "expiration ttl = word_of_int ((ttl + Second - 1) div Second)"
    using assms by (auto simp: expiration_def Let_def signed_divide_int_def)
  have "0 \<le> (ttl + Second - 1) div Second" "(ttl + Second - 1) div Second < 4294967296" using assms by linarith+
  then have u: "int (unat (expiration ttl)) = (ttl + Second - 1) div Second" by (simp add: e uint_word_of_int_eq take_bit_int_eq_self)
  show ?thesis unfolding u by (intro conjI; linarith)
qed

lemma indexByte_None: "indexByte s c = None \<longleftrightarrow> c \<notin> set s"
  by (induction s) auto

lemma indexByte_append: "c \<notin> set xs \<Longrightarrow> indexByte (xs @ c # ys) c = Some (length xs)"
  by (induction xs) auto

lemma lastIndexByte_append: "c \<notin> set ys \<Longrightarrow> lastIndexByte (xs @ c # ys) c = Some (length xs)"
  using indexByte_append [of c "rev ys" "rev xs"] by (simp add: lastIndexByte_def)

lemma SplitHostPort_bare: "CHR '':'' \<notin> set host \<Longrightarrow> net_SplitHostPort host = None"
  by (simp add: net_SplitHostPort_def lastIndexByte_def indexByte_None [THEN iffD2])

lemma SplitHostPort_plain:
  assumes "set host \<inter> {CHR '':'', CHR ''['', CHR '']''} = {}" and "set port \<inter> {CHR '':'', CHR ''['', CHR '']''} = {}"
  shows "net_SplitHostPort (host @ CHR '':'' # port) = Some (host, port)"
proof -
  have "(host @ CHR '':'' # port) ! 0 \<noteq> CHR ''[''" using assms(1) by (cases host) auto
  then show ?thesis using assms lastIndexByte_append [of "CHR '':''" port host] by (auto simp: net_SplitHostPort_def)
qed

lemma SplitHostPort_bracket:
  assumes "set host \<inter> {CHR ''['', CHR '']''} = {}" and "set port \<inter> {CHR '':'', CHR ''['', CHR '']''} = {}"
  shows "net_SplitHostPort (CHR ''['' # host @ CHR '']'' # CHR '':'' # port) = Some (host, port)"
proof -
  have "lastIndexByte (CHR ''['' # host @ CHR '']'' # CHR '':'' # port) CHR '':'' = Some (length host + 2)"
    using lastIndexByte_append [of "CHR '':''" port "CHR ''['' # host @ [CHR '']'']"] assms(2) by simp
  moreover have "indexByte (CHR ''['' # host @ CHR '']'' # CHR '':'' # port) CHR '']'' = Some (length host + 1)"
    using indexByte_append [of "CHR '']''" "CHR ''['' # host" "CHR '':'' # port"] assms(1) by simp
  ultimately show ?thesis using assms by (auto simp: net_SplitHostPort_def)
qed

lemma Atoi_decimal: "int n \<le> maxDuration \<Longrightarrow> strconv_Atoi (decimal n) = Some (int n)"
proof -
  assume n: "int n \<le> maxDuration"
  have d: "list_all isDigit (decimal n)" "digitsValue (decimal n) = int n" "decimal n \<noteq> []" using decimal_digits [of n] by simp_all
  then have "isDigit (hd (decimal n))" by (simp add: list_all_iff)
  then have "hd (decimal n) \<noteq> CHR ''-''" "hd (decimal n) \<noteq> CHR ''+''" by (auto simp: isDigit_def)
  then show ?thesis using d n by (simp add: strconv_Atoi_def Let_def)
qed

lemma decimal_plain: "set (decimal n) \<inter> {CHR '':'', CHR ''['', CHR '']''} = {}"
proof -
  have "\<not> isDigit CHR '':''" "\<not> isDigit CHR ''[''" "\<not> isDigit CHR '']''" by (simp_all add: isDigit_def)
  moreover have "\<forall>c \<in> set (decimal n). isDigit c" using decimal_digits [of n] by (simp add: list_all_iff)
  ultimately show ?thesis by blast
qed

text \<open>Seed addresses: a port after a plain or a bracketed host is read back, and a host without one gets the default.\<close>

lemma splitHostPort_print:
  assumes "int port \<le> maxDuration"
  shows "set host \<inter> {CHR '':'', CHR ''['', CHR '']''} = {} \<Longrightarrow> splitHostPort (host @ CHR '':'' # decimal port) = Some (host, int port)"
    and "set host \<inter> {CHR ''['', CHR '']''} = {} \<Longrightarrow> splitHostPort (CHR ''['' # host @ CHR '']'' # CHR '':'' # decimal port) = Some (host, int port)"
    and "CHR '':'' \<notin> set host \<Longrightarrow> splitHostPort host = Some (host, 3000)"
  by (simp_all add: splitHostPort_def SplitHostPort_plain SplitHostPort_bracket SplitHostPort_bare decimal_plain Atoi_decimal [OF assms])

section \<open>Properties\<close>

text \<open>
  C39: opening a backend is fail-closed. When the first ping is on time and time passes, \<^verbatim>\<open>Open\<close> returns; it returns no
  backend only for the kinds none and empty; a redis backend only with an address and after a ping that
  was answered; an Aerospike backend only with a namespace and with seed addresses that all parse, after a connection to
  them; timeouts that were not given are defaulted; an unknown kind is an error.
\<close>

theorem open_fail_closed:
  assumes "clock 1 < clock 0 + 10 * Second" and "clock 0 + 10 * Second \<le> clock m" and "1 \<le> m"
  shows "\<exists>r. cache_Open clock ping connect cfg = Some r \<and>
     (r = Ok None \<longleftrightarrow> cc_Backend cfg \<in> {''none'', []}) \<and>
     (\<forall>b. r = Ok (Some (MemoryBackend b)) \<longrightarrow> cc_Backend cfg = ''memory'') \<and>
     (\<forall>b. r = Ok (Some (RedisBackend b)) \<longrightarrow> cc_Backend cfg = ''redis'' \<and> cc_RedisAddr cfg \<noteq> [] \<and>
        (\<exists>n. ping (rb_options b) n = None) \<and> 0 < rb_opTimeout b \<and> 0 < ro_DialTimeout (rb_options b)) \<and>
     (\<forall>b c. r = Ok (Some (AeroBackend b c)) \<longrightarrow> cc_Backend cfg = ''aerospike'' \<and> cc_AeroNamespace cfg \<noteq> [] \<and>
        cc_AeroHosts cfg \<noteq> [] \<and> 0 < ab_opTimeout b \<and>
        (\<exists>d hosts. 0 < d \<and> rmap parseHost (cc_AeroHosts cfg) = Ok hosts \<and> connect d hosts = Ok c)) \<and>
     (cc_Backend cfg \<notin> {''none'', [], ''memory'', ''redis'', ''aerospike''} \<longrightarrow> r = Err (UnknownBackend (cc_Backend cfg)))"
proof -
  let ?ro = "\<lparr>ro_Addr = cc_RedisAddr cfg, ro_DialTimeout = cc_DialTimeout cfg, ro_OpTimeout = cc_OpTimeout cfg\<rparr>"
  obtain rr where rr: "redis_New clock ping ?ro = Some rr"
    using pingWithRetry_returns [OF assms(2,3)] by (fastforce simp: redis_New_def Let_def)
  consider "cc_Backend cfg \<in> {''none'', []}" | "cc_Backend cfg = ''memory''" | "cc_Backend cfg = ''redis''"
    | "cc_Backend cfg = ''aerospike''" | "cc_Backend cfg \<notin> {''none'', [], ''memory'', ''redis'', ''aerospike''}" by blast
  then show ?thesis
  proof cases
    case 1
    then have "cache_Open clock ping connect cfg = Some (Ok None)" by (auto simp: cache_Open_def)
    then show ?thesis using 1 by auto
  next
    case 2
    then obtain b where "cache_Open clock ping connect cfg = Some (Ok (Some (MemoryBackend b)))" by (simp add: cache_Open_def)
    then show ?thesis using 2 by simp
  next
    case 5
    then have "cache_Open clock ping connect cfg = Some (Err (UnknownBackend (cc_Backend cfg)))" by (simp add: cache_Open_def)
    then show ?thesis using 5 by simp
  next
    case 3
    then have "cache_Open clock ping connect cfg = Some (rbind rr (\<lambda>b. Ok (Some (RedisBackend b))))" by (simp add: cache_Open_def rr)
    moreover have "rr = Ok b \<Longrightarrow> cc_RedisAddr cfg \<noteq> [] \<and> (\<exists>n. ping (rb_options b) n = None) \<and> 0 < rb_opTimeout b \<and> 0 < ro_DialTimeout (rb_options b)" for b
      using redis_New_ok [OF _ assms(1), of ping ?ro b] rr by simp
    ultimately show ?thesis using 3 by (cases rr) simp_all
  next
    case 4
    define ra where "ra = aero_New connect \<lparr>ao_Hosts = cc_AeroHosts cfg, ao_Namespace = cc_AeroNamespace cfg, ao_Set = cc_AeroSet cfg,
      ao_DialTimeout = cc_DialTimeout cfg, ao_OpTimeout = cc_OpTimeout cfg\<rparr>"
    have "cache_Open clock ping connect cfg = Some (rbind ra (\<lambda>(b, c). Ok (Some (AeroBackend b c))))" using 4 by (simp add: cache_Open_def ra_def)
    moreover have "ra = Ok (b, c) \<Longrightarrow> cc_AeroNamespace cfg \<noteq> [] \<and> cc_AeroHosts cfg \<noteq> [] \<and> 0 < ab_opTimeout b \<and>
        (\<exists>d hosts. 0 < d \<and> rmap parseHost (cc_AeroHosts cfg) = Ok hosts \<and> connect d hosts = Ok c)" for b c
      unfolding ra_def by (drule aero_New_ok) simp
    ultimately show ?thesis using 4 by (cases ra) (simp_all split: prod.split)
  qed
qed

theorem open_fail_closed_witness:
  "\<exists>r. cache_Open (\<lambda>n. int n * 6000000000) (\<lambda>_ _. Some ''refused'') (\<lambda>_ _. Err ''refused'' :: (string, unit) res)
     \<lparr>cc_Backend = ''redis'', cc_MemoryMaxKeys = 0, cc_MemoryMaxBytes = 0, cc_RedisAddr = ''db:6379'', cc_AeroHosts = [],
      cc_AeroNamespace = [], cc_AeroSet = [], cc_DialTimeout = 0, cc_OpTimeout = 0\<rparr> = Some r \<and> r \<noteq> Ok None"
  using open_fail_closed [of "\<lambda>n. int n * 6000000000" 2 "\<lambda>_ _. Some ''refused''" "\<lambda>_ _. Err ''refused''"
    "\<lparr>cc_Backend = ''redis'', cc_MemoryMaxKeys = 0, cc_MemoryMaxBytes = 0, cc_RedisAddr = ''db:6379'', cc_AeroHosts = [],
      cc_AeroNamespace = [], cc_AeroSet = [], cc_DialTimeout = 0, cc_OpTimeout = 0\<rparr>"] by auto

text \<open>
  The Aerospike backend claims. Under the documented behaviour of the client (a create-only write of a
  missing record stores it and of an existing record reports that it exists; a read of a missing record
  reports that it is missing), \<^verbatim>\<open>SetNX\<close> wins if and only if \<^verbatim>\<open>Get\<close> finds nothing, after a win \<^verbatim>\<open>Get\<close> finds the value, and a
  loss changes nothing; the expiration sent is the lifetime rounded up to whole seconds.
\<close>

theorem aerospike_claims:
  fixes cl :: "('k, 'c) aero_client" and view :: "'c \<Rightarrow> 'k \<Rightarrow> bytes option"
  assumes "ac_NewKey cl (ab_namespace b) (ab_set b) key = Ok k"
    and "\<And>wp c v. wp_RecordExistsAction wp = CREATE_ONLY \<Longrightarrow>
      (if view c k = None then \<exists>c'. ac_Put cl wp k [(''v'', BinBytes v)] c = (None, c') \<and> view c' k = Some v
       else ac_Put cl wp k [(''v'', BinBytes v)] c = (Some KEY_EXISTS_ERROR, c))"
    and "\<And>d c. ac_Get cl d k ''v'' c = (case view c k of None \<Rightarrow> Err KEY_NOT_FOUND_ERROR | Some v \<Rightarrow> Ok (Some [(''v'', BinBytes v)]))"
    and "0 < ttl" and "ttl \<le> 4294967294 * Second"
  shows "(\<exists>won c'. aero_SetNX cl b key val ttl c = (Ok won, c') \<and> (won \<longleftrightarrow> aero_Get cl b key c = Ok None) \<and>
       (if won then aero_Get cl b key c' = Ok (Some val) else c' = c)) \<and>
     ttl \<le> int (unat (wp_Expiration (writePolicy b ttl True))) * Second \<and>
     int (unat (wp_Expiration (writePolicy b ttl True))) * Second < ttl + Second"
proof -
  have key: "aero_key cl b key = Ok k" using assms(1) by (simp add: aero_key_def)
  have get: "aero_Get cl b key c = Ok (view c k)" for c by (cases "view c k") (simp_all add: aero_Get_def key assms(3))
  have co: "wp_RecordExistsAction (writePolicy b ttl True) = CREATE_ONLY" by (simp add: writePolicy_def)
  have "\<exists>won c'. aero_SetNX cl b key val ttl c = (Ok won, c') \<and> (won \<longleftrightarrow> aero_Get cl b key c = Ok None) \<and>
       (if won then aero_Get cl b key c' = Ok (Some val) else c' = c)"
    using assms(2) [OF co, of c val] by (auto simp: aero_SetNX_def key get split: if_splits)
  then show ?thesis using expiration_ceiling [OF assms(4,5)] by (simp add: writePolicy_def)
qed

definition map_client :: "(bytes, bytes \<rightharpoonup> bytes) aero_client" where
  "map_client =
     \<lparr>ac_NewKey = (\<lambda>_ _ key. Ok key),
      ac_Put = (\<lambda>wp k bins c. case map_of bins ''v'' of
          Some (BinBytes v) \<Rightarrow> if wp_RecordExistsAction wp = CREATE_ONLY \<and> c k \<noteq> None then (Some KEY_EXISTS_ERROR, c) else (None, c(k \<mapsto> v))
        | _ \<Rightarrow> (Some (AeroOther ''bins''), c)),
      ac_Get = (\<lambda>_ k _ c. case c k of None \<Rightarrow> Err KEY_NOT_FOUND_ERROR | Some v \<Rightarrow> Ok (Some [(''v'', BinBytes v)])),
      ac_Delete = (\<lambda>_ k c. (None, c(k := None)))\<rparr>"

theorem aerospike_claims_witness:
  "\<exists>won c'. aero_SetNX map_client \<lparr>ab_namespace = ''cache'', ab_set = ''bsv'', ab_opTimeout = 1\<rparr> [1] [2] 1500000000 Map.empty = (Ok won, c') \<and>
     (won \<longleftrightarrow> aero_Get map_client \<lparr>ab_namespace = ''cache'', ab_set = ''bsv'', ab_opTimeout = 1\<rparr> [1] Map.empty = Ok None)"
  using aerospike_claims [of map_client "\<lparr>ab_namespace = ''cache'', ab_set = ''bsv'', ab_opTimeout = 1\<rparr>" "[1]" "[1]" "\<lambda>c. c" 1500000000 "[2]" Map.empty]
  by (fastforce simp: map_client_def)

text \<open>
  The same for redis: when the server decides a \<^verbatim>\<open>SET NX\<close> by the presence of the key and reports a missing key on a read as
  nil, \<^verbatim>\<open>SetNX\<close> wins if and only if \<^verbatim>\<open>Get\<close> finds nothing, and a missing key is never an error.
\<close>

lemma redis_claims:
  assumes "\<And>c. if view c = None then \<exists>c'. rc_SetNX cl key val ttl c = (Ok True, c') \<and> view c' = Some val
       else rc_SetNX cl key val ttl c = (Ok False, c)"
    and "\<And>c. rc_Get cl key c = (case view c of None \<Rightarrow> Err RedisNil | Some v \<Rightarrow> Ok v)"
  shows "\<exists>won c'. redis_SetNX cl key val ttl c = (Ok won, c') \<and> (won \<longleftrightarrow> redis_Get cl key c = Ok None) \<and>
       (if won then redis_Get cl key c' = Ok (Some val) else c' = c)"
proof -
  have get: "redis_Get cl key c = Ok (view c)" for c by (cases "view c") (simp_all add: redis_Get_def assms(2))
  show ?thesis using assms(1) [of c] by (auto simp: redis_SetNX_def get split: if_splits)
qed

end
