(* ===== verification/Txidset.thy ===== *)
theory Txidset
  imports Cache_Spec Txid_Local Cache_Open
begin

text \<open>
  The two-tier TxID claim store (\<^verbatim>\<open>txidset/txidset.go\<close>). The first tier is the in-process set of \<open>Txid_Local\<close>, the second
  any \<^verbatim>\<open>cache.Backend\<close>: its \<^verbatim>\<open>SetNX\<close> is a parameter \<open>nx\<close> that takes the backend's clock and state and gives a verdict or
  an error. A store holds no backend state itself, since the backend is shared with other stores. The calls of
  the metrics recorder are the list of events an operation returns.

  \<^verbatim>\<open>Mark\<close> hands its write to worker goroutines over a channel. The model keeps the channel and the jobs that workers have
  taken from it but not yet written, and steps for a worker that takes and one that writes a job; so the writes of
  two workers may overtake each other.

  \<^verbatim>\<open>Claim\<close> first asks the in-process set and then, holding no lock, the backend: \<open>claimLocal\<close> and \<open>claimBackend\<close>, between which other
  goroutines may run.

  The last sections put stores into one world with a shared backend. Their main theorem is that of all stores that
  claim an id under one prefix in a shared in-memory backend without limits, however the steps of the operations interleave, at most
  one wins while the first claim lasts.
\<close>

section \<open>Data\<close>

type_synonym 'b setnx = "bytes \<Rightarrow> bytes \<Rightarrow> duration \<Rightarrow> int \<Rightarrow> 'b \<Rightarrow> (string + bool) \<times> 'b"

datatype tx_event =
    ClaimLocalHit bytes | ClaimWon bytes | ClaimLost bytes | ClaimError bytes
  | MarkSet bytes | MarkExisted bytes | MarkError bytes | MarkDropped bytes

abbreviation (input) oneVal :: bytes where "oneVal \<equiv> [0x31]"
abbreviation (input) DefaultLocalCapacity :: int where "DefaultLocalCapacity \<equiv> 1048576"

record txid_config =
  tc_Backend :: bool
  tc_RedisAddr :: string
  tc_TTL :: duration
  tc_LocalCapacity :: int
  tc_MarkQueueDepth :: int
  tc_MarkWorkers :: int
  tc_DialTimeout :: duration
  tc_OpTimeout :: duration
  tc_Recorder :: bool

record mark_job =
  mj_prefix :: bytes
  mj_key :: bytes
  mj_ttl :: duration

text \<open>
  \<open>st_backend\<close> and \<open>st_rec\<close> tell whether the interface values are non-nil, \<open>st_depth\<close> is the capacity of the channel,
  \<open>st_workers\<close> the number of worker goroutines and \<open>st_taken\<close> the jobs they hold.
\<close>

record txid_store =
  st_rec :: bool
  st_backend :: bool
  st_ownBackend :: bool
  st_defaultTTL :: duration
  st_opTimeout :: duration
  st_local :: local_set
  st_markCh :: "mark_job list"
  st_depth :: nat
  st_workers :: nat
  st_taken :: "mark_job list"
  st_stopped :: bool

datatype txid_err = ErrTTL duration | ErrBackend cache_err

section \<open>Operations\<close>

text \<open>\<^verbatim>\<open>make(chan T, n)\<close>: the run-time panics when the buffer and the channel's header exceed the heap.\<close>

definition makechan :: "nat \<Rightarrow> int \<Rightarrow> ('e, unit) res" where
  "makechan elemSize n = (if n * int elemSize \<le> 2 ^ 48 - 96 then Ok () else Panic)"

definition txid_New :: "(nat \<Rightarrow> instant) \<Rightarrow> (redis_options \<Rightarrow> nat \<Rightarrow> string option) \<Rightarrow> txid_config \<Rightarrow> (txid_err, txid_store) res option" where
  "txid_New clock ping cfg =
     (if tc_TTL cfg \<le> 0 then Some (Err (ErrTTL (tc_TTL cfg)))
      else
        let localCapacity = (if tc_LocalCapacity cfg \<le> 0 then DefaultLocalCapacity else tc_LocalCapacity cfg);
            markQueueDepth = (if tc_MarkQueueDepth cfg \<le> 0 then 4096 else tc_MarkQueueDepth cfg);
            markWorkers = (if tc_MarkWorkers cfg \<le> 0 then 2 else tc_MarkWorkers cfg);
            dialTimeout = (if tc_DialTimeout cfg \<le> 0 then 200 * Millisecond else tc_DialTimeout cfg);
            opTimeout = (if tc_OpTimeout cfg \<le> 0 then 50 * Millisecond else tc_OpTimeout cfg) in
        case rbind (newLocalSet localCapacity (tc_TTL cfg)) (\<lambda>l. rbind (makechan 48 markQueueDepth) (\<lambda>_. Ok l)) of
          Err e \<Rightarrow> Some (Err e)
        | Panic \<Rightarrow> Some Panic
        | Ok l \<Rightarrow>
            let s = \<lparr>st_rec = tc_Recorder cfg, st_backend = False, st_ownBackend = False, st_defaultTTL = tc_TTL cfg,
                     st_opTimeout = opTimeout, st_local = l, st_markCh = [], st_depth = nat markQueueDepth,
                     st_workers = nat markWorkers, st_taken = [], st_stopped = False\<rparr> in
            if tc_Backend cfg then Some (Ok (s\<lparr>st_backend := True\<rparr>))
            else if tc_RedisAddr cfg \<noteq> [] then
              map_option (\<lambda>r. rbind (map_err ErrBackend r) (\<lambda>_. Ok (s\<lparr>st_backend := True, st_ownBackend := True\<rparr>)))
                (redis_New clock ping \<lparr>ro_Addr = tc_RedisAddr cfg, ro_DialTimeout = dialTimeout, ro_OpTimeout = opTimeout\<rparr>)
            else Some (Ok s))"

definition emit :: "txid_store \<Rightarrow> tx_event \<Rightarrow> tx_event list" where
  "emit st e = (if st_rec st then [e] else [])"

text \<open>\<^verbatim>\<open>hex.EncodeToString\<close>, as bytes of ASCII digits.\<close>

definition hexNibble :: "nat \<Rightarrow> byte" where
  "hexNibble d = word_of_nat (if d < 10 then 48 + d else 87 + d)"

primrec hexEncode :: "bytes \<Rightarrow> bytes" where
  "hexEncode [] = []"
| "hexEncode (b # bs) = hexNibble (unat b div 16) # hexNibble (unat b mod 16) # hexEncode bs"

definition claimKey :: "bytes \<Rightarrow> bytes \<Rightarrow> bytes" where
  "claimKey keyPrefix txid = keyPrefix @ hexEncode txid"

definition claimLocal :: "bytes \<Rightarrow> bytes \<Rightarrow> instant \<Rightarrow> txid_store \<Rightarrow> ((bool \<times> string option) \<times> tx_event list) option \<times> txid_store" where
  "claimLocal keyPrefix txid wall st =
     (let (seen, l) = SeenAndAdd txid wall (st_local st); st = st\<lparr>st_local := l\<rparr> in
      if seen then (Some ((False, None), emit st (ClaimLocalHit keyPrefix)), st)
      else if \<not> st_backend st then (Some ((True, None), emit st (ClaimWon keyPrefix)), st)
      else (None, st))"

definition claimBackend :: "'b setnx \<Rightarrow> bytes \<Rightarrow> bytes \<Rightarrow> int \<Rightarrow> txid_store \<Rightarrow> 'b \<Rightarrow> (bool \<times> string option) \<times> tx_event list \<times> 'b" where
  "claimBackend nx keyPrefix txid now st b =
     (let (r, b) = nx (claimKey keyPrefix txid) oneVal (st_defaultTTL st) now b in
      case r of
        Inl e \<Rightarrow> ((True, Some e), emit st (ClaimError keyPrefix), b)
      | Inr ok \<Rightarrow> ((ok, None), emit st (if ok then ClaimWon keyPrefix else ClaimLost keyPrefix), b))"

definition Claim :: "'b setnx \<Rightarrow> bytes \<Rightarrow> bytes \<Rightarrow> instant \<Rightarrow> int \<Rightarrow> txid_store \<Rightarrow> 'b \<Rightarrow> (bool \<times> string option) \<times> tx_event list \<times> txid_store \<times> 'b" where
  "Claim nx keyPrefix txid wall now st b =
     (case claimLocal keyPrefix txid wall st of
        (Some (r, evs), st) \<Rightarrow> (r, evs, st, b)
      | (None, st) \<Rightarrow> let (r, evs, b) = claimBackend nx keyPrefix txid now st b in (r, evs, st, b))"

lemmas claim_defs = Claim_def claimLocal_def claimBackend_def

text \<open>A send on the channel of a closed store panics, also in a \<^verbatim>\<open>select\<close> with a default.\<close>

definition Mark :: "bytes \<Rightarrow> bytes \<Rightarrow> instant \<Rightarrow> txid_store \<Rightarrow> ('e, tx_event list \<times> txid_store) res" where
  "Mark keyPrefix txid wall st =
     (let st = st\<lparr>st_local := snd (SeenAndAdd txid wall (st_local st))\<rparr> in
      if \<not> st_backend st then Ok (emit st (MarkDropped keyPrefix), st)
      else
        let job = \<lparr>mj_prefix = keyPrefix, mj_key = claimKey keyPrefix txid, mj_ttl = st_defaultTTL st\<rparr> in
        if st_stopped st then Panic
        else if length (st_markCh st) < st_depth st then Ok ([], st\<lparr>st_markCh := st_markCh st @ [job]\<rparr>)
        else Ok (emit st (MarkDropped keyPrefix), st))"

text \<open>The worker loop: a free worker takes the first job of the channel; a worker writes the job it holds.\<close>

definition markTake :: "txid_store \<Rightarrow> txid_store" where
  "markTake st =
     (case st_markCh st of
        job # jobs \<Rightarrow> if length (st_taken st) < st_workers st then st\<lparr>st_markCh := jobs, st_taken := st_taken st @ [job]\<rparr> else st
      | [] \<Rightarrow> st)"

definition markWrite :: "'b setnx \<Rightarrow> nat \<Rightarrow> int \<Rightarrow> txid_store \<Rightarrow> 'b \<Rightarrow> tx_event list \<times> txid_store \<times> 'b" where
  "markWrite nx i now st b =
     (if i < length (st_taken st) then
        let job = st_taken st ! i;
            st = st\<lparr>st_taken := take i (st_taken st) @ drop (i + 1) (st_taken st)\<rparr>;
            (r, b) = nx (mj_key job) oneVal (mj_ttl job) now b in
        (emit st (case r of Inl _ \<Rightarrow> MarkError (mj_prefix job) | Inr ok \<Rightarrow> if ok then MarkSet (mj_prefix job) else MarkExisted (mj_prefix job)), st, b)
      else ([], st, b))"

text \<open>\<^verbatim>\<open>Close\<close> closes the channel and returns once the workers have emptied it.\<close>

definition closeStore :: "txid_store \<Rightarrow> txid_store" where
  "closeStore st = st\<lparr>st_stopped := True\<rparr>"

definition closeReturns :: "txid_store \<Rightarrow> bool" where
  "closeReturns st \<longleftrightarrow> st_stopped st \<and> st_markCh st = [] \<and> st_taken st = []"

definition Healthy :: "('b \<Rightarrow> bool) \<Rightarrow> txid_store \<Rightarrow> 'b \<Rightarrow> bool" where
  "Healthy backendHealthy st b = (if \<not> st_backend st then True else backendHealthy b)"

section \<open>Keys\<close>

lemma hexNibble_inject: "d < 16 \<Longrightarrow> d' < 16 \<Longrightarrow> hexNibble d = hexNibble d' \<longleftrightarrow> d = d'"
proof -
  have "unat (hexNibble d) = (if d < 10 then 48 + d else 87 + d)" if "d < 16" for d using that by (simp add: hexNibble_def unat_of_nat)
  then have "unat (hexNibble d) = unat (hexNibble d') \<Longrightarrow> d < 16 \<Longrightarrow> d' < 16 \<Longrightarrow> d = d'" by (simp split: if_splits)
  then show "d < 16 \<Longrightarrow> d' < 16 \<Longrightarrow> hexNibble d = hexNibble d' \<longleftrightarrow> d = d'" by metis
qed

lemma length_hexEncode [simp]: "length (hexEncode bs) = 2 * length bs"
  by (induction bs) simp_all

lemma hexEncode_inject: "hexEncode xs = hexEncode ys \<longleftrightarrow> xs = ys"
proof (induction xs arbitrary: ys)
  case Nil
  then show ?case by (cases ys) simp_all
next
  case (Cons x xs)
  show ?case
  proof (cases ys)
    case (Cons y ys')
    have d: "unat z div 16 < 16" "unat z mod 16 < 16" for z :: byte using unsigned_less [of z, where ?'a = nat] by (simp_all add: less_mult_imp_div_less)
    have "x = y" if "unat x div 16 = unat y div 16" "unat x mod 16 = unat y mod 16"
      using that by (metis div_mult_mod_eq word_unat_eq_iff)
    then show ?thesis using Cons Cons.IH [of ys'] d by (auto simp: hexNibble_inject)
  qed simp
qed

text \<open>Claims of different ids or under different prefixes never meet in the backend.\<close>

lemma claimKey_inject:
  assumes "length txid = 32" and "length txid' = 32"
  shows "claimKey keyPrefix txid = claimKey keyPrefix' txid' \<longleftrightarrow> keyPrefix = keyPrefix' \<and> txid = txid'"
  using assms by (simp add: claimKey_def hexEncode_inject)

section \<open>Stores that share a backend\<close>

record 'b world =
  w_stores :: "txid_store list"
  w_backend :: 'b

text \<open>
  A step of the world, from the time of the last backend operation to the time of this one: the first or the second half of
  a claim through a store (of any claim, so that the halves of different claims interleave freely), a mark, a worker that takes or writes a job, the closing of a store, or background work of the backend.
\<close>

inductive world_step :: "'b setnx \<Rightarrow> (nat \<Rightarrow> int \<Rightarrow> 'b \<Rightarrow> 'b) \<Rightarrow> int \<Rightarrow> 'b world \<Rightarrow> int \<Rightarrow> 'b world \<Rightarrow> bool" for nx sweep where
  ws_claim_local: "i < length (w_stores w) \<Longrightarrow> claimLocal keyPrefix txid wall (w_stores w ! i) = (r, st) \<Longrightarrow>
    world_step nx sweep t w t (w\<lparr>w_stores := (w_stores w)[i := st]\<rparr>)"
| ws_claim_backend: "i < length (w_stores w) \<Longrightarrow> t \<le> now \<Longrightarrow> claimBackend nx keyPrefix txid now (w_stores w ! i) (w_backend w) = (r, evs, b) \<Longrightarrow>
    world_step nx sweep t w now (w\<lparr>w_backend := b\<rparr>)"
| ws_mark: "i < length (w_stores w) \<Longrightarrow> Mark keyPrefix txid wall (w_stores w ! i) = (Ok (evs, st) :: (unit, tx_event list \<times> txid_store) res) \<Longrightarrow>
    world_step nx sweep t w t (w\<lparr>w_stores := (w_stores w)[i := st]\<rparr>)"
| ws_take: "i < length (w_stores w) \<Longrightarrow> world_step nx sweep t w t (w\<lparr>w_stores := (w_stores w)[i := markTake (w_stores w ! i)]\<rparr>)"
| ws_write: "i < length (w_stores w) \<Longrightarrow> t \<le> now \<Longrightarrow> markWrite nx j now (w_stores w ! i) (w_backend w) = (evs, st, b) \<Longrightarrow>
    world_step nx sweep t w now \<lparr>w_stores = (w_stores w)[i := st], w_backend = b\<rparr>"
| ws_close: "i < length (w_stores w) \<Longrightarrow> world_step nx sweep t w t (w\<lparr>w_stores := (w_stores w)[i := closeStore (w_stores w ! i)]\<rparr>)"
| ws_sweep: "t \<le> now \<Longrightarrow> world_step nx sweep t w now (w\<lparr>w_backend := sweep i now (w_backend w)\<rparr>)"

inductive world_run :: "'b setnx \<Rightarrow> (nat \<Rightarrow> int \<Rightarrow> 'b \<Rightarrow> 'b) \<Rightarrow> int \<Rightarrow> 'b world \<Rightarrow> int \<Rightarrow> 'b world \<Rightarrow> bool" for nx sweep where
  run_refl: "world_run nx sweep t w t w"
| run_step: "world_run nx sweep t w t' w' \<Longrightarrow> world_step nx sweep t' w' t'' w'' \<Longrightarrow> world_run nx sweep t w t'' w''"

text \<open>A backend that never fails, such as the in-memory one.\<close>

definition total_nx :: "(bytes \<Rightarrow> bytes \<Rightarrow> duration \<Rightarrow> int \<Rightarrow> 'b \<Rightarrow> bool \<times> 'b) \<Rightarrow> 'b setnx" where
  "total_nx snx key val ttl now b = (let (won, b) = snx key val ttl now b in (Inr won, b))"

lemma total_nx_conv: "total_nx snx key val ttl now b = (Inr (fst (snx key val ttl now b)), snd (snx key val ttl now b))"
  by (simp add: total_nx_def split: prod.split)

lemma claimBackend_total:
  "claimBackend (total_nx snx) keyPrefix txid now st b =
     (let (ok, b) = snx (claimKey keyPrefix txid) oneVal (st_defaultTTL st) now b in
      ((ok, None), emit st (if ok then ClaimWon keyPrefix else ClaimLost keyPrefix), b))"
  by (simp add: claimBackend_def total_nx_conv split: prod.split)

lemma claim_lost:
  assumes "\<And>ttl. \<not> fst (snx (claimKey keyPrefix txid) oneVal ttl now b)"
  shows "fst (claimBackend (total_nx snx) keyPrefix txid now st b) = (False, None)"
    and "st_backend st \<Longrightarrow> fst (Claim (total_nx snx) keyPrefix txid wall now st b) = (False, None)"
  using assms [of "st_defaultTTL st"] by (auto simp: Claim_def claimLocal_def claimBackend_total Let_def split: prod.split)

lemma markWrite_backend:
  assumes "markWrite (total_nx snx) i now st b = (evs, st', b')"
  shows "b' = b \<or> (\<exists>key ttl. b' = snd (snx key oneVal ttl now b))"
  using assms by (auto simp: markWrite_def Let_def total_nx_conv split: if_splits)

context durable_backend
begin

lemma held_step:
  assumes "world_step (total_nx set_nx) sweep t w now w'" and "held_until k T t (w_backend w)"
  shows "t \<le> now \<and> held_until k T now (w_backend w')"
  using assms
proof (cases rule: world_step.cases)
  case (ws_claim_backend i keyPrefix txid r evs b)
  then have "b = snd (set_nx (claimKey keyPrefix txid) oneVal (st_defaultTTL (w_stores w ! i)) now (w_backend w))"
    by (auto simp: claimBackend_total split: prod.splits)
  then show ?thesis using ws_claim_backend held_setnx assms(2) by simp
next
  case (ws_write i j evs st b)
  from markWrite_backend [OF ws_write(4)] have "held_until k T now b"
    using held_setnx [OF assms(2) ws_write(3)] held_later [OF assms(2) ws_write(3)] by auto
  then show ?thesis using ws_write by simp
next
  case (ws_sweep i)
  then show ?thesis using held_sweep assms(2) by simp
qed (use assms(2) in simp_all)

lemma held_run:
  "world_run (total_nx set_nx) sweep t w t' w' \<Longrightarrow> held_until k T t (w_backend w) \<Longrightarrow> held_until k T t' (w_backend w')"
  by (induction rule: world_run.induct) (auto dest: held_step)

lemma one_winner:
  assumes "ok t (w_backend w)" and "t \<le> now" and "0 < st_defaultTTL (w_stores w ! i)"
    and "claimBackend (total_nx set_nx) keyPrefix txid now (w_stores w ! i) (w_backend w) = ((True, None), evs, b)"
    and "world_run (total_nx set_nx) sweep now (w\<lparr>w_backend := b\<rparr>) now' w'"
    and "st_backend (w_stores w' ! j)" and "now' \<le> now''" and "now'' < now + st_defaultTTL (w_stores w ! i)"
  shows "fst (claimBackend (total_nx set_nx) keyPrefix txid now'' (w_stores w' ! j) (w_backend w')) = (False, None) \<and>
    fst (Claim (total_nx set_nx) keyPrefix txid wall now'' (w_stores w' ! j) (w_backend w')) = (False, None)"
proof -
  let ?k = "claimKey keyPrefix txid" and ?T = "now + st_defaultTTL (w_stores w ! i)"
  have "held_until ?k ?T now b"
    using assms(4) held_claim [OF assms(1,2,3), of ?k oneVal] by (auto simp: claimBackend_total split: prod.splits)
  then have "held_until ?k ?T now' (w_backend w')" using held_run [OF assms(5)] by simp
  then have "\<not> fst (set_nx ?k oneVal ttl now'' (w_backend w'))" for ttl by (rule held_excludes [OF _ assms(7,8)])
  from claim_lost [of set_nx, OF this] show ?thesis using assms(6) by simp
qed

end

section \<open>Closing\<close>

text \<open>
  After \<^verbatim>\<open>Close\<close> has closed the channel nothing is added to it, and as long as \<^verbatim>\<open>Close\<close> has not returned a worker can
  make progress: \<open>pending\<close> counts the steps that are left.
\<close>

definition pending :: "txid_store \<Rightarrow> nat" where
  "pending st = 2 * length (st_markCh st) + length (st_taken st)"

lemma close_progress:
  assumes "st_stopped st" and "0 < st_workers st" and "\<not> closeReturns st"
  shows "pending (markTake st) < pending st \<or> (\<forall>nx now b. pending (fst (snd (markWrite nx 0 now st b))) < pending st)"
proof (cases "st_taken st = []")
  case True
  then show ?thesis using assms by (auto simp: closeReturns_def pending_def markTake_def split: list.splits)
next
  case False
  then show ?thesis by (auto simp: pending_def markWrite_def Let_def split: prod.splits)
qed

lemma Mark_stopped: "st_stopped st \<Longrightarrow> st_backend st \<Longrightarrow> Mark keyPrefix txid wall st = Panic"
  by (simp add: Mark_def Let_def)

lemma Mark_queue:
  "Mark keyPrefix txid wall st = Ok (evs, st') \<Longrightarrow> length (st_markCh st) \<le> st_depth st \<Longrightarrow>
   length (st_markCh st') \<le> st_depth st' \<and> snd (SeenAndAdd txid wall (st_local st)) = st_local st'"
  by (auto simp: Mark_def Let_def split: if_splits)

section \<open>Properties\<close>

lemma seen_again:
  assumes "set_ok c ttl hist l" and "0 < ttl" and "minDuration \<le> t" and "t + ttl \<le> maxDuration" and "t' \<le> t + ttl"
  shows "fst (SeenAndAdd k t' (snd (SeenAndAdd k t l)))"
proof -
  have l: "\<not> l_disabled l" "length (l_shards l) = 64" "ls_ttl (l_shards l ! localIndex k) = ttl"
    using assms(1) localIndex_less [of k] by (simp_all add: set_ok_def)
  let ?s = "snd (seenAndAdd k t (l_shards l ! localIndex k))"
  have "map_of (ls_entries ?s) k = Some (expiryOf ttl t)"
    using l(3) by (cases "fresh_hit k t (l_shards l ! localIndex k)") (simp_all add: seenAndAdd_hit seenAndAdd_miss update_conv')
  then have "fresh_hit k t' ?s" using assms(2-5) by (simp add: fresh_hit_def expiryOf_def wrap64_id)
  then show ?thesis
    using SeenAndAdd_stripe [OF l(1,2), of k t] SeenAndAdd_stripe(1) [of "snd (SeenAndAdd k t l)" k t'] l localIndex_less [of k] by (simp add: seen_iff)
qed

text \<open>
  C30: one winner. Stores share an in-memory backend without limits, which never fails and evicts nothing, and claim the same id under the same prefix:
  once a claim has won at the backend, then whatever steps of claims, marks, workers, closings and expiry passes happen, through any of the stores and in any
  order, every claim of the id that gets to the backend before the lifetime of the first has passed is refused, and so is every
  claim made in that time.
\<close>

theorem claim_once:
  assumes "cache_reachable opts t (w_backend w)" and "opt_MaxKeys opts \<le> 0" and "opt_MaxBytes opts \<le> 0" and "t \<le> now"
    and "0 < st_defaultTTL (w_stores w ! i)"
    and "claimBackend (total_nx cache_SetNX) keyPrefix txid now (w_stores w ! i) (w_backend w) = ((True, None), evs, b)"
    and "world_run (total_nx cache_SetNX) (\<lambda>s now. cache_expire (s mod 64) now) now (w\<lparr>w_backend := b\<rparr>) now' w'"
    and "st_backend (w_stores w' ! j)" and "now' \<le> now''" and "now'' < now + st_defaultTTL (w_stores w ! i)"
  shows "fst (claimBackend (total_nx cache_SetNX) keyPrefix txid now'' (w_stores w' ! j) (w_backend w')) = (False, None) \<and>
    fst (Claim (total_nx cache_SetNX) keyPrefix txid wall now'' (w_stores w' ! j) (w_backend w')) = (False, None)"
proof -
  have "cache_inv t (w_backend w) \<and> b_perShard (w_backend w) = 0 \<and> b_perShardBytes (w_backend w) = 0"
    using reachable_cache_inv [OF assms(1)] backend_params [OF assms(1)] assms(2,3) by (simp add: NewWithOptions_def)
  then show ?thesis by (rule durable.one_winner [OF _ assms(4-10)])
qed

definition store_of :: "local_set \<Rightarrow> txid_store" where
  "store_of l = \<lparr>st_rec = True, st_backend = True, st_ownBackend = False, st_defaultTTL = 10, st_opTimeout = 1, st_local = l,
     st_markCh = [], st_depth = 4, st_workers = 1, st_taken = [], st_stopped = False\<rparr>"

theorem claim_once_witness:
  "fst (Claim (total_nx cache_SetNX) [7] [1] 0 14 (store_of \<lparr>l_disabled = True, l_shards = []\<rparr>)
     (snd (cache_SetNX (claimKey [7] [1]) [0x31] 10 5 (memory_New 0)))) = (False, None)"
proof -
  let ?st = "store_of \<lparr>l_disabled = True, l_shards = []\<rparr>" and ?opts = "\<lparr>opt_MaxKeys = 0, opt_MaxBytes = 0, opt_ExpireInterval = 0\<rparr>"
  let ?w = "\<lparr>w_stores = [?st, ?st], w_backend = NewWithOptions ?opts\<rparr>" and ?b = "snd (cache_SetNX (claimKey [7] [1]) [0x31] 10 5 (NewWithOptions ?opts))"
  have "cache_Get (claimKey [7] [1]) 5 (NewWithOptions ?opts) = None"
    using shardFor_less by (simp add: cache_Get_def shard_Get_def NewWithOptions_def emptyShard_def)
  then have c: "claimBackend (total_nx cache_SetNX) [7] [1] 5 (w_stores ?w ! 0) (w_backend ?w) = ((True, None), [ClaimWon [7]], ?b)"
    by (simp add: claimBackend_def store_of_def total_nx_conv emit_def SetNX_result)
  have new: "cache_reachable ?opts 5 (w_backend ?w)" by (simp add: cr_new)
  have "fst (Claim (total_nx cache_SetNX) [7] [1] 0 14 ([?st, ?st] ! 1) ?b) = (False, None)"
    using claim_once [OF new _ _ _ _ c run_refl, of 1 14 0] by (simp add: store_of_def)
  then show ?thesis by (simp add: memory_New_def)
qed

text \<open>
  C31: claims fail open. Whatever the backend answers, a claim of an id that this store has not seen is decided by it, and an
  error lets the caller proceed; a claim of an id the store has seen is refused without asking the backend. After
  any claim, the same id is refused by this store within its lifetime, with the backend left alone, also when the backend failed.
\<close>

theorem claim_fail_open:
  assumes "newLocalSet capacity (st_defaultTTL st) = (Ok l :: ('e, local_set) res)" and "0 < capacity" and "capacity \<le> maxDuration"
    and "st_local st = seen_run hist l" and "0 < st_defaultTTL st"
    and "minDuration \<le> wall" and "wall + st_defaultTTL st \<le> maxDuration" and "wall' \<le> wall + st_defaultTTL st"
    and "Claim nx keyPrefix txid wall now st b = (r, evs, st', b')"
  shows "(fst (SeenAndAdd txid wall (st_local st)) \<longrightarrow> r = (False, None) \<and> b' = b) \<and>
     (\<not> fst (SeenAndAdd txid wall (st_local st)) \<and> \<not> st_backend st \<longrightarrow> r = (True, None) \<and> b' = b) \<and>
     (\<not> fst (SeenAndAdd txid wall (st_local st)) \<and> st_backend st \<longrightarrow>
        nx (keyPrefix @ hexEncode txid) [0x31] (st_defaultTTL st) now b = (case snd r of Some e \<Rightarrow> Inl e | None \<Rightarrow> Inr (fst r), b') \<and>
        (snd r \<noteq> None \<longrightarrow> fst r)) \<and>
     (\<exists>evs' st''. Claim nx keyPrefix' txid wall' now' st' b' = ((False, None), evs', st'', b'))"
proof -
  have ok: "set_ok (nat ((capacity + 63) div 64)) (st_defaultTTL st) hist (st_local st)"
    using set_ok_run [OF new_set_ok [OF assms(1-3)], of hist] assms(4) by simp
  have st': "st_local st' = snd (SeenAndAdd txid wall (st_local st))"
    using assms(9) by (auto simp: claim_defs Let_def split: prod.splits if_splits sum.splits)
  have "fst (SeenAndAdd txid wall' (st_local st'))" unfolding st' by (rule seen_again [OF ok assms(5-8)])
  then have again: "\<exists>evs' st''. Claim nx keyPrefix' txid wall' now' st' b' = ((False, None), evs', st'', b')"
    by (cases "SeenAndAdd txid wall' (st_local st')") (simp add: claim_defs Let_def)
  obtain seen l' where s: "SeenAndAdd txid wall (st_local st) = (seen, l')" by fastforce
  obtain v b1 where v: "nx (claimKey keyPrefix txid) oneVal (st_defaultTTL st) now b = (v, b1)" by fastforce
  show ?thesis using assms(9) again s v by (cases seen; cases "st_backend st"; cases v) (auto simp: claim_defs Let_def claimKey_def)
qed

theorem claim_fail_open_witness:
  "(case newLocalSet 128 10 :: (unit, local_set) res of
      Ok l \<Rightarrow> (\<exists>evs' st''. Claim (\<lambda>_ _ _ _ b. (Inl ''timeout'', b)) [7] [1] 15 0
        (fst (snd (snd (Claim (\<lambda>_ _ _ _ b. (Inl ''timeout'', b)) [7] [1] 5 0 (store_of l) ())))) () = ((False, None), evs', st'', ()))
    | _ \<Rightarrow> False)"
proof -
  obtain l where l: "newLocalSet 128 10 = (Ok l :: (unit, local_set) res)" by (simp add: newLocalSet_def makeslice_def wrap64_id)
  obtain r evs st' b' where c: "Claim (\<lambda>_ _ _ _ b. (Inl ''timeout'', b)) [7] [1] 5 0 (store_of l) () = (r, evs, st', b')" by (metis prod_cases4)
  have "newLocalSet 128 (st_defaultTTL (store_of l)) = (Ok l :: (unit, local_set) res)" using l by (simp add: store_of_def)
  from claim_fail_open [OF this _ _ _ _ _ _ _ c, of "[]" 15 "[7]" 0] l c show ?thesis by (simp add: store_of_def)
qed

end
