(* ===== verification/Cache_Expirer.thy ===== *)
theory Cache_Expirer
  imports Cache_Spec
begin

text \<open>
  The life of the in-memory cache's background expirer, \<^verbatim>\<open>cache/memory/memory.go\<close>: \<open>NewWithOptions\<close> starts a goroutine that runs
  a pass at every tick of its ticker, the passes take the shard locks one hold at a time between the operations of
  the clients, and \<open>Close\<close> stops the goroutine and waits for it. The goroutine's own moves are \<open>run_step\<close>, those of its
  surroundings (the ticker, the clients and the calls of \<open>Close\<close>) are \<open>env_step\<close>.
\<close>

section \<open>State\<close>

text \<open>
  Where the goroutine is: in the \<open>select\<close> of \<open>run\<close>, in \<open>expireAll\<close> before the next hold of shard \<open>i\<close>, or past the deferred
  \<open>close(b.done)\<close>. \<open>xp_tick\<close> is the ticker's channel, which buffers one tick and drops the others; \<open>xp_stop\<close> says whether
  \<open>b.stop\<close> is closed, \<open>xp_once\<close> is the \<open>sync.Once\<close> of \<open>Close\<close>.
\<close>

datatype expirer_pc = AtSelect | Passing nat | Exited

datatype once = OnceFresh | OnceRunning | OnceDone

record expirer =
  xp_backend :: cache_backend
  xp_interval :: duration
  xp_pc :: expirer_pc
  xp_tick :: bool
  xp_stop :: bool
  xp_once :: once

definition DefaultExpireInterval :: duration where
  "DefaultExpireInterval = 250000000"

section \<open>Operations\<close>

text \<open>\<open>time.NewTicker\<close> panics unless the interval is positive.\<close>

definition expireInterval :: "cache_options \<Rightarrow> duration" where
  "expireInterval opts = (if opt_ExpireInterval opts \<le> 0 then DefaultExpireInterval else opt_ExpireInterval opts)"

definition start_run :: "cache_options \<Rightarrow> (unit, expirer) res" where
  "start_run opts =
     (if expireInterval opts \<le> 0 then Panic
      else Ok \<lparr>xp_backend = NewWithOptions opts, xp_interval = expireInterval opts, xp_pc = AtSelect, xp_tick = False,
               xp_stop = False, xp_once = OnceFresh\<rparr>)"

text \<open>
  The moves of the goroutine when the clock reads \<open>now\<close>. A \<open>select\<close> with both channels ready may take either.
\<close>

inductive run_step :: "int \<Rightarrow> expirer \<Rightarrow> expirer \<Rightarrow> bool" for now x where
  rs_tick: "xp_pc x = AtSelect \<Longrightarrow> xp_tick x \<Longrightarrow> run_step now x (x\<lparr>xp_tick := False, xp_pc := Passing 0\<rparr>)"
| rs_stop: "xp_pc x = AtSelect \<Longrightarrow> xp_stop x \<Longrightarrow> run_step now x (x\<lparr>xp_pc := Exited\<rparr>)"
| rs_hold: "xp_pc x = Passing i \<Longrightarrow> i < length (b_shards (xp_backend x)) \<Longrightarrow>
    run_step now x (x\<lparr>xp_backend := cache_expire i now (xp_backend x),
      xp_pc := Passing (if fst (expireHold now (b_shards (xp_backend x) ! i)) then i else i + 1)\<rparr>)"
| rs_end: "xp_pc x = Passing i \<Longrightarrow> length (b_shards (xp_backend x)) \<le> i \<Longrightarrow> run_step now x (x\<lparr>xp_pc := AtSelect\<rparr>)"

text \<open>
  A call of \<open>Close\<close>: the first one closes \<open>b.stop\<close>, which panics on a closed channel, and waits for \<open>b.done\<close>; \<open>sync.Once\<close> makes the
  others wait for the first and then do nothing. \<open>Close_return\<close> is the moment the calls return.
\<close>

definition Close_enter :: "expirer \<Rightarrow> (unit, expirer) res" where
  "Close_enter x =
     (if xp_once x \<noteq> OnceFresh then Ok x
      else if xp_stop x then Panic
      else Ok (x\<lparr>xp_stop := True, xp_once := OnceRunning\<rparr>))"

definition Close_return :: "expirer \<Rightarrow> expirer option" where
  "Close_return x =
     (case xp_once x of
        OnceFresh \<Rightarrow> None
      | OnceRunning \<Rightarrow> if xp_pc x = Exited then Some (x\<lparr>xp_once := OnceDone\<rparr>) else None
      | OnceDone \<Rightarrow> Some x)"

definition memory_Healthy :: "cache_backend \<Rightarrow> bool" where
  "memory_Healthy b = True"

text \<open>The moves of the surroundings when the clock reads \<open>now\<close>: a tick, which may come at any moment, the operations of the clients, and calls of \<open>Close\<close>.\<close>

inductive env_step :: "int \<Rightarrow> expirer \<Rightarrow> expirer \<Rightarrow> bool" for now x where
  es_tick: "env_step now x (x\<lparr>xp_tick := True\<rparr>)"
| es_set: "env_step now x (x\<lparr>xp_backend := cache_Set key val ttl now (xp_backend x)\<rparr>)"
| es_setnx: "env_step now x (x\<lparr>xp_backend := snd (cache_SetNX key val ttl now (xp_backend x))\<rparr>)"
| es_del: "env_step now x (x\<lparr>xp_backend := cache_Del key (xp_backend x)\<rparr>)"
| es_close: "Close_enter x = Ok y \<Longrightarrow> env_step now x y"
| es_return: "Close_return x = Some y \<Longrightarrow> env_step now x y"

text \<open>
  Everything that can happen to a backend, in any order. \<open>life opts t x\<close>: the backend made with \<open>opts\<close> can be in state \<open>x\<close> at time \<open>t\<close>.
\<close>

inductive life :: "cache_options \<Rightarrow> int \<Rightarrow> expirer \<Rightarrow> bool" for opts where
  life_start: "start_run opts = Ok x \<Longrightarrow> 0 \<le> t \<Longrightarrow> life opts t x"
| life_run: "life opts t x \<Longrightarrow> t \<le> now \<Longrightarrow> run_step now x y \<Longrightarrow> life opts now y"
| life_env: "life opts t x \<Longrightarrow> t \<le> now \<Longrightarrow> env_step now x y \<Longrightarrow> life opts now y"

text \<open>
  \<open>exits n x\<close>: from \<open>x\<close> on, in every interleaving of the goroutine with at most \<open>n\<close> moves of its surroundings, whatever it selects
  and whatever the clock reads, the goroutine is never stuck and gets to \<open>Exited\<close>.
\<close>

inductive exits :: "nat \<Rightarrow> expirer \<Rightarrow> bool" where
  exits_now: "xp_pc x = Exited \<Longrightarrow> exits n x"
| exits_later: "\<forall>now. \<exists>y. run_step now x y \<Longrightarrow> (\<And>now y. run_step now x y \<Longrightarrow> exits n y) \<Longrightarrow>
    (\<And>m now y. n = Suc m \<Longrightarrow> env_step now x y \<Longrightarrow> exits m y) \<Longrightarrow> exits n x"

inductive_cases run_stepE: "run_step now x y"
inductive_cases env_stepE: "env_step now x y"

section \<open>Invariant\<close>

definition expirer_inv :: "expirer \<Rightarrow> bool" where
  "expirer_inv x \<longleftrightarrow> xp_stop x = (xp_once x \<noteq> OnceFresh) \<and> (xp_pc x = Exited \<longrightarrow> xp_stop x) \<and> (xp_once x = OnceDone \<longrightarrow> xp_pc x = Exited)"

lemma start_run_Ok: "start_run opts \<noteq> Panic"
  by (simp add: start_run_def expireInterval_def DefaultExpireInterval_def)

lemma run_step_inv: "run_step now x y \<Longrightarrow> expirer_inv x \<Longrightarrow> expirer_inv y"
  by (erule run_stepE) (auto simp: expirer_inv_def)

lemma env_step_inv: "env_step now x y \<Longrightarrow> expirer_inv x \<Longrightarrow> expirer_inv y"
  by (erule env_stepE) (auto simp: expirer_inv_def Close_enter_def Close_return_def split: if_splits once.splits)

lemma life_inv: "life opts t x \<Longrightarrow> expirer_inv x"
proof (induction rule: life.induct)
  case (life_start x t)
  then show ?case by (auto simp: expirer_inv_def start_run_def split: if_splits)
qed (auto intro: run_step_inv env_step_inv)

text \<open>The contents are those of a sequence of cache operations, the goroutine's lock holds being among them.\<close>

lemma life_reachable: "life opts t x \<Longrightarrow> \<exists>t' \<le> t. cache_reachable opts t' (xp_backend x)"
proof (induction rule: life.induct)
  case (life_run t x now y)
  then obtain t' where t': "t' \<le> now" "cache_reachable opts t' (xp_backend x)" using order_trans by blast
  moreover have "length (b_shards (xp_backend x)) = 64"
    using reachable_cache_inv [OF t'(2)] by (simp add: cache_inv_def)
  ultimately show ?case using life_run(3) cr_expire [OF t'(2,1)] by (auto elim!: run_stepE)
next
  case (life_env t x now y)
  then obtain t' where t': "t' \<le> now" "cache_reachable opts t' (xp_backend x)" using order_trans by blast
  have "xp_backend y = xp_backend x \<or> cache_reachable opts now (xp_backend y) \<or> cache_reachable opts t' (xp_backend y)"
    using life_env(3) cr_set [OF t'(2,1)] cr_setnx [OF t'(2,1)] cr_del [OF t'(2)]
    by (auto elim!: env_stepE simp: Close_enter_def Close_return_def split: if_splits once.splits)
  then show ?case using t' by auto
next
  case (life_start x t)
  then show ?case using cr_new [of t opts] by (auto simp: start_run_def split: if_splits)
qed

section \<open>Termination\<close>

text \<open>
  What the goroutine still has to do: a buffered tick starts at most one more pass, a pass visits the shards in order,
  and a hold that asks for another hold of the shard has shortened its queues.
\<close>

definition queued :: "cache_backend \<Rightarrow> nat" where
  "queued b = (\<Sum>s\<leftarrow>b_shards b. \<Sum>q\<leftarrow>s_ttlQueues s. q_len q)"

definition phase :: "expirer \<Rightarrow> nat" where
  "phase x = (case xp_pc x of Exited \<Rightarrow> 0 | AtSelect \<Rightarrow> 1 | Passing i \<Rightarrow> 2 + (length (b_shards (xp_backend x)) - i))"

definition work :: "(expirer \<times> expirer) set" where
  "work = measures [\<lambda>x. of_bool (xp_tick x), phase, \<lambda>x. queued (xp_backend x)]"

lemma sum_list_update_less: "i < length xs \<Longrightarrow> f y < f (xs ! i) \<Longrightarrow> (\<Sum>x\<leftarrow>xs[i := y]. f x) < (\<Sum>x\<leftarrow>xs. f x)" for f :: "'a \<Rightarrow> nat"
  by (induction xs arbitrary: i) (auto simp: nth_Cons split: nat.splits)

lemma hold_queued:
  "i < length (b_shards b) \<Longrightarrow> fst (expireHold now (b_shards b ! i)) \<Longrightarrow> queued (cache_expire i now b) < queued b"
  unfolding queued_def cache_expire_def using expireHold_len by (simp add: sum_list_update_less)

lemma run_step_work: "run_step now x y \<Longrightarrow> (y, x) \<in> work"
  by (erule run_stepE) (auto simp: work_def phase_def hold_queued, auto simp: cache_expire_def)

lemma run_step_stop: "run_step now x y \<Longrightarrow> xp_stop y = xp_stop x"
  by (erule run_stepE) auto

lemma stopped_moves: "xp_stop x \<Longrightarrow> xp_pc x \<noteq> Exited \<Longrightarrow> \<exists>y. run_step now x y"
  by (cases "xp_pc x") (blast intro: rs_stop rs_hold rs_end leI)+

lemma wf_work: "wf work"
  by (simp add: work_def)

lemma env_step_stop: "env_step now x y \<Longrightarrow> xp_stop x \<Longrightarrow> xp_stop y"
  by (erule env_stepE) (auto simp: Close_enter_def Close_return_def split: if_splits once.splits)

lemma stopped_exits: "xp_stop x \<Longrightarrow> exits n x"
proof (induction n arbitrary: x rule: less_induct)
  case (less n)
  note fewer = less(1)
  show ?case using wf_work less(2)
  proof (induction x rule: wf_induct_rule [of work, consumes 1, case_names step])
    case (step x)
    show ?case
    proof (cases "xp_pc x = Exited")
      case False
      show ?thesis
      proof (rule exits_later)
        show "\<forall>now. \<exists>y. run_step now x y" using stopped_moves step(2) False by blast
        show "exits n y" if "run_step now x y" for now y using step that run_step_work run_step_stop by metis
        show "exits m y" if "n = Suc m" "env_step now x y" for m now y using fewer that env_step_stop step(2) by simp
      qed
    qed (rule exits_now)
  qed
qed

lemma exited_stays: "xp_pc x = Exited \<Longrightarrow> \<not> run_step now x y"
  by (auto elim: run_stepE)

lemma run_step_Get:
  assumes "cache_inv t (xp_backend x)" and "t \<le> now" and "run_step now x y" and "now \<le> now'"
  shows "cache_Get k now' (xp_backend y) = cache_Get k now' (xp_backend x)"
  using assms(3)
proof cases
  case (rs_hold i)
  then show ?thesis using Get_expire [OF assms(1,2,4)] assms(1) by (simp add: cache_inv_def)
qed simp_all

text \<open>
  C29: the background expirer and \<^verbatim>\<open>Close\<close>. In every interleaving of the clients, the ticker, the goroutine and calls of
  \<^verbatim>\<open>Close\<close>: the ticker's interval is legal; a call of \<^verbatim>\<open>Close\<close> never closes a closed channel, and from then on, in every interleaving with any
  finite number of further ticks, operations and calls, whatever the goroutine selects and whatever the clock reads, it is
  never stuck and it ends, which is when the calls return. (A tick that arrives during a pass may start one more pass, since a \<^verbatim>\<open>select\<close> with both channels ready takes either.)
  After \<^verbatim>\<open>Close\<close> has returned the goroutine does not move; a move of the goroutine is never visible to a reader; and the
  cache keeps its invariant.
\<close>

theorem expirer_close:
  assumes "life opts t x"
  shows "start_run opts \<noteq> Panic \<and> cache_inv t (xp_backend x) \<and>
    (\<exists>z. Close_enter x = Ok z \<and> xp_once z \<noteq> OnceFresh \<and> (\<forall>n. exits n z)) \<and>
    (xp_pc x = Exited \<longrightarrow> Close_return x \<noteq> None) \<and>
    (xp_once x = OnceDone \<longrightarrow> \<not> run_step now x y) \<and>
    (run_step now x y \<longrightarrow> t \<le> now \<longrightarrow> now \<le> now' \<longrightarrow> cache_Get k now' (xp_backend y) = cache_Get k now' (xp_backend x))"
proof -
  note inv = life_inv [OF assms]
  obtain t' where "t' \<le> t" "cache_reachable opts t' (xp_backend x)" using life_reachable [OF assms] by blast
  then have b: "cache_inv t (xp_backend x)" using reachable_cache_inv cache_inv_mono by blast
  have "\<exists>z. Close_enter x = Ok z \<and> xp_once z \<noteq> OnceFresh \<and> xp_stop z"
    using inv by (auto simp: expirer_inv_def Close_enter_def)
  moreover have "xp_pc x = Exited \<longrightarrow> Close_return x \<noteq> None"
    using inv by (auto simp: expirer_inv_def Close_return_def split: once.splits)
  moreover have "xp_once x = OnceDone \<longrightarrow> \<not> run_step now x y"
    using inv exited_stays by (simp add: expirer_inv_def)
  ultimately show ?thesis using start_run_Ok b stopped_exits run_step_Get [OF b] by blast
qed

theorem expirer_close_witness:
  "\<exists>x z. start_run \<lparr>opt_MaxKeys = 0, opt_MaxBytes = 0, opt_ExpireInterval = 0\<rparr> = Ok x \<and> xp_interval x = 250000000 \<and>
     Close_enter (x\<lparr>xp_tick := True\<rparr>) = Ok z \<and> exits 9 z"
proof -
  let ?opts = "\<lparr>opt_MaxKeys = 0, opt_MaxBytes = 0, opt_ExpireInterval = 0\<rparr>"
  obtain x where x: "start_run ?opts = Ok x" "xp_interval x = 250000000"
    by (simp add: start_run_def expireInterval_def DefaultExpireInterval_def)
  have "life ?opts 0 (x\<lparr>xp_tick := True\<rparr>)" using life_env [OF life_start [OF x(1), of 0] _ es_tick, of 0] by simp
  from expirer_close [OF this, THEN conjunct2, THEN conjunct2, THEN conjunct1]
  obtain z where "Close_enter (x\<lparr>xp_tick := True\<rparr>) = Ok z" "\<forall>n. exits n z" by (elim exE conjE)
  then have "Close_enter (x\<lparr>xp_tick := True\<rparr>) = Ok z" "exits 9 z" by (simp_all only: simp_thms)
  with x show ?thesis by (intro exI conjI)
qed

end
