(* ===== verification/Cache_Config.thy ===== *)
theory Cache_Config
  imports Cache_Open
begin

text \<open>
  The configuration of a cache from flags and environment, \<^verbatim>\<open>cache/config.go\<close>. The environment is a parameter: the empty string stands for
  a variable that is not set, as for \<^verbatim>\<open>os.Getenv\<close>. A \<^verbatim>\<open>flag.FlagSet\<close> has the names registered with it and the field of the
  configuration that each one sets; parsing a command line is left to package \<^verbatim>\<open>flag\<close>.
\<close>

abbreviation (input) comma :: char where "comma \<equiv> CHR '',''"

definition splitCSV :: "string \<Rightarrow> string list" where
  "splitCSV v = filter (\<lambda>p. p \<noteq> []) (map TrimSpace (splitByte comma v))"

text \<open>A \<^verbatim>\<open>csvFlag\<close> points to a list of strings; the destination may be nil.\<close>

definition csvFlag_String :: "string list option \<Rightarrow> string" where
  "csvFlag_String dst = (case dst of None \<Rightarrow> [] | Some xs \<Rightarrow> join comma xs)"

definition csvFlag_Set :: "string \<Rightarrow> string list \<Rightarrow> string list" where
  "csvFlag_Set v dst = splitCSV v"

definition envStr :: "(string \<Rightarrow> string) \<Rightarrow> string \<Rightarrow> string \<Rightarrow> string" where
  "envStr getenv key def = (if getenv key \<noteq> [] then getenv key else def)"

definition envInt :: "(string \<Rightarrow> string) \<Rightarrow> string \<Rightarrow> int \<Rightarrow> int" where
  "envInt getenv key def =
     (if getenv key \<noteq> [] then case strconv_Atoi (getenv key) of Some n \<Rightarrow> n | None \<Rightarrow> def else def)"

definition envDuration :: "(string \<Rightarrow> string) \<Rightarrow> string \<Rightarrow> duration \<Rightarrow> duration" where
  "envDuration getenv key def =
     (if getenv key \<noteq> [] then case ParseDuration (getenv key) of Some d \<Rightarrow> d | None \<Rightarrow> def else def)"

text \<open>\<^verbatim>\<open>FlagSet.Var\<close> panics on a name that starts with a dash, contains an equals sign or is taken.\<close>

datatype config_field =
    FBackend | FMemoryMaxKeys | FMemoryMaxBytes | FRedisAddr | FAeroHosts | FAeroNamespace | FAeroSet | FDialTimeout | FOpTimeout

type_synonym flag_set = "(string \<times> config_field) list"

definition fs_Var :: "string \<Rightarrow> config_field \<Rightarrow> flag_set \<Rightarrow> (unit, flag_set) res" where
  "fs_Var name field fs =
     (if (name \<noteq> [] \<and> hd name = CHR ''-'') \<or> CHR ''='' \<in> set name \<or> name \<in> set (map fst fs) then Panic
      else Ok (fs @ [(name, field)]))"

text \<open>The last step of \<^verbatim>\<open>RegisterFlags\<close>: the hosts default from the environment.\<close>

definition hostsFromEnv :: "(string \<Rightarrow> string) \<Rightarrow> string \<Rightarrow> cache_config \<Rightarrow> cache_config" where
  "hostsFromEnv getenv envPrefix c =
     (let v = getenv (envPrefix @ ''AEROSPIKE_HOSTS'') in
      if v \<noteq> [] \<and> length (cc_AeroHosts c) = 0 then c\<lparr>cc_AeroHosts := splitCSV v\<rparr> else c)"

definition RegisterFlags :: "(string \<Rightarrow> string) \<Rightarrow> flag_set \<Rightarrow> string \<Rightarrow> string \<Rightarrow> (unit, cache_config \<times> flag_set) res" where
  "RegisterFlags getenv fs flagPrefix envPrefix =
     rbind (fs_Var (flagPrefix @ ''cache-backend'') FBackend fs) (\<lambda>fs.
     rbind (fs_Var (flagPrefix @ ''cache-memory-max-keys'') FMemoryMaxKeys fs) (\<lambda>fs.
     rbind (fs_Var (flagPrefix @ ''cache-memory-max-bytes'') FMemoryMaxBytes fs) (\<lambda>fs.
     rbind (fs_Var (flagPrefix @ ''redis-addr'') FRedisAddr fs) (\<lambda>fs.
     rbind (fs_Var (flagPrefix @ ''aerospike-hosts'') FAeroHosts fs) (\<lambda>fs.
     rbind (fs_Var (flagPrefix @ ''aerospike-namespace'') FAeroNamespace fs) (\<lambda>fs.
     rbind (fs_Var (flagPrefix @ ''aerospike-set'') FAeroSet fs) (\<lambda>fs.
     rbind (fs_Var (flagPrefix @ ''cache-dial-timeout'') FDialTimeout fs) (\<lambda>fs.
     rbind (fs_Var (flagPrefix @ ''cache-op-timeout'') FOpTimeout fs) (\<lambda>fs.
     Ok (hostsFromEnv getenv envPrefix
       \<lparr>cc_Backend = envStr getenv (envPrefix @ ''CACHE_BACKEND'') ''none'',
        cc_MemoryMaxKeys = envInt getenv (envPrefix @ ''CACHE_MEMORY_MAX_KEYS'') 0,
        cc_MemoryMaxBytes = envInt getenv (envPrefix @ ''CACHE_MEMORY_MAX_BYTES'') 0,
        cc_RedisAddr = envStr getenv (envPrefix @ ''REDIS_ADDR'') [],
        cc_AeroHosts = [],
        cc_AeroNamespace = envStr getenv (envPrefix @ ''AEROSPIKE_NAMESPACE'') ''cache'',
        cc_AeroSet = envStr getenv (envPrefix @ ''AEROSPIKE_SET'') ''bsv'',
        cc_DialTimeout = envDuration getenv (envPrefix @ ''CACHE_DIAL_TIMEOUT'') (200 * Millisecond),
        cc_OpTimeout = envDuration getenv (envPrefix @ ''CACHE_OP_TIMEOUT'') (50 * Millisecond)\<rparr>, fs))))))))))"

section \<open>Properties\<close>

definition csv_item :: "string \<Rightarrow> bool" where
  "csv_item p \<longleftrightarrow> p \<noteq> [] \<and> comma \<notin> set p \<and> TrimSpace p = p"

lemma splitCSV_items: "p \<in> set (splitCSV v) \<Longrightarrow> csv_item p"
  using set_TrimSpace splitByte_free by (fastforce simp: splitCSV_def csv_item_def)

lemma splitCSV_join: "\<forall>p \<in> set xs. csv_item p \<Longrightarrow> splitCSV (join comma xs) = xs"
proof (cases "xs = []")
  case True
  have "TrimSpace [] = []" using set_TrimSpace [of "[]"] by simp
  then show ?thesis using True by (simp add: splitCSV_def)
next
  case False
  assume items: "\<forall>p \<in> set xs. csv_item p"
  have "map TrimSpace xs = xs" using items by (simp add: csv_item_def map_idI)
  moreover have "filter (\<lambda>p. p \<noteq> []) xs = xs" using items by (simp add: csv_item_def filter_id_conv)
  ultimately show ?thesis using False items by (simp add: splitCSV_def splitByte_join csv_item_def)
qed

text \<open>
  The list flag. Whatever text sets it, its entries are non-empty, without surrounding white space and without commas;
  its printed value sets it again to the same list; and a list that fits this form is what its text sets.
\<close>

theorem csv_flag_roundtrip:
  assumes "\<forall>p \<in> set xs. csv_item p"
  shows "(\<forall>p \<in> set (csvFlag_Set v old). csv_item p) \<and>
     csvFlag_Set (csvFlag_String (Some (csvFlag_Set v old))) other = csvFlag_Set v old \<and>
     csvFlag_Set (csvFlag_String (Some xs)) old = xs"
  using splitCSV_items splitCSV_join [of "splitCSV v"] splitCSV_join [OF assms] by (simp add: csvFlag_Set_def csvFlag_String_def)

text \<open>The flags that one call registers; no suffix of a name is another one, so that prefixes keep the calls apart.\<close>

definition flagNames :: flag_set where
  "flagNames =
     [(''cache-backend'', FBackend), (''cache-memory-max-keys'', FMemoryMaxKeys), (''cache-memory-max-bytes'', FMemoryMaxBytes),
      (''redis-addr'', FRedisAddr), (''aerospike-hosts'', FAeroHosts), (''aerospike-namespace'', FAeroNamespace), (''aerospike-set'', FAeroSet),
      (''cache-dial-timeout'', FDialTimeout), (''cache-op-timeout'', FOpTimeout)]"

definition prefixed :: "string \<Rightarrow> flag_set" where
  "prefixed p = map (\<lambda>(n, f). (p @ n, f)) flagNames"

definition legalPrefix :: "string \<Rightarrow> bool" where
  "legalPrefix p \<longleftrightarrow> CHR ''='' \<notin> set p \<and> (p \<noteq> [] \<longrightarrow> hd p \<noteq> CHR ''-'')"

lemma suffix_free: "\<forall>a \<in> set (map fst flagNames). \<forall>b \<in> set (map fst flagNames). suffix a b \<longrightarrow> a = b"
proof -
  have "list_all (\<lambda>a. list_all (\<lambda>b. prefix (rev a) (rev b) \<longrightarrow> a = b) (map fst flagNames)) (map fst flagNames)" by code_simp
  then show ?thesis by (simp add: list_all_iff suffix_to_prefix)
qed

lemma prefixed_disjoint:
  assumes "p \<noteq> q"
  shows "fst ` set (prefixed p) \<inter> fst ` set (prefixed q) = {}"
proof -
  have "p @ a \<noteq> q @ b" if a: "a \<in> set (map fst flagNames)" and b: "b \<in> set (map fst flagNames)" for a b
  proof
    assume e: "p @ a = q @ b"
    then have "suffix a b \<or> suffix b a" by (metis suffixI suffix_same_cases)
    then have "a = b" using suffix_free a b by blast
    then show False using e assms by simp
  qed
  then show ?thesis by (force simp: prefixed_def)
qed

lemma RegisterFlags_names:
  assumes "RegisterFlags getenv fs p e = Ok (c, fs')"
  shows "fs' = fs @ prefixed p \<and> fst ` set fs \<inter> fst ` set (prefixed p) = {}"
  using assms unfolding RegisterFlags_def
  by (auto simp: rbind_Ok_iff fs_Var_def prefixed_def flagNames_def split: if_splits)

lemma RegisterFlags_Ok:
  assumes "legalPrefix p" and "fst ` set fs \<inter> fst ` set (prefixed p) = {}"
  shows "\<exists>c. RegisterFlags getenv fs p e = Ok (c, fs @ prefixed p)"
proof -
  have "hd (p @ n) \<noteq> CHR ''-''" if "n \<noteq> []" "hd n \<noteq> CHR ''-''" for n
    using assms(1) that by (cases p) (auto simp: legalPrefix_def)
  moreover have "CHR ''='' \<notin> set p" using assms(1) by (simp add: legalPrefix_def)
  ultimately show ?thesis using assms(2)
    unfolding RegisterFlags_def by (simp add: fs_Var_def prefixed_def flagNames_def)
qed

text \<open>
  Registering the flags of two caches on one flag set, as the listener does for its two stores. With legal prefixes whose names are free,
  both calls succeed exactly if the prefixes differ, and then every flag sets its own field of its own configuration; with equal prefixes
  the second call panics. An environment variable that is not set, or that does not parse, gives the default.
\<close>

theorem register_flags:
  assumes "legalPrefix p" and "legalPrefix q" and "fst ` set fs \<inter> fst ` (set (prefixed p) \<union> set (prefixed q)) = {}"
  shows "\<exists>c fs1. RegisterFlags getenv fs p e = Ok (c, fs1) \<and>
    (if p = q then RegisterFlags getenv fs1 q e' = Panic else \<exists>c'. RegisterFlags getenv fs1 q e' = Ok (c', fs @ prefixed p @ prefixed q))"
proof -
  have free: "fst ` set fs \<inter> fst ` set (prefixed p) = {}" "fst ` set fs \<inter> fst ` set (prefixed q) = {}" using assms(3) by blast+
  obtain c where c: "RegisterFlags getenv fs p e = Ok (c, fs @ prefixed p)" using RegisterFlags_Ok [OF assms(1) free(1)] by blast
  have "RegisterFlags getenv (fs @ prefixed p) p e' = Panic"
    unfolding RegisterFlags_def by (simp add: fs_Var_def prefixed_def flagNames_def)
  moreover have "\<exists>c'. RegisterFlags getenv (fs @ prefixed p) q e' = Ok (c', fs @ prefixed p @ prefixed q)" if ne: "p \<noteq> q"
  proof -
    have "fst ` set (fs @ prefixed p) \<inter> fst ` set (prefixed q) = {}"
      using free(2) prefixed_disjoint [OF ne] by (simp add: image_Un Int_Un_distrib2)
    from RegisterFlags_Ok [OF assms(2) this] show ?thesis by simp
  qed
  ultimately show ?thesis using c by auto
qed

lemma register_defaults:
  "RegisterFlags (\<lambda>_. []) [] [] e =
     Ok (\<lparr>cc_Backend = ''none'', cc_MemoryMaxKeys = 0, cc_MemoryMaxBytes = 0, cc_RedisAddr = [], cc_AeroHosts = [], cc_AeroNamespace = ''cache'',
          cc_AeroSet = ''bsv'', cc_DialTimeout = 200 * Millisecond, cc_OpTimeout = 50 * Millisecond\<rparr>, prefixed [])"
  "getenv (e @ ''CACHE_OP_TIMEOUT'') = decimal n @ ''ms'' \<Longrightarrow> int n * Millisecond \<le> maxDuration \<Longrightarrow>
     RegisterFlags getenv fs p e = Ok (c, fs') \<Longrightarrow> cc_OpTimeout c = int n * Millisecond"
proof -
  show "RegisterFlags (\<lambda>_. []) [] [] e =
     Ok (\<lparr>cc_Backend = ''none'', cc_MemoryMaxKeys = 0, cc_MemoryMaxBytes = 0, cc_RedisAddr = [], cc_AeroHosts = [], cc_AeroNamespace = ''cache'',
          cc_AeroSet = ''bsv'', cc_DialTimeout = 200 * Millisecond, cc_OpTimeout = 50 * Millisecond\<rparr>, prefixed [])"
    by (simp add: RegisterFlags_def fs_Var_def envStr_def envInt_def envDuration_def hostsFromEnv_def prefixed_def flagNames_def)
next
  assume "getenv (e @ ''CACHE_OP_TIMEOUT'') = decimal n @ ''ms''" "int n * Millisecond \<le> maxDuration" "RegisterFlags getenv fs p e = Ok (c, fs')"
  moreover have "map_of unitMap ''ms'' = Some 1000000" by code_simp
  ultimately show "cc_OpTimeout c = int n * Millisecond"
    using ParseDuration_decimal(1) [of "''ms''" 1000000 n]
    by (auto simp: RegisterFlags_def rbind_Ok_iff hostsFromEnv_def envDuration_def Let_def)
qed

end
