(* ===== verification/Netip.thy ===== *)
theory Netip
  imports Go_Std
begin

text \<open>
  The functions of \<^verbatim>\<open>net/netip\<close> on addresses and their text form that the resolver, the join helpers and the tee
  envelope use. The parser follows the standard library: IPv4 dotted quads, IPv6 groups with at most one
  ellipsis, a trailing embedded IPv4 address and a zone. Errors carry no text.
\<close>

section \<open>Address kinds\<close>

definition Is4In6 :: "netaddr \<Rightarrow> bool" where
  "Is4In6 a = (case a of Addr6 b z \<Rightarrow> take 12 b = replicate 10 0 @ [0xFF, 0xFF] | _ \<Rightarrow> False)"

definition Is6 :: "netaddr \<Rightarrow> bool" where
  "Is6 a = (case a of Addr6 b z \<Rightarrow> True | _ \<Rightarrow> False)"

definition Unmap :: "netaddr \<Rightarrow> netaddr" where
  "Unmap a = (if Is4In6 a then (case a of Addr6 b z \<Rightarrow> Addr4 (drop 12 b) | _ \<Rightarrow> a) else a)"

primrec As16 :: "netaddr \<Rightarrow> bytes" where
  "As16 AddrZero = replicate 16 0"
| "As16 (Addr4 b) = replicate 10 0 @ [0xFF, 0xFF] @ b"
| "As16 (Addr6 b z) = b"

definition wf_addr :: "netaddr \<Rightarrow> bool" where
  "wf_addr a = (case a of AddrZero \<Rightarrow> True | Addr4 b \<Rightarrow> length b = 4 | Addr6 b z \<Rightarrow> length b = 16)"

lemma length_As16: "wf_addr a \<Longrightarrow> length (As16 a) = 16"
  by (cases a) (simp_all add: wf_addr_def)

section \<open>Parsing\<close>

definition charCode :: "char \<Rightarrow> nat" where
  "charCode c = of_char c"

definition decDigit :: "char \<Rightarrow> nat option" where
  "decDigit c = (if 48 \<le> charCode c \<and> charCode c \<le> 57 then Some (charCode c - 48) else None)"

definition hexVal :: "char \<Rightarrow> nat option" where
  "hexVal c =
     (if 48 \<le> charCode c \<and> charCode c \<le> 57 then Some (charCode c - 48)
      else if 97 \<le> charCode c \<and> charCode c \<le> 102 then Some (charCode c - 87)
      else if 65 \<le> charCode c \<and> charCode c \<le> 70 then Some (charCode c - 55)
      else None)"

text \<open>
  \<^verbatim>\<open>parseIPv4Fields\<close>: \<open>digs\<close> is the number of digits of the current field and \<open>val\<close> its value, \<open>acc\<close> the fields before it. A
  field is empty if and only if it has no digits, which also covers a leading, a trailing and a double dot.
\<close>

primrec ipv4Fields :: "string \<Rightarrow> nat \<Rightarrow> nat \<Rightarrow> bytes \<Rightarrow> bytes option" where
  "ipv4Fields [] digs val acc = (if digs = 0 \<or> length acc < 3 then None else Some (acc @ [word_of_nat val]))"
| "ipv4Fields (c # s) digs val acc =
     (case decDigit c of
        Some d \<Rightarrow>
          if digs = 1 \<and> val = 0 then None
          else if 255 < val * 10 + d then None
          else ipv4Fields s (digs + 1) (val * 10 + d) acc
      | None \<Rightarrow>
          if c = CHR ''.'' then
            if digs = 0 \<or> length acc = 3 then None else ipv4Fields s 0 0 (acc @ [word_of_nat val])
          else None)"

text \<open>The hex number at the start of a group: its value and the rest, if it has one to four digits.\<close>

primrec hexGroup :: "string \<Rightarrow> nat \<Rightarrow> nat \<Rightarrow> (nat \<times> nat \<times> string) option" where
  "hexGroup [] n acc = Some (n, acc, [])"
| "hexGroup (c # s) n acc =
     (case hexVal c of
        Some d \<Rightarrow> if 3 < n then None else hexGroup s (n + 1) (acc * 16 + d)
      | None \<Rightarrow> Some (n, acc, c # s))"

text \<open>
  The loop of \<^verbatim>\<open>parseIPv6\<close>: \<open>ip\<close> holds the bytes parsed so far, \<open>ellipsis\<close> the position of the ellipsis. The result is the rest
  of the text with the bytes and the ellipsis.
\<close>

function ipv6Groups :: "string \<Rightarrow> bytes \<Rightarrow> nat option \<Rightarrow> (string \<times> bytes \<times> nat option) option" where
  "ipv6Groups s ip ellipsis =
     (if 16 \<le> length ip then Some (s, ip, ellipsis)
      else
        case hexGroup s 0 0 of
          None \<Rightarrow> None
        | Some (n, acc, rest) \<Rightarrow>
            if n = 0 then None
            else if rest \<noteq> [] \<and> hd rest = CHR ''.'' then
              if ellipsis = None \<and> length ip \<noteq> 12 \<or> 16 < length ip + 4 then None
              else map_option (\<lambda>b. ([], ip @ b, ellipsis)) (ipv4Fields s 0 0 [])
            else
              let ip = ip @ [word_of_nat (acc div 256), word_of_nat (acc mod 256)] in
              if rest = [] then Some ([], ip, ellipsis)
              else if hd rest \<noteq> CHR '':'' \<or> tl rest = [] then None
              else if hd (tl rest) = CHR '':'' then
                if ellipsis \<noteq> None then None
                else if tl (tl rest) = [] then Some ([], ip, Some (length ip))
                else ipv6Groups (tl (tl rest)) ip (Some (length ip))
              else ipv6Groups (tl rest) ip ellipsis)"
  by pat_completeness auto
termination by (relation "measure (\<lambda>(s, ip, e). 16 - length ip)") auto

declare ipv6Groups.simps [simp del]

definition expandEllipsis :: "bytes \<Rightarrow> nat option \<Rightarrow> bytes option" where
  "expandEllipsis ip ellipsis =
     (case ellipsis of
        None \<Rightarrow> if length ip < 16 then None else Some ip
      | Some e \<Rightarrow> if length ip < 16 then Some (take e ip @ replicate (16 - length ip) 0 @ drop e ip) else None)"

definition parseIPv6 :: "string \<Rightarrow> netaddr option" where
  "parseIPv6 text =
     (let s = takeWhile (\<lambda>c. c \<noteq> CHR ''%'') text; zone = drop (length s + 1) text in
      if CHR ''%'' \<in> set text \<and> zone = [] then None
      else
        let lead = (2 \<le> length s \<and> s ! 0 = CHR '':'' \<and> s ! 1 = CHR '':'');
            s = (if lead then drop 2 s else s) in
        if lead \<and> s = [] then Some (Addr6 (replicate 16 0) zone)
        else
          case ipv6Groups s [] (if lead then Some 0 else None) of
            Some (rest, ip, ellipsis) \<Rightarrow>
              if rest \<noteq> [] then None else map_option (\<lambda>b. Addr6 b zone) (expandEllipsis ip ellipsis)
          | None \<Rightarrow> None)"

definition ParseAddr :: "string \<Rightarrow> netaddr option" where
  "ParseAddr s =
     (case find (\<lambda>c. c = CHR ''.'' \<or> c = CHR '':'' \<or> c = CHR ''%'') s of
        Some c \<Rightarrow>
          if c = CHR ''.'' then map_option Addr4 (ipv4Fields s 0 0 [])
          else if c = CHR '':'' then parseIPv6 s
          else None
      | None \<Rightarrow> None)"

section \<open>Parsed addresses are well formed\<close>

lemma ipv4Fields_length: "ipv4Fields s digs val acc = Some b \<Longrightarrow> length acc \<le> 3 \<Longrightarrow> length b = 4"
  by (induction s arbitrary: digs val acc) (fastforce split: option.splits if_splits)+

lemma ipv6Groups_step:
  assumes "ipv6Groups s ip ellipsis = Some (rest, ip', e)" and "length ip < 16"
  obtains b where "length b = 4" "ip' = ip @ b" "e = ellipsis" "length ip + 4 \<le> 16"
  | b where "length b = 2" "ip' = ip @ b" "e = ellipsis \<or> e = Some (length ip + 2)"
  | b s' ellipsis' where "length b = 2" "ipv6Groups s' (ip @ b) ellipsis' = Some (rest, ip', e)"
      "ellipsis' = ellipsis \<or> ellipsis' = Some (length ip + 2)"
proof -
  obtain n acc r where h: "hexGroup s 0 0 = Some (n, acc, r)"
    using assms by (subst (asm) ipv6Groups.simps) (auto split: option.splits)
  define ip2 where "ip2 = ip @ [word_of_nat (acc div 256), word_of_nat (acc mod 256)]"
  have b: "length [word_of_nat (acc div 256), word_of_nat (acc mod 256) :: byte] = 2" "length ip2 = length ip + 2" by (simp_all add: ip2_def)
  have eq: "ipv6Groups s ip ellipsis =
      (if n = 0 then None
       else if r \<noteq> [] \<and> hd r = CHR ''.'' then
         if ellipsis = None \<and> length ip \<noteq> 12 \<or> 16 < length ip + 4 then None
         else map_option (\<lambda>b. ([], ip @ b, ellipsis)) (ipv4Fields s 0 0 [])
       else if r = [] then Some ([], ip2, ellipsis)
       else if hd r \<noteq> CHR '':'' \<or> tl r = [] then None
       else if hd (tl r) = CHR '':'' then
         if ellipsis \<noteq> None then None
         else if tl (tl r) = [] then Some ([], ip2, Some (length ip2))
         else ipv6Groups (tl (tl r)) ip2 (Some (length ip2))
       else ipv6Groups (tl r) ip2 ellipsis)"
    using assms(2) by (subst ipv6Groups.simps) (simp add: h ip2_def Let_def)
  consider (v4) "r \<noteq> [] \<and> hd r = CHR ''.''" | (last) "\<not> (r \<noteq> [] \<and> hd r = CHR ''.'')" "r = [] \<or> hd (tl r) = CHR '':'' \<and> tl (tl r) = []"
    | (more) "\<not> (r \<noteq> [] \<and> hd r = CHR ''.'')" "r \<noteq> []" "\<not> (hd (tl r) = CHR '':'' \<and> tl (tl r) = [])" by blast
  then show ?thesis
  proof cases
    case v4
    then obtain b where "ipv4Fields s 0 0 [] = Some b" "ip' = ip @ b" "e = ellipsis" "length ip + 4 \<le> 16"
      using assms(1) unfolding eq by (auto split: if_splits)
    then show ?thesis using that(1) ipv4Fields_length by fastforce
  next
    case last
    then have "ip' = ip2" "e = ellipsis \<or> e = Some (length ip + 2)" using assms(1) b(2) unfolding eq by (auto split: if_splits)
    then show ?thesis using that(2) [OF b(1)] by (simp add: ip2_def)
  next
    case more
    then obtain s' ellipsis' where "ipv6Groups s' ip2 ellipsis' = Some (rest, ip', e)" "ellipsis' = ellipsis \<or> ellipsis' = Some (length ip + 2)"
      using assms(1) b(2) unfolding eq by (auto split: if_splits)
    then show ?thesis using that(3) [OF b(1)] by (simp add: ip2_def)
  qed
qed

lemma ipv6Groups_length:
  "ipv6Groups s ip ellipsis = Some (rest, ip', e) \<Longrightarrow> length ip \<le> 16 \<Longrightarrow> even (length ip) \<Longrightarrow> (\<forall>i. ellipsis = Some i \<longrightarrow> i \<le> length ip) \<Longrightarrow>
   length ip' \<le> 16 \<and> (\<forall>i. e = Some i \<longrightarrow> i \<le> length ip')"
proof (induction "16 - length ip" arbitrary: s ip ellipsis rule: less_induct)
  case less
  show ?case
  proof (cases "length ip < 16")
    case False
    then show ?thesis using less.prems by (auto simp: ipv6Groups.simps [of s])
  next
    case True
    then have two: "length ip + 2 \<le> 16" using less.prems(3) by presburger
    from ipv6Groups_step [OF less.prems(1) True] show ?thesis
    proof cases
      case (1 b)
      then show ?thesis using less.prems(4) by fastforce
    next
      case (2 b)
      then show ?thesis using less.prems(4) two by fastforce
    next
      case (3 b s' ellipsis')
      have "16 - length (ip @ b) < 16 - length ip" using 3(1) True by simp
      moreover have "\<forall>i. ellipsis' = Some i \<longrightarrow> i \<le> length (ip @ b)" using 3 less.prems(4) by auto
      ultimately show ?thesis using less.hyps [OF _ 3(2)] 3(1) two less.prems(3) by simp
    qed
  qed
qed

lemma ParseAddr_wf: "ParseAddr s = Some a \<Longrightarrow> wf_addr a \<and> a \<noteq> AddrZero"
proof -
  have v6: "wf_addr a \<and> a \<noteq> AddrZero" if "parseIPv6 s = Some a" for s
  proof -
    have "wf_addr (Addr6 b z)" if "ipv6Groups s' [] e0 = Some (rest, ip, e)" "\<forall>i. e0 = Some i \<longrightarrow> i = 0" "expandEllipsis ip e = Some b" for s' e0 rest ip e b z
      using ipv6Groups_length [OF that(1)] that(2,3) by (auto simp: wf_addr_def expandEllipsis_def split: option.splits if_splits)
    then show ?thesis using that by (fastforce simp: parseIPv6_def Let_def wf_addr_def split: option.splits if_splits)
  qed
  assume "ParseAddr s = Some a"
  then show ?thesis using v6 ipv4Fields_length [of s 0 0 "[]"] by (auto simp: ParseAddr_def wf_addr_def split: option.splits if_splits)
qed

end
