(* ===== verification/Bootstrap.thy ===== *)
theory Bootstrap
  imports Netip
begin

text \<open>
  The bootstrap resolver (\<^verbatim>\<open>bootstrap/bootstrap.go\<close>): a list of IPv6 literals and DNS names resolved to a sorted
  set of addresses, at the start and again at every tick. A DNS lookup is a parameter of each resolution, since
  its answers change over time. The calls of the \<^verbatim>\<open>OnChange\<close> callback are outputs of the steps. The lemmas show that
  whoever follows the callbacks always holds the current set.
\<close>

section \<open>Operations\<close>

type_synonym lookup = "string \<Rightarrow> string + netaddr list"

datatype bootstrap_err = NoEntries | InitialResolution string | NoAddresses

record resolver =
  rs_Entries :: "string list"
  rs_Refresh :: duration
  rs_OnChange :: bool
  rs_current :: "netaddr list"
  rs_errs :: u64

text \<open>\<^verbatim>\<open>DefaultLookup\<close>, over the answer of the system's resolver.\<close>

definition DefaultLookup :: "lookup \<Rightarrow> lookup" where
  "DefaultLookup netLookup name =
     (case netLookup name of Inl err \<Rightarrow> Inl err | Inr addrs \<Rightarrow> Inr (map Unmap (filter (\<lambda>a. Is6 a \<and> \<not> Is4In6 a) addrs)))"

definition resolveEntry :: "lookup \<Rightarrow> netaddr list \<times> string option \<Rightarrow> string \<Rightarrow> netaddr list \<times> string option" where
  "resolveEntry lookup st e =
     (let (seen, anyErr) = st in
      case ParseAddr e of
        Some a \<Rightarrow> if Is6 a \<and> \<not> Is4In6 a then (set_add (Unmap a) seen, anyErr) else (seen, anyErr)
      | None \<Rightarrow>
          (case lookup e of
             Inr addrs \<Rightarrow> (set_add_all addrs seen, anyErr)
           | Inl err \<Rightarrow> (seen, Some err)))"

text \<open>The order in which the map of addresses is iterated does not show, as the result is sorted.\<close>

definition resolveAll :: "lookup \<Rightarrow> string list \<Rightarrow> (string, netaddr list) res" where
  "resolveAll lookup entries =
     (let (seen, anyErr) = foldl (resolveEntry lookup) ([], None) entries in
      case anyErr of
        Some err \<Rightarrow> if seen = [] then Err err else Ok (sort seen)
      | None \<Rightarrow> Ok (sort seen))"

definition Start :: "lookup \<Rightarrow> resolver \<Rightarrow> (bootstrap_err, resolver \<times> (netaddr list \<times> netaddr list) list) res" where
  "Start lookup r =
     (if rs_Entries r = [] then Err NoEntries
      else
        let r = (if rs_Refresh r \<le> 0 then r\<lparr>rs_Refresh := 30 * Second\<rparr> else r) in
        rbind (map_err InitialResolution (resolveAll lookup (rs_Entries r))) (\<lambda>set.
        if set = [] then Err NoAddresses
        else Ok (r\<lparr>rs_current := set\<rparr>, if rs_OnChange r then [(set, [])] else [])))"

fun diffSorted :: "netaddr list \<Rightarrow> netaddr list \<Rightarrow> netaddr list \<times> netaddr list" where
  "diffSorted (p # prev) (n # next) =
     (if p < n then let (added, removed) = diffSorted prev (n # next) in (added, p # removed)
      else if n < p then let (added, removed) = diffSorted (p # prev) next in (n # added, removed)
      else diffSorted prev next)"
| "diffSorted prev next = (next, prev)"

text \<open>One tick of the refresh loop.\<close>

definition refresh :: "lookup \<Rightarrow> resolver \<Rightarrow> resolver \<times> (netaddr list \<times> netaddr list) list" where
  "refresh lookup r =
     (case resolveAll lookup (rs_Entries r) of
        Ok next \<Rightarrow>
          if next = [] then (r\<lparr>rs_errs := rs_errs r + 1\<rparr>, [])
          else
            let (added, removed) = diffSorted (rs_current r) next in
            (r\<lparr>rs_current := next\<rparr>, if (added \<noteq> [] \<or> removed \<noteq> []) \<and> rs_OnChange r then [(added, removed)] else [])
      | _ \<Rightarrow> (r\<lparr>rs_errs := rs_errs r + 1\<rparr>, []))"

primrec refreshes :: "lookup list \<Rightarrow> resolver \<Rightarrow> resolver \<times> (netaddr list \<times> netaddr list) list" where
  "refreshes [] r = (r, [])"
| "refreshes (lookup # lookups) r =
     (let (r, out) = refresh lookup r; (r, outs) = refreshes lookups r in (r, out @ outs))"

definition Current :: "resolver \<Rightarrow> netaddr list" where
  "Current r = rs_current r"

definition ResolveErrors :: "resolver \<Rightarrow> u64" where
  "ResolveErrors r = rs_errs r"

section \<open>Resolution\<close>

text \<open>The addresses an entry stands for.\<close>

definition answers :: "lookup \<Rightarrow> string \<Rightarrow> netaddr set" where
  "answers lookup e =
     (case ParseAddr e of
        Some a \<Rightarrow> if Is6 a \<and> \<not> Is4In6 a then {a} else {}
      | None \<Rightarrow> (case lookup e of Inr addrs \<Rightarrow> set addrs | Inl _ \<Rightarrow> {}))"

lemma resolveEntry_seen:
  "set (fst (resolveEntry lookup st e)) = set (fst st) \<union> answers lookup e" "distinct (fst (resolveEntry lookup st e)) = distinct (fst st)"
  by (auto simp: resolveEntry_def answers_def Unmap_def split: prod.splits option.splits sum.splits)

lemma resolve_fold:
  "set (fst (foldl (resolveEntry lookup) st entries)) = set (fst st) \<union> (\<Union>e \<in> set entries. answers lookup e)"
  "distinct (fst (foldl (resolveEntry lookup) st entries)) = distinct (fst st)"
  by (induction entries arbitrary: st) (simp_all add: resolveEntry_seen Un_assoc)

lemma resolveAll_Ok:
  assumes "resolveAll lookup entries = Ok xs"
  shows "set xs = (\<Union>e \<in> set entries. answers lookup e)" and "sorted_wrt (<) xs"
  using assms resolve_fold [of lookup "([], None)" entries]
  by (auto simp: resolveAll_def strict_sorted_iff split: prod.splits option.splits if_splits)

lemma resolveAll_some: "(\<Union>e \<in> set entries. answers lookup e) \<noteq> {} \<Longrightarrow> \<exists>xs. resolveAll lookup entries = Ok xs \<and> xs \<noteq> []"
proof -
  assume a: "(\<Union>e \<in> set entries. answers lookup e) \<noteq> {}"
  obtain seen err where f: "foldl (resolveEntry lookup) ([], None) entries = (seen, err)" by fastforce
  then have "seen \<noteq> []" using a resolve_fold(1) [of lookup "([], None)" entries] by auto
  then have "sort seen \<noteq> []" by (metis set_empty set_sort)
  then show ?thesis using f \<open>seen \<noteq> []\<close> by (cases err) (auto simp: resolveAll_def)
qed

section \<open>Differences\<close>

lemma diffSorted_filter:
  "sorted_wrt (<) prev \<Longrightarrow> sorted_wrt (<) new \<Longrightarrow>
   diffSorted prev new = (filter (\<lambda>a. a \<notin> set prev) new, filter (\<lambda>a. a \<notin> set new) prev)"
proof (induction prev new rule: diffSorted.induct)
  case (1 p prev n new)
  consider "p < n" | "n < p" | "p = n" by (rule linorder_cases)
  then show ?case
  proof cases
    case 1
    then have ne: "p \<notin> set (n # new)" using "1.prems"(2) by (auto dest: less_trans)
    then have "filter (\<lambda>a. a \<notin> set (p # prev)) (n # new) = filter (\<lambda>a. a \<notin> set prev) (n # new)" by (intro filter_cong) auto
    then show ?thesis using 1 ne "1.IH"(1) "1.prems" by simp
  next
    case 2
    then have ne: "n \<notin> set (p # prev)" using "1.prems"(1) by (auto dest: less_trans)
    then have "filter (\<lambda>a. a \<notin> set (n # new)) (p # prev) = filter (\<lambda>a. a \<notin> set new) (p # prev)" by (intro filter_cong) auto
    then show ?thesis using 2 ne "1.IH"(2) "1.prems" by (simp add: less_not_sym)
  next
    case 3
    then have "filter (\<lambda>a. a \<notin> set (p # prev)) new = filter (\<lambda>a. a \<notin> set prev) new"
      "filter (\<lambda>a. a \<notin> set (n # new)) prev = filter (\<lambda>a. a \<notin> set new) prev"
      using "1.prems" by (auto intro!: filter_cong)
    then show ?thesis using 3 "1.IH"(3) "1.prems" by simp
  qed
qed simp_all

section \<open>Properties\<close>

text \<open>What a follower of the callbacks holds: it leaves the removed and joins the added addresses.\<close>

definition follow :: "netaddr set \<Rightarrow> netaddr list \<times> netaddr list \<Rightarrow> netaddr set" where
  "follow S change = S - set (snd change) \<union> set (fst change)"

lemma refresh_step:
  assumes "sorted_wrt (<) (rs_current r)" and "rs_current r \<noteq> []" and "rs_OnChange r"
  shows "sorted_wrt (<) (rs_current (fst (refresh lookup r))) \<and> rs_current (fst (refresh lookup r)) \<noteq> [] \<and>
    rs_OnChange (fst (refresh lookup r)) \<and> rs_Entries (fst (refresh lookup r)) = rs_Entries r \<and>
    foldl follow (set (rs_current r)) (snd (refresh lookup r)) = set (rs_current (fst (refresh lookup r))) \<and>
    (let A = (\<Union>e \<in> set (rs_Entries r). answers lookup e) in
     set (rs_current (fst (refresh lookup r))) = (if A = {} then set (rs_current r) else A))"
proof (cases "\<exists>xs. resolveAll lookup (rs_Entries r) = Ok xs \<and> xs \<noteq> []")
  case True
  then obtain xs where xs: "resolveAll lookup (rs_Entries r) = Ok xs" "xs \<noteq> []" by blast
  note R = resolveAll_Ok [OF xs(1)]
  let ?A = "filter (\<lambda>a. a \<notin> set (rs_current r)) xs" and ?R = "filter (\<lambda>a. a \<notin> set xs) (rs_current r)"
  have f: "refresh lookup r = (r\<lparr>rs_current := xs\<rparr>, if ?A \<noteq> [] \<or> ?R \<noteq> [] then [(?A, ?R)] else [])"
    using xs assms(3) by (simp add: refresh_def diffSorted_filter [OF assms(1) R(2)] del: filter_empty_conv)
  have "foldl follow (set (rs_current r)) (snd (refresh lookup r)) = set xs"
  proof (cases "?A \<noteq> [] \<or> ?R \<noteq> []")
    case False
    then have "set (rs_current r) = set xs" by (auto simp: filter_empty_conv)
    then show ?thesis using f False by simp
  qed (auto simp: f follow_def)
  moreover have "(\<Union>e \<in> set (rs_Entries r). answers lookup e) \<noteq> {}" using xs(2) R(1) by (metis set_empty)
  moreover have "fst (refresh lookup r) = r\<lparr>rs_current := xs\<rparr>" by (simp add: f)
  ultimately show ?thesis using xs(2) R assms(3) unfolding Let_def by (simp only: if_False) simp
next
  case False
  then have "refresh lookup r = (r\<lparr>rs_errs := rs_errs r + 1\<rparr>, [])" by (auto simp: refresh_def split: res.splits)
  moreover have "(\<Union>e \<in> set (rs_Entries r). answers lookup e) = {}" using resolveAll_some False by blast
  ultimately show ?thesis using assms by simp
qed

text \<open>
  C35: the bootstrap resolver. It starts only with at least one address, namely all answers to its entries. Over any sequence of
  refreshes, whatever the lookups answer, the current set is never empty and strictly sorted, it is the set of all
  answers of the last refresh that had any, and whoever applies the reported changes in order holds exactly
  the current set.
\<close>

theorem resolver_tracks:
  assumes "Start lookup r = Ok (r0, out0)" and "rs_OnChange r" and "refreshes lookups r0 = (r', outs)"
  shows "Current r' \<noteq> [] \<and> sorted_wrt (<) (Current r') \<and> foldl follow {} (out0 @ outs) = set (Current r') \<and>
    (\<forall>l ls. lookups = ls @ [l] \<and> (\<Union>e \<in> set (rs_Entries r). answers l e) \<noteq> {} \<longrightarrow> set (Current r') = (\<Union>e \<in> set (rs_Entries r). answers l e)) \<and>
    (lookups = [] \<longrightarrow> set (Current r') = (\<Union>e \<in> set (rs_Entries r). answers lookup e))"
proof -
  obtain xs where xs: "resolveAll lookup (rs_Entries r) = Ok xs" "xs \<noteq> []" "rs_current r0 = xs" "out0 = [(xs, [])]" "rs_OnChange r0" "rs_Entries r0 = rs_Entries r"
    using assms(1,2) by (auto simp: Start_def Let_def rbind_Ok_iff split: if_splits)
  note R = resolveAll_Ok [OF xs(1)]
  define inv where "inv = (\<lambda>r :: resolver. sorted_wrt (<) (rs_current r) \<and> rs_current r \<noteq> [] \<and> rs_OnChange r \<and> rs_Entries r = rs_Entries r0)"
  have run: "inv ra \<Longrightarrow> refreshes ls ra = (rb, os) \<Longrightarrow> inv rb \<and> foldl follow (set (rs_current ra)) os = set (rs_current rb)" for ls ra rb os
  proof (induction ls arbitrary: ra os)
    case (Cons l ls)
    obtain os' where "refreshes ls (fst (refresh l ra)) = (rb, os')" "os = snd (refresh l ra) @ os'"
      using Cons.prems(2) by (auto split: prod.splits)
    moreover have "inv (fst (refresh l ra)) \<and> foldl follow (set (rs_current ra)) (snd (refresh l ra)) = set (rs_current (fst (refresh l ra)))"
      using refresh_step [of ra l] Cons.prems(1) by (auto simp: inv_def)
    ultimately show ?case using Cons.IH [of "fst (refresh l ra)" os'] by simp
  qed simp
  have i0: "inv r0" using xs R(2) by (simp add: inv_def)
  have "set (rs_current r') = (\<Union>e \<in> set (rs_Entries r). answers l e)"
    if "lookups = ls @ [l]" "(\<Union>e \<in> set (rs_Entries r). answers l e) \<noteq> {}" for l ls
  proof -
    have "fst (refreshes (ls @ [l]) ra) = fst (refresh l (fst (refreshes ls ra)))" for ra
      by (induction ls arbitrary: ra) (simp_all add: case_prod_beta Let_def)
    then have r': "r' = fst (refresh l (fst (refreshes ls r0)))" using assms(3) that(1) by (metis fst_conv)
    have "inv (fst (refreshes ls r0))" using run [OF i0, of ls] by (metis prod.collapse)
    then show ?thesis using refresh_step [of "fst (refreshes ls r0)" l] r' that(2) xs(6) by (simp add: inv_def Let_def)
  qed
  then show ?thesis using run [OF i0 assms(3)] xs R assms(3) by (auto simp: Current_def inv_def follow_def)
qed

theorem resolver_tracks_witness:
  "(case Start (\<lambda>_. Inl ''nxdomain'') \<lparr>rs_Entries = [''::1''], rs_Refresh = 0, rs_OnChange = True, rs_current = [], rs_errs = 0\<rparr> of
      Ok (r0, out0) \<Rightarrow> Current (fst (refreshes [\<lambda>_. Inl ''timeout''] r0)) \<noteq> []
    | _ \<Rightarrow> False)"
proof -
  let ?r = "\<lparr>rs_Entries = [''::1''], rs_Refresh = 0, rs_OnChange = True, rs_current = [], rs_errs = 0\<rparr>"
  have "ParseAddr ''::1'' = Some (Addr6 (replicate 15 0 @ [1]) [])" by code_simp
  moreover have "Is6 (Addr6 (replicate 15 0 @ [1]) [])" "\<not> Is4In6 (Addr6 (replicate 15 0 @ [1]) [])" by code_simp+
  ultimately have "answers (\<lambda>_. Inl ''nxdomain'') ''::1'' \<noteq> {}" by (simp add: answers_def)
  then obtain xs where "resolveAll (\<lambda>_. Inl ''nxdomain'') [''::1''] = Ok xs" "xs \<noteq> []"
    using resolveAll_some [of "\<lambda>_. Inl ''nxdomain''" "[''::1'']"] by auto
  then obtain r0 out0 where s: "Start (\<lambda>_. Inl ''nxdomain'') ?r = Ok (r0, out0)" by (simp add: Start_def)
  obtain r' outs where f: "refreshes [\<lambda>_. Inl ''timeout''] r0 = (r', outs)" by fastforce
  show ?thesis using resolver_tracks [OF s _ f] s f by simp
qed

end
