(* ===== verification/Teewire.thy ===== *)
theory Teewire
  imports Netip
begin

text \<open>
  The loopback tee envelope (\<^verbatim>\<open>teewire/teewire.go\<close>): a 24-byte header with the original source address and port in front of
  a mirrored datagram.
\<close>

abbreviation (input) TeeMagic :: u32 where "TeeMagic \<equiv> 0x54454531"
abbreviation (input) TeeVersion :: byte where "TeeVersion \<equiv> 1"
abbreviation (input) TeeHeaderSize :: nat where "TeeHeaderSize \<equiv> 24"

datatype tee_err = TeeTooShort | TeeBadMagic | TeeBadVersion

record addr_port =
  ap_Addr :: netaddr
  ap_Port :: u16

definition IsEncap :: "bytes \<Rightarrow> bool" where
  "IsEncap b \<longleftrightarrow> 4 \<le> length b \<and> BE_Uint32 (take 4 b) = TeeMagic"

definition AppendEncap :: "bytes \<Rightarrow> addr_port \<Rightarrow> bytes \<Rightarrow> (tee_err, bytes) res" where
  "AppendEncap dst src payload =
     rbind (run
       [putBE32 0 4 TeeMagic,
        put8 4 TeeVersion,
        put8 5 0,
        copyTo 6 22 (As16 (ap_Addr src)),
        putBE16 22 24 (ap_Port src)] (replicate TeeHeaderSize 0)) (\<lambda>hdr.
     Ok ((dst @ hdr) @ payload))"

definition Decap :: "bytes \<Rightarrow> (tee_err, addr_port \<times> bytes) res" where
  "Decap b =
     (if length b < TeeHeaderSize then Err TeeTooShort else
      rbind (BE32 b 0 4) (\<lambda>magic.
      if magic \<noteq> TeeMagic then Err TeeBadMagic else
      rbind (index b 4) (\<lambda>version.
      if version \<noteq> TeeVersion then Err TeeBadVersion else
      rbind (slice b 6 22) (\<lambda>a16.
      rbind (BE16 b 22 24) (\<lambda>port.
      rbind (slice b TeeHeaderSize (length b)) (\<lambda>payload.
      Ok (\<lparr>ap_Addr = AddrFrom16 a16, ap_Port = port\<rparr>, payload)))))))"

section \<open>Properties\<close>

definition tee_header :: "addr_port \<Rightarrow> bytes" where
  "tee_header src = BE_PutUint32 TeeMagic @ [TeeVersion] @ [0] @ As16 (ap_Addr src) @ BE_PutUint16 (ap_Port src)"

lemma AppendEncap_header:
  assumes "wf_addr (ap_Addr src)"
  shows "AppendEncap dst src payload = Ok (dst @ tee_header src @ payload)"
proof -
  let ?ss = "[BE_PutUint32 TeeMagic, [TeeVersion], [0], As16 (ap_Addr src), BE_PutUint16 (ap_Port src)]"
  have ws: "[putBE32 0 4 TeeMagic, put8 4 TeeVersion, put8 5 0, copyTo 6 22 (As16 (ap_Addr src)), putBE16 22 24 (ap_Port src)] = chunks 0 ?ss"
    by (simp add: writer_defs length_As16 [OF assms])
  show ?thesis
    unfolding AppendEncap_def ws by (subst run_chunks_exact) (simp_all add: length_As16 [OF assms] tee_header_def)
qed

lemma Decap_header:
  assumes "wf_addr (ap_Addr src)"
  shows "Decap (tee_header src @ payload) = Ok (\<lparr>ap_Addr = AddrFrom16 (As16 (ap_Addr src)), ap_Port = ap_Port src\<rparr>, payload)"
proof -
  have "take 4 (tee_header src @ payload) = BE_PutUint32 TeeMagic" "(tee_header src @ payload) ! 4 = TeeVersion" "length (tee_header src) = 24"
    "take 16 (drop 6 (tee_header src @ payload)) = As16 (ap_Addr src)" "take 2 (drop 22 (tee_header src @ payload)) = BE_PutUint16 (ap_Port src)"
    using length_As16 [OF assms] by (simp_all add: tee_header_def nth_append)
  then show ?thesis by (simp add: Decap_def)
qed

lemma Decap_Ok:
  assumes "Decap b = Ok (src, payload)"
  shows "b[5 := 0] = tee_header src @ payload \<and> IsEncap b \<and> (\<exists>a. length a = 16 \<and> ap_Addr src = Addr6 a [])"
proof -
  have l: "24 \<le> length b" and f: "BE_Uint32 (take 4 b) = TeeMagic" "b ! 4 = TeeVersion"
    "src = \<lparr>ap_Addr = AddrFrom16 (take 16 (drop 6 b)), ap_Port = BE_Uint16 (take 2 (drop 22 b))\<rparr>" "payload = drop 24 b"
    using assms by (auto simp: Decap_def split: if_splits)
  have "BE_PutUint32 TeeMagic = take 4 b" using f(1) l BE_Put_Uint(2) [of "take 4 b"] by simp
  moreover have "BE_PutUint16 (ap_Port src) = take 2 (drop 22 b)" using f(3) l BE_Put_Uint(1) [of "take 2 (drop 22 b)"] by simp
  ultimately have "tee_header src @ payload = take 4 b @ [b ! 4] @ [0] @ take 16 (drop 6 b) @ take 2 (drop 22 b) @ drop 24 b"
    using f by (simp add: tee_header_def AddrFrom16_def)
  also have "\<dots> = b[5 := 0]"
  proof -
    have "take 16 (drop 6 b) @ take 2 (drop 22 b) @ drop 24 b = drop 6 b"
      using append_take_drop_id [of 16 "drop 6 b"] append_take_drop_id [of 2 "drop 22 b"] by simp
    moreover have "take 4 b @ [b ! 4] = take 5 b" using l take_Suc_conv_app_nth [of 4 b] by (simp add: eval_nat_numeral)
    ultimately show ?thesis using l by (simp add: upd_conv_take_nth_drop)
  qed
  finally show ?thesis using f l by (simp add: IsEncap_def AddrFrom16_def)
qed

text \<open>
  The tee envelope keeps a mirrored datagram and its source. The envelope that is appended to a buffer is
  recognised and unwraps to the payload and the source as a 16-byte address, which is the source itself for an IPv6
  address without a zone. Whatever unwraps is the envelope of its result up to the reserved byte, and unwrapping never
  reads out of bounds.
\<close>

theorem tee_envelope:
  assumes "wf_addr (ap_Addr src)"
  shows "(\<exists>e. AppendEncap dst src payload = Ok (dst @ e) \<and> length e = 24 + length payload \<and> IsEncap e \<and>
       Decap e = Ok (\<lparr>ap_Addr = Addr6 (As16 (ap_Addr src)) [], ap_Port = ap_Port src\<rparr>, payload) \<and>
       (\<forall>a. ap_Addr src = Addr6 a [] \<longrightarrow> Decap e = Ok (src, payload))) \<and>
     (\<forall>b s p. Decap b = Ok (s, p) \<longrightarrow> AppendEncap [] s p = Ok (b[5 := 0]) \<and> Decap (b[5 := 0]) = Ok (s, p)) \<and>
     (\<forall>b. Decap b \<noteq> Panic)"
proof -
  have l: "length (tee_header src) = 24" using length_As16 [OF assms] by (simp add: tee_header_def)
  have e: "IsEncap (tee_header src @ payload)" by (simp add: IsEncap_def tee_header_def)
  have "AppendEncap [] s p = Ok (b[5 := 0]) \<and> Decap (b[5 := 0]) = Ok (s, p)" if d: "Decap b = Ok (s, p)" for b s p
  proof -
    obtain a where a: "length a = 16" "ap_Addr s = Addr6 a []" "b[5 := 0] = tee_header s @ p" using Decap_Ok [OF d] by blast
    then have "wf_addr (ap_Addr s)" by (simp add: wf_addr_def)
    then show ?thesis using a AppendEncap_header [of s "[]" p] Decap_header [of s p] by (cases s) (simp add: AddrFrom16_def)
  qed
  moreover have "Decap b \<noteq> Panic" for b by (auto simp: Decap_def)
  ultimately show ?thesis
    using AppendEncap_header [OF assms, of dst payload] Decap_header [OF assms, of payload] l e
    by (cases src) (auto simp: AddrFrom16_def)
qed

theorem tee_envelope_witness:
  "\<exists>e. AppendEncap [9] \<lparr>ap_Addr = Addr6 (replicate 16 3) [], ap_Port = 9000\<rparr> [1, 2] = Ok ([9] @ e) \<and> length e = 26 \<and>
     Decap e = Ok (\<lparr>ap_Addr = Addr6 (replicate 16 3) [], ap_Port = 9000\<rparr>, [1, 2])"
  using tee_envelope [of "\<lparr>ap_Addr = Addr6 (replicate 16 3) [], ap_Port = 9000\<rparr>" "[9]" "[1, 2]"] by (auto simp: wf_addr_def)

end
