(* ===== verification/Pow.thy ===== *)
theory Pow
  imports Sha256
begin

unbundle bit_operations_syntax

text \<open>
  Proof of work of a block header (\<^verbatim>\<open>pow/pow.go\<close>). A \<^verbatim>\<open>big.Int\<close> is an integer. The specification expands a compact target
  \<open>m\<close> with exponent \<open>e\<close> to \<open>m * 256^e div 256^3\<close>, without the two shifts of the source.
\<close>

abbreviation (input) PowHeaderSize :: nat where "PowHeaderSize \<equiv> 80"
abbreviation (input) nBitsOffset :: nat where "nBitsOffset \<equiv> 72"

definition HeaderHash :: "bytes \<Rightarrow> bytes" where
  "HeaderHash header = Sum256 (Sum256 header)"

definition NBits :: "bytes \<Rightarrow> ('e, u32) res" where
  "NBits header = rbind (slice header nBitsOffset (nBitsOffset + 4)) (\<lambda>s. Ok (LE_Uint32 s))"

definition CompactToTarget :: "u32 \<Rightarrow> int option" where
  "CompactToTarget nBits =
     (let exponent = drop_bit 24 nBits;
          mantissa = nBits AND 0x007FFFFF in
      if nBits AND 0x00800000 \<noteq> 0 then None
      else if mantissa = 0 then Some 0
      else
        let t = (if exponent \<le> 3
                 then uint (drop_bit (unat (8 * (3 - exponent))) (ucast mantissa :: u64))
                 else push_bit (8 * (unat exponent - 3)) (uint (ucast mantissa :: u64))) in
        if 2 ^ 256 \<le> t then None else Some t)"

definition littleEndianToBig :: "bytes \<Rightarrow> int" where
  "littleEndianToBig h = int (be_nat (map (\<lambda>i. h ! (31 - i)) [0..<32]))"

definition CheckHeader :: "bytes \<Rightarrow> int option \<Rightarrow> ('e, bool) res" where
  "CheckHeader header floor =
     (if length header \<noteq> PowHeaderSize then Ok False
      else
        rbind (NBits header) (\<lambda>nBits.
        case CompactToTarget nBits of
          None \<Rightarrow> Ok False
        | Some target \<Rightarrow>
            if target \<le> 0 then Ok False
            else if (case floor of Some f \<Rightarrow> f < target | None \<Rightarrow> False) then Ok False
            else Ok (littleEndianToBig (HeaderHash header) \<le> target)))"

section \<open>Targets\<close>

lemma mask_mantissa: "uint (w AND 0x007FFFFF :: u32) = uint w mod 2 ^ 23"
proof -
  have "(0x007FFFFF :: u32) = mask 23" by (simp add: mask_eq_exp_minus_1)
  then have "w AND 0x007FFFFF = take_bit 23 w" by (simp add: take_bit_eq_mask)
  then show ?thesis by (simp add: take_bit_eq_mod uint_mod)
qed

lemma sign_flag: "w AND 0x00800000 \<noteq> (0 :: u32) \<longleftrightarrow> bit w 23"
proof -
  have "(0x00800000 :: u32) = push_bit 23 1" by simp
  then have "w AND 0x00800000 \<noteq> 0 \<longleftrightarrow> w AND push_bit 23 1 \<noteq> 0" by simp
  then show ?thesis using bit_iff_and_push_bit_not_eq_0 [of w 23] by blast
qed

lemma exponent_value: "uint (drop_bit 24 w :: u32) = uint w div 2 ^ 24"
  by (simp add: drop_bit_eq_div uint_div)

text \<open>The target a compact value stands for.\<close>

definition target_of :: "int \<Rightarrow> int \<Rightarrow> int" where
  "target_of e m = m * 256 ^ nat e div 256 ^ 3"

lemma target_small: "0 \<le> e \<Longrightarrow> e \<le> 3 \<Longrightarrow> target_of e m = m div 256 ^ nat (3 - e)"
proof -
  assume "0 \<le> e" "e \<le> 3"
  then have "nat (3 - e) + nat e = 3" by linarith
  then have "(256 :: int) ^ 3 = 256 ^ nat (3 - e) * 256 ^ nat e" by (metis power_add)
  moreover have "m * 256 ^ nat e div (256 ^ nat (3 - e) * 256 ^ nat e) = m div 256 ^ nat (3 - e)" by (rule div_mult_mult2) simp
  ultimately show ?thesis by (simp only: target_of_def)
qed

lemma target_large: "3 < e \<Longrightarrow> target_of e m = m * 256 ^ nat (e - 3)"
proof -
  assume "3 < e"
  then have "nat (e - 3) + 3 = nat e" by linarith
  then have "(256 :: int) ^ nat e = 256 ^ nat (e - 3) * 256 ^ 3" by (metis power_add)
  then have "m * 256 ^ nat e = m * 256 ^ nat (e - 3) * 256 ^ 3" by (simp only: mult.assoc)
  then show ?thesis unfolding target_of_def by (simp only: nonzero_mult_div_cancel_right) simp
qed

lemma CompactToTarget_spec:
  "CompactToTarget nBits =
     (if bit nBits 23 \<or> 2 ^ 256 \<le> target_of (uint nBits div 2 ^ 24) (uint nBits mod 2 ^ 23) then None
      else Some (target_of (uint nBits div 2 ^ 24) (uint nBits mod 2 ^ 23)))"
proof -
  define e where "e = drop_bit 24 nBits"
  define m where "m = nBits AND 0x007FFFFF"
  have em: "uint nBits div 2 ^ 24 = uint e" "uint nBits mod 2 ^ 23 = uint m" by (simp_all add: e_def m_def exponent_value mask_mantissa)
  define t where "t = (if e \<le> 3 then uint (drop_bit (unat (8 * (3 - e))) (ucast m :: u64)) else push_bit (8 * (unat e - 3)) (uint (ucast m :: u64)))"
  have "uint m < 2 ^ 32" using unsigned_less [of m, where ?'a = int] by simp
  then have tm: "take_bit 64 (uint m) = uint m" by (intro take_bit_int_eq_self) simp_all
  then have um: "uint (ucast m :: u64) = uint m" by (simp add: unsigned_ucast_eq)
  have t: "t = target_of (uint e) (uint m)"
  proof (cases "e \<le> 3")
    case True
    have "unat e \<le> 3" using True by (simp add: word_le_nat_alt)
    define d where "d = 3 - e"
    have d: "unat d = 3 - unat e" using True by (simp add: d_def unat_sub)
    moreover have "3 - unat e < 536870912" by linarith
    ultimately have "unat (8 * d) = 8 * unat d" using unat_mult_lem [of 8 d] by simp
    then have "unat (8 * (3 - e)) = 8 * (3 - unat e)" unfolding d_def [symmetric] d .
    then have "t = drop_bit (8 * (3 - unat e)) (uint m)" using True um by (simp only: t_def unsigned_drop_bit_eq if_True) (simp add: tm)
    then have "t = uint m div 2 ^ (8 * (3 - unat e))" by (simp only: drop_bit_eq_div)
    moreover have "nat (3 - uint e) = 3 - unat e" using True by (subst nat_diff_distrib) (simp_all add: word_le_def)
    then have "(2 :: int) ^ (8 * (3 - unat e)) = 256 ^ nat (3 - uint e)" by (simp add: power_mult)
    ultimately show ?thesis using target_small [of "uint e" "uint m"] True by (simp add: word_le_def)
  next
    case False
    then have e3: "3 < uint e" by (simp add: word_le_def)
    have "(2 :: int) ^ (8 * (unat e - 3)) = 256 ^ nat (uint e - 3)" using e3 by (simp add: power_mult nat_diff_distrib)
    then show ?thesis using target_large [OF e3, of "uint m"] False um by (simp add: t_def push_bit_eq_mult)
  qed
  have z: "m = 0 \<Longrightarrow> t = 0" by (simp add: t target_of_def)
  show ?thesis unfolding em t [symmetric] CompactToTarget_def Let_def e_def [symmetric] m_def [symmetric] t_def [symmetric] sign_flag using z by (simp split del: if_split cong: if_cong) (cases "bit nBits 23"; cases "m = 0"; simp)
qed

section \<open>Properties\<close>

lemma littleEndianToBig_spec: "length h = 32 \<Longrightarrow> littleEndianToBig h = int (be_nat (rev h))"
proof -
  assume "length h = 32"
  then have "map (\<lambda>i. h ! (31 - i)) [0..<32] = rev h" by (intro nth_equalityI) (simp_all add: rev_nth)
  then show ?thesis by (simp only: littleEndianToBig_def)
qed

text \<open>
  C34: the proof-of-work check. A header is accepted exactly if it has 80 bytes and its double SHA-256, read as a little-endian
  number, is at most the target that its compact field stands for, the target being positive, not flagged
  negative, within 256 bits and no easier than the floor. So an accepted hash is at most the floor, a harder floor never
  accepts more, and the check never fails to return.
\<close>

theorem check_header_sound:
  "\<exists>ok. CheckHeader header floor = (Ok ok :: ('e, bool) res) \<and>
     (ok \<longleftrightarrow> length header = 80 \<and> \<not> bit (LE_Uint32 (take 4 (drop 72 header))) 23 \<and>
       (let nBits = uint (LE_Uint32 (take 4 (drop 72 header))); t = nBits mod 2 ^ 23 * 256 ^ nat (nBits div 2 ^ 24) div 256 ^ 3 in
        0 < t \<and> t < 2 ^ 256 \<and> (\<forall>f. floor = Some f \<longrightarrow> t \<le> f) \<and> int (be_nat (rev (Sum256 (Sum256 header)))) \<le> t)) \<and>
     (\<forall>f. ok \<and> floor = Some f \<longrightarrow> int (be_nat (rev (Sum256 (Sum256 header)))) \<le> f) \<and>
     (\<forall>f g. ok \<and> floor = Some f \<and> f \<le> g \<longrightarrow> CheckHeader header (Some g) = (Ok True :: ('e, bool) res))"
proof -
  define w where "w = LE_Uint32 (take 4 (drop 72 header))"
  define t where "t = target_of (uint w div 2 ^ 24) (uint w mod 2 ^ 23)"
  define h where "h = int (be_nat (rev (Sum256 (Sum256 header))))"
  define accept where "accept fl \<longleftrightarrow> length header = 80 \<and> \<not> bit w 23 \<and> 0 < t \<and> t < 2 ^ 256 \<and> (\<forall>f. fl = Some f \<longrightarrow> t \<le> f) \<and> h \<le> t" for fl :: "int option"
  have c: "CheckHeader header fl = (Ok (accept fl) :: ('e, bool) res)" for fl
  proof (cases "length header = 80 \<and> \<not> bit w 23 \<and> t < 2 ^ 256")
    case True
    then have "NBits header = (Ok w :: ('e, u32) res)" "CompactToTarget w = Some t" by (simp_all add: NBits_def w_def CompactToTarget_spec t_def)
    then show ?thesis using True by (cases fl) (auto simp: CheckHeader_def accept_def h_def HeaderHash_def littleEndianToBig_spec)
  next
    case False
    then have "length header = 80 \<Longrightarrow> NBits header = (Ok w :: ('e, u32) res) \<and> CompactToTarget w = None" by (auto simp: NBits_def w_def CompactToTarget_spec t_def)
    then show ?thesis using False by (auto simp: CheckHeader_def accept_def)
  qed
  show ?thesis
    unfolding w_def [symmetric] Let_def target_of_def [symmetric] t_def [symmetric] h_def [symmetric] c by (auto simp: accept_def)
qed

theorem check_header_sound_witness:
  "CheckHeader (replicate 72 0 @ [6, 0, 0, 3] @ replicate 4 0) (Some 5) = (Ok False :: (unit, bool) res)"
proof -
  have "LE_Uint32 [6, 0, 0, 3] = 0x03000006" by (simp add: LE_Uint32_def BE_Uint32_def)
  then show ?thesis using check_header_sound [of "replicate 72 0 @ [6, 0, 0, 3] @ replicate 4 0" "Some 5", where 'e = unit] by (auto simp: Let_def)
qed

end
