(* ===== verification/Netjoin.thy ===== *)
theory Netjoin
  imports Netip
begin

text \<open>
  The multicast join helpers (\<^verbatim>\<open>netjoin/\<close>). The kernel is a parameter \<open>sys\<close>: it maps a \<^verbatim>\<open>setsockopt\<close> call and its state to an error
  number or success and a new state. The request structures are given as the bytes that the kernel reads, for a
  little-endian machine. \<open>goos\<close> selects between the two files with the layout of a socket address; the BSDs differ in
  the number of the address family.

  The rate limiter is a state machine over its bucket: ticks, acquisitions and the stop of the ticker are its steps.
\<close>

section \<open>Requests\<close>

datatype goos = Linux | BSD byte

datatype sockopt = IPV6_JOIN_GROUP | IPV6_LEAVE_GROUP | MCAST_JOIN_SOURCE_GROUP | MCAST_LEAVE_SOURCE_GROUP

record ipv6_mreq =
  mr_Multiaddr :: bytes
  mr_Interface :: u32

datatype sock_call = SetsockoptIPv6Mreq int sockopt ipv6_mreq | SetsockoptRaw int sockopt bytes

type_synonym 'k kernel = "sock_call \<Rightarrow> 'k \<Rightarrow> nat option \<times> 'k"

datatype join_err = GroupNotIPv6 netaddr | SourceNotIPv6 netaddr | ASMFailed nat | SSMFailed netaddr netaddr nat

definition LE_PutUint32 :: "u32 \<Rightarrow> bytes" where
  "LE_PutUint32 w = rev (BE_PutUint32 w)"

definition AsSlice :: "netaddr \<Rightarrow> bytes" where
  "AsSlice a = (case a of AddrZero \<Rightarrow> [] | Addr4 b \<Rightarrow> b | Addr6 b z \<Rightarrow> b)"

definition putSockaddrIn6 :: "goos \<Rightarrow> netaddr \<Rightarrow> bytes \<Rightarrow> ('e, bytes) res" where
  "putSockaddrIn6 os addr buf =
     (case os of
        Linux \<Rightarrow> run [copyTo 0 2 [10, 0], copyTo 8 24 (As16 addr)] buf
      | BSD af \<Rightarrow> run [put8 0 28, put8 1 af, copyTo 8 24 (As16 addr)] buf)"

definition multicastReq :: "int \<Rightarrow> netaddr \<Rightarrow> ipv6_mreq" where
  "multicastReq ifaceIdx grp =
     \<lparr>mr_Multiaddr = take 16 (AsSlice grp) @ drop (length (AsSlice grp)) (replicate 16 0), mr_Interface = word_of_int ifaceIdx\<rparr>"

definition joinASM :: "'k kernel \<Rightarrow> int \<Rightarrow> int \<Rightarrow> netaddr \<Rightarrow> 'k \<Rightarrow> nat option \<times> 'k" where
  "joinASM sys fd ifaceIdx grp = sys (SetsockoptIPv6Mreq fd IPV6_JOIN_GROUP (multicastReq ifaceIdx grp))"

definition leaveASM :: "'k kernel \<Rightarrow> int \<Rightarrow> int \<Rightarrow> netaddr \<Rightarrow> 'k \<Rightarrow> nat option \<times> 'k" where
  "leaveASM sys fd ifaceIdx grp = sys (SetsockoptIPv6Mreq fd IPV6_LEAVE_GROUP (multicastReq ifaceIdx grp))"

definition groupSourceReq :: "goos \<Rightarrow> int \<Rightarrow> netaddr \<Rightarrow> netaddr \<Rightarrow> ('e, bytes) res" where
  "groupSourceReq os ifaceIdx grp source =
     rbind (putSockaddrIn6 os grp (replicate 128 0)) (\<lambda>g.
     rbind (putSockaddrIn6 os source (replicate 128 0)) (\<lambda>s.
     Ok (LE_PutUint32 (word_of_int ifaceIdx) @ replicate 4 0 @ g @ s)))"

definition ssmSetsockopt :: "goos \<Rightarrow> 'k kernel \<Rightarrow> int \<Rightarrow> int \<Rightarrow> netaddr \<Rightarrow> netaddr \<Rightarrow> sockopt \<Rightarrow> 'k \<Rightarrow> (join_err, nat option \<times> 'k) res" where
  "ssmSetsockopt os sys fd ifaceIdx grp source opt k =
     rbind (groupSourceReq os ifaceIdx grp source) (\<lambda>gsr. Ok (sys (SetsockoptRaw fd opt gsr) k))"

definition joinSSM :: "goos \<Rightarrow> 'k kernel \<Rightarrow> int \<Rightarrow> int \<Rightarrow> netaddr \<Rightarrow> netaddr \<Rightarrow> 'k \<Rightarrow> (join_err, nat option \<times> 'k) res" where
  "joinSSM os sys fd ifaceIdx grp source = ssmSetsockopt os sys fd ifaceIdx grp source MCAST_JOIN_SOURCE_GROUP"

definition leaveSSM :: "goos \<Rightarrow> 'k kernel \<Rightarrow> int \<Rightarrow> int \<Rightarrow> netaddr \<Rightarrow> netaddr \<Rightarrow> 'k \<Rightarrow> (join_err, nat option \<times> 'k) res" where
  "leaveSSM os sys fd ifaceIdx grp source = ssmSetsockopt os sys fd ifaceIdx grp source MCAST_LEAVE_SOURCE_GROUP"

text \<open>The loop over the sources, with the system call of one source as a parameter.\<close>

primrec eachSource :: "(netaddr \<Rightarrow> 'k \<Rightarrow> (join_err, nat option \<times> 'k) res) \<Rightarrow> netaddr \<Rightarrow> netaddr list \<Rightarrow> 'k \<Rightarrow> (join_err, unit) res \<times> 'k" where
  "eachSource op grp [] k = (Ok (), k)"
| "eachSource op grp (src # srcs) k =
     (if \<not> Is6 src then (Err (SourceNotIPv6 src), k)
      else
        case op src k of
          Ok (None, k') \<Rightarrow> eachSource op grp srcs k'
        | Ok (Some errno, k') \<Rightarrow> (Err (SSMFailed src grp errno), k')
        | Err e \<Rightarrow> (Err e, k)
        | Panic \<Rightarrow> (Panic, k))"

definition Join :: "goos \<Rightarrow> 'k kernel \<Rightarrow> int \<Rightarrow> int \<Rightarrow> netaddr \<Rightarrow> netaddr list \<Rightarrow> 'k \<Rightarrow> (join_err, unit) res \<times> 'k" where
  "Join os sys fd ifaceIdx grp sources k =
     (if \<not> Is6 grp then (Err (GroupNotIPv6 grp), k)
      else if sources = [] then
        (case joinASM sys fd ifaceIdx grp k of (None, k') \<Rightarrow> (Ok (), k') | (Some errno, k') \<Rightarrow> (Err (ASMFailed errno), k'))
      else eachSource (joinSSM os sys fd ifaceIdx grp) grp sources k)"

definition Leave :: "goos \<Rightarrow> 'k kernel \<Rightarrow> int \<Rightarrow> int \<Rightarrow> netaddr \<Rightarrow> netaddr list \<Rightarrow> 'k \<Rightarrow> (join_err, unit) res \<times> 'k" where
  "Leave os sys fd ifaceIdx grp sources k =
     (if \<not> Is6 grp then (Err (GroupNotIPv6 grp), k)
      else if sources = [] then
        (case leaveASM sys fd ifaceIdx grp k of (None, k') \<Rightarrow> (Ok (), k') | (Some errno, k') \<Rightarrow> (Err (ASMFailed errno), k'))
      else eachSource (leaveSSM os sys fd ifaceIdx grp) grp sources k)"

section \<open>Jitter\<close>

text \<open>
  The wait before a burst of joins: when \<^verbatim>\<open>Jitter\<close>, called at \<open>t\<close>, returns, given the time at which the context is done, if ever. The random
  source is a parameter; \<^verbatim>\<open>rand.Int64N\<close> panics unless its argument is positive, and otherwise is at least zero and below it.
\<close>

definition rand_Int64N :: "(int \<Rightarrow> int) \<Rightarrow> int \<Rightarrow> ('e, int) res" where
  "rand_Int64N draw n = (if n \<le> 0 then Panic else Ok (draw n))"

definition Jitter :: "(int \<Rightarrow> int) \<Rightarrow> instant option \<Rightarrow> duration \<Rightarrow> instant \<Rightarrow> ('e, instant) res" where
  "Jitter draw ctxDone most t =
     (if most \<le> 0 then Ok t
      else rbind (rand_Int64N draw most) (\<lambda>d.
        Ok (case ctxDone of None \<Rightarrow> t + d | Some u \<Rightarrow> min (t + d) (max t u))))"

lemma Jitter_bounds:
  assumes "0 < most \<Longrightarrow> 0 \<le> draw most \<and> draw most < most"
  shows "\<exists>t'. Jitter draw ctxDone most t = Ok t' \<and> t \<le> t' \<and> t' \<le> t + max 0 (most - 1) \<and> (\<forall>u. ctxDone = Some u \<longrightarrow> t' \<le> max t u)"
  using assms by (auto simp: Jitter_def rand_Int64N_def min_def max_def not_le split: option.split)

section \<open>The limiter\<close>

record limiter =
  lim_capacity :: nat
  lim_bucket :: nat
  lim_stopped :: bool

text \<open>A ticker needs a positive interval; the bucket starts full.\<close>

definition NewLimiter :: "int \<Rightarrow> ('e, limiter option) res" where
  "NewLimiter perSecond =
     (if perSecond \<le> 0 then Ok None
      else if Second div perSecond \<le> 0 then Panic
      else Ok (Some \<lparr>lim_capacity = nat perSecond, lim_bucket = nat perSecond, lim_stopped = False\<rparr>))"

text \<open>One tick of the refill goroutine. A tick that meets the stop signal may be taken or dropped.\<close>

definition refill :: "bool \<Rightarrow> limiter \<Rightarrow> limiter" where
  "refill drops l =
     (if lim_stopped l \<and> drops then l
      else if lim_bucket l < lim_capacity l then l\<lparr>lim_bucket := lim_bucket l + 1\<rparr> else l)"

text \<open>
  \<open>None\<close> is a call that blocks. When a token is there and the context is done, either branch of the \<^verbatim>\<open>select\<close> may be
  taken: \<open>prefersToken\<close> tells which.
\<close>

definition Acquire :: "bool \<Rightarrow> bool \<Rightarrow> limiter option \<Rightarrow> (bool \<times> limiter option) option" where
  "Acquire done prefersToken lim =
     (case lim of
        None \<Rightarrow> Some (True, None)
      | Some l \<Rightarrow>
          if 0 < lim_bucket l \<and> (\<not> done \<or> prefersToken) then Some (True, Some (l\<lparr>lim_bucket := lim_bucket l - 1\<rparr>))
          else if done then Some (False, Some l)
          else None)"

definition Stop :: "limiter option \<Rightarrow> ('e, limiter option) res" where
  "Stop lim =
     (case lim of
        None \<Rightarrow> Ok None
      | Some l \<Rightarrow> if lim_stopped l then Panic else Ok (Some (l\<lparr>lim_stopped := True\<rparr>)))"

section \<open>Properties of joins\<close>

text \<open>
  The requests a join or leave makes, a run of requests up to the first failure, and the answer to expect from whether all
  were performed: the loop stops at the first source that is not IPv6.
\<close>

definition sockaddr_bytes :: "goos \<Rightarrow> netaddr \<Rightarrow> bytes" where
  "sockaddr_bytes os a = (case os of Linux \<Rightarrow> [10, 0] | BSD af \<Rightarrow> [28, af]) @ replicate 6 0 @ As16 a @ replicate 104 0"

definition gsr_bytes :: "goos \<Rightarrow> int \<Rightarrow> netaddr \<Rightarrow> netaddr \<Rightarrow> bytes" where
  "gsr_bytes os ifaceIdx grp source = LE_PutUint32 (word_of_int ifaceIdx) @ replicate 4 0 @ sockaddr_bytes os grp @ sockaddr_bytes os source"

definition requests :: "goos \<Rightarrow> sockopt \<Rightarrow> sockopt \<Rightarrow> int \<Rightarrow> int \<Rightarrow> netaddr \<Rightarrow> netaddr list \<Rightarrow> sock_call list" where
  "requests os asm ssm fd ifaceIdx grp sources =
     (if sources = [] then [SetsockoptIPv6Mreq fd asm \<lparr>mr_Multiaddr = As16 grp, mr_Interface = word_of_int ifaceIdx\<rparr>]
      else map (\<lambda>s. SetsockoptRaw fd ssm (gsr_bytes os ifaceIdx grp s)) (takeWhile Is6 sources))"

primrec perform :: "'k kernel \<Rightarrow> sock_call list \<Rightarrow> 'k \<Rightarrow> bool \<times> 'k" where
  "perform sys [] k = (True, k)"
| "perform sys (c # cs) k = (case sys c k of (None, k') \<Rightarrow> perform sys cs k' | (Some _, k') \<Rightarrow> (False, k'))"

definition answers :: "(join_err, unit) res \<Rightarrow> netaddr \<Rightarrow> netaddr list \<Rightarrow> bool \<Rightarrow> bool" where
  "answers r grp sources performed \<longleftrightarrow>
     (if performed then r = (case dropWhile Is6 sources of [] \<Rightarrow> Ok () | s # _ \<Rightarrow> Err (SourceNotIPv6 s))
      else \<exists>errno. r = Err (ASMFailed errno) \<or> (\<exists>s \<in> set sources. r = Err (SSMFailed s grp errno)))"

lemma putSockaddrIn6_bytes:
  assumes "wf_addr a"
  shows "putSockaddrIn6 os a (replicate 128 0) = Ok (sockaddr_bytes os a)"
proof -
  have l: "length (As16 a) = 16" by (rule length_As16 [OF assms])
  show ?thesis
  proof (cases os)
    case Linux
    then show ?thesis using l by (simp add: putSockaddrIn6_def sockaddr_bytes_def copyTo_def)
  next
    case (BSD af)
    have "(replicate 128 (0 :: byte))[0 := 28, Suc 0 := af] = [28, af] @ replicate 126 0" by (simp add: numeral_eq_Suc)
    then show ?thesis using BSD l by (simp add: putSockaddrIn6_def sockaddr_bytes_def copyTo_def put8_def)
  qed
qed

lemma multicastReq_bytes: "wf_addr a \<Longrightarrow> Is6 a \<Longrightarrow> multicastReq i a = \<lparr>mr_Multiaddr = As16 a, mr_Interface = word_of_int i\<rparr>"
  by (auto simp: multicastReq_def AsSlice_def Is6_def wf_addr_def split: netaddr.splits)

lemma answers_Cons: "Is6 s \<Longrightarrow> answers r grp srcs p \<Longrightarrow> answers r grp (s # srcs) p"
  by (auto simp: answers_def split: if_splits)

lemma eachSource_perform:
  assumes "\<And>s k. s \<in> set srcs \<Longrightarrow> Is6 s \<Longrightarrow> op s k = Ok (sys (call s) k)"
  shows "answers (fst (eachSource op grp srcs k)) grp srcs (fst (perform sys (map call (takeWhile Is6 srcs)) k)) \<and>
    snd (eachSource op grp srcs k) = snd (perform sys (map call (takeWhile Is6 srcs)) k)"
  using assms
proof (induction srcs arbitrary: k)
  case (Cons s srcs)
  obtain r k' where r: "sys (call s) k = (r, k')" by fastforce
  show ?case
  proof (cases "Is6 s \<and> r = None")
    case True
    then show ?thesis using Cons.IH [of k'] Cons.prems r by (simp add: answers_Cons)
  next
    case False
    then show ?thesis using Cons.prems r by (cases "Is6 s") (auto simp: answers_def)
  qed
qed (simp add: answers_def)

lemma ssm_request: "wf_addr grp \<Longrightarrow> wf_addr s \<Longrightarrow> ssmSetsockopt os sys fd i grp s opt k = Ok (sys (SetsockoptRaw fd opt (gsr_bytes os i grp s)) k)"
  by (simp add: ssmSetsockopt_def groupSourceReq_def putSockaddrIn6_bytes gsr_bytes_def)

text \<open>What the kernel finds at the offsets of \<^verbatim>\<open>struct group_source_req\<close>.\<close>

lemma gsr_layout:
  assumes "wf_addr grp" and "wf_addr s"
  shows "length (gsr_bytes os i grp s) = 264 \<and> LE_Uint32 (take 4 (gsr_bytes os i grp s)) = word_of_int i \<and>
    take 16 (drop 16 (gsr_bytes os i grp s)) = As16 grp \<and> take 16 (drop 144 (gsr_bytes os i grp s)) = As16 s \<and>
    take 2 (drop 8 (gsr_bytes os i grp s)) = (case os of Linux \<Rightarrow> [10, 0] | BSD af \<Rightarrow> [28, af]) \<and>
    take 2 (drop 136 (gsr_bytes os i grp s)) = (case os of Linux \<Rightarrow> [10, 0] | BSD af \<Rightarrow> [28, af])"
  using length_As16 [OF assms(1)] length_As16 [OF assms(2)]
  by (cases os) (simp_all add: gsr_bytes_def sockaddr_bytes_def LE_PutUint32_def LE_Uint32_def)

text \<open>
  C36: joining and leaving an IPv6 group. \<^verbatim>\<open>Join\<close> makes exactly the requests of its
  mode in order: one for the group if there are no sources, and otherwise one per source up to the first source that is not IPv6. It stops at the first
  request that fails, with its error. If none fails, it succeeds exactly if every source is IPv6, and otherwise refuses the first
  that is not, when the requests for the sources before it have been made. \<^verbatim>\<open>Leave\<close> mirrors it with the
  leave options. Each source request has the size and the offsets of the kernel's structure, with interface, group and
  source where the kernel reads them. A group that is not IPv6 is refused before any request.
\<close>

theorem join_requests:
  assumes "wf_addr grp" and "Is6 grp" and "\<forall>s \<in> set sources. wf_addr s" and "\<not> Is6 other"
    and "joins = requests os IPV6_JOIN_GROUP MCAST_JOIN_SOURCE_GROUP fd i grp sources"
    and "leaves = requests os IPV6_LEAVE_GROUP MCAST_LEAVE_SOURCE_GROUP fd i grp sources"
  shows "answers (fst (Join os sys fd i grp sources k)) grp sources (fst (perform sys joins k)) \<and>
     snd (Join os sys fd i grp sources k) = snd (perform sys joins k) \<and>
     answers (fst (Leave os sys fd i grp sources k)) grp sources (fst (perform sys leaves k)) \<and>
     snd (Leave os sys fd i grp sources k) = snd (perform sys leaves k) \<and>
     (\<forall>s \<in> set sources. length (gsr_bytes os i grp s) = 264 \<and> LE_Uint32 (take 4 (gsr_bytes os i grp s)) = word_of_int i \<and>
        take 16 (drop 16 (gsr_bytes os i grp s)) = As16 grp \<and> take 16 (drop 144 (gsr_bytes os i grp s)) = As16 s) \<and>
     Join os sys fd i other sources k = (Err (GroupNotIPv6 other), k) \<and> Leave os sys fd i other sources k = (Err (GroupNotIPv6 other), k)"
proof -
  have asm: "joinASM sys fd i grp k = sys (SetsockoptIPv6Mreq fd IPV6_JOIN_GROUP \<lparr>mr_Multiaddr = As16 grp, mr_Interface = word_of_int i\<rparr>) k"
    "leaveASM sys fd i grp k = sys (SetsockoptIPv6Mreq fd IPV6_LEAVE_GROUP \<lparr>mr_Multiaddr = As16 grp, mr_Interface = word_of_int i\<rparr>) k"
    using multicastReq_bytes [OF assms(1,2)] by (simp_all add: joinASM_def leaveASM_def)
  have "answers (fst (Join os sys fd i grp sources k)) grp sources (fst (perform sys joins k)) \<and> snd (Join os sys fd i grp sources k) = snd (perform sys joins k)"
    using eachSource_perform [of sources "joinSSM os sys fd i grp" sys "\<lambda>s. SetsockoptRaw fd MCAST_JOIN_SOURCE_GROUP (gsr_bytes os i grp s)" grp k] assms(1-3)
    by (cases "sources = []") (auto simp: Join_def assms(5) requests_def answers_def [of _ grp "[]"] asm joinSSM_def ssm_request split: prod.split option.split)
  moreover have "answers (fst (Leave os sys fd i grp sources k)) grp sources (fst (perform sys leaves k)) \<and> snd (Leave os sys fd i grp sources k) = snd (perform sys leaves k)"
    using eachSource_perform [of sources "leaveSSM os sys fd i grp" sys "\<lambda>s. SetsockoptRaw fd MCAST_LEAVE_SOURCE_GROUP (gsr_bytes os i grp s)" grp k] assms(1-3)
    by (cases "sources = []") (auto simp: Leave_def assms(6) requests_def answers_def [of _ grp "[]"] asm leaveSSM_def ssm_request split: prod.split option.split)
  ultimately show ?thesis using gsr_layout [OF assms(1)] assms(3,4) by (simp add: Join_def Leave_def)
qed

theorem join_requests_witness:
  "Join Linux (\<lambda>c n. (None, n + 1)) 3 2 (Addr6 (replicate 16 255) []) [Addr6 (replicate 16 1) [], Addr4 (replicate 4 2), Addr6 (replicate 16 3) []] (0 :: nat) =
     (Err (SourceNotIPv6 (Addr4 (replicate 4 2))), 1)"
  using join_requests [of "Addr6 (replicate 16 255) []" "[Addr6 (replicate 16 1) [], Addr4 (replicate 4 2), Addr6 (replicate 16 3) []]" AddrZero _ Linux 3 2
    _ "\<lambda>c n. (None, n + 1)" "0 :: nat", OF _ _ _ _ refl refl]
  by (simp add: wf_addr_def Is6_def requests_def answers_def prod_eq_iff)

section \<open>Properties of the limiter\<close>

datatype lim_event = Tick bool | Take bool bool | Halt

text \<open>A step gives the number of acquisitions it grants, none or one. A blocked call leaves the limiter as it is.\<close>

primrec lim_step :: "lim_event \<Rightarrow> limiter \<Rightarrow> nat \<times> limiter" where
  "lim_step (Tick drops) l = (0, refill drops l)"
| "lim_step (Take done prefersToken) l =
     (case Acquire done prefersToken (Some l) of Some (True, Some l') \<Rightarrow> (1, l') | _ \<Rightarrow> (0, l))"
| "lim_step Halt l = (case Stop (Some l) :: (unit, limiter option) res of Ok (Some l') \<Rightarrow> (0, l') | _ \<Rightarrow> (0, l))"

primrec lim_run :: "lim_event list \<Rightarrow> limiter \<Rightarrow> nat \<times> limiter" where
  "lim_run [] l = (0, l)"
| "lim_run (e # es) l = (let (n, l) = lim_step e l; (m, l) = lim_run es l in (n + m, l))"

definition ticks :: "lim_event list \<Rightarrow> nat" where
  "ticks es = length (filter (\<lambda>e. case e of Tick _ \<Rightarrow> True | _ \<Rightarrow> False) es)"

lemma lim_step_bound:
  assumes "lim_step e l = (n, l')" and "lim_bucket l \<le> lim_capacity l"
  shows "n + lim_bucket l' \<le> lim_bucket l + ticks [e] \<and> lim_bucket l' \<le> lim_capacity l' \<and> lim_capacity l' = lim_capacity l"
  using assms by (cases e) (auto simp: refill_def Acquire_def Stop_def ticks_def split: if_splits)

lemma lim_run_bound:
  "lim_run es l = (n, l') \<Longrightarrow> lim_bucket l \<le> lim_capacity l \<Longrightarrow>
   n + lim_bucket l' \<le> lim_bucket l + ticks es \<and> lim_bucket l' \<le> lim_capacity l' \<and> lim_capacity l' = lim_capacity l"
proof (induction es arbitrary: l n)
  case (Cons e es)
  obtain n1 l1 where s: "lim_step e l = (n1, l1)" by fastforce
  obtain n2 where r: "lim_run es l1 = (n2, l')" "n = n1 + n2" using Cons.prems(1) s by (auto split: prod.splits)
  have "ticks (e # es) = ticks [e] + ticks es" by (simp add: ticks_def)
  then show ?case using Cons.IH [OF r(1)] lim_step_bound [OF s Cons.prems(2)] r(2) by linarith
qed (simp add: ticks_def)

text \<open>
  C37: the join limiter. A rate between one and a thousand million per second gives a limiter, zero and less none, and a higher rate
  panics when its ticker is created. In every sequence of ticks, acquisitions and stops the number of granted acquisitions
  is at most the burst plus the number of ticks, the bucket never holds more than the burst, and after a tick an
  acquisition does not block.
\<close>

theorem limiter_rate:
  assumes "1 \<le> perSecond" and "perSecond \<le> 1000000000" and "1000000000 < huge" and "none \<le> 0"
  shows "(\<exists>l. NewLimiter perSecond = (Ok (Some l) :: ('e, limiter option) res) \<and>
       (let (granted, l') = lim_run es l in
        int granted \<le> perSecond + int (ticks es) \<and> int (lim_bucket l') \<le> perSecond \<and>
        (\<exists>l''. Acquire False p (Some (refill False l')) = Some (True, Some l'')))) \<and>
     NewLimiter huge = (Panic :: ('e, limiter option) res) \<and> NewLimiter none = (Ok None :: ('e, limiter option) res)"
proof -
  let ?l = "\<lparr>lim_capacity = nat perSecond, lim_bucket = nat perSecond, lim_stopped = False\<rparr>"
  obtain n l' where r: "lim_run es ?l = (n, l')" by fastforce
  have b: "n + lim_bucket l' \<le> nat perSecond + ticks es" "lim_bucket l' \<le> lim_capacity l'" "lim_capacity l' = nat perSecond"
    using lim_run_bound [OF r] by simp_all
  have "Second div perSecond \<ge> 1" using assms(1,2) zdiv_mono2 [of Second perSecond Second] by simp
  then have "NewLimiter perSecond = (Ok (Some ?l) :: ('e, limiter option) res)" using assms(1) by (simp add: NewLimiter_def)
  moreover have "0 < lim_bucket (refill False l')" using b(2,3) assms(1) by (simp add: refill_def)
  ultimately show ?thesis using b assms r by (auto simp: Acquire_def NewLimiter_def Let_def)
qed

theorem limiter_rate_witness: "fst (lim_run [Take False True, Take False True, Take False True, Tick False, Take False True]
    \<lparr>lim_capacity = 2, lim_bucket = 2, lim_stopped = False\<rparr>) \<le> 3"
  using limiter_rate [of 2 2000000000 0 "[Take False True, Take False True, Take False True, Tick False, Take False True]" True, where 'e = unit]
  by (auto simp: NewLimiter_def ticks_def split: prod.splits)

end
