(* ===== verification/Sequence.thy ===== *)
theory Sequence
  imports Shard
begin

text \<open>
  The per-shard sequence counters of \<^verbatim>\<open>sequence/sequence.go\<close>. A counter is a 64-bit word and an atomic add one step, so
  that a schedule of concurrent calls is a sequence of calls. The property composes the counters with the engine of
  \<^verbatim>\<open>shard/shard.go\<close> that picks the shard of a transaction.
\<close>

record counters =
  cs_slots :: "u64 list"

definition NewCounters :: "u32 \<Rightarrow> counters" where
  "NewCounters numShards = \<lparr>cs_slots = replicate (unat numShards) 0\<rparr>"

definition Counters_Next :: "u32 \<Rightarrow> counters \<Rightarrow> ('e, u64 \<times> counters) res" where
  "Counters_Next shardIdx c =
     (if unat shardIdx < length (cs_slots c) then
        let v = cs_slots c ! unat shardIdx + 1 in
        Ok (v - 1, c\<lparr>cs_slots := (cs_slots c)[unat shardIdx := v]\<rparr>)
      else Panic)"

section \<open>Numbering a stream of transactions\<close>

text \<open>The sequence numbers given to a stream of transaction identifiers, each counted in the shard of its identifier.\<close>

fun number_stream :: "engine \<Rightarrow> bytes list \<Rightarrow> counters \<Rightarrow> ('e, u64 list \<times> counters) res" where
  "number_stream e [] c = Ok ([], c)"
| "number_stream e (txid # ts) c =
     rbind (Counters_Next (GroupIndex e txid) c) (\<lambda>(n, c).
     rbind (number_stream e ts c) (\<lambda>(ns, c). Ok (n # ns, c)))"

definition earlier :: "engine \<Rightarrow> bytes list \<Rightarrow> nat \<Rightarrow> nat" where
  "earlier e ts j = length (filter (\<lambda>t. GroupIndex e t = GroupIndex e (ts ! j)) (take j ts))"

lemma earlier_Suc:
  "j < length ts \<Longrightarrow> earlier e (t # ts) (Suc j) = earlier e ts j + (if GroupIndex e t = GroupIndex e (ts ! j) then 1 else 0)"
  by (simp add: earlier_def)

lemma number_stream_counts:
  assumes "\<forall>t \<in> set ts. unat (GroupIndex e t) < length (cs_slots c)"
  shows "\<exists>ns c'. number_stream e ts c = (Ok (ns, c') :: ('e, u64 list \<times> counters) res) \<and> length ns = length ts \<and>
    (\<forall>j < length ts. ns ! j = cs_slots c ! unat (GroupIndex e (ts ! j)) + word_of_nat (earlier e ts j))"
  using assms
proof (induction ts arbitrary: c)
  case (Cons t ts)
  let ?g = "\<lambda>t. unat (GroupIndex e t)"
  let ?c = "c\<lparr>cs_slots := (cs_slots c)[?g t := cs_slots c ! ?g t + 1]\<rparr>"
  have "\<forall>t \<in> set ts. ?g t < length (cs_slots ?c)" using Cons.prems by simp
  then obtain ns c' where r: "number_stream e ts ?c = (Ok (ns, c') :: ('e, u64 list \<times> counters) res)" "length ns = length ts"
    and n: "\<forall>j < length ts. ns ! j = cs_slots ?c ! ?g (ts ! j) + word_of_nat (earlier e ts j)" using Cons.IH by blast
  have step: "number_stream e (t # ts) c = (Ok (cs_slots c ! ?g t # ns, c') :: ('e, u64 list \<times> counters) res)" using Cons.prems r by (simp add: Counters_Next_def)
  have "(cs_slots c ! ?g t # ns) ! j = cs_slots c ! ?g ((t # ts) ! j) + word_of_nat (earlier e (t # ts) j)" if "j < length (t # ts)" for j
    using that n Cons.prems by (cases j) (auto simp: earlier_Suc nth_list_update earlier_def word_unat_eq_iff [symmetric] ac_simps)
  then show ?case using step r(2) by (intro exI [of _ "cs_slots c ! ?g t # ns"] exI [of _ c'] conjI) simp_all
qed simp

text \<open>
  Sequence numbers. With counters for the groups of an engine, numbering never panics, whatever the transactions, and
  each transaction gets the number of earlier transactions of its own group: every group counts 0, 1, 2 and so on,
  independently of the others, up to the wrap at 64 bits. A shard outside the range panics.
\<close>

theorem sequence_per_group:
  assumes "shardBits < 32" and "\<forall>t \<in> set ts. length t = 32" and "unat (NumGroups (New prefix gid shardBits)) \<le> unat idx"
  shows "(\<exists>ns c'. number_stream (New prefix gid shardBits) ts (NewCounters (NumGroups (New prefix gid shardBits))) =
       (Ok (ns, c') :: ('e, u64 list \<times> counters) res) \<and>
     length ns = length ts \<and> (\<forall>j < length ts. ns ! j = word_of_nat (earlier (New prefix gid shardBits) ts j))) \<and>
     Counters_Next idx (NewCounters (NumGroups (New prefix gid shardBits))) = (Panic :: ('e, u64 \<times> counters) res)"
proof -
  let ?e = "New prefix gid shardBits" and ?c = "NewCounters (NumGroups (New prefix gid shardBits))"
  have g: "\<forall>t \<in> set ts. unat (GroupIndex ?e t) < length (cs_slots ?c)"
    using assms(1,2) GroupIndex_less [of shardBits _ prefix gid] by (simp add: NewCounters_def NumGroups_New)
  obtain ns c' where "number_stream ?e ts ?c = (Ok (ns, c') :: ('e, u64 list \<times> counters) res)" "length ns = length ts"
    "\<forall>j < length ts. ns ! j = cs_slots ?c ! unat (GroupIndex ?e (ts ! j)) + word_of_nat (earlier ?e ts j)"
    using number_stream_counts [OF g, where 'e = 'e] by blast
  moreover have "\<forall>j < length ts. cs_slots ?c ! unat (GroupIndex ?e (ts ! j)) = 0" using g by (simp add: NewCounters_def)
  ultimately show ?thesis using assms(3) by (auto simp: Counters_Next_def NewCounters_def)
qed

theorem sequence_per_group_witness:
  "\<exists>ns c'. number_stream (New 0xFF05 11 1) [replicate 32 0, replicate 32 255, replicate 32 1] (NewCounters (NumGroups (New 0xFF05 11 1))) =
     (Ok (ns, c') :: (unit, u64 list \<times> counters) res) \<and> length ns = 3"
proof -
  have "unat (NumGroups (New 0xFF05 11 1)) \<le> unat (2 :: u32)" by code_simp
  then show ?thesis
    using sequence_per_group [of 1 "[replicate 32 0, replicate 32 255, replicate 32 1]" "0xFF05" 11 2, where 'e = unit] by auto
qed

end
