(* ===== verification/Throttle.thy ===== *)
theory Throttle
  imports Go_Std
begin

text \<open>
  The log throttle of \<^verbatim>\<open>logging/throttle.go\<close>. The map of entries is an association list; the clock is an argument of
  \<^verbatim>\<open>Allow\<close>, as the source injects it. The mutex makes every call one step.
\<close>

record throttleEntry =
  te_windowStart :: instant
  te_suppressed :: u64

record throttle =
  th_window :: duration
  th_state :: "(string \<times> throttleEntry) list"

definition NewThrottle :: "duration \<Rightarrow> throttle" where
  "NewThrottle window = \<lparr>th_window = window, th_state = []\<rparr>"

definition Allow :: "instant \<Rightarrow> string \<Rightarrow> throttle \<Rightarrow> (bool \<times> u64) \<times> throttle" where
  "Allow now key t =
     (case map_of (th_state t) key of
        None \<Rightarrow> ((True, 0), t\<lparr>th_state := AList.update key \<lparr>te_windowStart = now, te_suppressed = 0\<rparr> (th_state t)\<rparr>)
      | Some e \<Rightarrow>
          if th_window t \<le> time_Sub now (te_windowStart e) then
            ((True, te_suppressed e), t\<lparr>th_state := AList.update key \<lparr>te_windowStart = now, te_suppressed = 0\<rparr> (th_state t)\<rparr>)
          else
            ((False, 0), t\<lparr>th_state := AList.update key (e\<lparr>te_suppressed := te_suppressed e + 1\<rparr>) (th_state t)\<rparr>))"

section \<open>The log of a run\<close>

type_synonym allow_log = "((instant \<times> string) \<times> bool \<times> u64) list"

fun allow_run :: "(instant \<times> string) list \<Rightarrow> throttle \<Rightarrow> allow_log \<times> throttle" where
  "allow_run [] t = ([], t)"
| "allow_run ((now, key) # calls) t =
     (let (r, t) = Allow now key t; (log, t) = allow_run calls t in (((now, key), r) # log, t))"

text \<open>The calls with a key, the times of its emissions, the sum of the counts they report, and the count pending.\<close>

definition calls_of :: "string \<Rightarrow> allow_log \<Rightarrow> nat" where
  "calls_of k zs = length (filter (\<lambda>z. snd (fst z) = k) zs)"

definition emissions :: "string \<Rightarrow> allow_log \<Rightarrow> instant list" where
  "emissions k zs = map (fst \<circ> fst) (filter (\<lambda>z. snd (fst z) = k \<and> fst (snd z)) zs)"

definition reported :: "string \<Rightarrow> allow_log \<Rightarrow> nat" where
  "reported k zs = sum_list (map (unat \<circ> snd \<circ> snd) (filter (\<lambda>z. snd (fst z) = k) zs))"

definition held_back :: "string \<Rightarrow> throttle \<Rightarrow> nat" where
  "held_back k t = (case map_of (th_state t) k of None \<Rightarrow> 0 | Some e \<Rightarrow> unat (te_suppressed e))"

lemmas log_defs = calls_of_def emissions_def reported_def

text \<open>An answer is right after a log if it emits exactly when every emission of the key is a window old.\<close>

definition right_after :: "duration \<Rightarrow> allow_log \<Rightarrow> (instant \<times> string) \<times> bool \<times> u64 \<Rightarrow> bool" where
  "right_after w zs z = (fst (snd z) \<longleftrightarrow> (\<forall>t \<in> set (emissions (snd (fst z)) zs). w \<le> fst (fst z) - t))"

definition throttle_inv :: "duration \<Rightarrow> allow_log \<Rightarrow> throttle \<Rightarrow> bool" where
  "throttle_inv w zs t \<longleftrightarrow> th_window t = w \<and>
     (\<forall>k. calls_of k zs = length (emissions k zs) + reported k zs + held_back k t) \<and>
     (\<forall>k. case map_of (th_state t) k of
        None \<Rightarrow> emissions k zs = []
      | Some e \<Rightarrow> te_windowStart e \<in> set (emissions k zs) \<and> (\<forall>s \<in> set (emissions k zs). s \<le> te_windowStart e))"

lemma log_snoc [simp]:
  "calls_of k (zs @ [((now, key), r)]) = calls_of k zs + (if key = k then 1 else 0)"
  "emissions k (zs @ [((now, key), r)]) = emissions k zs @ (if key = k \<and> fst r then [now] else [])"
  "reported k (zs @ [((now, key), r)]) = reported k zs + (if key = k then unat (snd r) else 0)"
  by (auto simp: log_defs)

lemma emissions_before: "\<forall>z \<in> set zs. fst (fst z) \<le> now \<Longrightarrow> s \<in> set (emissions k zs) \<Longrightarrow> s \<le> now"
  by (auto simp: emissions_def)

lemma Allow_step:
  assumes inv: "throttle_inv w zs t" and w: "0 \<le> w" "w \<le> maxDuration"
    and later: "\<forall>z \<in> set zs. fst (fst z) \<le> now" and few: "length zs < 2 ^ 64"
    and a: "Allow now key t = (r, t')"
  shows "throttle_inv w (zs @ [((now, key), r)]) t' \<and> right_after w zs ((now, key), r)"
proof -
  have count: "calls_of k zs = length (emissions k zs) + reported k zs + held_back k t" for k using inv by (simp add: throttle_inv_def)
  have entry: "case map_of (th_state t) k of None \<Rightarrow> emissions k zs = []
      | Some e \<Rightarrow> te_windowStart e \<in> set (emissions k zs) \<and> (\<forall>s \<in> set (emissions k zs). s \<le> te_windowStart e)" for k
    using inv by (simp add: throttle_inv_def)
  have window: "th_window t' = w" using a inv by (auto simp: Allow_def throttle_inv_def split: option.splits if_splits)
  have entry': "case map_of (th_state t') k of None \<Rightarrow> emissions k (zs @ [((now, key), r)]) = []
      | Some e \<Rightarrow> te_windowStart e \<in> set (emissions k (zs @ [((now, key), r)])) \<and> (\<forall>s \<in> set (emissions k (zs @ [((now, key), r)])). s \<le> te_windowStart e)" for k
    using a emissions_before [OF later, of _ k] entry [of k] by (auto simp: Allow_def update_conv' split: if_splits option.splits)
  show ?thesis
  proof (cases "map_of (th_state t) key")
    case None
    have "calls_of k (zs @ [((now, key), r)]) = length (emissions k (zs @ [((now, key), r)])) + reported k (zs @ [((now, key), r)]) + held_back k t'" for k
      using a None count [of k] by (auto simp: Allow_def held_back_def update_conv')
    moreover have "right_after w zs ((now, key), r)" using a None entry [of key] by (auto simp: right_after_def Allow_def)
    ultimately show ?thesis using window entry' by (simp add: throttle_inv_def)
  next
    case (Some e)
    have e: "te_windowStart e \<in> set (emissions key zs)" "\<forall>s \<in> set (emissions key zs). s \<le> te_windowStart e" "th_window t = w"
      using entry [of key] Some inv by (simp_all add: throttle_inv_def)
    have due: "w \<le> time_Sub now (te_windowStart e) \<longleftrightarrow> w \<le> now - te_windowStart e" using w time_Sub_ge by simp
    have "(\<forall>s \<in> set (emissions key zs). w \<le> now - s) \<longleftrightarrow> w \<le> now - te_windowStart e" using e by fastforce
    then have right: "right_after w zs ((now, key), r)" using a Some e(3) due by (auto simp: right_after_def Allow_def split: if_splits)
    have "calls_of key zs \<le> length zs" by (simp add: calls_of_def)
    moreover have "0 < length (emissions key zs)" using e(1) by (cases "emissions key zs") auto
    moreover have "held_back key t = unat (te_suppressed e)" using Some by (simp add: held_back_def)
    ultimately have "unat (te_suppressed e) + 1 < 2 ^ 64" using count [of key] few by linarith
    then have incr: "unat (te_suppressed e + 1) = unat (te_suppressed e) + 1" by (simp add: unat_word_ariths)
    have "calls_of k (zs @ [((now, key), r)]) = length (emissions k (zs @ [((now, key), r)])) + reported k (zs @ [((now, key), r)]) + held_back k t'" for k
      using a Some count [of k] incr by (auto simp: Allow_def held_back_def update_conv' split: if_splits)
    then show ?thesis using window entry' right by (simp add: throttle_inv_def)
  qed
qed

lemma allow_run_inv:
  assumes "throttle_inv w zs t" and "0 \<le> w" and "w \<le> maxDuration" and "sorted (map fst calls)"
    and "\<forall>z \<in> set zs. \<forall>c \<in> set calls. fst (fst z) \<le> fst c" and "length zs + length calls < 2 ^ 64" and "allow_run calls t = (log, t')"
  shows "throttle_inv w (zs @ log) t' \<and> map fst log = calls \<and> (\<forall>i < length log. right_after w (zs @ take i log) (log ! i))"
  using assms
proof (induction calls arbitrary: zs t log)
  case (Cons c calls)
  obtain now key where c: "c = (now, key)" by fastforce
  obtain r t1 where a: "Allow now key t = (r, t1)" by fastforce
  obtain log' where l: "allow_run calls t1 = (log', t')" "log = ((now, key), r) # log'"
    using Cons.prems(7) a c by (auto split: prod.splits)
  have s: "throttle_inv w (zs @ [((now, key), r)]) t1 \<and> right_after w zs ((now, key), r)"
    using Allow_step [OF Cons.prems(1-3) _ _ a] Cons.prems(5,6) c by simp
  have "throttle_inv w ((zs @ [((now, key), r)]) @ log') t' \<and> map fst log' = calls \<and>
      (\<forall>i < length log'. right_after w ((zs @ [((now, key), r)]) @ take i log') (log' ! i))"
    using Cons.prems c s by (intro Cons.IH [OF _ _ _ _ _ _ l(1)]) auto
  then show ?case using s l c by (auto simp: less_Suc_eq_0_disj)
qed simp

text \<open>
  C40: log economy. For any sequence of calls at times that do not decrease, a call is answered with an emission exactly if every
  earlier emission for its key is at least a window old, so that there is at most one emission per key and window and
  the first call of a window is never suppressed. Nothing is lost from the counts: the calls with a key are its
  emissions, the suppressed calls its emissions reported, and those still pending.
\<close>

theorem throttle_economy:
  assumes "0 \<le> window" and "window \<le> maxDuration" and "sorted (map fst calls)" and "length calls < 2 ^ 64"
    and "allow_run calls (NewThrottle window) = (log, t)"
  shows "map fst log = calls \<and>
    (\<forall>i < length log. fst (snd (log ! i)) \<longleftrightarrow>
       (\<forall>s \<in> set (emissions (snd (fst (log ! i))) (take i log)). window \<le> fst (fst (log ! i)) - s)) \<and>
    calls_of k log = length (emissions k log) + reported k log + held_back k t"
proof -
  have "throttle_inv window [] (NewThrottle window)" by (simp add: throttle_inv_def NewThrottle_def log_defs held_back_def)
  then show ?thesis using allow_run_inv [of window "[]" "NewThrottle window" calls log t] assms by (auto simp: right_after_def throttle_inv_def)
qed

theorem throttle_economy_witness:
  "calls_of ''k'' (fst (allow_run [(0, ''k''), (3, ''k''), (4, ''j''), (9, ''k''), (10, ''k'')] (NewThrottle 10))) = 4"
proof -
  let ?r = "allow_run [(0, ''k''), (3, ''k''), (4, ''j''), (9, ''k''), (10, ''k'')] (NewThrottle 10)"
  have "length (emissions ''k'' (fst ?r)) + reported ''k'' (fst ?r) + held_back ''k'' (snd ?r) = 4" by code_simp
  then show ?thesis
    using throttle_economy [of 10 "[(0, ''k''), (3, ''k''), (4, ''j''), (9, ''k''), (10, ''k'')]" "fst ?r" "snd ?r" "''k''"] by simp
qed

end
