(* ===== verification/Logging.thy ===== *)
theory Logging
  imports Go_Strings Shard
begin

text \<open>
  Setting up the log (\<^verbatim>\<open>logging/logging.go\<close>) and the control of its level at run time (\<^verbatim>\<open>logging/control.go\<close>). A level is the number of
  \<^verbatim>\<open>slog.Level\<close>; a request to the level handler has its method and the value of its \<^verbatim>\<open>level\<close> parameter; of a logger of \<^verbatim>\<open>log/slog\<close> there are the
  handler's format and sink and the attributes that every line carries.
\<close>

datatype log_format = FormatText | FormatJSON

definition ParseFormat :: "string \<Rightarrow> log_format" where
  "ParseFormat s = (if EqualFold (TrimSpace s) ''json'' then FormatJSON else FormatText)"

abbreviation (input) LevelDebug :: int where "LevelDebug \<equiv> - 4"
abbreviation (input) LevelInfo :: int where "LevelInfo \<equiv> 0"
abbreviation (input) LevelWarn :: int where "LevelWarn \<equiv> 4"
abbreviation (input) LevelError :: int where "LevelError \<equiv> 8"

definition ParseLevel :: "string \<Rightarrow> int" where
  "ParseLevel s =
     (let l = TrimSpace s in
      if lowerEq l ''debug'' then LevelDebug
      else if lowerEq l ''warn'' \<or> lowerEq l ''warning'' then LevelWarn
      else if lowerEq l ''error'' then LevelError
      else LevelInfo)"

text \<open>\<^verbatim>\<open>slog.Level.String\<close>\<close>

definition levelText :: "string \<Rightarrow> int \<Rightarrow> string" where
  "levelText base d = (if d = 0 then base else base @ (if d < 0 then ''-'' else ''+'') @ decimal (nat \<bar>d\<bar>))"

definition Level_String :: "int \<Rightarrow> string" where
  "Level_String l =
     (if l < LevelInfo then levelText ''DEBUG'' (l - LevelDebug)
      else if l < LevelWarn then levelText ''INFO'' (l - LevelInfo)
      else if l < LevelError then levelText ''WARN'' (l - LevelWarn)
      else levelText ''ERROR'' (l - LevelError))"

section \<open>Set-up\<close>

datatype 'w log_sink = Stdout | Stderr | Writer 'w

record 'w log_options =
  lo_Service :: string
  lo_InstanceID :: string
  lo_Version :: string
  lo_Level :: int
  lo_Format :: log_format
  lo_Output :: "'w option"

record 'w logger =
  lg_format :: log_format
  lg_out :: "'w log_sink"
  lg_attrs :: "(string \<times> string) list"

text \<open>
  \<^verbatim>\<open>Init\<close> with the answer of \<^verbatim>\<open>os.Hostname\<close>, \<open>None\<close> for an error: the logger it installs and the level of the variable it returns. A
  line of level \<open>l\<close> is written if the handler is enabled for it.
\<close>

definition logging_Init :: "string option \<Rightarrow> 'w log_options \<Rightarrow> 'w logger \<times> int" where
  "logging_Init hostname opts =
     (let lvl = lo_Level opts;
          out = (case lo_Output opts of
                   Some w \<Rightarrow> Writer w
                 | None \<Rightarrow> if lo_Format opts = FormatJSON then Stdout else Stderr);
          instanceID = (if lo_InstanceID opts = [] then case hostname of Some hn \<Rightarrow> hn | None \<Rightarrow> lo_InstanceID opts
                        else lo_InstanceID opts)
      in (\<lparr>lg_format = (if lo_Format opts = FormatJSON then FormatJSON else FormatText), lg_out = out,
           lg_attrs = [(''service.name'', lo_Service opts), (''service.instance.id'', instanceID), (''service.version'', lo_Version opts)]\<rparr>,
          lvl))"

definition Enabled :: "int \<Rightarrow> int \<Rightarrow> bool" where
  "Enabled lvl l \<longleftrightarrow> lvl \<le> l"

section \<open>Control at run time\<close>

record level_request =
  lr_Method :: string
  lr_level :: string

datatype level_response = LevelBody string | HTTPError string int

definition LevelHandler :: "level_request \<Rightarrow> int \<Rightarrow> level_response \<times> int" where
  "LevelHandler r lvl =
     (if lr_Method r = ''GET'' then (LevelBody (Level_String lvl), lvl)
      else if lr_Method r = ''PUT'' \<or> lr_Method r = ''POST'' then
        let q = lr_level r in
        if q = [] then (HTTPError ''missing level query parameter'' 400, lvl)
        else let lvl = ParseLevel q in (LevelBody (Level_String lvl), lvl)
      else (HTTPError ''method not allowed'' 405, lvl))"

text \<open>One signal of \<^verbatim>\<open>InstallSIGHUPToggle\<close>.\<close>

definition toggle :: "int \<Rightarrow> int \<Rightarrow> int" where
  "toggle base lvl = (if lvl = LevelDebug then base else LevelDebug)"

text \<open>
  The goroutine of \<^verbatim>\<open>InstallSIGHUPToggle\<close>. Its channel holds one signal and \<^verbatim>\<open>os/signal\<close> drops those that do not fit; \<open>stop\<close> takes the channel off the
  list of receivers and closes \<^verbatim>\<open>done\<close>, which panics the second time; a \<open>select\<close> with both channels ready may take either.
\<close>

record sighup =
  sh_registered :: bool
  sh_queued :: bool
  sh_done :: bool
  sh_exited :: bool
  sh_level :: int

definition InstallSIGHUPToggle :: "int \<Rightarrow> sighup" where
  "InstallSIGHUPToggle lvl = \<lparr>sh_registered = True, sh_queued = False, sh_done = False, sh_exited = False, sh_level = lvl\<rparr>"

definition sighup_stop :: "sighup \<Rightarrow> (unit, sighup) res" where
  "sighup_stop x = (if sh_done x then Panic else Ok (x\<lparr>sh_registered := False, sh_done := True\<rparr>))"

text \<open>\<open>sighup_run base n d x\<close>: state \<open>x\<close> can be reached from the base level with \<open>n\<close> signals, \<open>d\<close> of which were dropped.\<close>

inductive sighup_run :: "int \<Rightarrow> nat \<Rightarrow> nat \<Rightarrow> sighup \<Rightarrow> bool" for base where
  sh_install: "sighup_run base 0 0 (InstallSIGHUPToggle base)"
| sh_signal: "sighup_run base n d x \<Longrightarrow> sh_registered x \<Longrightarrow> sighup_run base (n + 1) (d + of_bool (sh_queued x)) (x\<lparr>sh_queued := True\<rparr>)"
| sh_toggle: "sighup_run base n d x \<Longrightarrow> sh_queued x \<Longrightarrow> \<not> sh_exited x \<Longrightarrow>
    sighup_run base n d (x\<lparr>sh_queued := False, sh_level := toggle base (sh_level x)\<rparr>)"
| sh_exit: "sighup_run base n d x \<Longrightarrow> sh_done x \<Longrightarrow> sighup_run base n d (x\<lparr>sh_exited := True\<rparr>)"
| sh_stop: "sighup_run base n d x \<Longrightarrow> sighup_stop x = Ok y \<Longrightarrow> sighup_run base n d y"

section \<open>Properties\<close>

text \<open>
  Level control. The texts of the four levels parse back; setting a level through the handler takes effect and is reported,
  reading does not change it, and no other request changes it; a level set by the handler is one of the four. Two signals
  restore the base level, from the base level or from debug, and an even number of them from the base level always does.
\<close>

lemma level_control:
  "\<forall>l \<in> {LevelDebug, LevelInfo, LevelWarn, LevelError}. ParseLevel (Level_String l) = l"
  "snd (LevelHandler r lvl) \<in> {lvl, LevelDebug, LevelInfo, LevelWarn, LevelError}"
  "fst (LevelHandler r lvl) = LevelBody s \<Longrightarrow> s = Level_String (snd (LevelHandler r lvl))"
  "fst (LevelHandler r lvl) = HTTPError e c \<Longrightarrow> snd (LevelHandler r lvl) = lvl"
  "(toggle base ^^ (2 * n)) base = base"
proof -
  have trim: "TrimSpace ''DEBUG'' = ''DEBUG''" "TrimSpace ''INFO'' = ''INFO''" "TrimSpace ''WARN'' = ''WARN''" "TrimSpace ''ERROR'' = ''ERROR''"
    by (rule TrimSpace_word, simp add: printable_def)+
  have "lowerEq ''DEBUG'' ''debug''" "lowerEq ''WARN'' ''warn''" "lowerEq ''ERROR'' ''error''"
    "\<not> lowerEq ''WARN'' ''debug''" "\<not> lowerEq ''ERROR'' ''debug''" "\<not> lowerEq ''ERROR'' ''warn''" "\<not> lowerEq ''ERROR'' ''warning''"
    "\<not> lowerEq ''INFO'' ''debug''" "\<not> lowerEq ''INFO'' ''warn''" "\<not> lowerEq ''INFO'' ''warning''" "\<not> lowerEq ''INFO'' ''error''"
    by code_simp+
  then show "\<forall>l \<in> {LevelDebug, LevelInfo, LevelWarn, LevelError}. ParseLevel (Level_String l) = l"
    by (simp add: Level_String_def levelText_def ParseLevel_def trim)
  show "snd (LevelHandler r lvl) \<in> {lvl, LevelDebug, LevelInfo, LevelWarn, LevelError}"
    by (simp add: LevelHandler_def ParseLevel_def Let_def)
  show "fst (LevelHandler r lvl) = LevelBody s \<Longrightarrow> s = Level_String (snd (LevelHandler r lvl))"
    "fst (LevelHandler r lvl) = HTTPError e c \<Longrightarrow> snd (LevelHandler r lvl) = lvl"
    by (auto simp: LevelHandler_def Let_def split: if_splits)
  show "(toggle base ^^ (2 * n)) base = base" by (induction n) (auto simp: toggle_def)
qed

text \<open>
  Where every line goes and what it carries: JSON to standard output and text to standard error unless a writer is given; the identity triple,
  with the host name for a missing instance; and the lines of the configured level and above.
\<close>

lemma logging_Init_spec:
  assumes "logging_Init hostname opts = (lg, lvl)"
  shows "lo_Output opts = None \<Longrightarrow> lg_out lg = (if lg_format lg = FormatJSON then Stdout else Stderr)"
    and "lo_Output opts = Some w \<Longrightarrow> lg_out lg = Writer w"
    and "map_of (lg_attrs lg) ''service.instance.id'' = Some [] \<Longrightarrow> lo_InstanceID opts = [] \<and> hostname \<in> {None, Some []}"
    and "Enabled lvl l \<longleftrightarrow> lo_Level opts \<le> l"
  using assms by (cases "lo_Format opts", auto simp: logging_Init_def Let_def Enabled_def split: option.splits if_splits)

text \<open>
  Signals that the channel takes alternate between debug and the base level, one that finds the channel full is lost. Only a second \<open>stop\<close>
  panics, and once the goroutine has left the level stays.
\<close>

lemma sighup_levels:
  assumes "sighup_run base n d x"
  shows "d + of_bool (sh_queued x) \<le> n \<and> sh_level x = (toggle base ^^ (n - d - of_bool (sh_queued x))) base \<and>
    (sh_registered x \<longleftrightarrow> \<not> sh_done x) \<and> (sh_exited x \<longrightarrow> sh_done x)"
  using assms
proof (induction rule: sighup_run.induct)
  case (sh_toggle n d x)
  then have "Suc d \<le> n" by simp
  then obtain k where "n = Suc d + k" using le_Suc_ex by blast
  then show ?case using sh_toggle by simp
qed (auto simp: InstallSIGHUPToggle_def sighup_stop_def split: if_splits)

lemma sighup_even:
  assumes "sighup_run base n d x" and "\<not> sh_queued x" and "even (n - d)"
  shows "sh_level x = base"
proof -
  obtain k where "n - d = 2 * k" using assms(3) by (elim evenE)
  then show ?thesis using sighup_levels [OF assms(1)] assms(2) level_control(5) [of k base] by simp
qed

end
