(* ===== verification/Tracing.thy ===== *)
theory Tracing
  imports Prelude
begin

unbundle bit_operations_syntax

text \<open>
  Setting up the tracer, \<^verbatim>\<open>tracing/tracing.go\<close>. The OpenTelemetry library is a parameter: making the exporter and the resource,
  either of which may fail. The library's global settings are a state. The sampling ratio, a \<^verbatim>\<open>float64\<close>, is its bit pattern.
\<close>

record tracing_options =
  to_Service :: string
  to_InstanceID :: string
  to_Version :: string
  to_OTLPEndpoint :: string
  to_Sampling :: u64

text \<open>\<^verbatim>\<open>x <= 0\<close> for a \<^verbatim>\<open>float64\<close>: false for a NaN, true for both zeros and for what has the sign bit.\<close>

definition isNaN64 :: "u64 \<Rightarrow> bool" where
  "isNaN64 x \<longleftrightarrow> x AND 0x7FF0000000000000 = 0x7FF0000000000000 \<and> x AND 0x000FFFFFFFFFFFFF \<noteq> 0"

definition nonpositive64 :: "u64 \<Rightarrow> bool" where
  "nonpositive64 x \<longleftrightarrow> \<not> isNaN64 x \<and> (x = 0 \<or> x AND 0x8000000000000000 \<noteq> 0)"

text \<open>A provider of the library has an exporter, a resource and the ratio of its parent-based sampler.\<close>

record ('exp, 'rsc) provider =
  pv_batcher :: 'exp
  pv_resource :: 'rsc
  pv_ratio :: u64

datatype ('exp, 'rsc) tracer = NoopTracer string | ProviderTracer "('exp, 'rsc) provider" string

datatype ('exp, 'rsc) shutdown = NoopShutdown | ProviderShutdown "('exp, 'rsc) provider"

datatype 'e tracing_err = ErrExporter 'e | ErrResource 'e

datatype propagator = TraceContext | Baggage

record ('exp, 'rsc) otel_globals =
  og_provider :: "('exp, 'rsc) provider option"
  og_propagators :: "propagator list"

record ('e, 'exp, 'rsc) otel =
  ot_exporter :: "string \<Rightarrow> 'e + 'exp"
  ot_resource :: "(string \<times> string) list \<Rightarrow> 'e + 'rsc"

definition tracing_Init ::
  "('e, 'exp, 'rsc) otel \<Rightarrow> tracing_options \<Rightarrow> ('exp, 'rsc) otel_globals \<Rightarrow>
   (('exp, 'rsc) tracer \<times> ('exp, 'rsc) shutdown \<times> 'e tracing_err option) \<times> ('exp, 'rsc) otel_globals" where
  "tracing_Init otel opts g =
     (if nonpositive64 (to_Sampling opts) \<or> to_OTLPEndpoint opts = [] then ((NoopTracer (to_Service opts), NoopShutdown, None), g)
      else case ot_exporter otel (to_OTLPEndpoint opts) of
        Inl err \<Rightarrow> ((NoopTracer (to_Service opts), NoopShutdown, Some (ErrExporter err)), g)
      | Inr exporter \<Rightarrow>
          (case ot_resource otel
              [(''service.name'', to_Service opts), (''service.instance.id'', to_InstanceID opts), (''service.version'', to_Version opts)] of
             Inl err \<Rightarrow> ((NoopTracer (to_Service opts), NoopShutdown, Some (ErrResource err)), g)
           | Inr rsc \<Rightarrow>
               let tp = \<lparr>pv_batcher = exporter, pv_resource = rsc, pv_ratio = to_Sampling opts\<rparr> in
               ((ProviderTracer tp (to_Service opts), ProviderShutdown tp, None),
                g\<lparr>og_provider := Some tp, og_propagators := [TraceContext, Baggage]\<rparr>)))"

section \<open>Properties\<close>

text \<open>
  The tracer is for the service in every case. It is the no-op tracer, with the no-op shutdown and the global settings as they
  were, exactly if tracing is off or there is an error; tracing that is off is no error. Otherwise the tracer, the shutdown and the
  global setting are those of one provider.
\<close>

theorem tracing_Init_spec:
  assumes "tracing_Init otel opts g = ((t, sd, err), g')"
  shows "t = NoopTracer (to_Service opts) \<and> sd = NoopShutdown \<and> g' = g \<and>
           (nonpositive64 (to_Sampling opts) \<or> to_OTLPEndpoint opts = [] \<or> err \<noteq> None) \<or>
         \<not> nonpositive64 (to_Sampling opts) \<and> to_OTLPEndpoint opts \<noteq> [] \<and> err = None \<and>
           (\<exists>tp. t = ProviderTracer tp (to_Service opts) \<and> sd = ProviderShutdown tp \<and> og_provider g' = Some tp \<and> pv_ratio tp = to_Sampling opts)"
    and "nonpositive64 (to_Sampling opts) \<or> to_OTLPEndpoint opts = [] \<Longrightarrow> err = None"
  using assms by (auto simp: tracing_Init_def Let_def split: if_splits sum.splits)

text \<open>The ratios that switch tracing off: the zeros, a negative one; not 1, and not a NaN.\<close>

lemma sampling_off:
  "nonpositive64 0" "nonpositive64 0x8000000000000000" "nonpositive64 0xBFF0000000000000" "\<not> nonpositive64 0x3FF0000000000000"
  "\<not> nonpositive64 0x7FF8000000000001" "\<not> nonpositive64 0xFFF8000000000001"
  by (simp_all add: nonpositive64_def isNaN64_def)

end
