(* ===== verification/Hostinfo.thy ===== *)
theory Hostinfo
  imports Go_Strings Shard
begin

text \<open>
  The host inventory, \<^verbatim>\<open>hostinfo/hostinfo.go\<close> and \<^verbatim>\<open>hostinfo/platform_linux.go\<close>. What the process finds on its machine is a parameter: the
  facts of the system libraries and the run-time as a \<open>machine\<close>, with \<open>None\<close> where a call fails, and the contents of files and
  links by path. The parts of \<^verbatim>\<open>net\<close>, \<^verbatim>\<open>path/filepath\<close> and \<^verbatim>\<open>sort\<close> used here are modelled. A \<^verbatim>\<open>float64\<close> that is only passed on is its
  bit pattern.
\<close>

section \<open>Standard library\<close>

text \<open>Addresses and masks of package \<^verbatim>\<open>net\<close> are byte slices. \<^verbatim>\<open>HardwareAddr.String\<close>, \<^verbatim>\<open>hexString\<close>:\<close>

definition hexByte :: "u8 \<Rightarrow> string" where
  "hexByte b = [hexdigit (unat b div 16), hexdigit (unat b mod 16)]"

definition HardwareAddr_String :: "bytes \<Rightarrow> string" where
  "HardwareAddr_String a = join (CHR '':'') (map hexByte a)"

definition hexString :: "bytes \<Rightarrow> string" where
  "hexString b = concat (map hexByte b)"

definition To4 :: "bytes \<Rightarrow> bytes option" where
  "To4 ip =
     (if length ip = 4 then Some ip
      else if length ip = 16 \<and> take 12 ip = replicate 10 0 @ [0xFF, 0xFF] then Some (drop 12 ip)
      else None)"

text \<open>
  The text of an IPv6 address (\<^verbatim>\<open>netip.Addr.appendTo6\<close>) from its eight groups: the first longest run of at least two zero
  groups is written \<^verbatim>\<open>::\<close>, and groups have no leading zeros.
\<close>

fun hexNat :: "nat \<Rightarrow> string" where
  "hexNat n = (if n < 16 then [hexdigit n] else hexNat (n div 16) @ [hexdigit (n mod 16)])"

declare hexNat.simps [simp del]

fun groups16 :: "bytes \<Rightarrow> nat list" where
  "groups16 (a # b # s) = (256 * unat a + unat b) # groups16 s"
| "groups16 _ = []"

definition zeroRun :: "nat list \<Rightarrow> nat \<Rightarrow> nat" where
  "zeroRun gs i = length (takeWhile (\<lambda>g. g = 0) (drop i gs))"

definition longestZeros :: "nat list \<Rightarrow> nat \<times> nat" where
  "longestZeros gs =
     foldl (\<lambda>(start, stop) i. let l = zeroRun gs i in if 2 \<le> l \<and> stop - start < l then (i, i + l) else (start, stop))
       (255, 255) [0..<length gs]"

function groupsFrom :: "nat list \<Rightarrow> nat \<times> nat \<Rightarrow> nat \<Rightarrow> string" where
  "groupsFrom gs (start, stop) i =
     (if length gs \<le> i then []
      else if i = start \<and> i < stop then
        ''::'' @ (if length gs \<le> stop then [] else hexNat (gs ! stop) @ groupsFrom gs (start, stop) (stop + 1))
      else (if 0 < i then '':'' else []) @ hexNat (gs ! i) @ groupsFrom gs (start, stop) (i + 1))"
  by pat_completeness auto

termination by (relation "measure (\<lambda>(gs, r, i). length gs - i)") auto

definition IP_String :: "bytes \<Rightarrow> string" where
  "IP_String ip =
     (if ip = [] then ''<nil>''
      else if length ip \<noteq> 4 \<and> length ip \<noteq> 16 then ''?'' @ hexString ip
      else case To4 ip of
        Some p4 \<Rightarrow> join (CHR ''.'') (map (decimal \<circ> unat) p4)
      | None \<Rightarrow> let gs = groups16 ip in groupsFrom gs (longestZeros gs) 0)"

text \<open>\<^verbatim>\<open>simpleMaskLength\<close> and \<^verbatim>\<open>IPNet.String\<close>. A netmask that is not a run of ones is written in hexadecimal.\<close>

definition simpleMaskLength :: "bytes \<Rightarrow> nat option" where
  "simpleMaskLength netmask =
     (let bits = concat (map (\<lambda>b. map (\<lambda>i. bit b (7 - i)) [0..<8]) netmask); n = length (takeWhile id bits) in
      if True \<in> set (drop n bits) then None else Some n)"

definition networkNumberAndMask :: "bytes \<Rightarrow> bytes \<Rightarrow> (bytes \<times> bytes) option" where
  "networkNumberAndMask ip netmask =
     (case (case To4 ip of Some p4 \<Rightarrow> Some p4 | None \<Rightarrow> if length ip = 16 then Some ip else None) of
        None \<Rightarrow> None
      | Some ip \<Rightarrow>
          if length netmask = 4 then if length ip \<noteq> 4 then None else Some (ip, netmask)
          else if length netmask = 16 then Some (ip, if length ip = 4 then drop 12 netmask else netmask)
          else None)"

definition Mask_String :: "bytes \<Rightarrow> string" where
  "Mask_String m = (if m = [] then ''<nil>'' else hexString m)"

definition IPNet_String :: "bytes \<Rightarrow> bytes \<Rightarrow> string" where
  "IPNet_String ip netmask =
     (case networkNumberAndMask ip netmask of
        None \<Rightarrow> ''<nil>''
      | Some (nn, m) \<Rightarrow>
          (case simpleMaskLength m of
             None \<Rightarrow> IP_String nn @ ''/'' @ Mask_String m
           | Some l \<Rightarrow> IP_String nn @ ''/'' @ decimal l))"

text \<open>\<^verbatim>\<open>filepath.Join\<close> of elements of which the first is rooted, hence \<^verbatim>\<open>filepath.Clean\<close> of a rooted path, and \<^verbatim>\<open>filepath.Base\<close>.\<close>

definition cleanStep :: "string list \<Rightarrow> string \<Rightarrow> string list" where
  "cleanStep stack p =
     (if p = [] \<or> p = ''.'' then stack else if p = ''..'' then butlast stack else stack @ [p])"

definition CleanRooted :: "string \<Rightarrow> string" where
  "CleanRooted path = CHR ''/'' # join (CHR ''/'') (foldl cleanStep [] (splitByte (CHR ''/'') path))"

definition filepath_Join :: "string list \<Rightarrow> string" where
  "filepath_Join elems = CleanRooted (join (CHR ''/'') (dropWhile (\<lambda>e. e = []) elems))"

definition filepath_Base :: "string \<Rightarrow> string" where
  "filepath_Base path =
     (if path = [] then ''.''
      else let p = rev (dropWhile (\<lambda>c. c = CHR ''/'') (rev path)) in
           if p = [] then ''/'' else last (splitByte (CHR ''/'') p))"

section \<open>Data\<close>

record net_interface =
  if_Name :: string
  if_MAC :: string
  if_MTU :: int
  if_OperState :: string
  if_SpeedMbps :: int
  if_Duplex :: string
  if_Driver :: string
  if_IPv4 :: "string list"
  if_IPv6 :: "string list"

record inventory =
  inv_Hostname :: string
  inv_BootTime :: u64
  inv_Uptime :: u64
  inv_Virtualization :: string
  inv_OS :: string
  inv_Platform :: string
  inv_PlatformVersion :: string
  inv_KernelVersion :: string
  inv_CPUModel :: string
  inv_CPUPhysical :: int
  inv_CPULogical :: int
  inv_CPUMHz :: u64
  inv_MemTotalBytes :: u64
  inv_Interfaces :: "net_interface list"
  inv_Sysctl :: "(string \<times> string) list"
  inv_Service :: string
  inv_Version :: string
  inv_GoVersion :: string
  inv_VCSRevision :: string

text \<open>What the calls into the system return.\<close>

datatype iface_addr = IPNet bytes bytes | OtherAddr

record os_interface =
  oi_Name :: string
  oi_HardwareAddr :: bytes
  oi_MTU :: int
  oi_Flags :: u64
  oi_Addrs :: "iface_addr list"

record host_info =
  hi_Hostname :: string
  hi_BootTime :: u64
  hi_Uptime :: u64
  hi_VirtualizationSystem :: string
  hi_Platform :: string
  hi_PlatformVersion :: string
  hi_KernelVersion :: string

record machine =
  m_GOOS :: string
  m_GoVersion :: string
  m_NumCPU :: int
  m_hostInfo :: "host_info option"
  m_cpuInfo :: "(string \<times> u64) list option"
  m_cpuCounts :: "int option"
  m_memTotal :: "u64 option"
  m_Interfaces :: "os_interface list option"
  m_BuildSettings :: "(string \<times> string) list option"
  m_ReadFile :: "string \<Rightarrow> string option"
  m_Readlink :: "string \<Rightarrow> string option"

section \<open>Operations\<close>

definition sysctlPaths :: "(string \<times> string) list" where
  "sysctlPaths =
     [(''net.core.rmem_max'', ''/proc/sys/net/core/rmem_max''),
      (''net.core.wmem_max'', ''/proc/sys/net/core/wmem_max''),
      (''net.core.netdev_max_backlog'', ''/proc/sys/net/core/netdev_max_backlog''),
      (''net.core.optmem_max'', ''/proc/sys/net/core/optmem_max''),
      (''net.ipv6.conf.all.mc_forwarding'', ''/proc/sys/net/ipv6/conf/all/mc_forwarding'')]"

definition readSysctl :: "machine \<Rightarrow> string \<Rightarrow> string \<Rightarrow> (string \<times> string) list \<Rightarrow> (string \<times> string) list" where
  "readSysctl m name path out =
     (case m_ReadFile m path of Some v \<Rightarrow> AList.update name (TrimSpace v) out | None \<Rightarrow> out)"

definition readSysctls :: "machine \<Rightarrow> (string \<times> string) list" where
  "readSysctls m =
     readSysctl m ''net.ipv6.conf.default.mldv1_unsolicited_report_interval''
       ''/proc/sys/net/ipv6/conf/default/mldv1_unsolicited_report_interval''
       (foldl (\<lambda>out (name, path). readSysctl m name path out) [] sysctlPaths)"

definition augmentInterface :: "machine \<Rightarrow> net_interface \<Rightarrow> net_interface" where
  "augmentInterface m e =
     (let base = filepath_Join [''/sys/class/net'', if_Name e];
          e = (case m_ReadFile m (filepath_Join [base, ''operstate'']) of
                 Some v \<Rightarrow> let s = TrimSpace v in if s \<noteq> [] then e\<lparr>if_OperState := s\<rparr> else e
               | None \<Rightarrow> e);
          e = (case m_ReadFile m (filepath_Join [base, ''speed'']) of
                 Some v \<Rightarrow> (case strconv_Atoi (TrimSpace v) of Some n \<Rightarrow> if n > 0 then e\<lparr>if_SpeedMbps := n\<rparr> else e | None \<Rightarrow> e)
               | None \<Rightarrow> e);
          e = (case m_ReadFile m (filepath_Join [base, ''duplex'']) of Some v \<Rightarrow> e\<lparr>if_Duplex := TrimSpace v\<rparr> | None \<Rightarrow> e)
      in case m_Readlink m (filepath_Join [base, ''device'', ''driver'']) of
           Some link \<Rightarrow> e\<lparr>if_Driver := filepath_Base link\<rparr>
         | None \<Rightarrow> e)"

abbreviation (input) FlagUp :: u64 where "FlagUp \<equiv> 1"
abbreviation (input) FlagLoopback :: u64 where "FlagLoopback \<equiv> 4"

definition addAddr :: "net_interface \<Rightarrow> iface_addr \<Rightarrow> net_interface" where
  "addAddr e a =
     (case a of
        OtherAddr \<Rightarrow> e
      | IPNet ip netmask \<Rightarrow>
          if To4 ip \<noteq> None then e\<lparr>if_IPv4 := if_IPv4 e @ [IPNet_String ip netmask]\<rparr>
          else e\<lparr>if_IPv6 := if_IPv6 e @ [IPNet_String ip netmask]\<rparr>)"

definition gatherInterface :: "machine \<Rightarrow> os_interface \<Rightarrow> net_interface" where
  "gatherInterface m ifc =
     augmentInterface m (foldl addAddr
       \<lparr>if_Name = oi_Name ifc, if_MAC = HardwareAddr_String (oi_HardwareAddr ifc), if_MTU = oi_MTU ifc,
        if_OperState = (if and (oi_Flags ifc) FlagUp \<noteq> 0 then ''up'' else ''down''),
        if_SpeedMbps = 0, if_Duplex = [], if_Driver = [], if_IPv4 = [], if_IPv6 = []\<rparr> (oi_Addrs ifc))"

text \<open>The kernel's interface names are distinct, so every sort by name gives the same list.\<close>

definition gatherInterfaces :: "machine \<Rightarrow> net_interface list" where
  "gatherInterfaces m =
     (case m_Interfaces m of
        None \<Rightarrow> []
      | Some ifaces \<Rightarrow>
          sort_key if_Name (map (gatherInterface m) (filter (\<lambda>ifc. and (oi_Flags ifc) FlagLoopback = 0) ifaces)))"

definition Gather :: "machine \<Rightarrow> string \<Rightarrow> string \<Rightarrow> inventory" where
  "Gather m service version =
     (let inv = \<lparr>inv_Hostname = [], inv_BootTime = 0, inv_Uptime = 0, inv_Virtualization = [], inv_OS = m_GOOS m,
                 inv_Platform = [], inv_PlatformVersion = [], inv_KernelVersion = [], inv_CPUModel = [], inv_CPUPhysical = 0,
                 inv_CPULogical = 0, inv_CPUMHz = 0, inv_MemTotalBytes = 0, inv_Interfaces = [], inv_Sysctl = readSysctls m,
                 inv_Service = service, inv_Version = version, inv_GoVersion = m_GoVersion m, inv_VCSRevision = []\<rparr>;
          inv = (case m_hostInfo m of
                   Some info \<Rightarrow> inv\<lparr>inv_Hostname := hi_Hostname info, inv_BootTime := hi_BootTime info, inv_Uptime := hi_Uptime info,
                     inv_Virtualization := hi_VirtualizationSystem info, inv_Platform := hi_Platform info,
                     inv_PlatformVersion := hi_PlatformVersion info, inv_KernelVersion := hi_KernelVersion info\<rparr>
                 | None \<Rightarrow> inv);
          inv = (case m_cpuInfo m of
                   Some ((model, mhz) # _) \<Rightarrow> inv\<lparr>inv_CPUModel := model, inv_CPUMHz := mhz\<rparr>
                 | _ \<Rightarrow> inv);
          inv = (case m_cpuCounts m of Some n \<Rightarrow> inv\<lparr>inv_CPUPhysical := n\<rparr> | None \<Rightarrow> inv);
          inv = inv\<lparr>inv_CPULogical := m_NumCPU m\<rparr>;
          inv = (case m_memTotal m of Some vmTotal \<Rightarrow> inv\<lparr>inv_MemTotalBytes := vmTotal\<rparr> | None \<Rightarrow> inv);
          inv = inv\<lparr>inv_Interfaces := gatherInterfaces m\<rparr>
      in case m_BuildSettings m of
           Some settings \<Rightarrow>
             foldl (\<lambda>inv (key, v). if key = ''vcs.revision'' then inv\<lparr>inv_VCSRevision := v\<rparr> else inv) inv settings
         | None \<Rightarrow> inv)"

text \<open>Values and attributes of \<^verbatim>\<open>log/slog\<close>.\<close>

datatype log_value =
    LogString string
  | LogInt int
  | LogUint64 u64
  | LogFloat64 u64
  | LogStrings "string list"
  | LogGroup "(string \<times> log_value) list"

definition LogInterface :: "net_interface \<Rightarrow> string \<times> log_value" where
  "LogInterface ifc =
     (if_Name ifc, LogGroup
       [(''mac'', LogString (if_MAC ifc)), (''mtu'', LogInt (if_MTU ifc)), (''oper_state'', LogString (if_OperState ifc)),
        (''speed_mbps'', LogInt (if_SpeedMbps ifc)), (''duplex'', LogString (if_Duplex ifc)), (''driver'', LogString (if_Driver ifc)),
        (''ipv4'', LogStrings (if_IPv4 ifc)), (''ipv6'', LogStrings (if_IPv6 ifc))])"

definition LogSysctl :: "(string \<times> string) list \<Rightarrow> (string \<times> log_value) list" where
  "LogSysctl sysctl =
     map (\<lambda>k. (k, LogString (case map_of sysctl k of Some v \<Rightarrow> v | None \<Rightarrow> []))) (sort (map fst sysctl))"

definition LogValue :: "inventory \<Rightarrow> log_value" where
  "LogValue iv = LogGroup
     [(''host'', LogGroup
        [(''hostname'', LogString (inv_Hostname iv)), (''boot_time'', LogUint64 (inv_BootTime iv)),
         (''uptime_s'', LogUint64 (inv_Uptime iv)), (''virtualization'', LogString (inv_Virtualization iv))]),
      (''os'', LogGroup
        [(''goos'', LogString (inv_OS iv)), (''platform'', LogString (inv_Platform iv)),
         (''platform_version'', LogString (inv_PlatformVersion iv)), (''kernel_version'', LogString (inv_KernelVersion iv))]),
      (''cpu'', LogGroup
        [(''model'', LogString (inv_CPUModel iv)), (''physical'', LogInt (inv_CPUPhysical iv)),
         (''logical'', LogInt (inv_CPULogical iv)), (''mhz'', LogFloat64 (inv_CPUMHz iv))]),
      (''mem'', LogGroup [(''total_bytes'', LogUint64 (inv_MemTotalBytes iv))]),
      (''build'', LogGroup
        [(''service'', LogString (inv_Service iv)), (''version'', LogString (inv_Version iv)),
         (''go_version'', LogString (inv_GoVersion iv)), (''vcs_revision'', LogString (inv_VCSRevision iv))]),
      (''net'', LogGroup (map LogInterface (inv_Interfaces iv))),
      (''sysctl'', LogGroup (LogSysctl (inv_Sysctl iv)))]"

text \<open>\<^verbatim>\<open>platform_other.go\<close>: the two platform functions outside Linux.\<close>

definition readSysctls_other :: "(string \<times> string) list" where
  "readSysctls_other = []"

definition augmentInterface_other :: "net_interface \<Rightarrow> net_interface" where
  "augmentInterface_other e = e"

section \<open>Properties\<close>

text \<open>Outside Linux the functions do what those of Linux do on a machine without the files.\<close>

lemma platform_other:
  assumes "m_ReadFile m = (\<lambda>_. None)" and "m_Readlink m = (\<lambda>_. None)"
  shows "readSysctls m = readSysctls_other" and "augmentInterface m e = augmentInterface_other e"
  using assms
  by (simp_all add: readSysctls_def readSysctl_def sysctlPaths_def readSysctls_other_def augmentInterface_def augmentInterface_other_def Let_def)

text \<open>Reading a setting touches no other one.\<close>

lemma map_of_readSysctl:
  "map_of (readSysctl m name path out) k =
     (if k = name \<and> m_ReadFile m path \<noteq> None then map_option TrimSpace (m_ReadFile m path) else map_of out k)"
  by (auto simp: readSysctl_def update_conv' split: option.splits)

lemma distinct_readSysctl: "distinct (map fst out) \<Longrightarrow> distinct (map fst (readSysctl m name path out))"
  by (simp add: readSysctl_def distinct_update split: option.splits)

text \<open>Every setting is at the path that its dotted name spells, and is reported exactly if its file is readable.\<close>

definition sysctlPath :: "string \<Rightarrow> string" where
  "sysctlPath name = ''/proc/sys/'' @ map (\<lambda>c. if c = CHR ''.'' then CHR ''/'' else c) name"

definition sysctlNames :: "string list" where
  "sysctlNames = map fst sysctlPaths @ [''net.ipv6.conf.default.mldv1_unsolicited_report_interval'']"

lemma readSysctls_fold:
  "readSysctls m = foldl (\<lambda>out name. readSysctl m name (sysctlPath name) out) [] sysctlNames"
  by (simp add: readSysctls_def sysctlNames_def sysctlPaths_def sysctlPath_def)

lemma readSysctl_names:
  "map_of (foldl (\<lambda>out name. readSysctl m name (sysctlPath name) out) out names) k =
     (if k \<in> set names \<and> m_ReadFile m (sysctlPath k) \<noteq> None then map_option TrimSpace (m_ReadFile m (sysctlPath k)) else map_of out k)"
  by (induction names arbitrary: out) (auto simp: map_of_readSysctl)

lemma readSysctls_spec:
  "map_of (readSysctls m) k = (if k \<in> set sysctlNames then map_option TrimSpace (m_ReadFile m (sysctlPath k)) else None)"
  unfolding readSysctls_fold readSysctl_names by auto

lemma distinct_readSysctls: "distinct (map fst (readSysctls m))"
proof -
  have "distinct (map fst out) \<Longrightarrow> distinct (map fst (foldl (\<lambda>out name. readSysctl m name (sysctlPath name) out) out names))" for names out
    by (induction names arbitrary: out) (simp_all add: distinct_readSysctl)
  then show ?thesis by (simp add: readSysctls_fold)
qed

lemma LogSysctl_spec:
  assumes "distinct (map fst sysctl)"
  shows "sorted (map fst (LogSysctl sysctl))" and "distinct (map fst (LogSysctl sysctl))"
    and "map_of (LogSysctl sysctl) k = map_option LogString (map_of sysctl k)"
proof -
  have "map_of (map (\<lambda>k. (k, f k)) ks) k = (if k \<in> set ks then Some (f k) else None)" for f :: "string \<Rightarrow> log_value" and ks
    by (induction ks) auto
  then show "map_of (LogSysctl sysctl) k = map_option LogString (map_of sysctl k)"
    by (auto simp: LogSysctl_def map_of_eq_None_iff split: option.splits)
qed (use assms in \<open>simp_all add: LogSysctl_def comp_def\<close>)

text \<open>The addresses of an interface are filed by family, in order; what sysfs adds leaves them, the name, the MAC and the MTU alone.\<close>

definition family :: "bool \<Rightarrow> iface_addr list \<Rightarrow> string list" where
  "family v4 as = concat (map (\<lambda>a. case a of IPNet ip netmask \<Rightarrow> if (To4 ip \<noteq> None) = v4 then [IPNet_String ip netmask] else [] | OtherAddr \<Rightarrow> []) as)"

lemma foldl_addAddr:
  "foldl addAddr e as = e\<lparr>if_IPv4 := if_IPv4 e @ family True as, if_IPv6 := if_IPv6 e @ family False as\<rparr>"
  by (induction as arbitrary: e) (auto simp: addAddr_def family_def split: iface_addr.splits)

lemma augmentInterface_keeps:
  "if_Name (augmentInterface m e) = if_Name e" "if_MAC (augmentInterface m e) = if_MAC e" "if_MTU (augmentInterface m e) = if_MTU e"
  "if_IPv4 (augmentInterface m e) = if_IPv4 e" "if_IPv6 (augmentInterface m e) = if_IPv6 e"
  by (auto simp: augmentInterface_def Let_def split: option.splits)

lemma augmentInterface_speed: "0 \<le> if_SpeedMbps e \<Longrightarrow> 0 \<le> if_SpeedMbps (augmentInterface m e)"
  by (auto simp: augmentInterface_def Let_def split: option.splits)

lemma augmentInterface_state: "if_OperState e \<noteq> [] \<Longrightarrow> if_OperState (augmentInterface m e) \<noteq> []"
  by (auto simp: augmentInterface_def Let_def split: option.splits)

lemma gatherInterface_spec:
  "if_Name (gatherInterface m ifc) = oi_Name ifc" "if_MTU (gatherInterface m ifc) = oi_MTU ifc"
  "if_IPv4 (gatherInterface m ifc) = family True (oi_Addrs ifc)" "if_IPv6 (gatherInterface m ifc) = family False (oi_Addrs ifc)"
  "0 \<le> if_SpeedMbps (gatherInterface m ifc)" "if_OperState (gatherInterface m ifc) \<noteq> []"
  by (simp_all add: gatherInterface_def foldl_addAddr augmentInterface_keeps augmentInterface_speed augmentInterface_state)

lemma Gather_fields:
  "inv_Interfaces (Gather m service version) = gatherInterfaces m" "inv_Sysctl (Gather m service version) = readSysctls m"
proof -
  have "inv_Interfaces (foldl (\<lambda>iv (key, v). if key = ''vcs.revision'' then iv\<lparr>inv_VCSRevision := v\<rparr> else iv) iv settings) = inv_Interfaces iv \<and>
    inv_Sysctl (foldl (\<lambda>iv (key, v). if key = ''vcs.revision'' then iv\<lparr>inv_VCSRevision := v\<rparr> else iv) iv settings) = inv_Sysctl iv"
    for iv :: inventory and settings by (induction settings arbitrary: iv) auto
  then show "inv_Interfaces (Gather m service version) = gatherInterfaces m" "inv_Sysctl (Gather m service version) = readSysctls m"
    by (simp_all add: Gather_def Let_def split: option.split list.split prod.split)
qed

text \<open>
  The inventory. Its interfaces are those of the machine that are not loopback interfaces, each once and sorted by name, with all
  their addresses filed by family in the machine's order, a state, and a speed that is never negative; each kernel setting is
  reported, trimmed, exactly if its file under \<^verbatim>\<open>/proc/sys\<close> can be read, and the log value lists each once, in order.
\<close>

theorem inventory_spec:
  assumes "m_Interfaces m = Some ifs" and "distinct (map oi_Name ifs)"
  shows "sorted (map if_Name (inv_Interfaces (Gather m service version)))"
    and "distinct (map if_Name (inv_Interfaces (Gather m service version)))"
    and "if_Name ` set (inv_Interfaces (Gather m service version)) = oi_Name ` {ifc \<in> set ifs. and (oi_Flags ifc) FlagLoopback = 0}"
    and "ifc \<in> set ifs \<Longrightarrow> and (oi_Flags ifc) FlagLoopback = 0 \<Longrightarrow>
      \<exists>e \<in> set (inv_Interfaces (Gather m service version)). if_Name e = oi_Name ifc \<and> if_IPv4 e = family True (oi_Addrs ifc) \<and> if_IPv6 e = family False (oi_Addrs ifc) \<and>
        0 \<le> if_SpeedMbps e \<and> if_OperState e \<noteq> []"
    and "map_of (LogSysctl (inv_Sysctl (Gather m service version))) k =
      (if k \<in> set sysctlNames then map_option (LogString \<circ> TrimSpace) (m_ReadFile m (sysctlPath k)) else None)"
    and "sorted (map fst (LogSysctl (inv_Sysctl (Gather m service version))))"
proof -
  let ?is = "inv_Interfaces (Gather m service version)"
  let ?ifs = "filter (\<lambda>ifc. and (oi_Flags ifc) FlagLoopback = 0) ifs"
  have is_eq: "?is = sort_key if_Name (map (gatherInterface m) ?ifs)" using assms(1) by (simp add: Gather_fields gatherInterfaces_def)
  have "distinct (map oi_Name ?ifs)" using assms(2) by (simp add: distinct_map_filter)
  moreover have "if_Name \<circ> gatherInterface m = oi_Name" by (simp add: fun_eq_iff gatherInterface_spec)
  ultimately have "distinct (map if_Name (map (gatherInterface m) ?ifs))" by simp
  then show "distinct (map if_Name ?is)" unfolding is_eq by (simp add: distinct_map del: map_map)
  show "sorted (map if_Name ?is)" by (simp add: is_eq)
  show "if_Name ` set ?is = oi_Name ` {ifc \<in> set ifs. and (oi_Flags ifc) FlagLoopback = 0}"
    by (simp add: is_eq image_image gatherInterface_spec)
  show "ifc \<in> set ifs \<Longrightarrow> and (oi_Flags ifc) FlagLoopback = 0 \<Longrightarrow>
      \<exists>e \<in> set ?is. if_Name e = oi_Name ifc \<and> if_IPv4 e = family True (oi_Addrs ifc) \<and> if_IPv6 e = family False (oi_Addrs ifc) \<and>
        0 \<le> if_SpeedMbps e \<and> if_OperState e \<noteq> []"
    by (rule bexI [of _ "gatherInterface m ifc"]) (simp_all add: gatherInterface_spec is_eq)
qed (simp_all add: Gather_fields LogSysctl_spec distinct_readSysctls readSysctls_spec option.map_comp)

end
