(* ===== verification/Spec2Isabelle.thy ===== *)
theory Spec2Isabelle
  imports Frame_Payload Manifest_Spec Relay Lane Control_Plane Txidset Cache_Expirer Cache_Config Bootstrap Teewire Pow Netjoin Sequence Throttle Logging Tracing Hostinfo
begin

text \<open>
  A verification development of shard-common, the Go library shared by the components of a sharded IPv6 multicast
  network for Bitcoin transactions: proxies that send, listeners that receive, retry endpoints and manifest announcers.

  \<^bold>\<open>The program.\<close> A transaction is assigned to a multicast group by the leading bits of its id (\<^verbatim>\<open>shard/\<close>) and travels in a
  frame (\<^verbatim>\<open>frame/\<close>), several of a flow possibly packed in a bundle (\<^verbatim>\<open>bundle/\<close>), numbered per group (\<^verbatim>\<open>sequence/\<close>). Objects are
  pushed over byte streams, delimited and wrapped into frames by \<^verbatim>\<open>objfmt/\<close>; block headers are admitted by proof of work
  (\<^verbatim>\<open>pow/\<close>). Announcers describe the sharding in manifests (\<^verbatim>\<open>frame/shard_manifest.go\<close>), which every component registers and
  evaluates (\<^verbatim>\<open>manifest/\<close>) to decide on the shard width, the source mode and the object planes. Sources are found by
  \<^verbatim>\<open>bootstrap/\<close> and joined by \<^verbatim>\<open>netjoin/\<close>. Duplicates are suppressed by claims on transaction ids (\<^verbatim>\<open>txidset/\<close>) in a cache
  with lifetimes (\<^verbatim>\<open>cache/\<close>). \<^verbatim>\<open>teewire/\<close> mirrors datagrams. \<^verbatim>\<open>logging/\<close>, \<^verbatim>\<open>tracing/\<close> and \<^verbatim>\<open>hostinfo/\<close> set up what a
  process reports about itself.

  \<^bold>\<open>Conventions.\<close> \<open>Prelude\<close> has the outcome of a Go call (\<open>Ok\<close>, \<open>Err\<close>, or \<open>Panic\<close> for a run-time panic), bounds-checked slices,
  the accessors of \<^verbatim>\<open>encoding/binary\<close>, buffer writers that are run in sequence, and the codec contracts as locales:
  \<open>datagram_codec\<close> (round trip, extent, refusal of short buffers), \<open>closed_codec\<close> (accepted datagrams re-encode) and
  \<open>alloc_codec\<close> (encoders that allocate). Fixed-width integers are words; Go's \<^verbatim>\<open>int\<close> is \<^typ>\<open>int\<close> or \<^typ>\<open>nat\<close>, with \<open>wrap64\<close> or a
  64-bit word where a sum or product can overflow. Errors are datatypes without their message texts. \<open>Go_Std\<close> has time,
  addresses and maps, \<open>Netip\<close> the parser of \<^verbatim>\<open>net/netip\<close>, \<open>Go_Strings\<close> white space, splitting and case of strings and decimal numbers,
  \<open>Go_Duration\<close> the parser of durations with its \<^verbatim>\<open>float64\<close> fractions, \<open>Sha256\<close> the hash in full. A mutex, a lock hold and an
  atomic operation make one step. Clocks, the kernel, DNS, \<^verbatim>\<open>io.Reader\<close>, the environment, the clients of the cache servers, the
  OpenTelemetry library, the 64-bit hash XXH64 and the order of map iterations are parameters; the theorems hold for all of them or name what they rely on.

  \<^bold>\<open>Theories.\<close>
  \<^item> \<open>Frame\<close> (the datagram codecs of \<^verbatim>\<open>frame/\<close>) and \<open>Frame_Payload\<close> (\<^verbatim>\<open>block_payload.go\<close>, \<^verbatim>\<open>subtree_data_payload.go\<close>): every codec
    is an interpretation of its contract; the subtree payload decoder keeps the 64-bit offset arithmetic of the source, with
    the payload on which it panics.
  \<^item> \<open>Shard\<close> (\<^verbatim>\<open>shard/\<close>): group indices, planes and their bands, address derivation, labels.
  \<^item> \<open>Shard_Manifest\<close> (\<^verbatim>\<open>frame/shard_manifest.go\<close>) and \<open>Manifest_Spec\<close>: the manifest codec with its CRC-32C; validation of
    the domains accepts exactly the legal, disjoint planes; a corrupted byte is detected unless it changes the extent that
    the checksum covers.
  \<^item> \<open>Manifest_Registry\<close> (\<^verbatim>\<open>manifest/registry.go\<close>): refinement to the history of announcements, through the locale
    \<open>announcement_store\<close>. \<open>Manifest_Evaluator\<close> and \<open>Evaluator_Spec\<close> (\<^verbatim>\<open>evaluator.go\<close>, \<^verbatim>\<open>domains.go\<close>): adoption needs a quorum in two
    passes a hysteresis window apart, and happens when a quorum holds through the window.
  \<^item> \<open>Bundle\<close> (\<^verbatim>\<open>bundle/\<close>, \<^verbatim>\<open>seqhash/\<close>): codec, coalescing, its inverse and re-bucketing conserve the frames of each flow.
  \<^item> \<open>Objfmt_Size\<close>, \<open>Objfmt_Tx\<close>, \<open>Objfmt_Beef\<close>, \<open>Objfmt_Wrap\<close>, \<open>Objfmt_Reader\<close> (\<^verbatim>\<open>objfmt/\<close>): delimiters (locale \<open>stream_delim\<close>, interpreted
    for each class), the transaction grammar and ids, BEEF records, wraps and strips, and the stream reader, for every \<^verbatim>\<open>io.Reader\<close>
    that obeys its contract, failing and empty reads included.
  \<^item> \<open>Cache_Memory\<close> and \<open>Cache_Spec\<close> (\<^verbatim>\<open>cache/memory/\<close>): the store with its expiry queues, its invariant, limits and semantics as
    a map with lifetimes; the locales \<open>ttl_backend\<close> and \<open>durable_backend\<close> are the contract of \<^verbatim>\<open>cache.Backend\<close> that its clients use.
    A value is a non-nil slice: the source stores a nil value like an empty one but reports it as a miss.
    \<open>Cache_Expirer\<close>: the goroutine that expires entries, from its start to \<^verbatim>\<open>Close\<close>, interleaved with the ticker and the clients. \<open>Cache_Open\<close>
    (\<^verbatim>\<open>cache/open.go\<close>, \<^verbatim>\<open>cache/redis/\<close>, \<^verbatim>\<open>cache/aerospike/\<close>): opening backends, and the networked ones. \<open>Cache_Config\<close>
    (\<^verbatim>\<open>cache/config.go\<close>): flags and environment; the list flag round-trips, and prefixes keep the flags of two caches apart.
  \<^item> \<open>Txid_Local\<close> and \<open>Txidset\<close> (\<^verbatim>\<open>txidset/\<close>): the bounded local set, and stores that share a backend as a step relation, the two halves of a claim being
    separate steps; with an in-memory backend without limits at most one claim wins, and with any backend claims fail open.
  \<^item> \<open>Bootstrap\<close>, \<open>Netjoin\<close>, \<open>Teewire\<close>, \<open>Pow\<close>, \<open>Sequence\<close>, \<open>Throttle\<close>: the packages of the same names and the log throttle.
  \<^item> \<open>Logging\<close> (\<^verbatim>\<open>logging/logging.go\<close>, \<^verbatim>\<open>control.go\<close>), \<open>Tracing\<close> and \<open>Hostinfo\<close>: where log lines go and what they carry, the control of the
    level by requests and signals, the tracer on every outcome of its set-up, and what the inventory lists of a machine.
  \<^item> \<open>Relay\<close>, \<open>Lane\<close> and \<open>Control_Plane\<close> compose the parts: the transaction path from received frames through bundles on the wire to
    frames sent on; the push path from a byte stream through delimited objects and frames to the objects a receiver gets; and a node that
    decodes, registers, expires and evaluates manifests in any order of events, whose adoptions are backed by what was on the wire
    and follow it.
  \<^item> This theory has what spans the wire formats: no decoder of a datagram panics and no datagram is accepted by two decoders.

  \<^bold>\<open>Loops and bounds.\<close> Counted loops are structural recursions. The packing loop of the coalescer, \<^verbatim>\<open>Reader.Next\<close>, the pump of \<open>Lane\<close> and the ping
  loop of the redis backend depend on their arguments or environment and may not end; they are partial functions to
  \<^typ>\<open>'a option\<close>, and that they return is proved: for every coalescer, under the contract of \<^verbatim>\<open>io.Reader\<close>, and for a clock
  that reaches the deadline. The loops of the cache's expiry and eviction and of the duration parser are total functions with termination
  proofs. Goroutines are step relations: once \<^verbatim>\<open>Close\<close> is called, the cache's expirer ends in every
  interleaving with finitely many further ticks and operations. No fuel is used. A slice cannot be allocated beyond the
  48-bit address space, which is where \<open>makeslice\<close> and the buffer of the stream reader panic. Counters that the source lets wrap do wrap; the theorems
  assume fewer than \<open>2 ^ 64\<close> events where a count would otherwise be lost.

  \<^bold>\<open>Not modelled.\<close> The encoding of log lines (\<^verbatim>\<open>log/slog\<close>) and the parsing of a command line (\<^verbatim>\<open>flag\<close>), which other code calls; what the
  OpenTelemetry SDK and the clients of redis and Aerospike do, beyond the named hypotheses; real time, scheduling and memory
  ordering below the granularity of the steps; the log lines that operations write; and the texts of error messages.
\<close>

section \<open>Properties that span the wire formats\<close>

text \<open>The tests a receiver applies to a datagram, one per decoder.\<close>

definition is_Ok :: "('e, 'a) res \<Rightarrow> bool" where
  "is_Ok r = (case r of Ok _ \<Rightarrow> True | _ \<Rightarrow> False)"

definition accepting :: "bytes \<Rightarrow> bool list" where
  "accepting buf =
     [is_Ok (Decode buf), is_Ok (DecodeAnchor buf), is_Ok (DecodeFragment buf), is_Ok (DecodeBlock buf),
      is_Ok (DecodeSubtreeData buf), is_Ok (DecodeBlockHeader buf), is_Ok (DecodeBEEF buf),
      is_Ok (DecodeSubtreeGroupAnnounce buf), is_Ok (DecodeShardManifest buf), is_Ok (Bundle_Decode buf), is_Ok (Decap buf)]"

text \<open>The magic number and the version byte at which the decoders look.\<close>

definition signature :: "bytes \<Rightarrow> u32 \<times> byte" where
  "signature buf = (BE_Uint32 (take 4 buf), buf ! 6)"

lemma accepts_signature:
  "is_Ok (Decode buf) \<Longrightarrow> signature buf \<in> {MagicBSV} \<times> {FrameVerV1, FrameVerV2}"
  "is_Ok (DecodeAnchor buf) \<Longrightarrow> signature buf \<in> {MagicBSV} \<times> {FrameVerV6}"
  "is_Ok (DecodeFragment buf) \<Longrightarrow> signature buf \<in> {MagicBSV} \<times> {FrameVerV3}"
  "is_Ok (DecodeBlock buf) \<Longrightarrow> signature buf \<in> {MagicBSV} \<times> {FrameVerV4}"
  "is_Ok (DecodeSubtreeData buf) \<Longrightarrow> signature buf \<in> {MagicBSV} \<times> {FrameVerV5}"
  "is_Ok (DecodeBlockHeader buf) \<Longrightarrow> signature buf \<in> {MagicBSV} \<times> {FrameVerV7}"
  "is_Ok (DecodeBEEF buf) \<Longrightarrow> signature buf \<in> {MagicBSV} \<times> {FrameVerV9}"
  "is_Ok (DecodeSubtreeGroupAnnounce buf) \<Longrightarrow> signature buf \<in> {MagicBSV} \<times> {MsgTypeSubtreeGroupAnnounce}"
  "is_Ok (DecodeShardManifest buf) \<Longrightarrow> signature buf \<in> {MagicBSV} \<times> {MsgTypeShardManifest}"
  "is_Ok (Bundle_Decode buf) \<Longrightarrow> signature buf \<in> {MagicBSV} \<times> {FrameVerBundle}"
  "is_Ok (Decap buf) \<Longrightarrow> signature buf \<in> {TeeMagic} \<times> UNIV"
  by (auto simp: signature_def is_Ok_def DecodeShardManifest_def Bundle_Decode_def Decode_def DecodeAnchor_def DecodeFragment_def DecodeBlock_def DecodeSubtreeData_def
      DecodeBlockHeader_def DecodeBEEF_def DecodeSubtreeGroupAnnounce_def Decap_def split: if_splits)

text \<open>
  C1: no decoder of a wire format reads outside the datagram, whatever the datagram holds; the
  lengths it declares are checked before they are used.
\<close>

theorem decoders_never_panic:
  "Decode buf \<noteq> Panic \<and> DecodeAnchor buf \<noteq> Panic \<and> DecodeFragment buf \<noteq> Panic \<and> DecodeBlock buf \<noteq> Panic \<and>
   DecodeSubtreeData buf \<noteq> Panic \<and> DecodeBlockHeader buf \<noteq> Panic \<and> DecodeBEEF buf \<noteq> Panic \<and>
   DecodeSubtreeGroupAnnounce buf \<noteq> Panic \<and> DecodeBlockAnnounce buf \<noteq> Panic \<and>
   DecodeShardManifest buf \<noteq> Panic \<and> Bundle_Decode buf \<noteq> Panic"
  by (intro conjI Decode_total DecodeAnchor_total DecodeFragment_total DecodeBlock_total DecodeSubtreeData_total
      DecodeBlockHeader_total DecodeBEEF_total DecodeSubtreeGroupAnnounce_total DecodeBlockAnnounce_total
      DecodeShardManifest_total Bundle_Decode_total)

text \<open>Tests for pairwise disjoint sets of values hold for at most one of them.\<close>

lemma disjoint_tests:
  assumes "list_all2 (\<lambda>b V. b \<longrightarrow> v \<in> V) bs Vs" and "sorted_wrt (\<lambda>A B. A \<inter> B = {}) Vs"
  shows "length (filter id bs) \<le> 1"
  using assms
proof (induction rule: list_all2_induct)
  case (Cons b bs V Vs)
  show ?case
  proof (cases b)
    case True
    then have "\<forall>W \<in> set Vs. v \<notin> W" using Cons by auto
    with Cons(2) have "\<forall>i < length bs. \<not> bs ! i" unfolding list_all2_conv_all_nth by (metis nth_mem)
    then have "\<forall>x \<in> set bs. \<not> x" by (simp add: all_set_conv_all_nth)
    then have "filter (\<lambda>x. x) bs = []" by (simp add: filter_empty_conv)
    then show ?thesis by (simp add: id_def)
  qed (use Cons in simp)
qed simp

text \<open>
  C2: the wire formats are told apart. At most one of the decoders, the unwrapper of the tee envelope among them, accepts a given
  datagram, so that a receiver may try them in any order.
\<close>

theorem at_most_one_decoder: "length (filter id (accepting buf)) \<le> 1"
  using accepts_signature [of buf]
  by (intro disjoint_tests [where v = "signature buf" and Vs = "map (\<lambda>V. {MagicBSV} \<times> V) [{FrameVerV1, FrameVerV2}, {FrameVerV6},
      {FrameVerV3}, {FrameVerV4}, {FrameVerV5}, {FrameVerV7}, {FrameVerV9}, {MsgTypeSubtreeGroupAnnounce}, {MsgTypeShardManifest},
      {FrameVerBundle}] @ [{TeeMagic} \<times> UNIV]"])
    (simp_all add: accepting_def)

end
